(* ===== verification/Ourios_Prelude.thy ===== *)
theory Ourios_Prelude
  imports Complex_Main "HOL-Library.Word" "HOL-Library.AList" "HOL-Library.Multiset"
begin

text \<open>
  Shared vocabulary of the development: the parts of the Rust language and of its
  standard library that the Ourios sources use, and the generic lemmas on lists,
  association lists and options that the component theories share.

  \<^item> A Rust \<open>str\<close> is the list of its UTF-8 bytes, so \<open>len()\<close> is
    \<^term>\<open>length\<close>, slicing is by byte offset and equality is byte equality.
    \<open>chars\<close> cuts a byte string at the leading bytes, as \<open>char_indices()\<close> does.
  \<^item> A \<open>HashMap\<close> is an association list read with \<^term>\<open>map_of\<close> and written with
    \<open>hm_insert\<close>: the list order stands for the unspecified iteration order.
  \<^item> An \<open>f32\<close> is the rational it denotes; every division rounds to the nearest
    24-bit significand, ties to even.
  \<^item> A panic is \<^term>\<open>None\<close> where a function may panic.
\<close>

named_theorems tok_simps \<open>evaluation rules of byte strings, the tokenizer and the recognisers\<close>
named_theorems tree_simps \<open>equations of the prefix tree\<close>
named_theorems cluster_simps \<open>equations of the mining cluster\<close>

type_synonym bytes = string
type_synonym f32 = rat

section \<open>Strings\<close>

text \<open>\<open>&s[a..b]\<close> on byte offsets.\<close>

definition slice :: "'a list \<Rightarrow> nat \<Rightarrow> nat \<Rightarrow> 'a list" where
  "slice s a b = take (b - a) (drop a s)"

lemma slice_empty [simp]: "slice s a a = []"
  by (simp add: slice_def)

lemma slice_full [simp]: "slice s 0 (length s) = s"
  by (simp add: slice_def)

lemma slice_append:
  assumes "a \<le> b" and "b \<le> c"
  shows "slice s a c = slice s a b @ slice s b c"
proof -
  have "take (c - a) (drop a s) = take (b - a) (drop a s) @ take (c - b) (drop (b - a) (drop a s))"
    using assms take_add [of "b - a" "c - b" "drop a s"] by simp
  with assms show ?thesis by (simp add: slice_def)
qed

text \<open>The width of the UTF-8 encoding that a leading byte announces, and the sequence of
  encoded characters of a \<open>str\<close>, each as its own byte string.\<close>

definition byte_val :: "char \<Rightarrow> nat" where
  "byte_val c = of_char c"

definition utf8_width :: "char \<Rightarrow> nat" where
  "utf8_width b =
     (if byte_val b < 128 then 1 else if byte_val b < 224 then 2
      else if byte_val b < 240 then 3 else 4)"

fun chars :: "bytes \<Rightarrow> bytes list" where
  "chars [] = []"
| "chars (b # bs) = (b # take (utf8_width b - 1) bs) # chars (drop (utf8_width b - 1) bs)"

lemma concat_chars [simp]: "concat (chars s) = s"
  by (induction s rule: chars.induct) simp_all

lemma chars_nonempty: "c \<in> set (chars s) \<Longrightarrow> c \<noteq> []"
  by (induction s rule: chars.induct) auto

text \<open>A complete encoded character (a leading byte followed by its continuation bytes), and the
  \<open>str\<close> invariant as far as this development needs it: every character is complete.\<close>

definition whole_char :: "bytes \<Rightarrow> bool" where
  "whole_char c \<longleftrightarrow> 
     (case c of
        [] \<Rightarrow> False
      | b # bs \<Rightarrow> length bs = utf8_width b - 1 \<and> list_all (\<lambda>x. 128 \<le> byte_val x) bs)"

definition is_str :: "bytes \<Rightarrow> bool" where
  "is_str s \<longleftrightarrow> list_all whole_char (chars s)"

lemma chars_concat: "list_all whole_char cs \<Longrightarrow> chars (concat cs) = cs"
proof (induction cs)
  case Nil
  show ?case by simp
next
  case (Cons c cs)
  then obtain b bs where c: "c = b # bs" and l: "length bs = utf8_width b - 1"
    by (auto simp: whole_char_def split: list.splits)
  with Cons show ?case by simp
qed

lemma ascii_is_char:
  assumes "is_str s" and "x \<in> set s" and "byte_val x < 128"
  shows "[x] \<in> set (chars s)"
proof -
  obtain c where c: "c \<in> set (chars s)" "x \<in> set c"
    using assms(2) concat_chars [of s] by (metis UN_E set_concat)
  have "whole_char c" using assms(1) c(1) by (simp add: is_str_def list_all_iff)
  then obtain b bs where b: "c = b # bs" "length bs = utf8_width b - 1" "\<forall>y \<in> set bs. 128 \<le> byte_val y"
    by (cases c) (auto simp: whole_char_def list_all_iff)
  with c assms(3) have "x = b" by fastforce
  with b assms(3) have "c = [x]" by (simp add: utf8_width_def)
  with c show ?thesis by simp
qed

text \<open>The code point of one encoded character, and \<open>char::is_whitespace\<close>.\<close>

fun code_point :: "bytes \<Rightarrow> nat" where
  "code_point [a] = byte_val a"
| "code_point [a, b] = (byte_val a mod 32) * 64 + byte_val b mod 64"
| "code_point [a, b, c] = (byte_val a mod 16) * 4096 + (byte_val b mod 64) * 64 + byte_val c mod 64"
| "code_point [a, b, c, d] =
     (byte_val a mod 8) * 262144 + (byte_val b mod 64) * 4096 + (byte_val c mod 64) * 64
       + byte_val d mod 64"
| "code_point _ = 0"

definition is_whitespace :: "bytes \<Rightarrow> bool" where
  "is_whitespace c =
     (let p = code_point c in
        (9 \<le> p \<and> p \<le> 13) \<or> p = 32 \<or> p = 133 \<or> p = 160 \<or> p = 5760 \<or>
        (8192 \<le> p \<and> p \<le> 8202) \<or> p = 8232 \<or> p = 8233 \<or> p = 8239 \<or> p = 8287 \<or> p = 12288)"

text \<open>\<open>u8::is_ascii_digit\<close> and its relatives.\<close>

definition is_ascii_digit :: "char \<Rightarrow> bool" where
  "is_ascii_digit c \<longleftrightarrow> 48 \<le> byte_val c \<and> byte_val c \<le> 57"

definition is_ascii_alphabetic :: "char \<Rightarrow> bool" where
  "is_ascii_alphabetic c \<longleftrightarrow>
     (65 \<le> byte_val c \<and> byte_val c \<le> 90) \<or> (97 \<le> byte_val c \<and> byte_val c \<le> 122)"

definition is_ascii_alphanumeric :: "char \<Rightarrow> bool" where
  "is_ascii_alphanumeric c \<longleftrightarrow> is_ascii_alphabetic c \<or> is_ascii_digit c"

definition is_ascii_hexdigit :: "char \<Rightarrow> bool" where
  "is_ascii_hexdigit c \<longleftrightarrow>
     is_ascii_digit c \<or> (65 \<le> byte_val c \<and> byte_val c \<le> 70) \<or> (97 \<le> byte_val c \<and> byte_val c \<le> 102)"

lemmas [tok_simps] = byte_val_def utf8_width_def is_whitespace_def is_ascii_digit_def
  is_ascii_alphabetic_def is_ascii_alphanumeric_def is_ascii_hexdigit_def whole_char_def is_str_def

text \<open>\<open>str::split(c)\<close> for an ASCII separator and \<open>[..].join(sep)\<close>.\<close>

fun split_on :: "char \<Rightarrow> bytes \<Rightarrow> bytes list" where
  "split_on c [] = [[]]"
| "split_on c (x # xs) =
     (if x = c then [] # split_on c xs
      else (case split_on c xs of [] \<Rightarrow> [[x]] | s # ss \<Rightarrow> (x # s) # ss))"

fun join :: "bytes \<Rightarrow> bytes list \<Rightarrow> bytes" where
  "join sep [] = []"
| "join sep [s] = s"
| "join sep (s # ss) = s @ sep @ join sep ss"

lemma split_on_ne [simp]: "split_on c s \<noteq> []"
  by (induction s) (auto split: list.splits)

lemma join_Cons: "ss \<noteq> [] \<Longrightarrow> join sep (s # ss) = s @ sep @ join sep ss"
  by (cases ss) auto

lemma join_split_on [simp]: "join [c] (split_on c s) = s"
proof (induction s)
  case Nil
  show ?case by simp
next
  case (Cons x xs)
  obtain y ys where eq: "split_on c xs = y # ys"
    by (cases "split_on c xs") auto
  show ?case
  proof (cases "x = c")
    case True
    with Cons.IH show ?thesis by (simp add: join_Cons)
  next
    case False
    with Cons.IH eq show ?thesis by (cases ys) auto
  qed
qed

lemma split_on_no_sep: "c \<notin> set s \<Longrightarrow> split_on c s = [s]"
  by (induction s) auto

lemma split_on_append: "c \<notin> set s \<Longrightarrow> split_on c (s @ c # r) = s # split_on c r"
  by (induction s) auto

lemma split_on_join:
  "ss \<noteq> [] \<Longrightarrow> (\<And>s. s \<in> set ss \<Longrightarrow> c \<notin> set s) \<Longrightarrow> split_on c (join [c] ss) = ss"
  by (induction ss rule: induct_list012) (auto simp: split_on_no_sep split_on_append)

lemma split_on_parts: "s \<in> set (split_on c t) \<Longrightarrow> c \<notin> set s"
  by (induction t arbitrary: s) (auto split: if_splits list.splits)

text \<open>\<open>str::strip_prefix\<close> and \<open>strip_suffix\<close> with one ASCII character, \<open>split_once\<close>.\<close>

definition strip_prefix :: "char \<Rightarrow> bytes \<Rightarrow> bytes option" where
  "strip_prefix c s = (case s of [] \<Rightarrow> None | x # xs \<Rightarrow> if x = c then Some xs else None)"

definition strip_suffix :: "char \<Rightarrow> bytes \<Rightarrow> bytes option" where
  "strip_suffix c s = (if s \<noteq> [] \<and> last s = c then Some (butlast s) else None)"

fun split_once :: "char \<Rightarrow> bytes \<Rightarrow> (bytes \<times> bytes) option" where
  "split_once c [] = None"
| "split_once c (x # xs) =
     (if x = c then Some ([], xs)
      else (case split_once c xs of None \<Rightarrow> None | Some (a, b) \<Rightarrow> Some (x # a, b)))"

lemma split_once_None: "split_once c s = None \<longleftrightarrow> c \<notin> set s"
  by (induction s) (auto split: option.splits)

lemma split_once_Some: "split_once c s = Some (a, b) \<Longrightarrow> s = a @ c # b \<and> c \<notin> set a"
  by (induction s arbitrary: a) (auto split: if_splits option.splits)

text \<open>\<open>str::contains\<close> with a substring.\<close>

definition contains_sub :: "bytes \<Rightarrow> bytes \<Rightarrow> bool" where
  "contains_sub pat s \<longleftrightarrow> list_ex (\<lambda>i. take (length pat) (drop i s) = pat) [0..<Suc (length s)]"

section \<open>Decimal numbers\<close>

definition digit_val :: "char \<Rightarrow> nat" where
  "digit_val c = byte_val c - 48"

definition dec_val :: "bytes \<Rightarrow> nat" where
  "dec_val s = foldl (\<lambda>n c. 10 * n + digit_val c) 0 s"

text \<open>\<open>str::parse::<u16>()\<close>: an optional \<open>+\<close>, then one or more digits, in range.\<close>

definition parse_u16 :: "bytes \<Rightarrow> nat option" where
  "parse_u16 s =
     (let ds = (case strip_prefix (CHR ''+'') s of None \<Rightarrow> s | Some r \<Rightarrow> r)
      in if ds \<noteq> [] \<and> list_all is_ascii_digit ds \<and> dec_val ds \<le> 65535
         then Some (dec_val ds) else None)"

definition digit_char :: "nat \<Rightarrow> char" where
  "digit_char n = char_of (48 + n mod 10)"

text \<open>\<open>format!("{n}")\<close>.\<close>

fun show_nat :: "nat \<Rightarrow> bytes" where
  "show_nat n = (if n < 10 then [digit_char n] else show_nat (n div 10) @ [digit_char n])"

declare show_nat.simps [simp del]

lemma digit_char_digit [simp]: "is_ascii_digit (digit_char n)"
  by (simp add: digit_char_def is_ascii_digit_def byte_val_def)

lemma digit_val_char [simp]: "n < 10 \<Longrightarrow> digit_val (digit_char n) = n"
  by (simp add: digit_char_def digit_val_def byte_val_def)

lemma show_nat_digits: "list_all is_ascii_digit (show_nat n)"
  by (induction n rule: show_nat.induct) (subst show_nat.simps, simp)

lemma dec_val_append: "dec_val (s @ [c]) = 10 * dec_val s + digit_val c"
  by (simp add: dec_val_def)

lemma dec_val_show_nat [simp]: "dec_val (show_nat n) = n"
proof (induction n rule: show_nat.induct)
  case (1 n)
  show ?case
  proof (cases "n < 10")
    case True
    then show ?thesis by (subst show_nat.simps) (simp add: dec_val_def)
  next
    case False
    have "digit_val (digit_char n) = n mod 10"
      by (simp add: digit_char_def digit_val_def byte_val_def)
    with False "1.IH" show ?thesis
      by (subst show_nat.simps) (simp add: dec_val_append)
  qed
qed

lemma show_nat_ne [simp]: "show_nat n \<noteq> []"
  by (subst show_nat.simps) simp

section \<open>Hash maps\<close>

type_synonym ('k, 'v) hash_map = "('k \<times> 'v) list"

abbreviation hm_get :: "('k, 'v) hash_map \<Rightarrow> 'k \<Rightarrow> 'v option" where
  "hm_get m k \<equiv> map_of m k"

abbreviation hm_insert :: "'k \<Rightarrow> 'v \<Rightarrow> ('k, 'v) hash_map \<Rightarrow> ('k, 'v) hash_map" where
  "hm_insert \<equiv> AList.update"

abbreviation hm_remove :: "'k \<Rightarrow> ('k, 'v) hash_map \<Rightarrow> ('k, 'v) hash_map" where
  "hm_remove \<equiv> AList.delete"

definition hm_wf :: "('k, 'v) hash_map \<Rightarrow> bool" where
  "hm_wf m \<longleftrightarrow> distinct (map fst m)"

lemma hm_wf_Nil [simp]: "hm_wf []"
  by (simp add: hm_wf_def)

lemma hm_wf_insert [simp]: "hm_wf m \<Longrightarrow> hm_wf (hm_insert k v m)"
  by (simp add: hm_wf_def distinct_update)

lemma hm_wf_remove [simp]: "hm_wf m \<Longrightarrow> hm_wf (hm_remove k m)"
  by (simp add: hm_wf_def distinct_delete)

lemma update_fresh: "map_of m k = None \<Longrightarrow> hm_insert k v m = m @ [(k, v)]"
  by (induction m) (auto split: if_splits)

text \<open>What an insertion does to a multiset collected from all entries.\<close>

lemma mset_update_fresh:
  "map_of m k = None \<Longrightarrow>
   mset (concat (map f (hm_insert k v m))) = mset (concat (map f m)) + mset (f (k, v))"
  by (simp add: update_fresh)

lemma mset_update_present:
  assumes "map_of m k = Some w"
  obtains R where "mset (concat (map f m)) = R + mset (f (k, w))"
    and "\<And>v. mset (concat (map f (hm_insert k v m))) = R + mset (f (k, v))"
  using assms
proof (induction m arbitrary: thesis)
  case Nil
  then show ?case by simp
next
  case (Cons p m)
  obtain a b where p: "p = (a, b)" by (cases p)
  show ?case
  proof (cases "a = k")
    case True
    with Cons.prems(2) p Cons.prems(1) [of "mset (concat (map f m))"] show ?thesis by simp
  next
    case False
    with Cons.prems(2) p have "map_of m k = Some w" by simp
    with Cons.IH obtain R where "mset (concat (map f m)) = R + mset (f (k, w))"
      "\<And>v. mset (concat (map f (hm_insert k v m))) = R + mset (f (k, v))" by blast
    with False p Cons.prems(1) [of "R + mset (f p)"] show ?thesis by (simp add: ac_simps)
  qed
qed

text \<open>An entry read with a default that contributes nothing, then written back.\<close>

lemma mset_entry_split:
  assumes "f (k, d) = []"
  obtains R where
    "mset (concat (map f m)) = R + mset (f (k, case map_of m k of None \<Rightarrow> d | Some w \<Rightarrow> w))"
    and "\<And>v. mset (concat (map f (hm_insert k v m))) = R + mset (f (k, v))"
proof (cases "map_of m k")
  case None
  with assms that [of "mset (concat (map f m))"] show thesis by (simp add: mset_update_fresh)
next
  case (Some w)
  then obtain R where "mset (concat (map f m)) = R + mset (f (k, w))"
    "\<And>v. mset (concat (map f (hm_insert k v m))) = R + mset (f (k, v))"
    by (rule mset_update_present [where f = f]) (rule that)
  with Some that [of R] show thesis by simp
qed

section \<open>Slices and iterators\<close>

text \<open>\<open>slice::binary_search\<close> on a strictly ascending slice: the index of the entry, if any.\<close>

fun index_of :: "'a \<Rightarrow> 'a list \<Rightarrow> nat option" where
  "index_of x [] = None"
| "index_of x (y # ys) = (if x = y then Some 0 else map_option Suc (index_of x ys))"

definition binary_search :: "nat list \<Rightarrow> nat \<Rightarrow> nat option" where
  "binary_search xs p = index_of p xs"

lemma index_of_None: "index_of x xs = None \<longleftrightarrow> x \<notin> set xs"
  by (induction xs) auto

lemma index_of_Some: "index_of x xs = Some k \<Longrightarrow> k < length xs \<and> xs ! k = x"
  by (induction xs arbitrary: k) (auto split: if_splits)

lemma index_of_nth: "distinct xs \<Longrightarrow> k < length xs \<Longrightarrow> index_of (xs ! k) xs = Some k"
proof (induction xs arbitrary: k)
  case Nil
  then show ?case by simp
next
  case (Cons x xs)
  then show ?case by (cases k) auto
qed

abbreviation ascending :: "nat list \<Rightarrow> bool" where
  "ascending \<equiv> sorted_wrt (<)"

lemma ascending_distinct: "ascending xs \<Longrightarrow> distinct xs"
  by (simp add: strict_sorted_iff)

text \<open>\<open>Iterator::enumerate\<close> from a given start.\<close>

abbreviation enum_from :: "nat \<Rightarrow> 'a list \<Rightarrow> (nat \<times> 'a) list" where
  "enum_from \<equiv> List.enumerate"

text \<open>\<open>u32::checked_add(1)\<close>.\<close>

definition checked_succ_u32 :: "nat \<Rightarrow> nat option" where
  "checked_succ_u32 n = (if n < 4294967295 then Some (n + 1) else None)"

end
