(* ===== verification/Tokenize.thy ===== *)
theory Tokenize
  imports Ourios_Prelude
begin

text \<open>
  The miner's tokenizer, \<open>crates/ourios-miner/src/tokenize.rs\<close>: one pass over
  \<open>char_indices()\<close> that keeps two byte offsets and slices the line at whitespace
  boundaries. \<open>tok_step\<close> is the loop body, \<open>tok_finish\<close> the code after the loop and
  \<open>tokenize\<close> the function. \<open>sep_run\<close>/\<open>tok_run\<close> is a two-state reference tokenizer without
  offsets; the loop is proved equal to it, and losslessness, the separator count and the
  shape of tokens and separators follow.
\<close>

section \<open>The program\<close>

record tokenized =
  tz_tokens :: "bytes list"
  tz_separators :: "bytes list"

datatype tokenize_error = EmbeddedNul nat

fun char_indices_from :: "nat \<Rightarrow> bytes list \<Rightarrow> (nat \<times> bytes) list" where
  "char_indices_from i [] = []"
| "char_indices_from i (c # cs) = (i, c) # char_indices_from (i + length c) cs"

definition char_indices :: "bytes \<Rightarrow> (nat \<times> bytes) list" where
  "char_indices s = char_indices_from 0 (chars s)"

record tok_state =
  ts_tokens :: "bytes list"
  ts_separators :: "bytes list"
  sep_start :: nat
  tok_start :: "nat option"

definition tok_init :: tok_state where
  "tok_init = \<lparr>ts_tokens = [], ts_separators = [], sep_start = 0, tok_start = None\<rparr>"

definition tok_step :: "bytes \<Rightarrow> nat \<times> bytes \<Rightarrow> tok_state \<Rightarrow> tok_state" where
  "tok_step line ic st =
     (let (i, c) = ic in
      case (tok_start st, is_whitespace c) of
        (None, False) \<Rightarrow>
          st\<lparr>ts_separators := ts_separators st @ [slice line (sep_start st) i], tok_start := Some i\<rparr>
      | (Some start, True) \<Rightarrow>
          st\<lparr>ts_tokens := ts_tokens st @ [slice line start i], tok_start := None, sep_start := i\<rparr>
      | _ \<Rightarrow> st)"

definition tok_finish :: "bytes \<Rightarrow> tok_state \<Rightarrow> tokenized" where
  "tok_finish line st =
     (let e = length line in
      case tok_start st of
        Some start \<Rightarrow>
          \<lparr>tz_tokens = ts_tokens st @ [slice line start e],
           tz_separators = ts_separators st @ [slice line e e]\<rparr>
      | None \<Rightarrow>
          \<lparr>tz_tokens = ts_tokens st,
           tz_separators = ts_separators st @ [slice line (sep_start st) e]\<rparr>)"

definition tokenize :: "bytes \<Rightarrow> tokenize_error + tokenized" where
  "tokenize line =
     (case index_of (CHR 0x00) line of
        Some offset \<Rightarrow> Inl (EmbeddedNul offset)
      | None \<Rightarrow> Inr (tok_finish line (fold (tok_step line) (char_indices line) tok_init)))"

section \<open>Reference tokenizer\<close>

text \<open>\<open>sep_run cur cs\<close> reads \<open>cs\<close> while inside a separator whose bytes so far are \<open>cur\<close>;
  \<open>tok_run cur cs\<close> the same inside a token. Both return (separators, tokens).\<close>

fun sep_run :: "bytes \<Rightarrow> bytes list \<Rightarrow> bytes list \<times> bytes list"
  and tok_run :: "bytes \<Rightarrow> bytes list \<Rightarrow> bytes list \<times> bytes list" where
  "sep_run cur [] = ([cur], [])"
| "sep_run cur (c # cs) =
     (if is_whitespace c then sep_run (cur @ c) cs
      else (let (ss, ts) = tok_run c cs in (cur # ss, ts)))"
| "tok_run cur [] = ([[]], [cur])"
| "tok_run cur (c # cs) =
     (if is_whitespace c then (let (ss, ts) = sep_run c cs in (ss, cur # ts))
      else tok_run (cur @ c) cs)"

text \<open>A line put together from its separators and its tokens.\<close>

definition interleave :: "bytes list \<Rightarrow> bytes list \<Rightarrow> bytes" where
  "interleave ss ts = (case ss of [] \<Rightarrow> [] | s # ss' \<Rightarrow> s @ concat (map2 (@) ts ss'))"

lemma interleave_Cons [simp]: "interleave (s # s' # ss) (t # ts) = s @ t @ interleave (s' # ss) ts"
  by (simp add: interleave_def)

lemma interleave_single [simp]: "interleave [s] [] = s"
  by (simp add: interleave_def)

lemma runs_shape:
  "length (fst (sep_run cur cs)) = Suc (length (snd (sep_run cur cs)))"
  "length (fst (tok_run cur cs)) = length (snd (tok_run cur cs)) \<and> fst (tok_run cur cs) \<noteq> []"
  by (induction cur cs and cur cs rule: sep_run_tok_run.induct)
     (auto split: prod.splits)

lemma runs_weave:
  "interleave (fst (sep_run cur cs)) (snd (sep_run cur cs)) = cur @ concat cs"
  "concat (map2 (@) (snd (tok_run cur cs)) (fst (tok_run cur cs))) = cur @ concat cs"
proof (induction cur cs and cur cs rule: sep_run_tok_run.induct)
  case (4 cur c cs)
  have len: "length (fst (sep_run c cs)) = Suc (length (snd (sep_run c cs)))"
    by (rule runs_shape)
  obtain ss ts where eq: "sep_run c cs = (ss, ts)" by (cases "sep_run c cs")
  with len obtain s ss' where ss: "ss = s # ss'" by (cases ss) auto
  show ?case
  proof (cases "is_whitespace c")
    case True
    with 4 eq ss show ?thesis by (simp add: interleave_def)
  next
    case False
    with 4 show ?thesis by simp
  qed
qed (auto simp: interleave_def split: prod.splits)

section \<open>The loop computes the reference\<close>

lemma slice_next:
  assumes "drop i line = c @ r" and "s \<le> i"
  shows "slice line s (i + length c) = slice line s i @ c"
proof -
  have "slice line i (i + length c) = c"
    using assms(1) by (simp add: slice_def)
  then show ?thesis
    using slice_append [of s i "i + length c" line] assms(2) by simp
qed

definition run_of :: "bytes \<Rightarrow> nat \<Rightarrow> bytes list \<Rightarrow> tok_state \<Rightarrow> bytes list \<times> bytes list" where
  "run_of line i cs st =
     (case tok_start st of
        None \<Rightarrow> sep_run (slice line (sep_start st) i) cs
      | Some start \<Rightarrow> tok_run (slice line start i) cs)"

lemma tok_loop_run:
  assumes "drop i line = concat cs"
    and "case tok_start st of None \<Rightarrow> sep_start st \<le> i | Some start \<Rightarrow> start \<le> i"
    and "i \<le> length line"
  shows "tok_finish line (fold (tok_step line) (char_indices_from i cs) st) =
         \<lparr>tz_tokens = ts_tokens st @ snd (run_of line i cs st),
          tz_separators = ts_separators st @ fst (run_of line i cs st)\<rparr>"
  using assms
proof (induction cs arbitrary: i st)
  case Nil
  then have "i = length line" by simp
  then show ?case
    by (simp add: tok_finish_def run_of_def split: option.split)
next
  case (Cons c cs)
  let ?st = "tok_step line (i, c) st"
  have rest: "drop (i + length c) line = concat cs"
  proof -
    have "drop (i + length c) line = drop (length c) (drop i line)"
      by (simp add: add.commute)
    also have "\<dots> = concat cs"
      using Cons.prems(1) by simp
    finally show ?thesis .
  qed
  have bound: "i + length c \<le> length line"
  proof -
    have "length (drop i line) = length c + length (concat cs)"
      using Cons.prems(1) by simp
    with Cons.prems(3) show ?thesis by simp
  qed
  have nxt: "slice line s (i + length c) = slice line s i @ c" if "s \<le> i" for s
    using Cons.prems(1) that by (intro slice_next [where r = "concat cs"]) simp_all
  have self: "slice line i (i + length c) = c"
    using nxt [of i] by simp
  have ord: "case tok_start ?st of None \<Rightarrow> sep_start ?st \<le> i + length c
             | Some start \<Rightarrow> start \<le> i + length c"
    using Cons.prems(2) by (auto simp: tok_step_def split: option.splits bool.splits)
  show ?case
    using Cons.IH [OF rest ord bound] Cons.prems(2) nxt self
    by (auto simp: tok_step_def run_of_def split: option.splits bool.splits prod.splits)
qed

lemma tokenize_eq:
  "tokenize line =
     (case index_of (CHR 0x00) line of
        Some offset \<Rightarrow> Inl (EmbeddedNul offset)
      | None \<Rightarrow> Inr \<lparr>tz_tokens = snd (sep_run [] (chars line)),
                     tz_separators = fst (sep_run [] (chars line))\<rparr>)"
  using tok_loop_run [of 0 line "chars line" tok_init]
  by (simp add: tokenize_def char_indices_def tok_init_def run_of_def split: option.split)

lemma tokenize_Inr:
  assumes "tokenize line = Inr t"
  shows "CHR 0x00 \<notin> set line" and "tz_tokens t = snd (sep_run [] (chars line))"
    and "tz_separators t = fst (sep_run [] (chars line))"
  using assms by (auto simp: tokenize_eq index_of_None [symmetric] split: option.splits)

lemma tokenize_len:
  "tokenize line = Inr t \<Longrightarrow> length (tz_separators t) = Suc (length (tz_tokens t))"
  using runs_shape(1) by (simp add: tokenize_Inr)

lemma tokenize_weave:
  "tokenize line = Inr t \<Longrightarrow> interleave (tz_separators t) (tz_tokens t) = line"
  using runs_weave(1) [of "[]" "chars line"] by (simp add: tokenize_Inr)

section \<open>Shape of tokens and separators\<close>

definition spaces :: "bytes \<Rightarrow> bool" where
  "spaces s \<longleftrightarrow> list_all is_whitespace (chars s)"

definition is_token :: "bytes \<Rightarrow> bool" where
  "is_token t \<longleftrightarrow> t \<noteq> [] \<and> list_all (\<lambda>c. \<not> is_whitespace c) (chars t)"

lemma chars_append_whole:
  assumes "is_str s" and "whole_char c"
  shows "chars (s @ c) = chars s @ [c]" and "is_str (s @ c)"
proof -
  have "chars (concat (chars s @ [c])) = chars s @ [c]"
    using assms by (intro chars_concat) (simp add: is_str_def)
  then show "chars (s @ c) = chars s @ [c]" by simp
  with assms show "is_str (s @ c)" by (simp add: is_str_def)
qed

lemma is_token_whole: "whole_char c \<Longrightarrow> \<not> is_whitespace c \<Longrightarrow> is_token c \<and> is_str c"
  using chars_append_whole [of "[]" c]
  by (auto simp: is_token_def is_str_def whole_char_def)

lemma spaces_whole: "whole_char c \<Longrightarrow> is_whitespace c \<Longrightarrow> spaces c \<and> c \<noteq> [] \<and> is_str c"
  using chars_append_whole [of "[]" c]
  by (auto simp: spaces_def is_str_def whole_char_def)

lemma runs_tokens:
  "list_all whole_char cs \<Longrightarrow> (\<forall>t \<in> set (snd (sep_run cur cs)). is_token t \<and> is_str t)"
  "list_all whole_char cs \<Longrightarrow> is_token cur \<Longrightarrow> is_str cur \<Longrightarrow>
     (\<forall>t \<in> set (snd (tok_run cur cs)). is_token t \<and> is_str t)"
proof (induction cur cs and cur cs rule: sep_run_tok_run.induct)
  case (4 cur c cs)
  show ?case
  proof (cases "is_whitespace c")
    case True
    with 4 show ?thesis by (auto split: prod.splits)
  next
    case False
    with "4.prems" have "is_token (cur @ c)" and "is_str (cur @ c)"
      by (auto simp: is_token_def chars_append_whole)
    with 4 False show ?thesis by simp
  qed
qed (auto simp: is_token_whole split: prod.splits)

lemma runs_separators:
  "list_all whole_char cs \<Longrightarrow> spaces cur \<Longrightarrow> is_str cur \<Longrightarrow>
     (\<forall>s \<in> set (fst (sep_run cur cs)). spaces s)
     \<and> (cur \<noteq> [] \<longrightarrow> hd (fst (sep_run cur cs)) \<noteq> [])
     \<and> (\<forall>s \<in> set (butlast (tl (fst (sep_run cur cs)))). s \<noteq> [])"
  "list_all whole_char cs \<Longrightarrow>
     (\<forall>s \<in> set (fst (tok_run cur cs)). spaces s)
     \<and> (\<forall>s \<in> set (butlast (fst (tok_run cur cs))). s \<noteq> [])"
proof (induction cur cs and cur cs rule: sep_run_tok_run.induct)
  case (2 cur c cs)
  show ?case
  proof (cases "is_whitespace c")
    case True
    with "2.prems" have "spaces (cur @ c)" and "is_str (cur @ c)" and "c \<noteq> []"
      by (auto simp: spaces_def chars_append_whole whole_char_def)
    with 2 True show ?thesis by simp
  next
    case False
    with 2 show ?thesis by (auto split: prod.splits)
  qed
next
  case (4 cur c cs)
  show ?case
  proof (cases "is_whitespace c")
    case True
    with "4.prems" have c: "spaces c" "c \<noteq> []" "is_str c"
      using spaces_whole by auto
    obtain ss ts where eq: "sep_run c cs = (ss, ts)" by (cases "sep_run c cs")
    have "ss \<noteq> []"
      using runs_shape(1) [of c cs] eq by auto
    with 4 True c eq show ?thesis by (cases ss) auto
  next
    case False
    with 4 show ?thesis by simp
  qed
qed (auto simp: spaces_def)

lemma tokenize_tokens:
  "tokenize line = Inr t \<Longrightarrow> is_str line \<Longrightarrow> x \<in> set (tz_tokens t) \<Longrightarrow> is_token x"
  using runs_tokens(1) [of "chars line" "[]"] by (auto simp: tokenize_Inr is_str_def)

lemma tokenize_token_sub:
  assumes "tokenize line = Inr t" and "x \<in> set (tz_tokens t)"
  shows "set x \<subseteq> set line"
proof -
  have "set (interleave ss ts) \<supseteq> set y"
    if len: "length ss = Suc (length ts)" and y: "y \<in> set ts" for ss ts y
  proof -
    obtain s ss' where ss: "ss = s # ss'" using len by (cases ss) auto
    with len have "length ts = length ss'" by simp
    then have "y \<in> set ts \<Longrightarrow> set y \<subseteq> set (concat (map2 (@) ts ss'))"
      by (induction ts ss' rule: list_induct2) auto
    with ss y show ?thesis by (auto simp: interleave_def)
  qed
  from this [OF tokenize_len [OF assms(1)] assms(2)] tokenize_weave [OF assms(1)]
  show ?thesis by simp
qed

text \<open>No token of a tokenized line holds an ASCII space, so joining tokens with a space
  can be undone by splitting.\<close>

lemma space_is_whitespace: "is_whitespace [CHR '' '']"
  by (simp add: is_whitespace_def byte_val_def)

lemma tokenize_token_no_space:
  assumes "tokenize line = Inr t" and "is_str line" and "x \<in> set (tz_tokens t)"
  shows "x \<noteq> []" and "CHR '' '' \<notin> set x"
proof -
  have x: "is_token x" "is_str x"
    using assms runs_tokens(1) [of "chars line" "[]"] by (auto simp: tokenize_Inr is_str_def)
  then show "x \<noteq> []" by (simp add: is_token_def)
  show "CHR '' '' \<notin> set x"
  proof
    assume "CHR '' '' \<in> set x"
    with x(2) have "[CHR '' ''] \<in> set (chars x)"
      by (rule ascii_is_char) (simp add: byte_val_def)
    with x(1) space_is_whitespace show False by (auto simp: is_token_def list_all_iff)
  qed
qed

section \<open>Properties\<close>

text \<open>C24. Tokenization is lossless: when \<open>tokenize\<close> accepts a line it returns exactly one more
  separator than tokens, and interleaving separators and tokens gives the line back byte for
  byte.\<close>

theorem tokenize_lossless:
  assumes "tokenize line = Inr t"
  shows "length (tz_separators t) = length (tz_tokens t) + 1
         \<and> interleave (tz_separators t) (tz_tokens t) = line"
  using assms by (simp add: tokenize_len tokenize_weave)

theorem tokenize_lossless_witness:
  "tokenize ''  a b'' = Inr \<lparr>tz_tokens = [''a'', ''b''], tz_separators = [''  '', '' '', '''']\<rparr>
   \<and> length [''  '', '' '', ''''] = length [''a'', ''b''] + 1
   \<and> interleave [''  '', '' '', ''''] [''a'', ''b''] = ''  a b''"
proof -
  have t: "tokenize ''  a b''
           = Inr \<lparr>tz_tokens = [''a'', ''b''], tz_separators = [''  '', '' '', '''']\<rparr>"
    by (simp add: tokenize_eq tok_simps)
  from tokenize_lossless [OF t] t show ?thesis by simp
qed

text \<open>C25. Tokenization splits exactly at Unicode whitespace: on a line of complete UTF-8
  characters every token is non-empty and free of whitespace, every separator consists of
  whitespace only, and every separator between two tokens is non-empty.\<close>

theorem tokenize_splits_at_whitespace:
  assumes "tokenize line = Inr t" and "is_str line"
  shows "(\<forall>x \<in> set (tz_tokens t). is_token x)
         \<and> (\<forall>s \<in> set (tz_separators t). spaces s)
         \<and> (\<forall>s \<in> set (butlast (tl (tz_separators t))). s \<noteq> [])"
proof -
  have "list_all whole_char (chars line)"
    using assms(2) by (simp add: is_str_def)
  then show ?thesis
    using runs_separators(1) [of "chars line" "[]"] assms
    by (auto simp: tokenize_Inr spaces_def is_str_def intro: tokenize_tokens [OF assms])
qed

theorem tokenize_splits_at_whitespace_witness:
  "tokenize ''a  b'' = Inr \<lparr>tz_tokens = [''a'', ''b''], tz_separators = ['''', ''  '', '''']\<rparr>
   \<and> is_str ''a  b'' \<and> is_token ''b'' \<and> spaces ''  ''"
proof -
  have t: "tokenize ''a  b''
           = Inr \<lparr>tz_tokens = [''a'', ''b''], tz_separators = ['''', ''  '', '''']\<rparr>"
    by (simp add: tokenize_eq tok_simps)
  have s: "is_str ''a  b''" by (simp add: tok_simps)
  from tokenize_splits_at_whitespace [OF t s] t s show ?thesis by simp
qed

text \<open>C26. The tokenizer fails exactly on lines with an embedded NUL byte, and the offset it
  reports is that of the first one.\<close>

theorem tokenize_error_iff:
  "tokenize line = Inl (EmbeddedNul n)
   \<longleftrightarrow> n < length line \<and> line ! n = CHR 0x00 \<and> CHR 0x00 \<notin> set (take n line)"
proof -
  have "index_of x xs = Some k \<longleftrightarrow> k < length xs \<and> xs ! k = x \<and> x \<notin> set (take k xs)"
    for x :: char and xs k
  proof (induction xs arbitrary: k)
    case Nil
    show ?case by simp
  next
    case (Cons y ys)
    then show ?case by (cases k) auto
  qed
  from this [of "CHR 0x00" line n] show ?thesis
    by (auto simp: tokenize_def split: option.split)
qed

end
