(* ===== verification/Mask.thy ===== *)
theory Mask
  imports Tokenize
begin

text \<open>
  Token masking, \<open>crates/ourios-miner/src/mask.rs\<close>: the byte-level recognisers for UUIDs,
  IPv4 addresses, timestamps and numbers, \<open>classify\<close>, which tries them in order, and
  \<open>mask_tokens\<close> (the source's \<open>mask\<close>), which replaces every recognised token by its tag and
  records its position and its typed value. \<open>param_type\<close> is \<open>ParamType\<close> of
  \<open>crates/ourios-core/src/audit.rs\<close>.
\<close>

section \<open>Types\<close>

datatype param_type =
  PT_Ip | PT_Uuid | PT_Num | PT_Hex | PT_Ts | PT_Path | PT_Str | PT_Overflow | PT_Unknown int

datatype mask_tag = Tag_Uuid | Tag_Ip | Tag_Ts | Tag_Num

record typed_param =
  tp_type :: param_type
  tp_value :: bytes

record masked =
  mk_tokens :: "bytes list"
  mk_positions :: "nat list"
  mk_params :: "typed_param list"

fun tag_as_str :: "mask_tag \<Rightarrow> bytes" where
  "tag_as_str Tag_Uuid = ''<UUID>''"
| "tag_as_str Tag_Ip = ''<IP>''"
| "tag_as_str Tag_Ts = ''<TS>''"
| "tag_as_str Tag_Num = ''<NUM>''"

fun param_type_of_tag :: "mask_tag \<Rightarrow> param_type" where
  "param_type_of_tag Tag_Uuid = PT_Uuid"
| "param_type_of_tag Tag_Ip = PT_Ip"
| "param_type_of_tag Tag_Ts = PT_Ts"
| "param_type_of_tag Tag_Num = PT_Num"

fun tag_str_for :: "param_type \<Rightarrow> bytes option" where
  "tag_str_for PT_Uuid = Some (tag_as_str Tag_Uuid)"
| "tag_str_for PT_Ip = Some (tag_as_str Tag_Ip)"
| "tag_str_for PT_Ts = Some (tag_as_str Tag_Ts)"
| "tag_str_for PT_Num = Some (tag_as_str Tag_Num)"
| "tag_str_for _ = None"

section \<open>Recognisers\<close>

definition is_uuid :: "bytes \<Rightarrow> bool" where
  "is_uuid s \<longleftrightarrow>
     length s = 36 \<and>
     list_all (\<lambda>(i, b). if i \<in> {8, 13, 18, 23} then b = CHR ''-'' else is_ascii_hexdigit b)
       (enum_from 0 s)"

fun ipv4_loop :: "nat \<Rightarrow> bytes list \<Rightarrow> bool" where
  "ipv4_loop parts [] = (parts = 4)"
| "ipv4_loop parts (octet # rest) =
     (if parts + 1 > 4 \<or> octet = [] \<or> length octet > 3 then False
      else if length octet > 1 \<and> hd octet = CHR ''0'' then False
      else (case parse_u16 octet of
              Some v \<Rightarrow> if v \<le> 255 then ipv4_loop (parts + 1) rest else False
            | None \<Rightarrow> False))"

definition is_ipv4 :: "bytes \<Rightarrow> bool" where
  "is_ipv4 s = ipv4_loop 0 (split_on (CHR ''.'') s)"

definition is_digits :: "bytes \<Rightarrow> bool" where
  "is_digits s \<longleftrightarrow> s \<noteq> [] \<and> list_all is_ascii_digit s"

definition is_num :: "bytes \<Rightarrow> bool" where
  "is_num s =
     (let body = (case strip_prefix (CHR ''-'') s of Some r \<Rightarrow> r | None \<Rightarrow> s) in
      case split_once (CHR ''.'') body of
        Some (i, f) \<Rightarrow> is_digits i \<and> is_digits f
      | None \<Rightarrow> is_digits body)"

definition two_digits :: "bytes \<Rightarrow> nat \<Rightarrow> nat option" where
  "two_digits b k =
     (if k + 2 \<le> length b \<and> is_ascii_digit (b ! k) \<and> is_ascii_digit (b ! (k + 1))
      then Some (digit_val (b ! k) * 10 + digit_val (b ! (k + 1))) else None)"

definition some_and :: "('a \<Rightarrow> bool) \<Rightarrow> 'a option \<Rightarrow> bool" where
  "some_and p v = (case v of None \<Rightarrow> False | Some x \<Rightarrow> p x)"

definition is_date :: "bytes \<Rightarrow> bool" where
  "is_date b \<longleftrightarrow>
     length b = 10 \<and> list_all is_ascii_digit (take 4 b)
     \<and> b ! 4 \<in> {CHR ''-'', CHR ''/''} \<and> b ! 7 = b ! 4
     \<and> some_and (\<lambda>m. 1 \<le> m \<and> m \<le> 12) (two_digits b 5)
     \<and> some_and (\<lambda>d. 1 \<le> d \<and> d \<le> 31) (two_digits b 8)"

definition strip_fraction :: "bytes \<Rightarrow> bytes option" where
  "strip_fraction b =
     (case b of
        x # r \<Rightarrow>
          if x \<in> {CHR ''.'', CHR '',''} then
            (let digits = length (takeWhile is_ascii_digit r) in
             if 1 \<le> digits \<and> digits \<le> 9 then Some (drop digits r) else None)
          else Some b
      | [] \<Rightarrow> Some b)"

definition is_zone :: "bytes \<Rightarrow> bool" where
  "is_zone b =
     (case b of
        [] \<Rightarrow> True
      | x # rest \<Rightarrow>
          if rest = [] \<and> x = CHR ''Z'' then True
          else if x \<in> {CHR ''+'', CHR ''-''} then
            (let hours = some_and (\<lambda>h. h \<le> 23) (two_digits rest 0);
                 tail = drop (min 2 (length rest)) rest;
                 minutes =
                   (case tail of
                      [] \<Rightarrow> True
                    | y # ys \<Rightarrow>
                        (let mm = (if y = CHR '':'' then ys else tail) in
                         length mm = 2 \<and> some_and (\<lambda>m. m \<le> 59) (two_digits mm 0)))
             in hours \<and> minutes)
          else False)"

definition is_time :: "bytes \<Rightarrow> bool" where
  "is_time b =
     (let clock =
        8 \<le> length b \<and> some_and (\<lambda>h. h \<le> 23) (two_digits b 0) \<and> b ! 2 = CHR '':''
        \<and> some_and (\<lambda>m. m \<le> 59) (two_digits b 3) \<and> b ! 5 = CHR '':''
        \<and> some_and (\<lambda>s. s \<le> 60) (two_digits b 6)
      in clock \<and> some_and is_zone (strip_fraction (drop 8 b)))"

definition is_datetime :: "bytes \<Rightarrow> bool" where
  "is_datetime b \<longleftrightarrow>
     11 \<le> length b \<and> b ! 10 = CHR ''T'' \<and> is_date (take 10 b) \<and> is_time (drop 11 b)"

definition is_ts :: "bytes \<Rightarrow> bool" where
  "is_ts b \<longleftrightarrow> is_date b \<or> is_time b \<or> is_datetime b"

definition classify :: "bytes \<Rightarrow> mask_tag option" where
  "classify token =
     (if is_uuid token then Some Tag_Uuid
      else if is_ipv4 token then Some Tag_Ip
      else if is_ts token then Some Tag_Ts
      else if is_num token then Some Tag_Num
      else None)"

section \<open>The masking pass\<close>

fun mask_from :: "nat \<Rightarrow> bytes list \<Rightarrow> masked" where
  "mask_from i [] = \<lparr>mk_tokens = [], mk_positions = [], mk_params = []\<rparr>"
| "mask_from i (tok # toks) =
     (let m = mask_from (i + 1) toks in
      case classify tok of
        Some tag \<Rightarrow>
          \<lparr>mk_tokens = tag_as_str tag # mk_tokens m, mk_positions = i # mk_positions m,
           mk_params = \<lparr>tp_type = param_type_of_tag tag, tp_value = tok\<rparr> # mk_params m\<rparr>
      | None \<Rightarrow> m\<lparr>mk_tokens := tok # mk_tokens m\<rparr>)"

definition mask_tokens :: "bytes list \<Rightarrow> masked" where
  "mask_tokens tokens = mask_from 0 tokens"

section \<open>Structure of the output\<close>

text \<open>What a masked line says about position \<open>p\<close>: the \<open>masked_ok\<close> relation is what every
  consumer of \<open>mask_tokens\<close> relies on.\<close>

definition masked_ok :: "bytes list \<Rightarrow> masked \<Rightarrow> bool" where
  "masked_ok ts m \<longleftrightarrow>
     length (mk_tokens m) = length ts
     \<and> ascending (mk_positions m)
     \<and> length (mk_params m) = length (mk_positions m)
     \<and> (\<forall>k < length (mk_positions m).
          mk_positions m ! k < length ts \<and> tp_value (mk_params m ! k) = ts ! (mk_positions m ! k)
          \<and> tp_type (mk_params m ! k) \<in> {PT_Uuid, PT_Ip, PT_Ts, PT_Num})
     \<and> (\<forall>p < length ts. p \<notin> set (mk_positions m) \<longrightarrow> mk_tokens m ! p = ts ! p)"

lemma mask_from_len [simp]: "length (mk_tokens (mask_from i ts)) = length ts"
  by (induction ts arbitrary: i) (auto simp: Let_def split: option.splits)

lemma mask_from_parallel [simp]:
  "length (mk_params (mask_from i ts)) = length (mk_positions (mask_from i ts))"
  by (induction ts arbitrary: i) (auto simp: Let_def split: option.splits)

lemma mask_from_bounds:
  "p \<in> set (mk_positions (mask_from i ts)) \<Longrightarrow> i \<le> p \<and> p < i + length ts"
proof (induction ts arbitrary: i)
  case Nil
  then show ?case by simp
next
  case (Cons t ts)
  from Cons.prems have "p = i \<or> p \<in> set (mk_positions (mask_from (i + 1) ts))"
    by (auto simp: Let_def split: option.splits)
  with Cons.IH [of "i + 1"] show ?case by auto
qed

lemma mask_from_ascending: "ascending (mk_positions (mask_from i ts))"
proof (induction ts arbitrary: i)
  case Nil
  show ?case by simp
next
  case (Cons t ts)
  have "\<forall>p \<in> set (mk_positions (mask_from (Suc i) ts)). i < p"
    using mask_from_bounds [of _ "Suc i" ts] by force
  with Cons.IH [of "Suc i"] show ?case
    by (auto simp: Let_def split: option.splits)
qed

lemma tag_type [simp]: "param_type_of_tag g \<in> {PT_Uuid, PT_Ip, PT_Ts, PT_Num}"
  by (cases g) auto

lemma mask_from_value:
  "k < length (mk_positions (mask_from i ts)) \<Longrightarrow>
   tp_value (mk_params (mask_from i ts) ! k) = ts ! (mk_positions (mask_from i ts) ! k - i)
   \<and> tp_type (mk_params (mask_from i ts) ! k) \<in> {PT_Uuid, PT_Ip, PT_Ts, PT_Num}"
proof (induction ts arbitrary: i k)
  case Nil
  then show ?case by simp
next
  case (Cons t ts)
  have step: "tp_value (mk_params (mask_from (Suc i) ts) ! j)
              = (t # ts) ! (mk_positions (mask_from (Suc i) ts) ! j - i)
              \<and> tp_type (mk_params (mask_from (Suc i) ts) ! j) \<in> {PT_Uuid, PT_Ip, PT_Ts, PT_Num}"
    if j: "j < length (mk_positions (mask_from (Suc i) ts))" for j
  proof -
    have "Suc i \<le> mk_positions (mask_from (Suc i) ts) ! j"
      using mask_from_bounds [of _ "Suc i" ts] j by (meson nth_mem)
    then have "mk_positions (mask_from (Suc i) ts) ! j - i
               = Suc (mk_positions (mask_from (Suc i) ts) ! j - Suc i)" by simp
    with Cons.IH [OF j] show ?thesis by (simp del: insert_iff)
  qed
  show ?case
    using Cons.prems step by (cases k) (simp_all add: Let_def split: option.splits del: insert_iff)
qed

lemma mask_from_literal:
  "p < length ts \<Longrightarrow> i + p \<notin> set (mk_positions (mask_from i ts)) \<Longrightarrow>
   mk_tokens (mask_from i ts) ! p = ts ! p"
proof (induction ts arbitrary: i p)
  case Nil
  then show ?case by simp
next
  case (Cons t ts)
  show ?case
  proof (cases p)
    case 0
    with Cons.prems show ?thesis by (auto simp: Let_def split: option.splits)
  next
    case (Suc q)
    with Cons.prems have "Suc i + q \<notin> set (mk_positions (mask_from (Suc i) ts))" and "q < length ts"
      by (auto simp: Let_def split: option.splits)
    with Cons.IH [of q "Suc i"] Suc show ?thesis
      by (auto simp: Let_def split: option.splits)
  qed
qed

lemma masked_ok_mask: "masked_ok ts (mask_tokens ts)"
proof -
  have "mk_positions (mask_from 0 ts) ! k < length ts"
    if "k < length (mk_positions (mask_from 0 ts))" for k
    using mask_from_bounds [of "mk_positions (mask_from 0 ts) ! k" 0 ts] nth_mem [OF that] by simp
  then show ?thesis
    using mask_from_ascending [of 0 ts] mask_from_value [of _ 0 ts] mask_from_literal [of _ ts 0]
    by (simp add: masked_ok_def mask_tokens_def del: insert_iff)
qed

section \<open>The recognisers are pairwise disjoint\<close>

lemma count_split_on: "length (split_on c s) = Suc (count_list s c)"
  by (induction s) (auto split: list.splits)

lemma digit_not:
  "\<not> is_ascii_digit (CHR ''-'')" "\<not> is_ascii_digit (CHR ''/'')" "\<not> is_ascii_digit (CHR '':'')"
  "\<not> is_ascii_digit (CHR ''.'')" "\<not> is_ascii_digit (CHR ''+'')" "\<not> is_ascii_digit (CHR ''T'')"
  "\<not> is_ascii_hexdigit (CHR '':'')" "\<not> is_ascii_hexdigit (CHR ''T'')" "\<not> is_ascii_hexdigit (CHR ''.'')"
  by (simp_all add: tok_simps)

lemma uuid_nth:
  assumes "is_uuid s" and "i < 36"
  shows "if i \<in> {8, 13, 18, 23} then s ! i = CHR ''-'' else is_ascii_hexdigit (s ! i)"
proof -
  have len: "length s = 36" using assms(1) by (simp add: is_uuid_def)
  then have "(i, s ! i) \<in> set (enum_from 0 s)"
    using assms(2) by (auto simp: in_set_enumerate_eq)
  with assms(1) show ?thesis
    unfolding is_uuid_def list_all_iff by fastforce
qed

lemma num_body_chars:
  assumes "is_num s"
  shows "\<exists>body. (s = body \<or> s = CHR ''-'' # body) \<and> count_list body (CHR ''.'') \<le> 1
           \<and> (\<forall>c \<in> set body. is_ascii_digit c \<or> c = CHR ''.'')"
proof -
  define body where "body = (case strip_prefix (CHR ''-'') s of Some r \<Rightarrow> r | None \<Rightarrow> s)"
  have s: "s = body \<or> s = CHR ''-'' # body"
    by (auto simp: body_def strip_prefix_def split: list.splits if_splits)
  have no_dot: "count_list d (CHR ''.'') = 0" if "is_digits d" for d
    using that digit_not(4) by (auto simp: is_digits_def list_all_iff count_list_0_iff)
  have "count_list body (CHR ''.'') \<le> 1 \<and> (\<forall>c \<in> set body. is_ascii_digit c \<or> c = CHR ''.'')"
  proof (cases "split_once (CHR ''.'') body")
    case None
    with assms have "is_digits body" by (simp add: is_num_def body_def Let_def)
    with no_dot [of body] show ?thesis by (auto simp: is_digits_def list_all_iff)
  next
    case (Some p)
    then obtain i f where p: "split_once (CHR ''.'') body = Some (i, f)" by (cases p) auto
    with assms have d: "is_digits i" "is_digits f" by (auto simp: is_num_def body_def Let_def)
    from split_once_Some [OF p] have "body = i @ CHR ''.'' # f" by simp
    with d no_dot [OF d(1)] no_dot [OF d(2)] show ?thesis
      by (auto simp: is_digits_def list_all_iff)
  qed
  with s show ?thesis by blast
qed

lemma num_nth: "is_num s \<Longrightarrow> 0 < i \<Longrightarrow> i < length s \<Longrightarrow> is_ascii_digit (s ! i) \<or> s ! i = CHR ''.''"
  using num_body_chars [of s] by (auto simp: nth_Cons split: nat.splits)

lemma num_dots: "is_num s \<Longrightarrow> count_list s (CHR ''.'') \<le> 1"
  using num_body_chars [of s] by auto

lemma parse_u16_chars:
  "parse_u16 o' = Some v \<Longrightarrow> c \<in> set o' \<Longrightarrow> is_ascii_digit c \<or> c = CHR ''+''"
  by (auto simp: parse_u16_def strip_prefix_def Let_def list_all_iff split: list.splits if_splits)

lemma ipv4_loop_octets:
  "ipv4_loop n os \<Longrightarrow>
     n + length os = 4 \<and> (\<forall>x \<in> set os. length x \<le> 3 \<and> (\<forall>c \<in> set x. is_ascii_digit c \<or> c = CHR ''+''))"
  by (induction n os rule: ipv4_loop.induct) (auto split: if_splits option.splits dest: parse_u16_chars)

lemma ipv4_dots: "is_ipv4 s \<Longrightarrow> count_list s (CHR ''.'') = 3"
  using ipv4_loop_octets [of 0 "split_on (CHR ''.'') s"]
  by (simp add: is_ipv4_def count_split_on)

lemma set_join: "set (join sep ss) \<subseteq> set sep \<union> (\<Union>x \<in> set ss. set x)"
  by (induction sep ss rule: join.induct) auto

lemma ipv4_chars:
  "is_ipv4 s \<Longrightarrow> c \<in> set s \<Longrightarrow> is_ascii_digit c \<or> c = CHR ''+'' \<or> c = CHR ''.''"
  using ipv4_loop_octets [of 0 "split_on (CHR ''.'') s"]
    set_join [of "[CHR ''.'']" "split_on (CHR ''.'') s"]
  by (auto simp: is_ipv4_def)

lemma ipv4_length: "is_ipv4 s \<Longrightarrow> length s \<le> 15"
proof -
  assume a: "is_ipv4 s"
  have len: "length (join [CHR ''.''] ss) \<le> 4 * length ss - 1"
    if "\<forall>x \<in> set ss. length x \<le> 3" for ss
    using that by (induction "[CHR ''.'']" ss rule: join.induct) auto
  from a have "length (split_on (CHR ''.'') s) = 4" and "\<forall>x \<in> set (split_on (CHR ''.'') s). length x \<le> 3"
    using ipv4_loop_octets [of 0 "split_on (CHR ''.'') s"] by (auto simp: is_ipv4_def)
  with len [of "split_on (CHR ''.'') s"] show ?thesis by simp
qed

text \<open>Every timestamp has a separator where neither a number nor an address can have one.\<close>

lemma ts_marks:
  assumes "is_ts s"
  obtains (date) "length s \<ge> 10" "s ! 4 \<in> {CHR ''-'', CHR ''/''}" "length s = 10 \<or> s ! 10 = CHR ''T''"
  | (time) "length s \<ge> 8" "s ! 2 = CHR '':''"
proof -
  from assms consider "is_date s" | "is_time s" | "is_datetime s"
    by (auto simp: is_ts_def)
  then show thesis
  proof cases
    case 1
    then show ?thesis by (intro date) (auto simp: is_date_def)
  next
    case 2
    then show ?thesis by (intro time) (auto simp: is_time_def)
  next
    case 3
    then have "11 \<le> length s" and "take 10 s ! 4 \<in> {CHR ''-'', CHR ''/''}" and "s ! 10 = CHR ''T''"
      by (auto simp: is_datetime_def is_date_def)
    then show ?thesis by (intro date) auto
  qed
qed

lemma ts_not_num: "is_ts s \<Longrightarrow> \<not> is_num s"
proof (elim ts_marks)
  assume "10 \<le> length s" "s ! 4 \<in> {CHR ''-'', CHR ''/''}"
  with num_nth [of s 4] digit_not show "\<not> is_num s" by auto
next
  assume "8 \<le> length s" "s ! 2 = CHR '':''"
  with num_nth [of s 2] digit_not show "\<not> is_num s" by auto
qed

lemma ts_not_ipv4: "is_ts s \<Longrightarrow> \<not> is_ipv4 s"
proof (elim ts_marks)
  assume a: "10 \<le> length s" "s ! 4 \<in> {CHR ''-'', CHR ''/''}"
  then have "s ! 4 \<in> set s" by (intro nth_mem) simp
  with ipv4_chars [of s "s ! 4"] a digit_not show "\<not> is_ipv4 s" by auto
next
  assume a: "8 \<le> length s" "s ! 2 = CHR '':''"
  then have "s ! 2 \<in> set s" by (intro nth_mem) simp
  with ipv4_chars [of s "s ! 2"] a digit_not show "\<not> is_ipv4 s" by auto
qed

lemma uuid_not_others: "is_uuid s \<Longrightarrow> \<not> is_ipv4 s \<and> \<not> is_ts s \<and> \<not> is_num s"
proof -
  assume u: "is_uuid s"
  then have len: "length s = 36" by (simp add: is_uuid_def)
  have "\<not> is_ipv4 s" using ipv4_length [of s] len by auto
  moreover have "\<not> is_num s"
    using uuid_nth [OF u, of 8] num_nth [of s 8] len digit_not by auto
  moreover have "\<not> is_ts s"
  proof
    assume "is_ts s"
    then show False
      using uuid_nth [OF u, of 10] uuid_nth [OF u, of 2] len digit_not by (elim ts_marks) auto
  qed
  ultimately show ?thesis by simp
qed

lemma ipv4_not_num: "is_ipv4 s \<Longrightarrow> \<not> is_num s"
  using ipv4_dots [of s] num_dots [of s] by auto

section \<open>Dotted quads\<close>

lemma dec_val_bound: "list_all is_ascii_digit s \<Longrightarrow> dec_val s < 10 ^ length s"
proof (induction s rule: rev_induct)
  case Nil
  show ?case by (simp add: dec_val_def)
next
  case (snoc c s)
  then have "digit_val c < 10" and "dec_val s < 10 ^ length s"
    by (auto simp: is_ascii_digit_def digit_val_def)
  then show ?case by (simp add: dec_val_append)
qed

lemma digit_char_val: "is_ascii_digit c \<Longrightarrow> digit_char (digit_val c) = c"
proof -
  assume "is_ascii_digit c"
  then have "48 + (byte_val c - 48) mod 10 = byte_val c"
    by (auto simp: is_ascii_digit_def)
  then show ?thesis
    by (simp add: digit_char_def digit_val_def byte_val_def)
qed

lemma digit_char_mod [simp]: "digit_char (10 * n + m) = digit_char m"
  by (simp add: digit_char_def)

lemma dec_val_pos:
  "list_all is_ascii_digit s \<Longrightarrow> s \<noteq> [] \<Longrightarrow> hd s \<noteq> CHR ''0'' \<Longrightarrow> 0 < dec_val s"
proof (induction s rule: rev_induct)
  case Nil
  then show ?case by simp
next
  case (snoc c s)
  show ?case
  proof (cases "s = []")
    case True
    with snoc.prems have "is_ascii_digit c" and "c \<noteq> CHR ''0''" by auto
    then have "digit_val c \<noteq> 0"
    proof -
      have "digit_char (digit_val (CHR ''0'')) = CHR ''0''"
        by (rule digit_char_val) (simp add: tok_simps)
      then have "digit_char 0 = CHR ''0''" by (simp add: digit_val_def byte_val_def)
      with digit_char_val [of c] \<open>is_ascii_digit c\<close> \<open>c \<noteq> CHR ''0''\<close> show ?thesis by metis
    qed
    with True show ?thesis by (simp add: dec_val_def)
  next
    case False
    with snoc show ?thesis by (simp add: dec_val_append)
  qed
qed

lemma show_nat_dec_val:
  "list_all is_ascii_digit s \<Longrightarrow> s \<noteq> [] \<Longrightarrow> length s > 1 \<longrightarrow> hd s \<noteq> CHR ''0'' \<Longrightarrow> show_nat (dec_val s) = s"
proof (induction s rule: rev_induct)
  case Nil
  then show ?case by simp
next
  case (snoc c s)
  have c: "is_ascii_digit c" "digit_val c < 10"
    using snoc.prems by (auto simp: is_ascii_digit_def digit_val_def)
  show ?case
  proof (cases "s = []")
    case True
    with c show ?thesis
      by (simp add: dec_val_def show_nat.simps digit_char_val)
  next
    case False
    then have hd: "hd s \<noteq> CHR ''0''" using snoc.prems by auto
    with False snoc.prems have pos: "0 < dec_val s" by (intro dec_val_pos) auto
    have eq: "show_nat (dec_val s) = s" using snoc False hd by auto
    have "(10 * dec_val s + digit_val c) div 10 = dec_val s"
      using c(2) by simp
    with pos eq c show ?thesis
      by (simp add: dec_val_append show_nat.simps [of "10 * dec_val s + digit_val c"] digit_char_val)
  qed
qed

lemma show_nat_no_lead: "n \<noteq> 0 \<Longrightarrow> hd (show_nat n) \<noteq> CHR ''0''"
proof (induction n rule: show_nat.induct)
  case (1 n)
  show ?case
  proof (cases "n < 10")
    case True
    have "digit_val (digit_char n) = n" using True by simp
    with 1(2) have "digit_char n \<noteq> CHR ''0''"
      by (auto simp: digit_val_def byte_val_def)
    with True show ?thesis by (subst show_nat.simps) simp
  next
    case False
    then have "n div 10 \<noteq> 0" by auto
    with 1(1) False show ?thesis by (subst show_nat.simps) (simp add: hd_append)
  qed
qed

lemma show_nat_length: "n < 1000 \<Longrightarrow> length (show_nat n) \<le> 3"
  by (simp add: show_nat.simps)

definition octet_ok :: "bytes \<Rightarrow> bool" where
  "octet_ok x \<longleftrightarrow> x \<noteq> [] \<and> length x \<le> 3 \<and> (length x > 1 \<longrightarrow> hd x \<noteq> CHR ''0'')
                \<and> (\<exists>v \<le> 255. parse_u16 x = Some v)"

lemma ipv4_loop_iff: "ipv4_loop n xs \<longleftrightarrow> n + length xs = 4 \<and> (\<forall>x \<in> set xs. octet_ok x)"
  by (induction n xs rule: ipv4_loop.induct) (auto simp: octet_ok_def split: option.splits)

lemma octet_show: "octet_ok x \<and> CHR ''+'' \<notin> set x \<longleftrightarrow> (\<exists>v \<le> 255. x = show_nat v)"
proof
  assume a: "octet_ok x \<and> CHR ''+'' \<notin> set x"
  then have "strip_prefix (CHR ''+'') x = None"
    by (auto simp: strip_prefix_def split: list.splits)
  with a have "list_all is_ascii_digit x" and "dec_val x \<le> 255"
    by (auto simp: octet_ok_def parse_u16_def Let_def split: if_splits)
  moreover from this a have "x = show_nat (dec_val x)"
    using show_nat_dec_val [of x] by (auto simp: octet_ok_def)
  ultimately show "\<exists>v \<le> 255. x = show_nat v" by blast
next
  assume "\<exists>v \<le> 255. x = show_nat v"
  then obtain v where v: "v \<le> 255" "x = show_nat v" by blast
  have digits: "list_all is_ascii_digit x" using v show_nat_digits by simp
  then have plus: "CHR ''+'' \<notin> set x" using digit_not by (auto simp: list_all_iff)
  then have "strip_prefix (CHR ''+'') x = None"
    by (auto simp: strip_prefix_def split: list.splits)
  with digits v have "parse_u16 x = Some v"
    by (simp add: parse_u16_def Let_def)
  moreover have "length x > 1 \<longrightarrow> hd x \<noteq> CHR ''0''"
    using v show_nat_no_lead [of v] by (cases "v = 0") (auto simp: show_nat.simps)
  ultimately show "octet_ok x \<and> CHR ''+'' \<notin> set x"
    using v plus show_nat_length [of v] by (simp add: octet_ok_def)
qed

section \<open>Properties\<close>

text \<open>C27. Masking preserves positions and loses nothing: the output has one token per input
  token; the recorded positions are strictly ascending and in range; there is one typed
  parameter per position, and its value is the original token there; every other token is
  unchanged.\<close>

theorem mask_preserves_line: "masked_ok ts (mask_tokens ts)"
  by (rule masked_ok_mask)

text \<open>The four masking rules are pairwise disjoint, so the order in which \<open>classify\<close> tries
  them never decides a token's tag.\<close>

theorem mask_rules_disjoint:
  "(classify s = Some Tag_Uuid \<longleftrightarrow> is_uuid s) \<and> (classify s = Some Tag_Ip \<longleftrightarrow> is_ipv4 s)
   \<and> (classify s = Some Tag_Ts \<longleftrightarrow> is_ts s) \<and> (classify s = Some Tag_Num \<longleftrightarrow> is_num s)"
  using uuid_not_others [of s] ts_not_num [of s] ts_not_ipv4 [of s] ipv4_not_num [of s]
  by (auto simp: classify_def)

text \<open>C28. Apart from tokens with a plus sign, \<open>is_ipv4\<close> accepts exactly the dotted quads of four
  decimal numbers from 0 to 255 printed without leading zeros.\<close>

theorem is_ipv4_dotted_quad:
  "is_ipv4 s \<and> CHR ''+'' \<notin> set s
   \<longleftrightarrow> (\<exists>a b c d. a \<le> 255 \<and> b \<le> 255 \<and> c \<le> 255 \<and> d \<le> 255
          \<and> s = show_nat a @ ''.'' @ show_nat b @ ''.'' @ show_nat c @ ''.'' @ show_nat d)"
  (is "?l \<longleftrightarrow> ?r")
proof
  assume l: ?l
  let ?ps = "split_on (CHR ''.'') s"
  from l have "length ?ps = 4" and ok: "\<forall>x \<in> set ?ps. octet_ok x"
    by (auto simp: is_ipv4_def ipv4_loop_iff)
  then obtain x1 x2 x3 x4 where ps: "?ps = [x1, x2, x3, x4]"
    by (auto simp: length_Suc_conv eval_nat_numeral)
  have s: "s = x1 @ ''.'' @ x2 @ ''.'' @ x3 @ ''.'' @ x4"
    using join_split_on [of "CHR ''.''" s] ps by simp
  with l have "CHR ''+'' \<notin> set x" if "x \<in> set ?ps" for x
    using that ps by auto
  with ok have "\<exists>v \<le> 255. x = show_nat v" if "x \<in> set ?ps" for x
    using that octet_show [of x] by blast
  then have q: "\<exists>v \<le> 255. x1 = show_nat v" "\<exists>v \<le> 255. x2 = show_nat v"
    "\<exists>v \<le> 255. x3 = show_nat v" "\<exists>v \<le> 255. x4 = show_nat v"
    using ps by auto
  then obtain a b c d where "a \<le> 255" "x1 = show_nat a" "b \<le> 255" "x2 = show_nat b"
    "c \<le> 255" "x3 = show_nat c" "d \<le> 255" "x4 = show_nat d"
    by blast
  with s show ?r by blast
next
  assume ?r
  then obtain a b c d where v: "a \<le> 255" "b \<le> 255" "c \<le> 255" "d \<le> 255"
    and s: "s = join ''.'' [show_nat a, show_nat b, show_nat c, show_nat d]"
    by auto
  have ok: "octet_ok (show_nat n) \<and> CHR ''+'' \<notin> set (show_nat n)" if "n \<le> 255" for n
    using that octet_show [of "show_nat n"] by blast
  have dot: "CHR ''.'' \<notin> set (show_nat n)" for n
    using show_nat_digits [of n] digit_not by (auto simp: list_all_iff)
  have "split_on (CHR ''.'') s = [show_nat a, show_nat b, show_nat c, show_nat d]"
    using dot unfolding s by (intro split_on_join) auto
  with ok v have "is_ipv4 s" by (simp add: is_ipv4_def ipv4_loop_iff)
  moreover have "CHR ''+'' \<notin> set s" using ok v by (auto simp: s)
  ultimately show ?l by simp
qed


end
