(* ===== verification/Float32.thy ===== *)
theory Float32
  imports Ourios_Prelude
begin

text \<open>
  IEEE binary32 division as the miner uses it. A finite \<open>f32\<close> is the rational it denotes;
  \<open>f32_round\<close> rounds a non-negative rational to the nearest 24-bit significand, ties to even.
  The exponent range is not bounded: every quotient the miner forms is 0 or lies between
  \<open>2 ^ (-16)\<close> and a number of at most \<open>2 ^ 24\<close>, well inside the normal range.
\<close>

fun nat_log2 :: "nat \<Rightarrow> nat" where
  "nat_log2 n = (if n < 2 then 0 else Suc (nat_log2 (n div 2)))"

declare nat_log2.simps [simp del]

definition scale2 :: "int \<Rightarrow> rat \<Rightarrow> rat" where
  "scale2 k q = (if 0 \<le> k then q * 2 ^ nat k else q / 2 ^ nat (- k))"

text \<open>The exponent of a positive rational: the \<open>e\<close> with \<open>2^e \<le> q < 2^(e+1)\<close>.\<close>

definition rat_exponent :: "rat \<Rightarrow> int" where
  "rat_exponent q =
     (let (a, b) = quotient_of q;
          e = int (nat_log2 (nat a)) - int (nat_log2 (nat b))
      in if scale2 e 1 \<le> q then e else e - 1)"

definition round_half_even :: "rat \<Rightarrow> int" where
  "round_half_even q =
     (let f = \<lfloor>q\<rfloor>; d = q - of_int f in
      if d < 1 / 2 then f else if 1 / 2 < d then f + 1 else if even f then f else f + 1)"

definition f32_round :: "rat \<Rightarrow> f32" where
  "f32_round q =
     (if q \<le> 0 then 0
      else (let s = 23 - rat_exponent q in scale2 (- s) (of_int (round_half_even (scale2 s q)))))"

definition f32_div :: "f32 \<Rightarrow> f32 \<Rightarrow> f32" where
  "f32_div a b = f32_round (a / b)"

section \<open>Rounding facts\<close>

lemma scale2_inverse [simp]: "scale2 (- k) (scale2 k q) = q"
  by (auto simp: scale2_def)

lemma scale2_mono: "a \<le> b \<Longrightarrow> scale2 k a \<le> scale2 k b"
  by (auto simp: scale2_def divide_right_mono)

lemma scale2_add: "scale2 k (a + b) = scale2 k a + scale2 k b"
  by (simp add: scale2_def algebra_simps add_divide_distrib)

lemma scale2_pos [simp]: "0 < scale2 k q \<longleftrightarrow> 0 < q"
  by (simp add: scale2_def zero_less_mult_iff zero_less_divide_iff)

lemma scale2_nonneg: "0 \<le> q \<Longrightarrow> 0 \<le> scale2 k q"
  by (simp add: scale2_def)

lemma scale2_of_int: "0 \<le> k \<Longrightarrow> scale2 k (of_int i) = of_int (i * 2 ^ nat k)"
  by (simp add: scale2_def)

lemma round_le: "of_int (round_half_even q) \<le> q + 1 / 2"
proof -
  have "of_int \<lfloor>q\<rfloor> \<le> q" and "q < of_int \<lfloor>q\<rfloor> + 1"
    by linarith+
  then show ?thesis unfolding round_half_even_def Let_def by (simp split: if_split) linarith
qed

lemma round_ge: "q - 1 / 2 \<le> of_int (round_half_even q)"
proof -
  have "of_int \<lfloor>q\<rfloor> \<le> q" and "q < of_int \<lfloor>q\<rfloor> + 1"
    by linarith+
  then show ?thesis unfolding round_half_even_def Let_def by (simp split: if_split)
qed

lemma round_half_even_int [simp]: "round_half_even (of_int i) = i"
  by (simp add: round_half_even_def)

lemma nat_log2_bounds: "0 < n \<Longrightarrow> 2 ^ nat_log2 n \<le> n \<and> n < 2 ^ Suc (nat_log2 n)"
proof (induction n rule: nat_log2.induct)
  case (1 n)
  show ?case
  proof (cases "n < 2")
    case True
    with "1.prems" have "n = 1" by simp
    then show ?thesis by (simp add: nat_log2.simps)
  next
    case False
    then have "0 < n div 2" by auto
    with "1.IH" [OF False] have "2 ^ nat_log2 (n div 2) \<le> n div 2" "n div 2 < 2 ^ Suc (nat_log2 (n div 2))"
      by auto
    then have "2 * 2 ^ nat_log2 (n div 2) \<le> n" and "n < 2 * 2 ^ Suc (nat_log2 (n div 2))"
      by linarith+
    moreover have "nat_log2 n = Suc (nat_log2 (n div 2))"
      using False by (simp add: nat_log2.simps [of n])
    ultimately show ?thesis by simp
  qed
qed

lemma scale2_one_exp: "scale2 (int a - int b) 1 = 2 ^ a / (2 ^ b :: rat)"
proof (cases "b \<le> a")
  case True
  then show ?thesis by (simp add: scale2_def nat_diff_distrib power_diff)
next
  case False
  then have "\<not> 0 \<le> int a - int b" and "nat (- (int a - int b)) = b - a" by auto
  with False show ?thesis by (simp add: scale2_def power_diff)
qed

text \<open>A quotient below one has a negative exponent, so its unit in the last place is at most
  \<open>2 ^ (-24)\<close>.\<close>

lemma rat_exponent_neg:
  assumes "0 < q" and "q < 1"
  shows "rat_exponent q \<le> -1"
proof -
  obtain a b where qo: "quotient_of q = (a, b)" by (cases "quotient_of q")
  have b: "0 < b" using quotient_of_denom_pos [OF qo] .
  have q: "q = of_int a / of_int b" using quotient_of_div [OF qo] .
  with b assms have a: "0 < a" by (simp add: zero_less_divide_iff)
  have ab: "a < b" using assms(2) q b by (simp add: divide_less_eq)
  define la lb where "la = nat_log2 (nat a)" and "lb = nat_log2 (nat b)"
  have "2 ^ la \<le> nat a" and "nat b < 2 ^ Suc lb"
    using nat_log2_bounds [of "nat a"] nat_log2_bounds [of "nat b"] a b by (auto simp: la_def lb_def)
  with ab have "(2::nat) ^ la < 2 ^ Suc lb" by linarith
  then have "la < Suc lb" using power_less_imp_less_exp [of "2::nat" la "Suc lb"] by simp
  then have "la \<le> lb" by simp
  show ?thesis
  proof (cases "la = lb")
    case True
    then have "scale2 (int la - int lb) 1 = (1::rat)" by (simp add: scale2_def)
    with assms(2) qo True show ?thesis
      by (simp add: rat_exponent_def la_def lb_def)
  next
    case False
    with \<open>la \<le> lb\<close> qo show ?thesis
      by (simp add: rat_exponent_def la_def lb_def Let_def)
  qed
qed

lemma f32_round_upper:
  assumes "0 < q" and "q < 1"
  shows "f32_round q \<le> q + 1 / 2 ^ 25"
proof -
  define s where "s = 23 - rat_exponent q"
  have s: "24 \<le> s" using rat_exponent_neg [OF assms] by (simp add: s_def)
  have "f32_round q = scale2 (- s) (of_int (round_half_even (scale2 s q)))"
    using assms(1) by (simp add: f32_round_def s_def)
  also have "\<dots> \<le> scale2 (- s) (scale2 s q + 1 / 2)"
    by (rule scale2_mono) (rule round_le)
  also have "\<dots> = q + scale2 (- s) (1 / 2)"
    by (simp add: scale2_add)
  also have "scale2 (- s) (1 / 2) \<le> 1 / 2 ^ 25"
  proof -
    have "scale2 (- s) (1 / 2) = 1 / 2 ^ Suc (nat s)"
      using s by (auto simp: scale2_def)
    moreover have "(2::rat) ^ 25 \<le> 2 ^ Suc (nat s)"
      using s by (intro power_increasing) auto
    ultimately show ?thesis by (simp add: frac_le)
  qed
  finally show ?thesis by simp
qed

lemma f32_round_lt_one:
  assumes "0 \<le> q" and "q \<le> 1 - 1 / 2 ^ 24"
  shows "f32_round q < 1"
proof (cases "q = 0")
  case True
  then show ?thesis by (simp add: f32_round_def)
next
  case False
  have "(0::rat) < 1 / 2 ^ 24" by simp
  with assms False have "0 < q" "q < 1" by linarith+
  from f32_round_upper [OF this] assms(2) show ?thesis by simp
qed

lemma f32_round_one [simp]: "f32_round 1 = 1"
proof -
  have "rat_exponent 1 = 0"
    by (simp add: rat_exponent_def scale2_def)
  moreover have "round_half_even (scale2 23 1) = 8388608"
  proof -
    have "scale2 23 1 = of_int 8388608" by (simp add: scale2_def)
    then show ?thesis by (simp only: round_half_even_int)
  qed
  ultimately show ?thesis
    by (simp add: f32_round_def scale2_def)
qed

lemma f32_round_nonneg: "0 \<le> f32_round q"
proof (cases "q \<le> 0")
  case True
  then show ?thesis by (simp add: f32_round_def)
next
  case False
  then have "(- 1 / 2 :: rat) < of_int (round_half_even (scale2 (23 - rat_exponent q) q))"
    using round_ge [of "scale2 (23 - rat_exponent q) q"] scale2_pos [of "23 - rat_exponent q" q] by linarith
  then have "0 \<le> round_half_even (scale2 (23 - rat_exponent q) q)"
    by linarith
  then show ?thesis
    by (simp add: f32_round_def Let_def scale2_nonneg)
qed

end
