(* ===== verification/Core_Types.thy ===== *)
theory Core_Types
  imports Mask Float32
begin

unbundle bit_operations_syntax

text \<open>
  The shared vocabulary of \<open>crates/ourios-core/src\<close> (\<open>audit.rs\<close>, \<open>record.rs\<close>, \<open>otlp.rs\<close>,
  \<open>confidence.rs\<close>, \<open>tenant.rs\<close>) and the miner's tunables of \<open>crates/ourios-config/src/lib.rs\<close>:
  the bit sets \<open>SlotTypes\<close> and \<open>ProvenanceSet\<close>, template-change audit events, mined records,
  OTLP log records, the three confidence zones, tenant-id validation and the validated
  configuration. The OTLP value type \<open>AnyValue\<close> is generated code: it is the type parameter
  \<open>'av\<close>. The locale \<open>flag_set\<close> states what makes an 8-bit mask a faithful set; both bit sets
  are instances.
\<close>

section \<open>Bit sets\<close>

locale flag_set =
  fixes flag :: "'e \<Rightarrow> 8 word" and known :: "'e \<Rightarrow> bool"
  assumes flag_known: "known e \<Longrightarrow> \<exists>n < 8. flag e = 2 ^ n"
    and flag_inj: "known e \<Longrightarrow> known f \<Longrightarrow> flag e = flag f \<Longrightarrow> e = f"
    and flag_unknown: "\<not> known e \<Longrightarrow> flag e = 0"
begin

lemma member_insert:
  assumes "known e"
  shows "((s OR flag e) AND flag f \<noteq> 0) \<longleftrightarrow> f = e \<or> (s AND flag f \<noteq> 0)"
proof (cases "known f")
  case True
  obtain n m where n: "n < 8" "flag f = 2 ^ n" and m: "m < 8" "flag e = 2 ^ m"
    using flag_known [OF True] flag_known [OF assms] by blast
  have "(2 ^ m :: 8 word) = 2 ^ n \<longleftrightarrow> m = n"
  proof
    assume eq: "(2 ^ m :: 8 word) = 2 ^ n"
    have "bit (2 ^ m :: 8 word) m" using m(1) by (simp add: bit_exp_iff)
    with eq have "bit (2 ^ n :: 8 word) m" by simp
    then show "m = n" by (simp add: bit_exp_iff)
  qed simp
  then have "m = n \<longleftrightarrow> f = e"
    using flag_inj [OF assms True] n m by auto
  with n m show ?thesis
    by (auto simp: and_exp_eq_0_iff_not_bit bit_or_iff bit_exp_iff)
next
  case False
  with assms show ?thesis by (auto simp: flag_unknown)
qed

lemma member_empty: "\<not> ((0 :: 8 word) AND flag f \<noteq> 0)"
  by simp

lemma member_singleton: "known e \<Longrightarrow> (flag e AND flag f \<noteq> 0) \<longleftrightarrow> f = e"
  using member_insert [of e 0 f] by simp

lemma member_union: "((s OR t) AND flag f \<noteq> 0) \<longleftrightarrow> (s AND flag f \<noteq> 0) \<or> (t AND flag f \<noteq> 0)"
proof (cases "known f")
  case True
  then obtain n where "n < 8" "flag f = 2 ^ n" using flag_known by blast
  then show ?thesis by (simp add: and_exp_eq_0_iff_not_bit bit_or_iff)
next
  case False
  then show ?thesis by (simp add: flag_unknown)
qed

lemma member_fold:
  "\<forall>e \<in> set es. known e \<Longrightarrow>
   (foldl (\<lambda>s e. s OR flag e) s es AND flag f \<noteq> 0) \<longleftrightarrow> f \<in> set es \<or> (s AND flag f \<noteq> 0)"
  by (induction es arbitrary: s) (auto simp: member_insert)

end

type_synonym slot_types = "8 word"

fun slot_bit :: "param_type \<Rightarrow> 8 word" where
  "slot_bit PT_Ip = push_bit 0 1"
| "slot_bit PT_Uuid = push_bit 1 1"
| "slot_bit PT_Num = push_bit 2 1"
| "slot_bit PT_Hex = push_bit 3 1"
| "slot_bit PT_Ts = push_bit 4 1"
| "slot_bit PT_Path = push_bit 5 1"
| "slot_bit PT_Str = push_bit 6 1"
| "slot_bit PT_Overflow = push_bit 7 1"
| "slot_bit (PT_Unknown _) = 0"

definition slot_new :: slot_types where
  "slot_new = 0"

definition slot_singleton :: "param_type \<Rightarrow> slot_types" where
  "slot_singleton t = slot_bit t"

definition slot_insert :: "slot_types \<Rightarrow> param_type \<Rightarrow> slot_types" where
  "slot_insert s t = s OR slot_bit t"

definition slot_contains :: "slot_types \<Rightarrow> param_type \<Rightarrow> bool" where
  "slot_contains s t \<longleftrightarrow> s AND slot_bit t \<noteq> 0"

definition slot_union :: "slot_types \<Rightarrow> slot_types \<Rightarrow> slot_types" where
  "slot_union s t = s OR t"

definition all_param_types :: "param_type list" where
  "all_param_types = [PT_Ip, PT_Uuid, PT_Num, PT_Hex, PT_Ts, PT_Path, PT_Str, PT_Overflow]"

definition slot_iter :: "slot_types \<Rightarrow> param_type list" where
  "slot_iter s = filter (slot_contains s) all_param_types"

definition slot_from_iter :: "param_type list \<Rightarrow> slot_types" where
  "slot_from_iter ts = foldl slot_insert slot_new ts"

fun slot_known :: "param_type \<Rightarrow> bool" where
  "slot_known (PT_Unknown _) = False"
| "slot_known _ = True"

interpretation sl: flag_set slot_bit slot_known
proof unfold_locales
  fix e
  assume "slot_known e"
  then show "\<exists>n < 8. slot_bit e = 2 ^ n"
    by (cases e) (auto simp: push_bit_eq_mult intro: exI [of _ 0] exI [of _ 1] exI [of _ 2]
        exI [of _ 3] exI [of _ 4] exI [of _ 5] exI [of _ 6] exI [of _ 7])
next
  fix e f
  assume "slot_known e" "slot_known f" "slot_bit e = slot_bit f"
  then show "e = f" by (cases e; cases f) (simp_all add: push_bit_eq_mult)
next
  fix e
  assume "\<not> slot_known e"
  then show "slot_bit e = 0" by (cases e) auto
qed

lemma slot_contains_insert [simp]:
  "slot_known t \<Longrightarrow> slot_contains (slot_insert s t) u \<longleftrightarrow> u = t \<or> slot_contains s u"
  by (simp add: slot_contains_def slot_insert_def sl.member_insert)

lemma slot_contains_singleton [simp]: "slot_known t \<Longrightarrow> slot_contains (slot_singleton t) u \<longleftrightarrow> u = t"
  by (simp add: slot_contains_def slot_singleton_def sl.member_singleton)

datatype provenance = Mined | UpstreamDerived | ProducerDeclared

type_synonym provenance_set = "8 word"

fun prov_bit :: "provenance \<Rightarrow> 8 word" where
  "prov_bit Mined = push_bit 0 1"
| "prov_bit UpstreamDerived = push_bit 1 1"
| "prov_bit ProducerDeclared = push_bit 2 1"

definition prov_singleton :: "provenance \<Rightarrow> provenance_set" where
  "prov_singleton p = prov_bit p"

definition prov_insert :: "provenance_set \<Rightarrow> provenance \<Rightarrow> provenance_set" where
  "prov_insert s p = s OR prov_bit p"

definition prov_contains :: "provenance_set \<Rightarrow> provenance \<Rightarrow> bool" where
  "prov_contains s p \<longleftrightarrow> s AND prov_bit p \<noteq> 0"

interpretation pv: flag_set prov_bit "\<lambda>_. True"
proof unfold_locales
  fix e
  show "\<exists>n < 8. prov_bit e = 2 ^ n"
    by (cases e) (auto simp: push_bit_eq_mult intro: exI [of _ 0] exI [of _ 1] exI [of _ 2])
next
  fix e f
  assume "prov_bit e = prov_bit f"
  then show "e = f" by (cases e; cases f) (simp_all add: push_bit_eq_mult)
qed simp

lemma prov_contains_insert [simp]: "prov_contains (prov_insert s p) q \<longleftrightarrow> q = p \<or> prov_contains s q"
  by (simp add: prov_contains_def prov_insert_def pv.member_insert)

lemma prov_contains_singleton [simp]: "prov_contains (prov_singleton p) q \<longleftrightarrow> q = p"
  by (simp add: prov_contains_def prov_singleton_def pv.member_singleton)

section \<open>Audit events\<close>

record slot_expansion =
  slot_index :: nat
  added_types :: "param_type list"

datatype template_change =
  Created (tc_new_template: bytes)
| Widened (tc_old_version: nat) (tc_new_version: nat) (tc_old_template: bytes)
    (tc_new_template: bytes) (tc_positions: "nat list")
| TypeExpanded (tc_old_version: nat) (tc_new_version: nat) (tc_old_template: bytes)
    (tc_new_template: bytes) (tc_slots: "slot_expansion list")
| RejectedDegenerate (tc_version: nat) (tc_current_template: bytes)
    (tc_would_be_template: bytes) (tc_would_be_positions: "nat list")
| Adopted (tc_version: nat) (tc_new_template: bytes)

fun counts_as_merge :: "template_change \<Rightarrow> bool" where
  "counts_as_merge (Widened _ _ _ _ _) = True"
| "counts_as_merge (TypeExpanded _ _ _ _ _) = True"
| "counts_as_merge _ = False"

datatype audit_payload =
  Template (ap_template_id: nat) (ap_line_hash: bytes) (ap_line_sample: "bytes option")
    (ap_change: template_change)
| AliasAsserted nat "nat list" bytes bytes
| AliasRetracted nat "nat list" bytes bytes
| Unknown (ap_event_kind: nat) (ap_event_type: bytes)
| Compaction bytes "bytes list" bytes nat nat
| RecordQuarantined bytes bytes
| IngestDenied bytes
| ConversationErased bytes nat nat nat

fun event_kind :: "audit_payload \<Rightarrow> nat" where
  "event_kind (Template _ _ _ change) =
     (case change of
        Created _ \<Rightarrow> 6
      | Widened _ _ _ _ _ \<Rightarrow> 0
      | TypeExpanded _ _ _ _ _ \<Rightarrow> 1
      | RejectedDegenerate _ _ _ _ \<Rightarrow> 2
      | Adopted _ _ \<Rightarrow> 10)"
| "event_kind (AliasAsserted _ _ _ _) = 4"
| "event_kind (AliasRetracted _ _ _ _) = 5"
| "event_kind (Compaction _ _ _ _ _) = 3"
| "event_kind (RecordQuarantined _ _) = 7"
| "event_kind (IngestDenied _) = 8"
| "event_kind (ConversationErased _ _ _ _) = 9"
| "event_kind (Unknown k _) = k"

fun event_type :: "audit_payload \<Rightarrow> bytes" where
  "event_type (Template _ _ _ change) =
     (case change of
        Created _ \<Rightarrow> ''template_created''
      | Widened _ _ _ _ _ \<Rightarrow> ''template_widened''
      | TypeExpanded _ _ _ _ _ \<Rightarrow> ''template_type_expanded''
      | RejectedDegenerate _ _ _ _ \<Rightarrow> ''template_widening_rejected_degenerate''
      | Adopted _ _ \<Rightarrow> ''template_adopted'')"
| "event_type (AliasAsserted _ _ _ _) = ''alias_asserted''"
| "event_type (AliasRetracted _ _ _ _) = ''alias_retracted''"
| "event_type (Compaction _ _ _ _ _) = ''compaction''"
| "event_type (RecordQuarantined _ _) = ''record_quarantined''"
| "event_type (IngestDenied _) = ''ingest_denied''"
| "event_type (ConversationErased _ _ _ _) = ''conversation_erased''"
| "event_type (Unknown _ t) = t"

fun payload_counts_as_merge :: "audit_payload \<Rightarrow> bool" where
  "payload_counts_as_merge (Template _ _ _ change) = counts_as_merge change"
| "payload_counts_as_merge _ = False"

record audit_event =
  ae_tenant_id :: bytes
  ae_timestamp :: nat
  ae_payload :: audit_payload

text \<open>\<open>hash_triggering_line\<close> keeps 16 bytes of the line's digest; the digest is a parameter.\<close>

definition hash_triggering_line :: "(bytes \<Rightarrow> bytes) \<Rightarrow> bytes \<Rightarrow> bytes" where
  "hash_triggering_line blake3 line = take 16 (blake3 line)"

definition is_char_boundary :: "bytes \<Rightarrow> nat \<Rightarrow> bool" where
  "is_char_boundary s i \<longleftrightarrow>
     i = 0 \<or> i = length s \<or> (i < length s \<and> \<not> (128 \<le> byte_val (s ! i) \<and> byte_val (s ! i) < 192))"

fun sample_end :: "bytes \<Rightarrow> nat \<Rightarrow> nat" where
  "sample_end raw e = (if e > 0 \<and> \<not> is_char_boundary raw e then sample_end raw (e - 1) else e)"

declare sample_end.simps [simp del]

definition sample_first_256_bytes :: "bytes \<Rightarrow> bytes" where
  "sample_first_256_bytes raw = take (sample_end raw (min (length raw) 256)) raw"

lemma sample_end_le: "sample_end raw e \<le> e"
  by (induction raw e rule: sample_end.induct) (subst sample_end.simps, auto)

lemma sample_end_boundary: "is_char_boundary raw (sample_end raw e)"
proof (induction raw e rule: sample_end.induct)
  case (1 raw e)
  show ?case
  proof (cases "e > 0 \<and> \<not> is_char_boundary raw e")
    case True
    with 1 show ?thesis by (subst sample_end.simps) simp
  next
    case False
    then have "is_char_boundary raw e" by (auto simp: is_char_boundary_def)
    moreover have "sample_end raw e = e"
      by (subst sample_end.simps) (simp only: False if_False)
    ultimately show ?thesis by simp
  qed
qed

section \<open>Records\<close>

datatype body_kind = BK_String | BK_Structured | BK_Absent

record param =
  pm_type :: param_type
  pm_value :: bytes

type_synonym 'av key_value = "bytes \<times> 'av option"

datatype 'av body = Body_String bytes | Body_Structured 'av

record 'av otlp_log_record =
  ol_tenant_id :: bytes
  ol_time_unix_nano :: nat
  ol_observed_time_unix_nano :: "nat option"
  ol_severity_number :: nat
  ol_severity_text :: "bytes option"
  ol_scope_name :: "bytes option"
  ol_scope_version :: "bytes option"
  ol_scope_attributes :: "'av key_value list"
  ol_resource_schema_url :: "bytes option"
  ol_scope_schema_url :: "bytes option"
  ol_attributes :: "'av key_value list"
  ol_dropped_attributes_count :: nat
  ol_resource_attributes :: "'av key_value list"
  ol_trace_id :: "bytes option"
  ol_span_id :: "bytes option"
  ol_flags :: nat
  ol_event_name :: "bytes option"
  ol_body :: "'av body option"

record 'av mined_record =
  mr_tenant_id :: bytes
  mr_template_id :: nat
  mr_template_version :: nat
  mr_severity_number :: nat
  mr_severity_text :: "bytes option"
  mr_scope_name :: "bytes option"
  mr_scope_version :: "bytes option"
  mr_scope_attributes :: "'av key_value list"
  mr_resource_schema_url :: "bytes option"
  mr_scope_schema_url :: "bytes option"
  mr_time_unix_nano :: nat
  mr_observed_time_unix_nano :: "nat option"
  mr_attributes :: "'av key_value list"
  mr_dropped_attributes_count :: nat
  mr_resource_attributes :: "'av key_value list"
  mr_trace_id :: "bytes option"
  mr_span_id :: "bytes option"
  mr_flags :: nat
  mr_event_name :: "bytes option"
  mr_body_kind :: body_kind
  mr_params :: "param list"
  mr_separators :: "bytes list"
  mr_body :: "bytes option"
  mr_confidence :: f32
  mr_lossy_flag :: bool

section \<open>Confidence zones\<close>

datatype confidence_zone = Clean | Lossy | ParseFailure

definition zone_classify :: "f32 \<Rightarrow> f32 \<Rightarrow> f32 \<Rightarrow> confidence_zone" where
  "zone_classify similarity threshold flr =
     (if similarity \<ge> threshold then Clean
      else if similarity \<ge> flr then Lossy
      else ParseFailure)"

definition retains_body :: "confidence_zone \<Rightarrow> bool" where
  "retains_body z \<longleftrightarrow> z = Lossy"

section \<open>Tenant ids\<close>

datatype tenant_id_error = Tenant_Empty | Tenant_TooLong nat | Tenant_InvalidCharacter bytes

definition max_tenant_bytes :: nat where
  "max_tenant_bytes = 128"

definition is_ascii_graphic :: "bytes \<Rightarrow> bool" where
  "is_ascii_graphic c \<longleftrightarrow> (\<exists>b. c = [b] \<and> 33 \<le> byte_val b \<and> byte_val b \<le> 126)"

lemma is_ascii_graphic_code [code]:
  "is_ascii_graphic c = (case c of [b] \<Rightarrow> 33 \<le> byte_val b \<and> byte_val b \<le> 126 | _ \<Rightarrow> False)"
  by (auto simp: is_ascii_graphic_def split: list.splits)

definition validate_tenant_id :: "bytes \<Rightarrow> tenant_id_error option" where
  "validate_tenant_id value =
     (if value = [] then Some Tenant_Empty
      else if length value > max_tenant_bytes then Some (Tenant_TooLong (length value))
      else (case List.find (\<lambda>c. \<not> is_ascii_graphic c \<or> c \<in> {'':'', ''#'', ''/''}) (chars value) of
              Some found \<Rightarrow> Some (Tenant_InvalidCharacter found)
            | None \<Rightarrow> None))"

section \<open>Configuration\<close>

datatype upstream_templates = Ignore | Observe | Adopt

record miner_config =
  similarity_threshold :: f32
  similarity_floor :: f32
  param_byte_limit :: nat
  prefix_depth :: nat
  max_node_children :: nat
  max_templates :: nat
  max_line_tokens :: nat
  upstream_mode :: upstream_templates
  upstream_template_byte_limit :: nat
  upstream_association_limit :: nat

datatype miner_config_error =
  ThresholdOutOfRange f32
| FloorOutOfRange f32 f32
| ParamByteLimitZero
| ParamByteLimitTooLarge nat
| PrefixDepthTooLarge nat
| BoundZero bytes

definition param_byte_limit_ceiling :: nat where
  "param_byte_limit_ceiling = 1024"

definition prefix_depth_ceiling :: nat where
  "prefix_depth_ceiling = 8"

definition default_config :: miner_config where
  "default_config =
     \<lparr>similarity_threshold = f32_round (7 / 10), similarity_floor = f32_round (4 / 10),
      param_byte_limit = 256, prefix_depth = 2, max_node_children = 100, max_templates = 20000,
      max_line_tokens = 512, upstream_mode = Ignore, upstream_template_byte_limit = 8192,
      upstream_association_limit = 4\<rparr>"

definition try_new_full :: "f32 \<Rightarrow> f32 \<Rightarrow> nat \<Rightarrow> miner_config_error + miner_config" where
  "try_new_full threshold flr byte_limit =
     (if \<not> (threshold > 0 \<and> threshold \<le> 1) then Inl (ThresholdOutOfRange threshold)
      else if \<not> (flr > 0 \<and> flr \<le> threshold) then Inl (FloorOutOfRange flr threshold)
      else if byte_limit = 0 then Inl ParamByteLimitZero
      else if byte_limit > param_byte_limit_ceiling then Inl (ParamByteLimitTooLarge byte_limit)
      else Inr (default_config\<lparr>similarity_threshold := threshold, similarity_floor := flr,
                  param_byte_limit := byte_limit\<rparr>))"

definition try_new :: "f32 \<Rightarrow> nat \<Rightarrow> miner_config_error + miner_config" where
  "try_new threshold byte_limit =
     try_new_full threshold (min threshold (f32_round (4 / 10))) byte_limit"

definition with_prefix_depth :: "miner_config \<Rightarrow> nat \<Rightarrow> miner_config_error + miner_config" where
  "with_prefix_depth c depth =
     (if depth > prefix_depth_ceiling then Inl (PrefixDepthTooLarge depth)
      else Inr (c\<lparr>prefix_depth := depth\<rparr>))"

definition with_max_node_children :: "miner_config \<Rightarrow> nat \<Rightarrow> miner_config_error + miner_config" where
  "with_max_node_children c cap =
     (if cap = 0 then Inl (BoundZero ''max_node_children'') else Inr (c\<lparr>max_node_children := cap\<rparr>))"

definition with_max_templates :: "miner_config \<Rightarrow> nat \<Rightarrow> miner_config_error + miner_config" where
  "with_max_templates c cap =
     (if cap = 0 then Inl (BoundZero ''max_templates'') else Inr (c\<lparr>max_templates := cap\<rparr>))"

definition with_max_line_tokens :: "miner_config \<Rightarrow> nat \<Rightarrow> miner_config_error + miner_config" where
  "with_max_line_tokens c cap =
     (if cap = 0 then Inl (BoundZero ''max_line_tokens'') else Inr (c\<lparr>max_line_tokens := cap\<rparr>))"

text \<open>What the constructors establish: \<open>u16\<close> and \<open>u8\<close> fields keep their width.\<close>

definition config_ok :: "miner_config \<Rightarrow> bool" where
  "config_ok c \<longleftrightarrow>
     0 < similarity_floor c \<and> similarity_floor c \<le> similarity_threshold c \<and> similarity_threshold c \<le> 1
     \<and> 1 \<le> param_byte_limit c \<and> param_byte_limit c \<le> param_byte_limit_ceiling
     \<and> prefix_depth c \<le> prefix_depth_ceiling
     \<and> 0 < max_node_children c \<and> 0 < max_templates c \<and> 0 < max_line_tokens c"

lemma rat_exponents: "rat_exponent (7 / 10) = -1" "rat_exponent (2 / 5) = -2"
proof -
  have q: "quotient_of (7 / 10) = (7, 10)" "quotient_of (2 / 5) = (2, 5)" by code_simp+
  show "rat_exponent (7 / 10) = -1" "rat_exponent (2 / 5) = -2"
    by (simp_all add: rat_exponent_def q nat_log2.simps scale2_def)
qed

lemma f32_default_values:
  "f32_round (7 / 10) = 11744051 / 16777216" "f32_round (2 / 5) = 13421773 / 33554432"
proof -
  have f: "\<lfloor>58720256 / 5 :: rat\<rfloor> = 11744051" "\<lfloor>67108864 / 5 :: rat\<rfloor> = 13421772"
    by (simp_all add: floor_eq_iff)
  show "f32_round (7 / 10) = 11744051 / 16777216" "f32_round (2 / 5) = 13421773 / 33554432"
    by (simp_all add: f32_round_def rat_exponents round_half_even_def scale2_def Let_def f)
qed

lemma config_ok_default: "config_ok default_config"
  by (simp add: config_ok_def default_config_def f32_default_values param_byte_limit_ceiling_def
      prefix_depth_ceiling_def)

section \<open>Properties\<close>

text \<open>The 8-bit slot-type mask is a faithful set of parameter types: after inserting types
  one by one, membership is exactly membership in the list inserted, for the eight types the
  miner produces.\<close>

theorem slot_types_faithful:
  assumes "\<forall>t \<in> set ts. slot_known t"
  shows "slot_contains (slot_from_iter ts) u \<longleftrightarrow> u \<in> set ts"
proof -
  have "slot_from_iter ts = foldl (\<lambda>s e. s OR slot_bit e) 0 ts"
    by (simp add: slot_from_iter_def slot_new_def slot_insert_def [abs_def])
  with assms show ?thesis
    by (simp add: slot_contains_def sl.member_fold)
qed

theorem slot_types_faithful_witness:
  "slot_contains (slot_from_iter [PT_Num, PT_Str]) PT_Str
   \<and> \<not> slot_contains (slot_from_iter [PT_Num, PT_Str]) PT_Ip"
  using slot_types_faithful [of "[PT_Num, PT_Str]" PT_Str]
    slot_types_faithful [of "[PT_Num, PT_Str]" PT_Ip] by simp



text \<open>A tenant id is accepted exactly when it has between 1 and 128 bytes, all of them
  graphic ASCII characters other than the colon, the hash sign and the slash.\<close>

theorem validate_tenant_id_iff:
  "validate_tenant_id v = None
   \<longleftrightarrow> v \<noteq> [] \<and> length v \<le> 128
      \<and> (\<forall>b \<in> set v. 33 \<le> byte_val b \<and> byte_val b \<le> 126 \<and> b \<notin> {CHR '':'', CHR ''#'', CHR ''/''})"
proof -
  have chars_single: "(\<forall>c \<in> set (chars v). is_ascii_graphic c \<and> c \<notin> {'':'', ''#'', ''/''})
      \<longleftrightarrow> (\<forall>b \<in> set v. 33 \<le> byte_val b \<and> byte_val b \<le> 126 \<and> b \<notin> {CHR '':'', CHR ''#'', CHR ''/''})"
    (is "?l v \<longleftrightarrow> ?r v")
  proof
    assume l: "?l v"
    have "set v = (\<Union>c \<in> set (chars v). set c)"
      by (subst concat_chars [of v, symmetric]) (simp only: set_concat)
    with l show "?r v" by (auto simp: is_ascii_graphic_def)
  next
    assume "?r v"
    then show "?l v"
    proof (induction v rule: chars.induct)
      case (2 b bs)
      then have "utf8_width b = 1" by (auto simp: utf8_width_def)
      with 2 show ?case by (auto simp: is_ascii_graphic_def)
    qed simp
  qed
  have "validate_tenant_id v = None
        \<longleftrightarrow> v \<noteq> [] \<and> length v \<le> 128
            \<and> List.find (\<lambda>c. \<not> is_ascii_graphic c \<or> c \<in> {'':'', ''#'', ''/''}) (chars v) = None"
    by (auto simp: validate_tenant_id_def max_tenant_bytes_def split: option.splits)
  also have "\<dots> \<longleftrightarrow> v \<noteq> [] \<and> length v \<le> 128
      \<and> (\<forall>c \<in> set (chars v). is_ascii_graphic c \<and> c \<notin> {'':'', ''#'', ''/''})"
    unfolding find_None_iff by blast
  finally show ?thesis using chars_single by simp
qed

theorem validate_tenant_id_iff_witness: "validate_tenant_id ''acme'' = None"
  by (subst validate_tenant_id_iff) (simp add: byte_val_def)

text \<open>The line sample kept in an audit event is a prefix of the line of at most 256 bytes
  that ends at a character boundary.\<close>

theorem sample_is_boundary_prefix:
  "\<exists>e. sample_first_256_bytes raw = take e raw \<and> e \<le> 256 \<and> e \<le> length raw \<and> is_char_boundary raw e"
proof -
  have "sample_end raw (min (length raw) 256) \<le> min (length raw) 256"
    by (rule sample_end_le)
  then show ?thesis
    using sample_end_boundary [of raw "min (length raw) 256"]
    by (intro exI [of _ "sample_end raw (min (length raw) 256)"]) (auto simp: sample_first_256_bytes_def)
qed

end
