(* ===== verification/Template.thy ===== *)
theory Template
  imports Core_Types "HOL-Library.Char_ord" "HOL-Library.List_Lexorder"
begin

text \<open>
  Templates and similarity: the stored template tokens, leaves and upstream associations of
  \<open>crates/ourios-miner/src/tree.rs\<close>, the canonical template text (\<open>format_template\<close>,
  \<open>parse_template\<close>) and Drain similarity of \<open>crates/ourios-miner/src/sim_seq.rs\<close>. A \<open>BTreeSet\<close>
  of strings is its ascending list; a panic of \<open>sim_seq\<close> is \<^term>\<open>None\<close>.
\<close>

section \<open>Tokens, leaves, associations\<close>

datatype owned_token = Fixed bytes | Wildcard

fun is_wildcard :: "owned_token \<Rightarrow> bool" where
  "is_wildcard Wildcard = True"
| "is_wildcard (Fixed _) = False"

definition wildcard_count :: "owned_token list \<Rightarrow> nat" where
  "wildcard_count t = length (filter is_wildcard t)"

record upstream_associations =
  ua_strings :: "bytes list"
  ua_overflow :: nat

datatype association_outcome = Recorded | AlreadyKnown | Overflowed

definition ua_default :: upstream_associations where
  "ua_default = \<lparr>ua_strings = [], ua_overflow = 0\<rparr>"

definition ua_observe ::
  "upstream_associations \<Rightarrow> bytes \<Rightarrow> nat \<Rightarrow> upstream_associations \<times> association_outcome" where
  "ua_observe ua template bound =
     (if template \<in> set (ua_strings ua) then (ua, AlreadyKnown)
      else if length (ua_strings ua) \<ge> bound then (ua\<lparr>ua_overflow := ua_overflow ua + 1\<rparr>, Overflowed)
      else (ua\<lparr>ua_strings := insort template (ua_strings ua)\<rparr>, Recorded))"

definition ua_from_parts :: "bytes list \<Rightarrow> nat \<Rightarrow> upstream_associations" where
  "ua_from_parts stored overflow = \<lparr>ua_strings = sorted_list_of_set (set stored), ua_overflow = overflow\<rparr>"

definition ua_ok :: "nat \<Rightarrow> upstream_associations \<Rightarrow> bool" where
  "ua_ok bound ua \<longleftrightarrow> sorted (ua_strings ua) \<and> distinct (ua_strings ua) \<and> length (ua_strings ua) \<le> bound"

record leaf =
  lf_template :: "owned_token list"
  lf_template_id :: nat
  lf_template_version :: nat
  lf_severity_number :: nat
  lf_scope_name :: "bytes option"
  lf_slot_types :: "slot_types list"
  lf_provenance :: provenance_set
  lf_associations :: upstream_associations

definition associate_upstream :: "leaf \<Rightarrow> bytes option \<Rightarrow> nat \<Rightarrow> leaf" where
  "associate_upstream l observed bound =
     (case observed of
        None \<Rightarrow> l
      | Some s \<Rightarrow> l\<lparr>lf_associations := fst (ua_observe (lf_associations l) s bound)\<rparr>)"

section \<open>Canonical text\<close>

fun token_text :: "owned_token \<Rightarrow> bytes" where
  "token_text (Fixed s) = s"
| "token_text Wildcard = ''<*>''"

definition format_template :: "owned_token list \<Rightarrow> bytes" where
  "format_template t = join '' '' (map token_text t)"

definition text_token :: "bytes \<Rightarrow> owned_token" where
  "text_token tok = (if tok = ''<*>'' then Wildcard else Fixed tok)"

definition parse_template :: "bytes \<Rightarrow> owned_token list" where
  "parse_template canonical =
     (if canonical = [] then [] else map text_token (split_on (CHR '' '') canonical))"

section \<open>Similarity\<close>

definition f32_of_nat :: "nat \<Rightarrow> f32" where
  "f32_of_nat n = f32_round (of_nat n)"

definition position_matches :: "bytes list \<Rightarrow> owned_token list \<Rightarrow> nat \<Rightarrow> bool" where
  "position_matches line template i =
     (case template ! i of Wildcard \<Rightarrow> True | Fixed s \<Rightarrow> line ! i = s)"

definition sim_seq :: "bytes list \<Rightarrow> owned_token list \<Rightarrow> f32 option" where
  "sim_seq line template =
     (if length line \<noteq> length template then None
      else if line = [] then None
      else (let n = length line;
                matches = fold (\<lambda>i m. if position_matches line template i then m + 1 else m) [0..<n] 0
            in Some (f32_div (f32_of_nat matches) (f32_of_nat n))))"

definition owned_matches :: "bytes list \<Rightarrow> owned_token list \<Rightarrow> nat list \<Rightarrow> nat \<Rightarrow> bool" where
  "owned_matches line template positions i =
     (case template ! i of
        Wildcard \<Rightarrow> True
      | Fixed s \<Rightarrow>
          (let line_is_mask_emit = binary_search positions i \<noteq> None
           in \<not> line_is_mask_emit \<and> line ! i = s))"

definition sim_seq_owned :: "bytes list \<Rightarrow> owned_token list \<Rightarrow> nat list \<Rightarrow> f32 option" where
  "sim_seq_owned line template positions =
     (if length line \<noteq> length template then None
      else if line = [] then None
      else (let n = length line;
                matches = fold (\<lambda>i m. if owned_matches line template positions i then m + 1 else m) [0..<n] 0
            in Some (f32_div (f32_of_nat matches) (f32_of_nat n))))"

definition confidence_ratio :: "f32 \<Rightarrow> f32 \<Rightarrow> f32 option" where
  "confidence_ratio sim threshold = (if threshold > 0 then Some (f32_div sim threshold) else None)"

section \<open>Lemmas\<close>

lemma ua_ok_default [simp]: "ua_ok bound ua_default"
  by (simp add: ua_ok_def ua_default_def)

lemma ua_ok_observe: "ua_ok bound ua \<Longrightarrow> ua_ok bound (fst (ua_observe ua s bound))"
  by (auto simp: ua_ok_def ua_observe_def sorted_insort distinct_insort set_insort_key)

lemma associate_upstream_simps [simp]:
  "lf_template (associate_upstream l s b) = lf_template l"
  "lf_template_id (associate_upstream l s b) = lf_template_id l"
  "lf_template_version (associate_upstream l s b) = lf_template_version l"
  "lf_severity_number (associate_upstream l s b) = lf_severity_number l"
  "lf_scope_name (associate_upstream l s b) = lf_scope_name l"
  "lf_slot_types (associate_upstream l s b) = lf_slot_types l"
  "lf_provenance (associate_upstream l s b) = lf_provenance l"
  by (simp_all add: associate_upstream_def split: option.split)

lemma fold_count:
  "fold (\<lambda>i m. if P i then m + 1 else m) is (m :: nat) = m + length (filter P is)"
  by (induction "is" arbitrary: m) auto

text \<open>Small integers are exact in \<open>f32\<close>.\<close>

lemma f32_of_nat_exact:
  assumes "n < 2 ^ 24"
  shows "f32_of_nat n = of_nat n"
proof (cases "n = 0")
  case True
  then show ?thesis by (simp add: f32_of_nat_def f32_round_def)
next
  case False
  have qo: "quotient_of (of_nat n :: rat) = (int n, 1)"
    using quotient_of_int [of "int n"] by (simp only: Rat.of_int_def of_int_of_nat_eq)
  have log: "2 ^ nat_log2 n \<le> n" using False nat_log2_bounds [of n] by simp
  have "(2::nat) ^ nat_log2 n < 2 ^ 24" using log assms by (rule le_less_trans)
  then have l24: "nat_log2 n < 24" by (rule power_less_imp_less_exp [rotated]) simp
  have "scale2 (int (nat_log2 n)) 1 = 2 ^ nat_log2 n" by (simp add: scale2_def)
  also have "\<dots> \<le> (of_nat n :: rat)" using of_nat_mono [OF log, where 'a = rat] by simp
  finally have exp: "rat_exponent (of_nat n) = int (nat_log2 n)"
    using qo by (simp add: rat_exponent_def Let_def nat_log2.simps [of "Suc 0"])
  define k where "k = 23 - rat_exponent (of_nat n :: rat)"
  have k: "0 \<le> k" using l24 exp by (simp add: k_def)
  have sc: "scale2 k (of_nat n) = of_int (int n * 2 ^ nat k)"
    using scale2_of_int [OF k, of "int n"] by (simp only: of_int_of_nat_eq)
  then have "round_half_even (scale2 k (of_nat n)) = int n * 2 ^ nat k"
    by (simp only: round_half_even_int)
  then have "scale2 (- k) (of_int (round_half_even (scale2 k (of_nat n)))) = of_nat n"
    using scale2_inverse [of k "of_nat n"] sc by (simp only:)
  then show ?thesis
    using False by (simp add: f32_of_nat_def f32_round_def k_def)
qed

lemma sim_value_one_iff:
  assumes "m \<le> n" and "0 < n" and "n < 65536"
  shows "f32_div (f32_of_nat m) (f32_of_nat n) = 1 \<longleftrightarrow> m = n"
proof
  assume one: "f32_div (f32_of_nat m) (f32_of_nat n) = 1"
  show "m = n"
  proof (rule ccontr)
    assume "m \<noteq> n"
    with assms(1) have mn: "m < n" by simp
    have ex: "f32_of_nat m = of_nat m" "f32_of_nat n = of_nat n"
      using assms by (auto intro: f32_of_nat_exact)
    have "(of_nat m / of_nat n :: rat) \<le> (of_nat n - 1) / of_nat n"
      using mn assms by (intro divide_right_mono) (auto simp flip: of_nat_Suc)
    also have "\<dots> = 1 - 1 / of_nat n" using assms by (simp add: diff_divide_distrib)
    also have "\<dots> \<le> 1 - 1 / 2 ^ 24"
    proof -
      have "(of_nat n :: rat) \<le> 2 ^ 24" using assms(3) by simp
      then show ?thesis using assms(2) by (simp add: frac_le)
    qed
    finally have "f32_round (of_nat m / of_nat n) < 1"
      by (intro f32_round_lt_one) auto
    with one ex show False by (simp add: f32_div_def)
  qed
next
  assume "m = n"
  with assms show "f32_div (f32_of_nat m) (f32_of_nat n) = 1"
    by (simp add: f32_div_def f32_of_nat_exact)
qed

lemma sim_seq_owned_Some:
  "length line = length template \<Longrightarrow> line \<noteq> [] \<Longrightarrow> \<exists>s. sim_seq_owned line template pos = Some s"
  by (simp add: sim_seq_owned_def Let_def)

lemma fixed_text_token: "s \<noteq> ''<*>'' \<Longrightarrow> text_token s = Fixed s"
  by (simp add: text_token_def)

text \<open>The templates the canonical text can carry: no fixed token is empty, holds a space or
  spells the wildcard.\<close>

definition printable :: "owned_token list \<Rightarrow> bool" where
  "printable t \<longleftrightarrow> (\<forall>s. Fixed s \<in> set t \<longrightarrow> s \<noteq> [] \<and> CHR '' '' \<notin> set s \<and> s \<noteq> ''<*>'')"

lemma printable_token:
  assumes "printable t" and "x \<in> set t"
  shows "text_token (token_text x) = x" and "token_text x \<noteq> []" and "CHR '' '' \<notin> set (token_text x)"
  using assms by (cases x; auto simp: printable_def text_token_def)+

lemma parse_format: "printable t \<Longrightarrow> parse_template (format_template t) = t"
proof (cases t)
  case Nil
  then show ?thesis by (simp add: format_template_def parse_template_def)
next
  case (Cons x xs)
  assume p: "printable t"
  have "split_on (CHR '' '') (format_template t) = map token_text t"
    unfolding format_template_def using p Cons printable_token by (intro split_on_join) auto
  moreover have "format_template t \<noteq> []"
    using p Cons printable_token(2) [of t x] by (cases xs) (auto simp: format_template_def)
  ultimately show ?thesis
    using p by (auto simp: parse_template_def printable_token intro: map_idI)
qed

section \<open>Properties\<close>

text \<open>C31. Canonical template text round-trips: parsing the text of a template whose fixed tokens
  are non-empty, free of spaces and different from the wildcard marker gives the template back,
  and printing a parsed text gives the text back for every text.\<close>

theorem template_text_roundtrip:
  "(printable t \<longrightarrow> parse_template (format_template t) = t)
   \<and> format_template (parse_template s) = s"
proof (intro conjI impI)
  show "printable t \<Longrightarrow> parse_template (format_template t) = t" by (rule parse_format)
  have "map token_text (map text_token ts) = ts" for ts
    by (induction ts) (auto simp: text_token_def)
  then show "format_template (parse_template s) = s"
    by (simp add: format_template_def parse_template_def del: map_map)
qed

theorem template_text_roundtrip_witness:
  "printable [Fixed ''user'', Wildcard] \<and> parse_template (format_template [Fixed ''user'', Wildcard])
     = [Fixed ''user'', Wildcard]"
proof -
  have "printable [Fixed ''user'', Wildcard]" by (simp add: printable_def)
  with template_text_roundtrip [of "[Fixed ''user'', Wildcard]" "[]"] show ?thesis by simp
qed



text \<open>The set of upstream strings kept per leaf stays sorted, duplicate-free and within its
  bound, and an observation past the bound changes nothing but the overflow counter.\<close>

theorem associations_bounded:
  assumes "ua_ok bound ua"
  shows "ua_ok bound (fst (ua_observe ua s bound))
         \<and> (snd (ua_observe ua s bound) = Overflowed \<longrightarrow>
              ua_strings (fst (ua_observe ua s bound)) = ua_strings ua
              \<and> ua_overflow (fst (ua_observe ua s bound)) = ua_overflow ua + 1)
         \<and> (snd (ua_observe ua s bound) \<noteq> Overflowed \<longrightarrow> s \<in> set (ua_strings (fst (ua_observe ua s bound))))"
  using ua_ok_observe [OF assms, of s] by (auto simp: ua_observe_def set_insort_key)

theorem associations_bounded_witness:
  "ua_ok 1 (fst (ua_observe ua_default ''t'' 1))"
  using associations_bounded [of 1 ua_default "''t''"] by simp

end
