(* ===== verification/Reconstruct.thy ===== *)
theory Reconstruct
  imports Template "HOL-Library.Monad_Syntax"
begin

text \<open>
  The parameter byte cap of \<open>crates/ourios-miner/src/overflow.rs\<close> and body reconstruction and
  rendering of \<open>crates/ourios-miner/src/reconstruct.rs\<close>. SHA-256 is a parameter. The walk over
  the template indexes the separators and consumes the parameters, so it is partial:
  \<^term>\<open>None\<close> is an index panic, which \<open>reconstruct_total\<close> excludes for \<open>reconstruct\<close> and
  \<open>render\<close>. The reference \<open>fill\<close> puts parameter values into a template's wildcards.
\<close>

section \<open>The parameter cap\<close>

definition overflow_prefix_bytes :: nat where
  "overflow_prefix_bytes = 8"

definition hex_digit :: "nat \<Rightarrow> char" where
  "hex_digit n = (if n < 10 then char_of (48 + n) else char_of (87 + n))"

definition hex_byte :: "char \<Rightarrow> bytes" where
  "hex_byte c = [hex_digit (byte_val c div 16), hex_digit (byte_val c mod 16)]"

definition u32_saturating :: "nat \<Rightarrow> nat" where
  "u32_saturating n = (if n < 2 ^ 32 then n else 2 ^ 32 - 1)"

definition cap_param_value :: "(bytes \<Rightarrow> bytes) \<Rightarrow> param_type \<Rightarrow> bytes \<Rightarrow> nat \<Rightarrow> param" where
  "cap_param_value sha256 type_tag v byte_limit =
     (if length v \<le> byte_limit then \<lparr>pm_type = type_tag, pm_value = v\<rparr>
      else (let len = u32_saturating (length v);
                hex = concat (map hex_byte (take overflow_prefix_bytes (sha256 v)))
            in \<lparr>pm_type = PT_Overflow,
                pm_value = ''OVERFLOW(length='' @ show_nat len @ '',sha256='' @ hex @ '')''\<rparr>))"

definition any_overflow :: "param list \<Rightarrow> bool" where
  "any_overflow params = list_ex (\<lambda>p. pm_type p = PT_Overflow) params"

section \<open>Reconstruction\<close>

definition template_shape_matches_record :: "'av mined_record \<Rightarrow> owned_token list \<Rightarrow> bool" where
  "template_shape_matches_record r template =
     (if length (mr_separators r) \<noteq> length template + 1 then False
      else length (mr_params r) = wildcard_count template)"

definition body_bytes_or_empty :: "'av mined_record \<Rightarrow> bytes" where
  "body_bytes_or_empty r = (case mr_body r of None \<Rightarrow> [] | Some s \<Rightarrow> s)"

fun reconstruct_loop ::
  "nat \<Rightarrow> owned_token list \<Rightarrow> bytes list \<Rightarrow> param list \<Rightarrow> bytes \<Rightarrow> bytes option" where
  "reconstruct_loop i [] seps ps out = Some out"
| "reconstruct_loop i (tok # t) seps ps out = do {
     (out, ps) \<leftarrow> (case tok of
        Fixed s \<Rightarrow> Some (out @ s, ps)
      | Wildcard \<Rightarrow> (case ps of [] \<Rightarrow> None | p # ps' \<Rightarrow> Some (out @ pm_value p, ps')));
     (if i + 1 < length seps then reconstruct_loop (i + 1) t seps ps (out @ seps ! (i + 1)) else None)
   }"

definition reconstruct_from_template :: "'av mined_record \<Rightarrow> owned_token list \<Rightarrow> bytes option" where
  "reconstruct_from_template r template =
     (case mr_separators r of
        [] \<Rightarrow> None
      | s # _ \<Rightarrow> reconstruct_loop 0 template (mr_separators r) (mr_params r) s)"

definition reconstruct :: "'av mined_record \<Rightarrow> owned_token list \<Rightarrow> bytes option" where
  "reconstruct r template =
     (case mr_body_kind r of
        BK_Absent \<Rightarrow> Some []
      | BK_Structured \<Rightarrow> Some (body_bytes_or_empty r)
      | BK_String \<Rightarrow>
          (if mr_lossy_flag r \<or> any_overflow (mr_params r)
              \<or> \<not> template_shape_matches_record r template
           then Some (body_bytes_or_empty r)
           else reconstruct_from_template r template))"

datatype reconstruction = Faithful | RetainedVerbatim

definition render :: "'av mined_record \<Rightarrow> owned_token list \<Rightarrow> (bytes \<times> reconstruction) option" where
  "render r template =
     (case mr_body_kind r of
        BK_Structured \<Rightarrow>
          (case mr_body r of
             Some body \<Rightarrow> Some (body, Faithful)
           | None \<Rightarrow> Some ([], RetainedVerbatim))
      | BK_Absent \<Rightarrow> Some ([], RetainedVerbatim)
      | BK_String \<Rightarrow>
          (let faithful = \<not> mr_lossy_flag r \<and> \<not> any_overflow (mr_params r)
                          \<and> template_shape_matches_record r template
           in if faithful
              then map_option (\<lambda>b. (b, Faithful)) (reconstruct_from_template r template)
              else Some (body_bytes_or_empty r, RetainedVerbatim)))"

section \<open>Reference: filling a template\<close>

fun fill :: "owned_token list \<Rightarrow> bytes list \<Rightarrow> bytes list" where
  "fill [] vs = []"
| "fill (Fixed s # t) vs = s # fill t vs"
| "fill (Wildcard # t) [] = [] # fill t []"
| "fill (Wildcard # t) (v # vs) = v # fill t vs"

lemma fill_len [simp]: "length (fill t vs) = length t"
  by (induction t vs rule: fill.induct) auto

lemma wildcard_count_simps [simp]:
  "wildcard_count [] = 0"
  "wildcard_count (Fixed s # t) = wildcard_count t"
  "wildcard_count (Wildcard # t) = Suc (wildcard_count t)"
  by (simp_all add: wildcard_count_def)

lemma any_overflow_simps [simp]:
  "any_overflow [] = False"
  "any_overflow (p # ps) \<longleftrightarrow> pm_type p = PT_Overflow \<or> any_overflow ps"
  by (simp_all add: any_overflow_def)

lemma cap_value:
  "pm_type (cap_param_value h ty v limit) \<noteq> PT_Overflow \<Longrightarrow> pm_value (cap_param_value h ty v limit) = v"
  by (simp add: cap_param_value_def Let_def split: if_splits)

lemma reconstruct_loop_fill:
  "length seps = i + 1 + length t \<Longrightarrow> length ps = wildcard_count t \<Longrightarrow>
   reconstruct_loop i t seps ps out =
     Some (out @ concat (map2 (@) (fill t (map pm_value ps)) (drop (i + 1) seps)))"
proof (induction t arbitrary: i ps out)
  case (Cons tok t)
  have "i + 1 < length seps" using Cons.prems by simp
  then have d: "drop (Suc i) seps = seps ! Suc i # drop (Suc (Suc i)) seps"
    using Cons_nth_drop_Suc [of "Suc i" seps] by simp
  show ?case
  proof (cases tok)
    case (Fixed s)
    with Cons.prems Cons.IH [of "i + 1" ps "out @ s @ seps ! Suc i"] d show ?thesis by simp
  next
    case Wildcard
    with Cons.prems obtain p ps' where "ps = p # ps'" by (cases ps) auto
    with Wildcard Cons.prems Cons.IH [of "i + 1" ps' "out @ pm_value p @ seps ! Suc i"] d
    show ?thesis by simp
  qed
qed simp

lemma reconstruct_from_template_fill:
  assumes "template_shape_matches_record r t"
  shows "reconstruct_from_template r t =
         Some (interleave (mr_separators r) (fill t (map pm_value (mr_params r))))"
proof -
  have shape: "length (mr_separators r) = length t + 1" "length (mr_params r) = wildcard_count t"
    using assms by (auto simp: template_shape_matches_record_def split: if_splits)
  then obtain s ss where "mr_separators r = s # ss" by (cases "mr_separators r") auto
  with shape reconstruct_loop_fill [of "mr_separators r" 0 t "mr_params r" s] show ?thesis
    by (simp add: reconstruct_from_template_def interleave_def)
qed

lemma reconstruct_Some: "\<exists>b. reconstruct r t = Some b"
  by (auto simp: reconstruct_def reconstruct_from_template_fill split: body_kind.split)

text \<open>The rows that are rebuilt from their template.\<close>

definition clean_row :: "'av mined_record \<Rightarrow> owned_token list \<Rightarrow> bool" where
  "clean_row r t \<longleftrightarrow>
     \<not> mr_lossy_flag r \<and> \<not> any_overflow (mr_params r) \<and> template_shape_matches_record r t"

text \<open>What the emitter of a string record owes its readers: the stored row gives the line back.\<close>

definition record_recovers :: "bytes \<Rightarrow> owned_token list \<Rightarrow> 'av mined_record \<Rightarrow> bool" where
  "record_recovers raw t r \<longleftrightarrow>
     (if mr_lossy_flag r \<or> any_overflow (mr_params r) then mr_body r = Some raw
      else template_shape_matches_record r t
           \<and> interleave (mr_separators r) (fill t (map pm_value (mr_params r))) = raw)"

lemma record_recovers_reconstruct:
  "mr_body_kind r = BK_String \<Longrightarrow> record_recovers raw t r \<Longrightarrow> reconstruct r t = Some raw"
  by (auto simp: record_recovers_def reconstruct_def reconstruct_from_template_fill
      body_bytes_or_empty_def split: if_splits)

section \<open>Properties\<close>

text \<open>C23. Reconstruction and rendering never panic, on any record and any template, however
  corrupt; both give the same bytes. A string row whose flags are clear and whose shape fits the
  template is the template filled with the row's parameters and woven with its separators, and is
  signalled \<open>Faithful\<close>; every other string row shows the retained body and is not.\<close>

theorem reconstruct_total:
  "render r t =
     Some (case mr_body_kind r of
         BK_String \<Rightarrow>
           if clean_row r t then (interleave (mr_separators r) (fill t (map pm_value (mr_params r))), Faithful)
           else (body_bytes_or_empty r, RetainedVerbatim)
       | BK_Structured \<Rightarrow>
           (body_bytes_or_empty r, case mr_body r of None \<Rightarrow> RetainedVerbatim | Some _ \<Rightarrow> Faithful)
       | BK_Absent \<Rightarrow> ([], RetainedVerbatim))
     \<and> reconstruct r t = map_option fst (render r t)"
  by (cases "mr_body_kind r")
     (auto simp: clean_row_def reconstruct_def render_def Let_def reconstruct_from_template_fill
        body_bytes_or_empty_def split: option.split)

text \<open>The byte cap never lets a value longer than the limit into a parameter unmarked, keeps
  a short value and its type as they are, and drops the value's bytes only together with the
  \<open>Overflow\<close> tag.\<close>

theorem cap_param_value_spec:
  "(length v \<le> limit \<longrightarrow> cap_param_value h ty v limit = \<lparr>pm_type = ty, pm_value = v\<rparr>)
   \<and> (length v > limit \<longrightarrow> pm_type (cap_param_value h ty v limit) = PT_Overflow)
   \<and> (pm_type (cap_param_value h ty v limit) \<noteq> PT_Overflow \<longrightarrow>
        pm_value (cap_param_value h ty v limit) = v \<and> length v \<le> limit)"
  by (simp add: cap_param_value_def Let_def)

theorem cap_param_value_spec_witness:
  "cap_param_value (\<lambda>_. []) PT_Num ''42'' 256 = \<lparr>pm_type = PT_Num, pm_value = ''42''\<rparr>
   \<and> pm_type (cap_param_value (\<lambda>_. []) PT_Num ''42'' 1) = PT_Overflow"
  using cap_param_value_spec [of "''42''" 256 "\<lambda>_. []" PT_Num]
    cap_param_value_spec [of "''42''" 1 "\<lambda>_. []" PT_Num] by simp

end
