(* ===== verification/Upstream.thy ===== *)
theory Upstream
  imports Reconstruct
begin

text \<open>
  Upstream templates, \<open>crates/ourios-miner/src/upstream.rs\<close>: the grammar of a
  \<open>log.record.template\<close> value (\<open>parse_upstream_template\<close> is the module's \<open>parse_template\<close>) and
  its alignment against a body. The lemmas show that an admitted template prints and parses
  without loss, and that alignment succeeds exactly for the bodies the template describes, with
  the parameters that rebuild the body byte for byte.
\<close>

section \<open>The grammar\<close>

definition log_record_template_attr :: bytes where
  "log_record_template_attr = ''log.record.template''"

datatype upstream_token = Literal bytes | UWildcard "bytes option"

record upstream_template =
  ut_tokens :: "upstream_token list"
  ut_wildcards :: nat

fun to_owned_token :: "upstream_token \<Rightarrow> owned_token" where
  "to_owned_token (Literal s) = Fixed s"
| "to_owned_token (UWildcard _) = Wildcard"

definition to_owned_tokens :: "upstream_template \<Rightarrow> owned_token list" where
  "to_owned_tokens t = map to_owned_token (ut_tokens t)"

datatype placeholder_kind = Printf | MessageTemplate | ShellVar

datatype grammar_error =
  GE_Empty
| GE_Tokenize tokenize_error
| EmbeddedWildcard nat
| ForeignPlaceholder nat placeholder_kind

definition wildcard_name :: "bytes \<Rightarrow> bytes option" where
  "wildcard_name token = do {
     r \<leftarrow> strip_prefix (CHR ''<'') token;
     inner \<leftarrow> strip_suffix (CHR ''>'') r;
     (if inner \<noteq> [] \<and> \<not> list_ex (\<lambda>c. c = CHR ''<'' \<or> c = CHR ''>'') inner then Some inner else None)
   }"

fun next_is :: "(char \<Rightarrow> bool) \<Rightarrow> bytes \<Rightarrow> bool" where
  "next_is P [] = False"
| "next_is P (n # _) = P n"

fun foreign_placeholder :: "bytes \<Rightarrow> placeholder_kind option" where
  "foreign_placeholder [] = None"
| "foreign_placeholder (b # rest) =
     (if b = CHR ''%'' \<and> next_is is_ascii_alphabetic rest then Some Printf
      else if b = CHR ''$''
           \<and> next_is (\<lambda>n. is_ascii_alphabetic n \<or> n = CHR ''_'' \<or> n = CHR ''{'') rest then Some ShellVar
      else if b = CHR ''{''
           \<and> (case split_once (CHR ''}'') rest of
                None \<Rightarrow> False
              | Some (body, _) \<Rightarrow>
                  list_all (\<lambda>c. is_ascii_alphanumeric c \<or> c = CHR ''_'' \<or> c = CHR ''.'') body)
      then Some MessageTemplate
      else foreign_placeholder rest)"

fun parse_loop ::
  "nat \<Rightarrow> bytes list \<Rightarrow> upstream_token list \<Rightarrow> nat \<Rightarrow> grammar_error + upstream_template" where
  "parse_loop i [] parsed wildcards = Inr \<lparr>ut_tokens = parsed, ut_wildcards = wildcards\<rparr>"
| "parse_loop i (raw # rest) parsed wildcards =
     (case wildcard_name raw of
        Some name \<Rightarrow>
          parse_loop (i + 1) rest
            (parsed @ [UWildcard (if name \<noteq> ''*'' then Some name else None)]) (wildcards + 1)
      | None \<Rightarrow>
          (if contains_sub ''<*>'' raw then Inl (EmbeddedWildcard i)
           else (case foreign_placeholder raw of
                   Some kind \<Rightarrow> Inl (ForeignPlaceholder i kind)
                 | None \<Rightarrow> parse_loop (i + 1) rest (parsed @ [Literal raw]) wildcards)))"

definition parse_upstream_template :: "bytes \<Rightarrow> grammar_error + upstream_template" where
  "parse_upstream_template template =
     (case tokenize template of
        Inl e \<Rightarrow> Inl (GE_Tokenize e)
      | Inr tz \<Rightarrow>
          (if tz_tokens tz = [] then Inl GE_Empty else parse_loop 0 (tz_tokens tz) [] 0))"

section \<open>Alignment\<close>

record aligned_param =
  ap_name :: "bytes option"
  ap_value :: bytes

record alignment =
  al_params :: "aligned_param list"
  al_separators :: "bytes list"

datatype align_error =
  AE_Tokenize tokenize_error
| TokenCountMismatch nat nat
| LiteralMismatch nat

fun align_loop ::
  "nat \<Rightarrow> upstream_token list \<Rightarrow> bytes list \<Rightarrow> aligned_param list \<Rightarrow> align_error + aligned_param list" where
  "align_loop i (Literal s # ts) (b # bs) params =
     (if s \<noteq> b then Inl (LiteralMismatch i) else align_loop (i + 1) ts bs params)"
| "align_loop i (UWildcard name # ts) (b # bs) params =
     align_loop (i + 1) ts bs (params @ [\<lparr>ap_name = name, ap_value = b\<rparr>])"
| "align_loop i _ _ params = Inr params"

definition align :: "upstream_template \<Rightarrow> bytes \<Rightarrow> align_error + alignment" where
  "align template body =
     (case tokenize body of
        Inl e \<Rightarrow> Inl (AE_Tokenize e)
      | Inr tz \<Rightarrow>
          (if length (tz_tokens tz) \<noteq> length (ut_tokens template)
           then Inl (TokenCountMismatch (length (ut_tokens template)) (length (tz_tokens tz)))
           else (case align_loop 0 (ut_tokens template) (tz_tokens tz) [] of
                   Inl e \<Rightarrow> Inl e
                 | Inr params \<Rightarrow> Inr \<lparr>al_params = params, al_separators = tz_separators tz\<rparr>)))"

section \<open>Lemmas\<close>

lemma contains_sub_self: "pat \<noteq> [] \<Longrightarrow> contains_sub pat pat"
  by (auto simp: contains_sub_def list_ex_iff intro: bexI [of _ 0])

lemma parse_loop_tokens:
  "parse_loop i toks parsed w = Inr t \<Longrightarrow>
   \<exists>us. ut_tokens t = parsed @ us \<and> length us = length toks
     \<and> ut_wildcards t = w + wildcard_count (map to_owned_token us)
     \<and> (\<forall>s. Literal s \<in> set us \<longrightarrow> s \<in> set toks \<and> s \<noteq> ''<*>'')"
proof (induction toks arbitrary: i parsed w)
  case (Cons raw rest)
  show ?case
  proof (cases "wildcard_name raw")
    case None
    with Cons.prems have nc: "\<not> contains_sub ''<*>'' raw" and fp: "foreign_placeholder raw = None"
      and p: "parse_loop (i + 1) rest (parsed @ [Literal raw]) w = Inr t"
      by (auto split: if_splits option.splits)
    from Cons.IH [OF p] obtain us where us: "ut_tokens t = (parsed @ [Literal raw]) @ us"
      "length us = length rest" "ut_wildcards t = w + wildcard_count (map to_owned_token us)"
      "\<forall>s. Literal s \<in> set us \<longrightarrow> s \<in> set rest \<and> s \<noteq> ''<*>''" by blast
    have "raw \<noteq> ''<*>''" using nc contains_sub_self [of "''<*>''"] by auto
    with us show ?thesis by (intro exI [of _ "Literal raw # us"]) auto
  next
    case (Some name)
    let ?u = "UWildcard (if name \<noteq> ''*'' then Some name else None)"
    from Some Cons.prems have p: "parse_loop (i + 1) rest (parsed @ [?u]) (w + 1) = Inr t" by simp
    from Cons.IH [OF p] obtain us where us: "ut_tokens t = (parsed @ [?u]) @ us"
      "length us = length rest" "ut_wildcards t = w + 1 + wildcard_count (map to_owned_token us)"
      "\<forall>s. Literal s \<in> set us \<longrightarrow> s \<in> set rest \<and> s \<noteq> ''<*>''" by blast
    then show ?thesis by (intro exI [of _ "?u # us"]) (auto simp del: append.simps)
  qed
qed (auto intro: exI [of _ "[]"])

lemma parse_upstream_ok:
  assumes "parse_upstream_template s = Inr t"
  obtains tz where "tokenize s = Inr tz" "length (ut_tokens t) = length (tz_tokens tz)"
    "ut_tokens t \<noteq> []" "ut_wildcards t = wildcard_count (to_owned_tokens t)"
    "\<And>x. Fixed x \<in> set (to_owned_tokens t) \<Longrightarrow> x \<in> set (tz_tokens tz) \<and> x \<noteq> ''<*>''"
proof -
  obtain tz where tz: "tokenize s = Inr tz" "tz_tokens tz \<noteq> []"
    and p: "parse_loop 0 (tz_tokens tz) [] 0 = Inr t"
    using assms by (auto simp: parse_upstream_template_def split: sum.splits if_splits)
  have "Literal x \<in> set us" if "Fixed x \<in> to_owned_token ` set us" for x us
    using that by (auto elim: to_owned_token.elims [OF sym])
  with parse_loop_tokens [OF p] tz that [of tz] show thesis
    by (fastforce simp: to_owned_tokens_def)
qed

lemma printable_upstream:
  assumes "parse_upstream_template s = Inr t" and "is_str s"
  shows "printable (to_owned_tokens t)"
  using assms(1)
proof (rule parse_upstream_ok)
  fix tz
  assume "tokenize s = Inr tz"
    "\<And>x. Fixed x \<in> set (to_owned_tokens t) \<Longrightarrow> x \<in> set (tz_tokens tz) \<and> x \<noteq> ''<*>''"
  with tokenize_token_no_space [OF _ assms(2)] show ?thesis by (auto simp: printable_def)
qed

lemma align_loop_sound:
  "length us = length bs \<Longrightarrow> align_loop i us bs params = Inr ps \<Longrightarrow>
   \<exists>qs. ps = params @ qs \<and> length qs = wildcard_count (map to_owned_token us)
     \<and> fill (map to_owned_token us) (map ap_value qs) = bs"
proof (induction us bs arbitrary: i params rule: list_induct2)
  case (Cons u us b bs)
  show ?case
  proof (cases u)
    case (Literal s)
    with Cons.prems have "s = b" and p: "align_loop (i + 1) us bs params = Inr ps"
      by (auto split: if_splits)
    with Cons.IH [OF p] Literal show ?thesis by auto
  next
    case (UWildcard n)
    with Cons.prems have p: "align_loop (i + 1) us bs (params @ [\<lparr>ap_name = n, ap_value = b\<rparr>]) = Inr ps"
      by simp
    from Cons.IH [OF p] UWildcard show ?thesis by auto
  qed
qed simp

lemma align_loop_complete:
  "length vs = wildcard_count (map to_owned_token us) \<Longrightarrow>
   \<exists>qs. align_loop i us (fill (map to_owned_token us) vs) params = Inr (params @ qs) \<and> map ap_value qs = vs"
proof (induction us arbitrary: i params vs)
  case (Cons u us)
  show ?case
  proof (cases u)
    case (Literal s)
    with Cons show ?thesis by simp
  next
    case (UWildcard n)
    with Cons.prems obtain v vs' where vs: "vs = v # vs'" by (cases vs) auto
    with Cons.prems UWildcard have "length vs' = wildcard_count (map to_owned_token us)" by simp
    from Cons.IH [OF this, of "i + 1" "params @ [\<lparr>ap_name = n, ap_value = v\<rparr>]"] UWildcard vs
    show ?thesis by auto
  qed
qed simp

lemma align_ok:
  assumes "align t body = Inr a"
  obtains tz where "tokenize body = Inr tz" "al_separators a = tz_separators tz"
    "length (al_params a) = wildcard_count (to_owned_tokens t)"
    "fill (to_owned_tokens t) (map ap_value (al_params a)) = tz_tokens tz"
    "length (ut_tokens t) = length (tz_tokens tz)"
proof -
  obtain tz where tz: "tokenize body = Inr tz" "length (tz_tokens tz) = length (ut_tokens t)"
    and p: "align_loop 0 (ut_tokens t) (tz_tokens tz) [] = Inr (al_params a)"
    and s: "al_separators a = tz_separators tz"
    using assms by (auto simp: align_def split: sum.splits if_splits)
  with align_loop_sound [OF _ p] that [of tz] show thesis by (auto simp: to_owned_tokens_def)
qed

section \<open>Properties\<close>

text \<open>C33. Alignment is sound: when \<open>align\<close> accepts a body, there is one parameter per wildcard,
  one separator more than template tokens, and the template filled with the parameters and woven
  with the separators is the body byte for byte.\<close>

theorem align_sound:
  assumes "align t body = Inr a"
  shows "length (al_params a) = wildcard_count (to_owned_tokens t)
         \<and> length (al_separators a) = length (ut_tokens t) + 1
         \<and> interleave (al_separators a) (fill (to_owned_tokens t) (map ap_value (al_params a))) = body"
  using assms
proof (rule align_ok)
  fix tz
  assume "tokenize body = Inr tz" "al_separators a = tz_separators tz"
    "length (al_params a) = wildcard_count (to_owned_tokens t)"
    "fill (to_owned_tokens t) (map ap_value (al_params a)) = tz_tokens tz"
    "length (ut_tokens t) = length (tz_tokens tz)"
  with tokenize_len [of body tz] tokenize_weave [of body tz] show ?thesis by simp
qed

theorem align_sound_witness:
  "length (al_separators \<lparr>al_params = [\<lparr>ap_name = None, ap_value = ''7''\<rparr>], al_separators = [[], '' '', []]\<rparr>) = 3
   \<and> interleave [[], '' '', []] (fill [Fixed ''n'', Wildcard] [''7'']) = ''n 7''"
proof -
  let ?t = "\<lparr>ut_tokens = [Literal ''n'', UWildcard None], ut_wildcards = 1\<rparr>"
  let ?a = "\<lparr>al_params = [\<lparr>ap_name = None, ap_value = ''7''\<rparr>], al_separators = [[], '' '', []]\<rparr>"
  have "align ?t ''n 7'' = Inr ?a"
    by (simp add: align_def tokenize_eq tok_simps)
  from align_sound [OF this] show ?thesis by (simp add: to_owned_tokens_def)
qed

text \<open>C34. Alignment is complete: a body that tokenizes into the template with some value at each
  wildcard is accepted, and the parameters are those values.\<close>

theorem align_complete:
  assumes "tokenize body = Inr tz" and "tz_tokens tz = fill (to_owned_tokens t) vs"
    and "length vs = wildcard_count (to_owned_tokens t)"
  shows "\<exists>a. align t body = Inr a \<and> map ap_value (al_params a) = vs \<and> al_separators a = tz_separators tz"
proof -
  have "length vs = wildcard_count (map to_owned_token (ut_tokens t))"
    using assms(3) by (simp add: to_owned_tokens_def)
  from align_loop_complete [OF this, of 0 "[]"] assms show ?thesis
    by (auto simp: align_def to_owned_tokens_def)
qed

theorem align_complete_witness:
  "\<exists>a. align \<lparr>ut_tokens = [Literal ''n'', UWildcard None], ut_wildcards = 1\<rparr> ''n 7'' = Inr a
       \<and> map ap_value (al_params a) = [''7'']"
proof -
  have "tokenize ''n 7'' = Inr \<lparr>tz_tokens = [''n'', ''7''], tz_separators = [[], '' '', []]\<rparr>"
    by (simp add: tokenize_eq tok_simps)
  from align_complete [OF this, of "\<lparr>ut_tokens = [Literal ''n'', UWildcard None], ut_wildcards = 1\<rparr>" "[''7'']"]
  show ?thesis by (auto simp: to_owned_tokens_def)
qed

text \<open>C35. What the grammar admits: at least one token, a wildcard count that is the number of
  wildcards, and literals that are never empty, never hold a space and never spell the wildcard
  marker, so that the leaf the template is interned as prints and parses back unchanged.\<close>

theorem upstream_grammar_printable:
  assumes "parse_upstream_template s = Inr t" and "is_str s"
  shows "ut_tokens t \<noteq> [] \<and> ut_wildcards t = wildcard_count (to_owned_tokens t)
         \<and> Template.parse_template (format_template (to_owned_tokens t)) = to_owned_tokens t"
proof -
  have "ut_tokens t \<noteq> []" and "ut_wildcards t = wildcard_count (to_owned_tokens t)"
    using assms(1) by (auto elim: parse_upstream_ok)
  then show ?thesis using parse_format [OF printable_upstream [OF assms]] by simp
qed

theorem upstream_grammar_printable_witness:
  "\<exists>t. parse_upstream_template ''n <id>'' = Inr t \<and> is_str ''n <id>'' \<and> ut_tokens t \<noteq> []"
proof -
  let ?t = "\<lparr>ut_tokens = [Literal ''n'', UWildcard (Some ''id'')], ut_wildcards = 1\<rparr>"
  have p: "parse_upstream_template ''n <id>'' = Inr ?t"
    by (simp add: parse_upstream_template_def tokenize_eq tok_simps wildcard_name_def
        strip_prefix_def strip_suffix_def contains_sub_def upt_rec)
  have s: "is_str ''n <id>''" by (simp add: tok_simps)
  from upstream_grammar_printable [OF p s] p s show ?thesis by blast
qed

end
