(* ===== verification/Attach_Plan.thy ===== *)
theory Attach_Plan
  imports Upstream
begin

text \<open>
  The attach and widening algebra of \<open>crates/ourios-miner/src/cluster/plan.rs\<close>: from a masked
  line and a leaf, decide between reusing the leaf, rejecting a degenerate widening, and mutating
  the leaf (widening, type expansion, or both), and build the record's parameters. Each loop of the
  source is one recursive function over the remaining template that carries the loop's position,
  ordinal and iterators; an index panic or a failed \<open>expect\<close> is \<^term>\<open>None\<close>. The lemmas restate
  every loop over \<open>wpos\<close>, the positions of a template's wildcards.
\<close>

section \<open>Line helpers\<close>

definition params_from_mask :: "(bytes \<Rightarrow> bytes) \<Rightarrow> typed_param list \<Rightarrow> nat \<Rightarrow> param list" where
  "params_from_mask sha256 typed_params byte_limit =
     map (\<lambda>p. cap_param_value sha256 (tp_type p) (tp_value p) byte_limit) typed_params"

definition upstream_template_of ::
  "('av \<Rightarrow> bytes option) \<Rightarrow> 'av otlp_log_record \<Rightarrow> bytes option" where
  "upstream_template_of string_value r = do {
     kv \<leftarrow> find (\<lambda>kv. fst kv = log_record_template_attr) (ol_attributes r);
     av \<leftarrow> snd kv;
     s \<leftarrow> string_value av;
     (if s \<noteq> [] then Some s else None)
   }"

definition param_type_for_line_position ::
  "nat \<Rightarrow> nat list \<Rightarrow> typed_param list \<Rightarrow> param_type option" where
  "param_type_for_line_position p wildcard_positions typed_params =
     (case binary_search wildcard_positions p of
        Some k \<Rightarrow> (if k < length typed_params then Some (tp_type (typed_params ! k)) else None)
      | None \<Rightarrow> Some PT_Str)"

fun leaf_template_from :: "nat \<Rightarrow> nat list \<Rightarrow> bytes list \<Rightarrow> owned_token list" where
  "leaf_template_from p ws [] = []"
| "leaf_template_from p [] (s # ss) = Fixed s # leaf_template_from (p + 1) [] ss"
| "leaf_template_from p (w # ws) (s # ss) =
     (if w = p then Wildcard # leaf_template_from (p + 1) ws ss
      else Fixed s # leaf_template_from (p + 1) (w # ws) ss)"

definition leaf_template :: "masked \<Rightarrow> owned_token list" where
  "leaf_template m = leaf_template_from 0 (mk_positions m) (mk_tokens m)"

fun is_upstream_wildcard :: "upstream_token \<Rightarrow> bool" where
  "is_upstream_wildcard (UWildcard _) = True"
| "is_upstream_wildcard (Literal _) = False"

definition adopted_row_parts ::
  "(bytes \<Rightarrow> bytes) \<Rightarrow> upstream_template \<Rightarrow> alignment \<Rightarrow> masked \<Rightarrow> nat \<Rightarrow> (param list \<times> bytes list) option" where
  "adopted_row_parts sha256 parsed alignment m byte_limit =
     (let wildcard_body_positions =
            map fst (filter (\<lambda>(i, t). is_upstream_wildcard t) (enum_from 0 (ut_tokens parsed)))
      in map_option (\<lambda>params. (params, al_separators alignment))
           (those (map (\<lambda>(p, pos).
               map_option (\<lambda>ty. cap_param_value sha256 ty (ap_value p) byte_limit)
                 (param_type_for_line_position pos (mk_positions m) (mk_params m)))
              (zip (al_params alignment) wildcard_body_positions))))"

section \<open>Slot types\<close>

definition vec_insert :: "'a list \<Rightarrow> nat \<Rightarrow> 'a \<Rightarrow> 'a list option" where
  "vec_insert xs i x = (if i \<le> length xs then Some (take i xs @ x # drop i xs) else None)"

fun update_slots_from ::
  "masked \<Rightarrow> nat \<Rightarrow> nat \<Rightarrow> owned_token list \<Rightarrow> nat list \<Rightarrow> slot_types list \<Rightarrow> slot_types list option" where
  "update_slots_from m p ordinal [] ws st = Some st"
| "update_slots_from m p ordinal (Fixed _ # t) ws st = update_slots_from m (p + 1) ordinal t ws st"
| "update_slots_from m p ordinal (Wildcard # t) ws st =
     (case ws of
        [] \<Rightarrow> update_slots_from m (p + 1) (ordinal + 1) t ws st
      | w # ws' \<Rightarrow>
          (if w = p then do {
             line_type \<leftarrow> param_type_for_line_position p (mk_positions m) (mk_params m);
             st \<leftarrow> vec_insert st ordinal (slot_insert (slot_singleton PT_Str) line_type);
             update_slots_from m (p + 1) (ordinal + 1) t ws' st
           }
           else update_slots_from m (p + 1) (ordinal + 1) t ws st))"

definition update_slot_types_on_widening ::
  "slot_types list \<Rightarrow> owned_token list \<Rightarrow> masked \<Rightarrow> nat list \<Rightarrow> slot_types list option" where
  "update_slot_types_on_widening st post_widen_template m positions_widened =
     update_slots_from m 0 0 post_widen_template positions_widened st"

fun collect_from ::
  "masked \<Rightarrow> slot_types list \<Rightarrow> nat \<Rightarrow> nat \<Rightarrow> owned_token list \<Rightarrow> nat list \<Rightarrow> slot_expansion list option" where
  "collect_from m st p ordinal [] ws = Some []"
| "collect_from m st p ordinal (Fixed _ # t) ws = collect_from m st (p + 1) ordinal t ws"
| "collect_from m st p ordinal (Wildcard # t) ws =
     (if ws \<noteq> [] \<and> hd ws = p then collect_from m st (p + 1) (ordinal + 1) t (tl ws)
      else do {
        line_type \<leftarrow> param_type_for_line_position p (mk_positions m) (mk_params m);
        current_set \<leftarrow> (if ordinal < length st then Some (st ! ordinal) else None);
        out \<leftarrow> collect_from m st (p + 1) (ordinal + 1) t ws;
        Some (if \<not> slot_contains current_set line_type
              then \<lparr>slot_index = ordinal, added_types = [line_type]\<rparr> # out else out)
      })"

definition collect_type_expansions ::
  "owned_token list \<Rightarrow> masked \<Rightarrow> slot_types list \<Rightarrow> nat list \<Rightarrow> slot_expansion list option" where
  "collect_type_expansions template m st skip_positions = collect_from m st 0 0 template skip_positions"

fun apply_type_expansions :: "slot_types list \<Rightarrow> slot_expansion list \<Rightarrow> slot_types list option" where
  "apply_type_expansions st [] = Some st"
| "apply_type_expansions st (e # es) =
     (if slot_index e < length st
      then apply_type_expansions
             (st[slot_index e := foldl slot_insert (st ! slot_index e) (added_types e)]) es
      else None)"

section \<open>Record parameters\<close>

fun build_params_from ::
  "(bytes \<Rightarrow> bytes) \<Rightarrow> nat \<Rightarrow> bytes list \<Rightarrow> nat \<Rightarrow> owned_token list \<Rightarrow> nat list \<Rightarrow> typed_param list
     \<Rightarrow> param list option" where
  "build_params_from sha256 byte_limit masked_strs p [] ws ts = Some []"
| "build_params_from sha256 byte_limit masked_strs p (Fixed _ # t) ws ts =
     build_params_from sha256 byte_limit masked_strs (p + 1) t ws ts"
| "build_params_from sha256 byte_limit masked_strs p (Wildcard # t) ws ts =
     (if ws \<noteq> [] \<and> hd ws = p
      then (case ts of
              [] \<Rightarrow> None
            | tp # ts' \<Rightarrow> do {
                out \<leftarrow> build_params_from sha256 byte_limit masked_strs (p + 1) t (tl ws) ts';
                Some (cap_param_value sha256 (tp_type tp) (tp_value tp) byte_limit # out)
              })
      else if p < length masked_strs
      then do {
        out \<leftarrow> build_params_from sha256 byte_limit masked_strs (p + 1) t ws ts;
        Some (cap_param_value sha256 PT_Str (masked_strs ! p) byte_limit # out)
      }
      else None)"

definition build_record_params ::
  "(bytes \<Rightarrow> bytes) \<Rightarrow> owned_token list \<Rightarrow> masked \<Rightarrow> nat \<Rightarrow> param list option" where
  "build_record_params sha256 template m byte_limit =
     build_params_from sha256 byte_limit (mk_tokens m) 0 template (mk_positions m) (mk_params m)"

section \<open>Widening\<close>

definition find_widening_positions :: "bytes list \<Rightarrow> owned_token list \<Rightarrow> nat list \<Rightarrow> nat list" where
  "find_widening_positions line template positions =
     List.map_filter (\<lambda>(i, l, t).
         case t of
           Fixed s \<Rightarrow>
             (let line_is_mask_emit = binary_search positions i \<noteq> None
              in if \<not> line_is_mask_emit \<and> s = l then None else Some i)
         | Wildcard \<Rightarrow> None)
       (enum_from 0 (zip line template))"

fun degenerate_from :: "nat \<Rightarrow> owned_token list \<Rightarrow> nat list \<Rightarrow> bool" where
  "degenerate_from i [] ws = True"
| "degenerate_from i (Wildcard # t) ws = degenerate_from (i + 1) t ws"
| "degenerate_from i (Fixed _ # t) ws =
     (case ws of
        [] \<Rightarrow> False
      | w # ws' \<Rightarrow> (if w = i then degenerate_from (i + 1) t ws' else False))"

definition would_be_degenerate :: "owned_token list \<Rightarrow> nat list \<Rightarrow> bool" where
  "would_be_degenerate template positions_widened = degenerate_from 0 template positions_widened"

definition apply_widening :: "owned_token list \<Rightarrow> nat list \<Rightarrow> owned_token list" where
  "apply_widening template positions =
     fold (\<lambda>pos t. if pos < length t then t[pos := Wildcard] else t) positions template"

definition positions_to_u16 :: "nat list \<Rightarrow> nat list option" where
  "positions_to_u16 positions = those (map (\<lambda>p. if p \<le> 65535 then Some p else None) positions)"

section \<open>The plan\<close>

datatype attach_plan =
  CleanReuse nat nat "param list"
| Rejected nat nat bytes bytes "nat list"
| Mutated nat "template_change list" nat "param list"

definition plan_attach ::
  "(bytes \<Rightarrow> bytes) \<Rightarrow> leaf \<Rightarrow> masked \<Rightarrow> nat \<Rightarrow> (leaf \<times> attach_plan) option" where
  "plan_attach sha256 l m byte_limit =
     (let positions_widened = find_widening_positions (mk_tokens m) (lf_template l) (mk_positions m) in
      if positions_widened = [] then do {
        expansions \<leftarrow> collect_type_expansions (lf_template l) m (lf_slot_types l) [];
        if expansions = [] then do {
          params \<leftarrow> build_record_params sha256 (lf_template l) m byte_limit;
          Some (l, CleanReuse (lf_template_id l) (lf_template_version l) params)
        } else do {
          slots \<leftarrow> apply_type_expansions (lf_slot_types l) expansions;
          new_version \<leftarrow> checked_succ_u32 (lf_template_version l);
          let template_str = format_template (lf_template l);
          params \<leftarrow> build_record_params sha256 (lf_template l) m byte_limit;
          Some (l\<lparr>lf_slot_types := slots, lf_template_version := new_version\<rparr>,
                Mutated (lf_template_id l)
                  [TypeExpanded (lf_template_version l) new_version template_str template_str expansions]
                  new_version params)
        }
      }
      else if would_be_degenerate (lf_template l) positions_widened then do {
        would_be_positions \<leftarrow> positions_to_u16 positions_widened;
        Some (l, Rejected (lf_template_id l) (lf_template_version l)
                (format_template (lf_template l))
                (format_template (apply_widening (lf_template l) positions_widened))
                would_be_positions)
      }
      else do {
        positions_u16 \<leftarrow> positions_to_u16 positions_widened;
        let template = apply_widening (lf_template l) positions_widened;
        slots \<leftarrow> update_slot_types_on_widening (lf_slot_types l) template m positions_widened;
        version_after_widen \<leftarrow> checked_succ_u32 (lf_template_version l);
        let template_after_widen = format_template template;
        let widened = Widened (lf_template_version l) version_after_widen
              (format_template (lf_template l)) template_after_widen positions_u16;
        expansions \<leftarrow> collect_type_expansions template m slots positions_widened;
        (slots, events, final_version) \<leftarrow>
          (if expansions = [] then Some (slots, [widened], version_after_widen)
           else do {
             slots \<leftarrow> apply_type_expansions slots expansions;
             version_after_expand \<leftarrow> checked_succ_u32 version_after_widen;
             Some (slots,
                   [widened, TypeExpanded version_after_widen version_after_expand
                      template_after_widen template_after_widen expansions],
                   version_after_expand)
           });
        params \<leftarrow> build_record_params sha256 template m byte_limit;
        Some (l\<lparr>lf_template := template, lf_slot_types := slots, lf_template_version := final_version\<rparr>,
              Mutated (lf_template_id l) events final_version params)
      })"

section \<open>Wildcard positions\<close>

fun wpos :: "nat \<Rightarrow> owned_token list \<Rightarrow> nat list" where
  "wpos p [] = []"
| "wpos p (Fixed _ # t) = wpos (Suc p) t"
| "wpos p (Wildcard # t) = p # wpos (Suc p) t"

lemma wpos_len [simp]: "length (wpos p t) = wildcard_count t"
  by (induction p t rule: wpos.induct) auto

lemma wpos_bounds: "q \<in> set (wpos p t) \<Longrightarrow> p \<le> q \<and> q < p + length t"
  by (induction p t rule: wpos.induct) fastforce+

lemma wpos_filter: "wpos p t = filter (\<lambda>i. t ! (i - p) = Wildcard) [p..<p + length t]"
proof (induction p t rule: wpos.induct)
  case (2 p s t)
  have "filter (\<lambda>i. (Fixed s # t) ! (i - p) = Wildcard) [Suc p..<p + length (Fixed s # t)]
        = filter (\<lambda>i. t ! (i - Suc p) = Wildcard) [Suc p..<Suc p + length t]"
    by (rule filter_cong) (auto simp: nth_Cons' diff_Suc split: nat.split)
  moreover have "[p..<p + length (Fixed s # t)] = p # [Suc p..<p + length (Fixed s # t)]"
    by (simp add: upt_conv_Cons del: upt_Suc)
  ultimately show ?case using 2 by (simp del: upt_Suc)
next
  case (3 p t)
  have "filter (\<lambda>i. (Wildcard # t) ! (i - p) = Wildcard) [Suc p..<p + length (Wildcard # t)]
        = filter (\<lambda>i. t ! (i - Suc p) = Wildcard) [Suc p..<Suc p + length t]"
    by (rule filter_cong) (auto simp: nth_Cons' diff_Suc split: nat.split)
  moreover have "[p..<p + length (Wildcard # t)] = p # [Suc p..<p + length (Wildcard # t)]"
    by (simp add: upt_conv_Cons del: upt_Suc)
  ultimately show ?case using 3 by (simp del: upt_Suc)
qed simp

lemma filter_wpos_hd:
  assumes "ws = filter (\<lambda>q. q \<in> S) (wpos (Suc p) t)"
  shows "\<not> (ws \<noteq> [] \<and> hd ws = p)"
  using assms wpos_bounds [of _ "Suc p" t] by (metis filter_is_subset hd_in_set not_less_eq_eq order_refl subsetD)

text \<open>Filling a template with a line's own tokens gives the line back when the fixed tokens are
  the line's.\<close>

lemma fill_wpos:
  assumes "length toks = p + length t"
    and "\<And>i s. i < length t \<Longrightarrow> t ! i = Fixed s \<Longrightarrow> toks ! (p + i) = s"
  shows "fill t (map ((!) toks) (wpos p t)) = drop p toks"
  using assms
proof (induction t arbitrary: p)
  case (Cons x t)
  have d: "drop p toks = toks ! p # drop (Suc p) toks"
    using Cons.prems(1) Cons_nth_drop_Suc [of p toks] by simp
  have "fill t (map ((!) toks) (wpos (Suc p) t)) = drop (Suc p) toks"
    using Cons.prems(1) Cons.prems(2) [of "Suc _"] by (intro Cons.IH) auto
  with d Cons.prems(2) [of 0] show ?case by (cases x) auto
qed simp

section \<open>The loops over wildcard positions\<close>

definition line_type :: "masked \<Rightarrow> nat \<Rightarrow> param_type" where
  "line_type m p = (case param_type_for_line_position p (mk_positions m) (mk_params m) of
     Some ty \<Rightarrow> ty | None \<Rightarrow> PT_Str)"

lemma line_type_Some:
  assumes "masked_ok toks m"
  shows "param_type_for_line_position p (mk_positions m) (mk_params m) = Some (line_type m p)"
    and "line_type m p \<in> {PT_Uuid, PT_Ip, PT_Ts, PT_Num, PT_Str}"
  using assms index_of_Some [of p "mk_positions m"]
  by (auto simp: line_type_def param_type_for_line_position_def binary_search_def masked_ok_def
      split: option.split)

lemma line_type_known: "masked_ok toks m \<Longrightarrow> slot_known (line_type m p)"
  using line_type_Some(2) [of toks m p] by auto

lemma line_type_at:
  "masked_ok toks m \<Longrightarrow> k < length (mk_positions m) \<Longrightarrow>
   line_type m (mk_positions m ! k) = tp_type (mk_params m ! k)"
  by (simp add: line_type_def param_type_for_line_position_def binary_search_def index_of_nth
      ascending_distinct masked_ok_def)

lemma line_type_literal: "p \<notin> set (mk_positions m) \<Longrightarrow> line_type m p = PT_Str"
  using index_of_None [of p "mk_positions m"]
  by (simp add: line_type_def param_type_for_line_position_def binary_search_def)

text \<open>The parameter of a row at line position \<open>q\<close>.\<close>

definition row_param :: "(bytes \<Rightarrow> bytes) \<Rightarrow> nat \<Rightarrow> bytes list \<Rightarrow> masked \<Rightarrow> nat \<Rightarrow> param" where
  "row_param sha256 limit toks m q = cap_param_value sha256 (line_type m q) (toks ! q) limit"

lemma build_params_loop:
  assumes ok: "masked_ok toks m"
  shows "p + length t = length toks \<Longrightarrow> k \<le> length (mk_positions m) \<Longrightarrow>
    (\<forall>j < length (mk_positions m). (j < k \<longleftrightarrow> mk_positions m ! j < p)) \<Longrightarrow>
    (\<forall>q \<in> set (mk_positions m). p \<le> q \<longrightarrow> t ! (q - p) = Wildcard) \<Longrightarrow>
    build_params_from h limit (mk_tokens m) p t (drop k (mk_positions m)) (drop k (mk_params m))
      = Some (map (row_param h limit toks m) (wpos p t))"
proof (induction t arbitrary: p k)
  case (Cons x t)
  let ?P = "mk_positions m" and ?T = "mk_params m"
  have par: "length ?T = length ?P" and lt: "length (mk_tokens m) = length toks"
    using ok by (auto simp: masked_ok_def)
  have dist: "distinct ?P" using ok by (simp add: masked_ok_def ascending_distinct)
  have rest: "\<forall>q \<in> set ?P. Suc p \<le> q \<longrightarrow> t ! (q - Suc p) = Wildcard"
  proof (intro ballI impI)
    fix q
    assume q: "q \<in> set ?P" "Suc p \<le> q"
    then have "(x # t) ! (q - p) = Wildcard" using Cons.prems(4) by auto
    moreover have "q - p = Suc (q - Suc p)" using q(2) by simp
    ultimately show "t ! (q - Suc p) = Wildcard" by simp
  qed
  show ?case
  proof (cases "k < length ?P \<and> ?P ! k = p")
    case True
    then have x: "x = Wildcard" using Cons.prems(4) by (metis diff_self_eq_0 le_refl nth_Cons_0 nth_mem)
    have dP: "drop k ?P = p # drop (Suc k) ?P" and dT: "drop k ?T = ?T ! k # drop (Suc k) ?T"
      using True par by (auto simp: Cons_nth_drop_Suc [symmetric])
    have "\<forall>j < length ?P. (j < Suc k \<longleftrightarrow> ?P ! j < Suc p)"
      using Cons.prems(3) True dist by (metis less_antisym less_Suc_eq nth_eq_iff_index_eq)
    with Cons.IH [of "Suc p" "Suc k"] Cons.prems(1) True rest
    have ih: "build_params_from h limit (mk_tokens m) (Suc p) t (drop (Suc k) ?P) (drop (Suc k) ?T)
          = Some (map (row_param h limit toks m) (wpos (Suc p) t))" by simp
    have "tp_value (?T ! k) = toks ! p" and "tp_type (?T ! k) = line_type m p"
      using True ok line_type_at [OF ok, of k] by (auto simp: masked_ok_def)
    with x dP dT ih show ?thesis by (simp add: row_param_def)
  next
    case False
    have notin: "p \<notin> set ?P"
    proof
      assume "p \<in> set ?P"
      then obtain j where j: "j < length ?P" "?P ! j = p" by (auto simp: in_set_conv_nth)
      with Cons.prems(3) have "k \<le> j" by auto
      with j False have "k < j" by (metis le_neq_implies_less)
      with j(1) ok have "?P ! k < p" using j(2)
        by (metis masked_ok_def sorted_wrt_nth_less)
      with Cons.prems(3) \<open>k < j\<close> j(1) show False by (metis less_irrefl less_trans)
    qed
    then have hd: "\<not> (drop k ?P \<noteq> [] \<and> hd (drop k ?P) = p)"
      by (metis hd_drop_conv_nth nth_mem drop_eq_Nil2 not_le_imp_less)
    have "\<forall>j < length ?P. (j < k \<longleftrightarrow> ?P ! j < Suc p)"
      using Cons.prems(3) notin by (metis less_Suc_eq nth_mem)
    with Cons.IH [of "Suc p" k] Cons.prems(1,2) rest
    have ih: "build_params_from h limit (mk_tokens m) (Suc p) t (drop k ?P) (drop k ?T)
          = Some (map (row_param h limit toks m) (wpos (Suc p) t))" by simp
    have "mk_tokens m ! p = toks ! p"
      using ok notin Cons.prems(1) by (simp add: masked_ok_def)
    moreover have "p < length (mk_tokens m)" using Cons.prems(1) lt by simp
    ultimately show ?thesis
      using ih hd notin by (cases x) (auto simp: row_param_def line_type_literal)
  qed
qed simp

lemma build_record_params_eq:
  assumes "masked_ok toks m" and "length t = length toks"
    and "\<And>q. q \<in> set (mk_positions m) \<Longrightarrow> t ! q = Wildcard"
  shows "build_record_params h t m limit = Some (map (row_param h limit toks m) (wpos 0 t))"
  using build_params_loop [OF assms(1), of 0 t 0 h limit] assms
  by (simp add: build_record_params_def)

text \<open>A parameter list rebuilds the line from a template: one parameter per wildcard, and unless a
  parameter overflowed, filling the template gives the line's tokens.\<close>

definition rebuilds :: "bytes list \<Rightarrow> owned_token list \<Rightarrow> param list \<Rightarrow> bool" where
  "rebuilds toks t ps \<longleftrightarrow> length t = length toks \<and> length ps = wildcard_count t
     \<and> (\<not> any_overflow ps \<longrightarrow> fill t (map pm_value ps) = toks)"

lemma row_params_values:
  "\<not> any_overflow (map (row_param h limit toks m) qs) \<Longrightarrow>
   map pm_value (map (row_param h limit toks m) qs) = map ((!) toks) qs"
  by (induction qs) (auto simp: row_param_def cap_value)

lemma rebuilds_row:
  assumes "length t = length toks" and "\<And>i s. i < length t \<Longrightarrow> t ! i = Fixed s \<Longrightarrow> toks ! i = s"
  shows "rebuilds toks t (map (row_param h limit toks m) (wpos 0 t))"
  using fill_wpos [of toks 0 t] row_params_values [of h limit toks m "wpos 0 t"] assms
  by (simp add: rebuilds_def del: map_map)

section \<open>Fresh leaves\<close>

lemma leaf_template_from_len [simp]: "length (leaf_template_from p ws ss) = length ss"
  by (induction p ws ss rule: leaf_template_from.induct) auto

lemma leaf_template_from_nth:
  "ascending ws \<Longrightarrow> (\<forall>w \<in> set ws. p \<le> w) \<Longrightarrow> i < length ss \<Longrightarrow>
   leaf_template_from p ws ss ! i = (if p + i \<in> set ws then Wildcard else Fixed (ss ! i))"
proof (induction p ws ss arbitrary: i rule: leaf_template_from.induct)
  case (2 p s ss)
  then show ?case by (cases i) auto
next
  case (3 p w ws s ss)
  show ?case
  proof (cases "w = p")
    case True
    with "3.prems" have "\<forall>v \<in> set ws. p + 1 \<le> v" by auto
    with "3.IH"(1) [OF True] "3.prems" True show ?thesis by (cases i) force+
  next
    case False
    with "3.prems" have "\<forall>v \<in> set (w # ws). p + 1 \<le> v" by auto
    with "3.IH"(2) [OF False] "3.prems" False show ?thesis by (cases i) force+
  qed
qed simp

lemma leaf_template_nth:
  assumes "masked_ok toks m" and "i < length toks"
  shows "leaf_template m ! i = (if i \<in> set (mk_positions m) then Wildcard else Fixed (toks ! i))"
  using assms leaf_template_from_nth [of "mk_positions m" 0 i "mk_tokens m"]
  by (simp add: leaf_template_def masked_ok_def)

lemma leaf_template_len: "masked_ok toks m \<Longrightarrow> length (leaf_template m) = length toks"
  by (simp add: leaf_template_def masked_ok_def)

lemma ascending_filter:
  assumes "ascending ps" and "\<forall>p \<in> set ps. p < n"
  shows "filter (\<lambda>i. i \<in> set ps) [0..<n] = ps"
proof (rule sorted_distinct_set_unique)
  show "sorted ps" "distinct ps" using assms(1) by (auto simp: strict_sorted_iff)
qed (use assms(2) in \<open>auto simp: sorted_wrt_filter\<close>)

lemma leaf_template_wpos:
  assumes "masked_ok toks m"
  shows "wpos 0 (leaf_template m) = mk_positions m"
proof -
  have "wpos 0 (leaf_template m) = filter (\<lambda>i. i \<in> set (mk_positions m)) [0..<length toks]"
    unfolding wpos_filter leaf_template_len [OF assms] add_0
    by (rule filter_cong) (auto simp: leaf_template_nth [OF assms])
  also have "\<dots> = mk_positions m"
    using assms by (intro ascending_filter) (auto simp: masked_ok_def in_set_conv_nth)
  finally show ?thesis .
qed

lemma params_from_mask_eq:
  assumes "masked_ok toks m"
  shows "params_from_mask h (mk_params m) limit = map (row_param h limit toks m) (wpos 0 (leaf_template m))"
  unfolding leaf_template_wpos [OF assms]
  using assms line_type_at [OF assms]
  by (intro nth_equalityI) (simp_all add: params_from_mask_def row_param_def masked_ok_def)

lemma rebuilds_fresh:
  "masked_ok toks m \<Longrightarrow> rebuilds toks (leaf_template m) (params_from_mask h (mk_params m) limit)"
  by (subst params_from_mask_eq, assumption, rule rebuilds_row) (auto simp: leaf_template_len leaf_template_nth split: if_splits)

section \<open>Widening\<close>

lemma map_filter_if: "List.map_filter (\<lambda>x. if P x then None else Some x) xs = filter (\<lambda>x. \<not> P x) xs"
  by (induction xs) (auto simp: List.map_filter_simps)

lemma enumerate_zip_nth:
  "length xs = length ys \<Longrightarrow>
   enum_from 0 (zip xs ys) = map (\<lambda>i. (i, xs ! i, ys ! i)) [0..<length xs]"
  by (intro nth_equalityI) (auto simp: nth_enumerate_eq)

lemma map_filter_map': "List.map_filter f (map g xs) = List.map_filter (f \<circ> g) xs"
  by (induction xs) (auto simp: List.map_filter_simps split: option.split)

text \<open>The positions to widen are those where the similarity count finds no match.\<close>

lemma find_widening_eq:
  assumes "length line = length t"
  shows "find_widening_positions line t pos = filter (\<lambda>i. \<not> owned_matches line t pos i) [0..<length t]"
proof -
  have "(\<lambda>(i, l, t). case t of Fixed s \<Rightarrow> let e = binary_search pos i \<noteq> None
             in if \<not> e \<and> s = l then None else Some i | Wildcard \<Rightarrow> None) \<circ> (\<lambda>i. (i, line ! i, t ! i))
        = (\<lambda>i. if owned_matches line t pos i then None else Some i)"
    by (rule ext) (auto simp: owned_matches_def Let_def split: owned_token.split)
  then show ?thesis
    using assms by (simp add: find_widening_positions_def enumerate_zip_nth map_filter_map' map_filter_if)
qed

lemma apply_widening_len [simp]: "length (apply_widening t ps) = length t"
  unfolding apply_widening_def by (induction ps arbitrary: t) auto

lemma apply_widening_nth:
  "i < length t \<Longrightarrow> apply_widening t ps ! i = (if i \<in> set ps then Wildcard else t ! i)"
  unfolding apply_widening_def by (induction ps arbitrary: t) (auto simp: nth_list_update)

lemma positions_u16_Some: "\<forall>p \<in> set ps. p \<le> 65535 \<Longrightarrow> positions_to_u16 ps = Some ps"
  unfolding positions_to_u16_def by (induction ps) auto

lemma degenerate_from_iff:
  "ws = filter (\<lambda>i. t ! (i - p) \<noteq> Wildcard \<and> i \<in> S) [p..<p + length t] \<Longrightarrow>
   degenerate_from p t ws \<longleftrightarrow> (\<forall>i < length t. t ! i \<noteq> Wildcard \<longrightarrow> p + i \<in> S)"
proof (induction t arbitrary: p ws)
  case (Cons x t)
  let ?ws = "filter (\<lambda>i. t ! (i - Suc p) \<noteq> Wildcard \<and> i \<in> S) [Suc p..<Suc p + length t]"
  have "filter (\<lambda>i. (x # t) ! (i - p) \<noteq> Wildcard \<and> i \<in> S) [Suc p..<p + length (x # t)] = ?ws"
    by (rule filter_cong) (auto simp: nth_Cons' diff_Suc split: nat.split)
  moreover have "[p..<p + length (x # t)] = p # [Suc p..<p + length (x # t)]"
    by (simp add: upt_conv_Cons del: upt_Suc)
  ultimately have ws: "ws = (if x \<noteq> Wildcard \<and> p \<in> S then p # ?ws else ?ws)"
    using Cons.prems by (cases "x = Wildcard") (simp_all del: upt_Suc)
  have all: "(\<forall>i < length (x # t). (x # t) ! i \<noteq> Wildcard \<longrightarrow> p + i \<in> S)
      \<longleftrightarrow> (x \<noteq> Wildcard \<longrightarrow> p \<in> S) \<and> (\<forall>i < length t. t ! i \<noteq> Wildcard \<longrightarrow> Suc p + i \<in> S)"
    by (auto simp: All_less_Suc2)
  have nh: "?ws \<noteq> p # r" for r
  proof
    assume "?ws = p # r"
    then have "p \<in> set ?ws" by (simp del: upt_Suc)
    then show False by (simp del: upt_Suc)
  qed
  show ?case
  proof (cases "x = Wildcard")
    case True
    with ws all Cons.IH [of ?ws "Suc p"] show ?thesis by (simp del: upt_Suc)
  next
    case False
    then obtain s where "x = Fixed s" by (cases x) auto
    with False ws all nh Cons.IH [of ?ws "Suc p"] show ?thesis
      by (cases "p \<in> S") (auto split: list.split simp del: upt_Suc)
  qed
qed simp

lemma would_be_degenerate_iff:
  assumes "length line = length t"
  shows "would_be_degenerate t (find_widening_positions line t pos) \<longleftrightarrow>
         (\<forall>i < length t. t ! i \<noteq> Wildcard \<longrightarrow> \<not> owned_matches line t pos i)"
proof -
  have "find_widening_positions line t pos =
        filter (\<lambda>i. t ! (i - 0) \<noteq> Wildcard \<and> i \<in> {i. \<not> owned_matches line t pos i}) [0..<0 + length t]"
    unfolding find_widening_eq [OF assms] add_0 diff_zero
    by (rule filter_cong) (auto simp: owned_matches_def)
  from degenerate_from_iff [OF this] show ?thesis by (simp add: would_be_degenerate_def)
qed

section \<open>Slot types\<close>

definition fresh_slot :: "masked \<Rightarrow> nat \<Rightarrow> slot_types" where
  "fresh_slot m q = slot_insert (slot_singleton PT_Str) (line_type m q)"

lemma update_slots_loop:
  assumes ok: "masked_ok toks m"
  shows "ws = filter (\<lambda>q. q \<in> S) (wpos p t) \<Longrightarrow> length pre = ordinal \<Longrightarrow>
    length st = length (filter (\<lambda>q. q \<notin> S) (wpos p t)) \<Longrightarrow>
    \<exists>new. update_slots_from m p ordinal t ws (pre @ st) = Some (pre @ new)
      \<and> list_all2 (\<lambda>q s. q \<in> S \<longrightarrow> s = fresh_slot m q) (wpos p t) new
      \<and> map snd (filter (\<lambda>(q, s). q \<notin> S) (zip (wpos p t) new)) = st"
proof (induction t arbitrary: p ordinal ws pre st)
  case (Cons x t)
  note ih = Cons.IH [of "filter (\<lambda>q. q \<in> S) (wpos (Suc p) t)" "Suc p"]
  show ?case
  proof (cases x)
    case (Fixed s)
    with Cons.prems ih [of pre ordinal st] show ?thesis by simp
  next
    case Wildcard
    show ?thesis
    proof (cases "p \<in> S")
      case True
      with Wildcard Cons.prems have ws: "ws = p # filter (\<lambda>q. q \<in> S) (wpos (Suc p) t)"
        and len: "length st = length (filter (\<lambda>q. q \<notin> S) (wpos (Suc p) t))" by auto
      from ih [of "pre @ [fresh_slot m p]" "Suc ordinal" st] len Cons.prems(2) obtain new where
        "update_slots_from m (Suc p) (Suc ordinal) t (filter (\<lambda>q. q \<in> S) (wpos (Suc p) t))
            ((pre @ [fresh_slot m p]) @ st) = Some ((pre @ [fresh_slot m p]) @ new)"
        "list_all2 (\<lambda>q s. q \<in> S \<longrightarrow> s = fresh_slot m q) (wpos (Suc p) t) new"
        "map snd (filter (\<lambda>(q, s). q \<notin> S) (zip (wpos (Suc p) t) new)) = st" by auto
      with True Wildcard ws Cons.prems(2) line_type_Some(1) [OF ok, of p] show ?thesis
        by (intro exI [of _ "fresh_slot m p # new"]) (simp add: vec_insert_def fresh_slot_def)
    next
      case False
      with Wildcard Cons.prems obtain s st' where st: "st = s # st'"
        and len: "length st' = length (filter (\<lambda>q. q \<notin> S) (wpos (Suc p) t))"
        by (cases st) auto
      have ws: "ws = filter (\<lambda>q. q \<in> S) (wpos (Suc p) t)" using False Wildcard Cons.prems by simp
      from ih [of "pre @ [s]" "Suc ordinal" st'] len Cons.prems(2) obtain new where
        "update_slots_from m (Suc p) (Suc ordinal) t ws (pre @ s # st') = Some (pre @ s # new)"
        "list_all2 (\<lambda>q s. q \<in> S \<longrightarrow> s = fresh_slot m q) (wpos (Suc p) t) new"
        "map snd (filter (\<lambda>(q, s). q \<notin> S) (zip (wpos (Suc p) t) new)) = st'" using ws by auto
      with False Wildcard st filter_wpos_hd [OF ws] show ?thesis
        by (intro exI [of _ "s # new"]) (auto split: list.split)
    qed
  qed
qed simp

lemma collect_loop:
  assumes ok: "masked_ok toks m"
  shows "ws = filter (\<lambda>q. q \<in> S) (wpos p t) \<Longrightarrow> ordinal + wildcard_count t \<le> length st \<Longrightarrow>
    collect_from m st p ordinal t ws = Some (concat (map (\<lambda>(k, q).
        if q \<in> S \<or> slot_contains (st ! k) (line_type m q) then []
        else [\<lparr>slot_index = k, added_types = [line_type m q]\<rparr>]) (enum_from ordinal (wpos p t))))"
proof (induction t arbitrary: p ordinal ws)
  case (Cons x t)
  note ih = Cons.IH [of "filter (\<lambda>q. q \<in> S) (wpos (Suc p) t)" "Suc p"]
  show ?case
  proof (cases x)
    case (Fixed s)
    with Cons.prems ih [of ordinal] show ?thesis by simp
  next
    case Wildcard
    show ?thesis
    proof (cases "p \<in> S")
      case True
      with Wildcard Cons.prems ih [of "Suc ordinal"] show ?thesis by simp
    next
      case False
      then have ws: "ws = filter (\<lambda>q. q \<in> S) (wpos (Suc p) t)" using Wildcard Cons.prems by simp
      from False Wildcard Cons.prems ih [of "Suc ordinal"] filter_wpos_hd [OF ws] ws
        line_type_Some(1) [OF ok, of p]
      show ?thesis by auto
    qed
  qed
qed simp

lemma apply_expansions:
  "\<forall>e \<in> set es. slot_index e < length st \<and> (\<forall>u \<in> set (added_types e). slot_known u) \<Longrightarrow>
   \<exists>st'. apply_type_expansions st es = Some st' \<and> length st' = length st
     \<and> (\<forall>k < length st. \<forall>u. slot_contains (st' ! k) u \<longleftrightarrow>
          slot_contains (st ! k) u \<or> (\<exists>e \<in> set es. slot_index e = k \<and> u \<in> set (added_types e)))"
proof (induction es arbitrary: st)
  case (Cons e es)
  let ?st = "st[slot_index e := foldl slot_insert (st ! slot_index e) (added_types e)]"
  from Cons.IH [of ?st] Cons.prems obtain st' where st': "apply_type_expansions ?st es = Some st'"
    "length st' = length st"
    "\<forall>k < length st. \<forall>u. slot_contains (st' ! k) u \<longleftrightarrow>
          slot_contains (?st ! k) u \<or> (\<exists>e \<in> set es. slot_index e = k \<and> u \<in> set (added_types e))"
    by auto
  have "slot_contains (foldl slot_insert s (added_types e)) u \<longleftrightarrow> u \<in> set (added_types e) \<or> slot_contains s u" for s u
    using Cons.prems sl.member_fold [of "added_types e" s u]
    by (simp add: slot_contains_def slot_insert_def [abs_def])
  then have "slot_contains (?st ! k) u \<longleftrightarrow>
      slot_contains (st ! k) u \<or> (slot_index e = k \<and> u \<in> set (added_types e))"
    if "k < length st" for k u using that Cons.prems by (auto simp: nth_list_update)
  with st' Cons.prems show ?case by auto
qed simp

text \<open>The slot types of a leaf cover a line: each wildcard's set holds the type the line has at the
  wildcard's position.\<close>

definition covers :: "masked \<Rightarrow> owned_token list \<Rightarrow> slot_types list \<Rightarrow> bool" where
  "covers m t st \<longleftrightarrow> list_all2 (\<lambda>q s. slot_contains s (line_type m q)) (wpos 0 t) st"

lemma expansions_cover:
  assumes ok: "masked_ok toks m" and len: "length st = wildcard_count t"
    and ws: "ws = filter (\<lambda>q. q \<in> S) (wpos 0 t)"
    and S: "\<And>k. k < length st \<Longrightarrow> wpos 0 t ! k \<in> S \<Longrightarrow> slot_contains (st ! k) (line_type m (wpos 0 t ! k))"
  obtains es st' where "collect_type_expansions t m st ws = Some es"
    "apply_type_expansions st es = Some st'" "length st' = wildcard_count t" "covers m t st'"
    "es = [] \<longleftrightarrow> covers m t st"
    "\<forall>k < length st. \<forall>u. slot_contains (st ! k) u \<longrightarrow> slot_contains (st' ! k) u"
proof -
  let ?F = "\<lambda>(k, q). if q \<in> S \<or> slot_contains (st ! k) (line_type m q) then []
        else [\<lparr>slot_index = k, added_types = [line_type m q]\<rparr>]"
  define es where "es = concat (map ?F (enum_from 0 (wpos 0 t)))"
  have col: "collect_type_expansions t m st ws = Some es"
    using collect_loop [OF ok ws, of 0 st] len by (simp add: collect_type_expansions_def es_def)
  have mem: "e \<in> set es \<longleftrightarrow> (\<exists>k < length st. \<not> slot_contains (st ! k) (line_type m (wpos 0 t ! k))
      \<and> e = \<lparr>slot_index = k, added_types = [line_type m (wpos 0 t ! k)]\<rparr>)" for e
    using S len by (fastforce simp: es_def in_set_enumerate_eq split: if_splits)
  have "\<forall>e \<in> set es. slot_index e < length st \<and> (\<forall>u \<in> set (added_types e). slot_known u)"
    using mem line_type_known [OF ok] by auto
  from apply_expansions [OF this] obtain st' where st': "apply_type_expansions st es = Some st'"
    "length st' = length st"
    "\<forall>k < length st. \<forall>u. slot_contains (st' ! k) u \<longleftrightarrow>
          slot_contains (st ! k) u \<or> (\<exists>e \<in> set es. slot_index e = k \<and> u \<in> set (added_types e))" by blast
  have cov: "covers m t st''\<longleftrightarrow> (\<forall>k < length st. slot_contains (st'' ! k) (line_type m (wpos 0 t ! k)))"
    if "length st'' = length st" for st''
    using that len by (simp add: covers_def list_all2_conv_all_nth)
  have "slot_contains (st' ! k) (line_type m (wpos 0 t ! k))" if k: "k < length st" for k
  proof (cases "slot_contains (st ! k) (line_type m (wpos 0 t ! k))")
    case False
    with k mem have "\<lparr>slot_index = k, added_types = [line_type m (wpos 0 t ! k)]\<rparr> \<in> set es" by blast
    with st'(3) k show ?thesis by force
  qed (use st'(3) k in blast)
  with st'(2) have "covers m t st'" by (simp add: cov)
  moreover have "es = [] \<longleftrightarrow> covers m t st"
  proof -
    have "es = [] \<longleftrightarrow> (\<forall>e. e \<notin> set es)" by (cases es) auto
    then show ?thesis unfolding mem cov [OF refl] by auto
  qed
  ultimately show thesis using that [OF col st'(1)] st' len by auto
qed

section \<open>What a plan does\<close>

definition leaf_wf :: "leaf \<Rightarrow> bool" where
  "leaf_wf l \<longleftrightarrow> length (lf_slot_types l) = wildcard_count (lf_template l)"

definition generalises :: "owned_token list \<Rightarrow> owned_token list \<Rightarrow> bool" where
  "generalises t' t \<longleftrightarrow> list_all2 (\<lambda>x y. y = x \<or> y = Wildcard) t t'"

text \<open>What no attach changes.\<close>

definition leaf_frame ::
  "leaf \<Rightarrow> nat \<times> nat \<times> bytes option \<times> provenance_set \<times> upstream_associations" where
  "leaf_frame l = (lf_template_id l, lf_severity_number l, lf_scope_name l, lf_provenance l, lf_associations l)"

text \<open>The events of one attach, in order: each takes the leaf one version up from the text the
  previous one left.\<close>

fun version_chain :: "nat \<Rightarrow> bytes \<Rightarrow> template_change list \<Rightarrow> nat \<Rightarrow> bytes \<Rightarrow> bool" where
  "version_chain v s [] v' s' \<longleftrightarrow> v' = v \<and> s' = s"
| "version_chain v s (Widened ov nv os ns pos # es) v' s' \<longleftrightarrow>
     ov = v \<and> nv = v + 1 \<and> os = s \<and> version_chain nv ns es v' s'"
| "version_chain v s (TypeExpanded ov nv os ns sl # es) v' s' \<longleftrightarrow>
     ov = v \<and> nv = v + 1 \<and> os = s \<and> ns = s \<and> version_chain nv ns es v' s'"
| "version_chain v s (_ # es) v' s' \<longleftrightarrow> False"

definition plan_ok :: "bytes list \<Rightarrow> masked \<Rightarrow> leaf \<Rightarrow> leaf \<Rightarrow> attach_plan \<Rightarrow> bool" where
  "plan_ok toks m l l' plan \<longleftrightarrow>
     (case plan of
        CleanReuse i v ps \<Rightarrow>
          l' = l \<and> i = lf_template_id l \<and> v = lf_template_version l
          \<and> rebuilds toks (lf_template l) ps \<and> covers m (lf_template l) (lf_slot_types l)
      | Rejected i v cur would_be pos \<Rightarrow>
          l' = l \<and> i = lf_template_id l \<and> v = lf_template_version l \<and> pos \<noteq> []
          \<and> cur = format_template (lf_template l)
          \<and> would_be = format_template (replicate (length toks) Wildcard)
      | Mutated i events v ps \<Rightarrow>
          i = lf_template_id l \<and> v = lf_template_version l' \<and> events \<noteq> []
          \<and> version_chain (lf_template_version l) (format_template (lf_template l)) events
               (lf_template_version l') (format_template (lf_template l'))
          \<and> leaf_frame l' = leaf_frame l
          \<and> generalises (lf_template l') (lf_template l)
          \<and> (lf_template l' \<noteq> lf_template l \<longrightarrow> \<not> list_all is_wildcard (lf_template l'))
          \<and> leaf_wf l' \<and> rebuilds toks (lf_template l') ps
          \<and> covers m (lf_template l') (lf_slot_types l'))"

lemma owned_matches_fixed:
  assumes "masked_ok toks m" and "i < length toks" and "t ! i = Fixed s"
    and "owned_matches (mk_tokens m) t (mk_positions m) i"
  shows "toks ! i = s" and "i \<notin> set (mk_positions m)"
  using assms index_of_None [of i "mk_positions m"]
  by (auto simp: owned_matches_def binary_search_def Let_def masked_ok_def)

lemma positions_lt: "masked_ok toks m \<Longrightarrow> q \<in> set (mk_positions m) \<Longrightarrow> q < length toks"
  by (auto simp: masked_ok_def in_set_conv_nth)

lemma checked_succ: "n < 4294967295 \<Longrightarrow> checked_succ_u32 n = Some (Suc n)"
  by (simp add: checked_succ_u32_def)

text \<open>Once every fixed token agrees with the line, the row's parameters rebuild it.\<close>

lemma matching_row:
  assumes ok: "masked_ok toks m" and len: "length t = length toks"
    and match: "\<And>i s. i < length toks \<Longrightarrow> t ! i = Fixed s \<Longrightarrow> toks ! i = s \<and> i \<notin> set (mk_positions m)"
  obtains ps where "build_record_params h t m limit = Some ps" "rebuilds toks t ps"
proof -
  have "t ! q = Wildcard" if "q \<in> set (mk_positions m)" for q
    using match [of q] positions_lt [OF ok that] that by (cases "t ! q") auto
  then show thesis
    using that build_record_params_eq [OF ok len] rebuilds_row [OF len] match len by simp
qed

lemma plan_matching:
  assumes ok: "masked_ok toks m" and len: "length (lf_template l) = length toks" and wf: "leaf_wf l"
    and ver: "lf_template_version l + 2 \<le> 4294967295"
    and w: "find_widening_positions (mk_tokens m) (lf_template l) (mk_positions m) = []"
  shows "\<exists>l' plan. plan_attach h l m limit = Some (l', plan) \<and> plan_ok toks m l l' plan"
proof -
  let ?t = "lf_template l"
  have lt: "length (mk_tokens m) = length ?t" using ok len by (simp add: masked_ok_def)
  have all: "owned_matches (mk_tokens m) ?t (mk_positions m) i" if "i < length toks" for i
    using w that len by (auto simp: find_widening_eq [OF lt] filter_empty_conv)
  obtain ps where ps: "build_record_params h ?t m limit = Some ps" "rebuilds toks ?t ps"
    by (rule matching_row [OF ok len]) (use owned_matches_fixed [OF ok _ _ all] in blast)+
  obtain es st' where es: "collect_type_expansions ?t m (lf_slot_types l) [] = Some es"
    "apply_type_expansions (lf_slot_types l) es = Some st'" "length st' = wildcard_count ?t"
    "covers m ?t st'" "es = [] \<longleftrightarrow> covers m ?t (lf_slot_types l)"
    by (rule expansions_cover [OF ok wf [unfolded leaf_wf_def], of "[]" "{}"], simp, simp) (rule that)
  have "generalises ?t ?t" by (simp add: generalises_def list_all2_refl)
  with ps es wf ver w checked_succ [of "lf_template_version l"] show ?thesis
    by (cases "es = []")
       (auto simp: plan_attach_def Let_def plan_ok_def leaf_wf_def leaf_frame_def)
qed

lemma plan_rejected:
  assumes ok: "masked_ok toks m" and len: "length (lf_template l) = length toks"
    and short: "length toks \<le> 65535"
    and w: "find_widening_positions (mk_tokens m) (lf_template l) (mk_positions m) = ws" "ws \<noteq> []"
    and deg: "would_be_degenerate (lf_template l) ws"
  shows "\<exists>plan. plan_attach h l m limit = Some (l, plan) \<and> plan_ok toks m l l plan"
proof -
  let ?t = "lf_template l"
  have lt: "length (mk_tokens m) = length ?t" using ok len by (simp add: masked_ok_def)
  have ws: "ws = filter (\<lambda>i. \<not> owned_matches (mk_tokens m) ?t (mk_positions m) i) [0..<length ?t]"
    using w(1) by (simp add: find_widening_eq [OF lt])
  have "apply_widening ?t ws ! i = Wildcard" if "i < length toks" for i
    using that deg would_be_degenerate_iff [OF lt, of "mk_positions m"] w(1) len
    by (auto simp: apply_widening_nth ws)
  then have "apply_widening ?t ws = replicate (length toks) Wildcard"
    using len by (intro nth_equalityI) auto
  moreover have "positions_to_u16 ws = Some ws"
    using short len by (intro positions_u16_Some) (auto simp: ws)
  ultimately show ?thesis using w deg by (simp add: plan_attach_def Let_def plan_ok_def)
qed

lemma widened_wpos:
  assumes "length line = length t" and "ws = find_widening_positions line t pos"
  shows "filter (\<lambda>q. q \<in> set ws) (wpos 0 (apply_widening t ws)) = ws"
    and "filter (\<lambda>q. q \<notin> set ws) (wpos 0 (apply_widening t ws)) = wpos 0 t"
proof -
  have ws: "ws = filter (\<lambda>i. \<not> owned_matches line t pos i) [0..<length t]"
    using assms by (simp add: find_widening_eq)
  have mem: "i \<in> set ws \<longleftrightarrow> i < length t \<and> \<not> owned_matches line t pos i" for i by (auto simp: ws)
  have nth: "apply_widening t ws ! i = (if \<not> owned_matches line t pos i then Wildcard else t ! i)"
    if "i < length t" for i
    using that by (auto simp: apply_widening_nth mem)
  have "filter (\<lambda>q. q \<in> set ws) (wpos 0 (apply_widening t ws))
        = filter (\<lambda>i. \<not> owned_matches line t pos i) [0..<length t]"
    unfolding wpos_filter filter_filter by (rule filter_cong) (auto simp: nth mem)
  then show "filter (\<lambda>q. q \<in> set ws) (wpos 0 (apply_widening t ws)) = ws" by (simp only: ws [symmetric])
  have "t ! i = Wildcard \<Longrightarrow> owned_matches line t pos i" for i by (simp add: owned_matches_def)
  then show "filter (\<lambda>q. q \<notin> set ws) (wpos 0 (apply_widening t ws)) = wpos 0 t"
    unfolding wpos_filter filter_filter by (intro filter_cong) (auto simp: nth mem)
qed

lemma plan_widened:
  assumes ok: "masked_ok toks m" and len: "length (lf_template l) = length toks" and wf: "leaf_wf l"
    and short: "length toks \<le> 65535" and ver: "lf_template_version l + 2 \<le> 4294967295"
    and w: "find_widening_positions (mk_tokens m) (lf_template l) (mk_positions m) = ws" "ws \<noteq> []"
    and deg: "\<not> would_be_degenerate (lf_template l) ws"
  shows "\<exists>l' plan. plan_attach h l m limit = Some (l', plan) \<and> plan_ok toks m l l' plan"
proof -
  let ?t = "lf_template l"
  define t' where "t' = apply_widening ?t ws"
  have lt: "length (mk_tokens m) = length ?t" using ok len by (simp add: masked_ok_def)
  have ws: "ws = filter (\<lambda>i. \<not> owned_matches (mk_tokens m) ?t (mk_positions m) i) [0..<length ?t]"
    using w(1) by (simp add: find_widening_eq [OF lt])
  have len': "length t' = length toks" using len by (simp add: t'_def)
  have fixed: "toks ! i = s \<and> i \<notin> set (mk_positions m)" if "i < length toks" "t' ! i = Fixed s" for i s
    using that len owned_matches_fixed [OF ok that(1), of ?t s]
    by (auto simp: t'_def apply_widening_nth ws split: if_splits)
  obtain ps where ps: "build_record_params h t' m limit = Some ps" "rebuilds toks t' ps"
    using matching_row [OF ok len' fixed] by blast
  note wp = widened_wpos [OF lt w(1) [symmetric], folded t'_def]
  obtain new where new: "update_slot_types_on_widening (lf_slot_types l) t' m ws = Some new"
    "list_all2 (\<lambda>q s. q \<in> set ws \<longrightarrow> s = fresh_slot m q) (wpos 0 t') new"
    using update_slots_loop [OF ok wp(1) [symmetric], of "[]" 0 "lf_slot_types l"] wp(2) wf
    by (auto simp: update_slot_types_on_widening_def leaf_wf_def)
  have nlen: "length new = wildcard_count t'" using list_all2_lengthD [OF new(2)] by simp
  have fresh: "slot_contains (new ! k) (line_type m (wpos 0 t' ! k))"
    if "k < length new" "wpos 0 t' ! k \<in> set ws" for k
    using list_all2_nthD2 [OF new(2) that(1)] that(2) line_type_known [OF ok] by (simp add: fresh_slot_def)
  obtain es st' where es: "collect_type_expansions t' m new ws = Some es"
    "apply_type_expansions new es = Some st'" "length st' = wildcard_count t'"
    "covers m t' st'" "es = [] \<longleftrightarrow> covers m t' new"
    by (rule expansions_cover [OF ok nlen wp(1) [symmetric] fresh], assumption, assumption) (rule that)
  have gen: "generalises t' ?t"
    by (auto simp: generalises_def list_all2_conv_all_nth t'_def apply_widening_nth)
  obtain i where "i < length ?t" "?t ! i \<noteq> Wildcard" "i \<notin> set ws"
    using deg would_be_degenerate_iff [OF lt, of "mk_positions m"] w(1) by (auto simp: ws)
  then have live: "\<not> list_all is_wildcard t'"
    by (auto simp: list_all_length t'_def apply_widening_nth intro!: exI [of _ i])
       (metis is_wildcard.elims(2))
  have u16: "positions_to_u16 ws = Some ws"
    using short len by (intro positions_u16_Some) (auto simp: ws)
  from ver have v: "checked_succ_u32 (lf_template_version l) = Some (Suc (lf_template_version l))"
    "checked_succ_u32 (Suc (lf_template_version l)) = Some (Suc (Suc (lf_template_version l)))"
    by (auto intro: checked_succ)
  show ?thesis
    using w deg u16 v new(1) es ps gen live nlen
    by (cases "es = []") (auto simp: plan_attach_def Let_def plan_ok_def leaf_wf_def leaf_frame_def t'_def [symmetric])
qed

lemma plan_attach_ok:
  assumes "masked_ok toks m" and "length (lf_template l) = length toks" and "leaf_wf l"
    and "length toks \<le> 65535" and "lf_template_version l + 2 \<le> 4294967295"
  shows "\<exists>l' plan. plan_attach h l m limit = Some (l', plan) \<and> plan_ok toks m l l' plan"
proof (cases "find_widening_positions (mk_tokens m) (lf_template l) (mk_positions m) = []")
  case True
  then show ?thesis by (rule plan_matching [OF assms(1-3,5)])
next
  case False
  then show ?thesis
    using plan_rejected [OF assms(1,2,4) refl False] plan_widened [OF assms refl False] by blast
qed

lemma generalises_len: "generalises t' t \<Longrightarrow> length t' = length t"
  unfolding generalises_def by (drule list_all2_lengthD) simp

lemma plan_attach_frame:
  assumes "plan_ok toks m l l' plan" and "leaf_wf l"
  shows "leaf_wf l'" and "leaf_frame l' = leaf_frame l"
    and "length (lf_template l') = length (lf_template l)"
  using assms by (cases plan; simp add: plan_ok_def generalises_len)+

section \<open>Properties\<close>

text \<open>C22. The attach plan is total and correct. For a masked line and a well-formed leaf of the
  same length it never panics, and: a clean reuse leaves the leaf alone and its slot types already
  cover the line; a rejection leaves the leaf alone and means the widened template would have been
  all wildcards; a mutation only generalises the leaf, keeps it well formed and, if it widened it,
  keeps a fixed token, and its events chain the versions and texts from the old leaf to the new.
  In both accepting cases the parameters rebuild the line from the leaf's resulting template.\<close>

theorem plan_attach_correct:
  assumes "masked_ok toks m" and "length (lf_template l) = length toks" and "leaf_wf l"
    and "length toks \<le> 65535" and "lf_template_version l + 2 \<le> 4294967295"
  shows "\<exists>l' plan. plan_attach sha256 l m limit = Some (l', plan) \<and> plan_ok toks m l l' plan"
  using assms by (rule plan_attach_ok)

theorem plan_attach_correct_witness:
  "\<exists>l' plan. plan_attach (\<lambda>_. []) \<lparr>lf_template = [Fixed ''a'', Fixed ''b''], lf_template_id = 1,
       lf_template_version = 1, lf_severity_number = 9, lf_scope_name = None, lf_slot_types = [],
       lf_provenance = prov_singleton Mined, lf_associations = ua_default\<rparr> (mask_tokens [''a'', ''7'']) 256
     = Some (l', plan)"
proof -
  let ?l = "\<lparr>lf_template = [Fixed ''a'', Fixed ''b''], lf_template_id = 1,
       lf_template_version = 1, lf_severity_number = 9, lf_scope_name = None, lf_slot_types = [],
       lf_provenance = prov_singleton Mined, lf_associations = ua_default\<rparr>"
  have "masked_ok [''a'', ''7''] (mask_tokens [''a'', ''7''])" by (rule masked_ok_mask)
  from plan_attach_correct [OF this, of ?l "\<lambda>_. []" 256] show ?thesis by (auto simp: leaf_wf_def)
qed

end
