(* ===== verification/Prefix_Tree.thy ===== *)
theory Prefix_Tree
  imports Attach_Plan
begin

text \<open>
  The Drain prefix tree of \<open>crates/ourios-miner/src/tree.rs\<close>: length buckets, prefix nodes keyed by
  masked token, the wildcard child that bounds a node's fan-out, the read-only and the mutating
  descent, exact lookup and the leaf traversals. A \<open>HashMap\<close> is an association list. The source's
  \<open>descend_mut\<close> hands out a mutable reference to the node reached; here it takes what the caller
  does with that node as a function and returns the updated tree and the function's result.
  \<open>find_exact_mut\<close> hands out a reference to a leaf; here it returns the leaf's location, and
  \<open>update_at\<close> writes through it. An \<open>assert!\<close> that fails is \<^term>\<open>None\<close>.
\<close>

section \<open>The tree\<close>

datatype prefix_node = Node (children: "(bytes, prefix_node) hash_map") (leaves: "leaf list")

definition default_node :: prefix_node where
  "default_node = Node [] []"

record drain_tree =
  by_length :: "(nat, prefix_node) hash_map"

definition tree_new :: drain_tree where
  "tree_new = \<lparr>by_length = []\<rparr>"

definition wildcard_child :: bytes where
  "wildcard_child = ''<*>''"

definition keyed_children :: "prefix_node \<Rightarrow> nat" where
  "keyed_children n =
     length (children n) - (if hm_get (children n) wildcard_child \<noteq> None then 1 else 0)"

fun descend_immutable :: "prefix_node \<Rightarrow> bytes list \<Rightarrow> nat \<Rightarrow> prefix_node option" where
  "descend_immutable n [] cap = Some n"
| "descend_immutable n (head # tail) cap =
     (case hm_get (children n) head of
        Some child \<Rightarrow> descend_immutable child tail cap
      | None \<Rightarrow>
          (if keyed_children n \<ge> cap
           then (case hm_get (children n) wildcard_child of
                   None \<Rightarrow> None
                 | Some child \<Rightarrow> descend_immutable child tail cap)
           else None))"

definition or_default :: "prefix_node option \<Rightarrow> prefix_node" where
  "or_default e = (case e of None \<Rightarrow> default_node | Some n \<Rightarrow> n)"

fun descend_recursively ::
  "prefix_node \<Rightarrow> bytes list \<Rightarrow> nat \<Rightarrow> (prefix_node \<Rightarrow> prefix_node \<times> 'a) \<Rightarrow> prefix_node \<times> 'a" where
  "descend_recursively n [] cap k = k n"
| "descend_recursively n (head # tail) cap k =
     (if hm_get (children n) head = None \<and> keyed_children n \<ge> cap
      then (let child = or_default (hm_get (children n) wildcard_child);
                (child', r) = descend_recursively child tail cap k
            in (Node (hm_insert wildcard_child child' (children n)) (leaves n), r))
      else (let child = or_default (hm_get (children n) head);
                (child', r) = descend_recursively child tail cap k
            in (Node (hm_insert head child' (children n)) (leaves n), r)))"

definition descend_mut ::
  "drain_tree \<Rightarrow> bytes list \<Rightarrow> nat \<Rightarrow> nat \<Rightarrow> (prefix_node \<Rightarrow> prefix_node \<times> 'a) \<Rightarrow> (drain_tree \<times> 'a) option" where
  "descend_mut t masked depth cap k =
     (if masked = [] then None
      else (let len = length masked;
                bucket = or_default (hm_get (by_length t) len);
                path = take (min depth len) masked;
                (bucket', r) = descend_recursively bucket path cap k
            in Some (t\<lparr>by_length := hm_insert len bucket' (by_length t)\<rparr>, r)))"

definition descend :: "drain_tree \<Rightarrow> bytes list \<Rightarrow> nat \<Rightarrow> nat \<Rightarrow> prefix_node option option" where
  "descend t masked depth cap =
     (if masked = [] then None
      else Some (case hm_get (by_length t) (length masked) of
                   None \<Rightarrow> None
                 | Some bucket \<Rightarrow>
                     descend_immutable bucket (take (min depth (length masked)) masked) cap))"

section \<open>Traversals\<close>

fun count_leaves :: "prefix_node \<Rightarrow> nat" where
  "count_leaves (Node cs ls) = length ls + sum_list (map (\<lambda>kc. count_leaves (snd kc)) cs)"

definition tree_leaf_count :: "drain_tree \<Rightarrow> nat" where
  "tree_leaf_count t = sum_list (map (\<lambda>kn. count_leaves (snd kn)) (by_length t))"

fun collect_leaves_recursive :: "prefix_node \<Rightarrow> leaf list" where
  "collect_leaves_recursive (Node cs ls) =
     ls @ concat (map (\<lambda>kc. collect_leaves_recursive (snd kc)) cs)"

definition collect_leaves :: "drain_tree \<Rightarrow> leaf list" where
  "collect_leaves t = concat (map (\<lambda>kn. collect_leaves_recursive (snd kn)) (by_length t))"

fun collect_routed_recursive :: "bool list \<Rightarrow> prefix_node \<Rightarrow> (leaf \<times> nat list) list" where
  "collect_routed_recursive route (Node cs ls) =
     (let routed = map fst (filter snd (enum_from 0 route))
      in map (\<lambda>l. (l, routed)) ls)
     @ concat (map (\<lambda>kc. collect_routed_recursive (route @ [fst kc = wildcard_child]) (snd kc)) cs)"

definition collect_routed_leaves :: "drain_tree \<Rightarrow> (leaf \<times> nat list) list" where
  "collect_routed_leaves t = concat (map (\<lambda>kn. collect_routed_recursive [] (snd kn)) (by_length t))"

section \<open>Exact lookup\<close>

type_synonym leaf_loc = "bytes list \<times> nat"

definition leaf_is :: "owned_token list \<Rightarrow> nat \<Rightarrow> bytes option \<Rightarrow> leaf \<Rightarrow> bool" where
  "leaf_is template severity scope l \<longleftrightarrow>
     lf_template l = template \<and> lf_severity_number l = severity \<and> lf_scope_name l = scope"

fun min_by_id :: "(leaf_loc \<times> leaf) list \<Rightarrow> (leaf_loc \<times> leaf) option" where
  "min_by_id [] = None"
| "min_by_id (x # xs) =
     Some (fold (\<lambda>y best. if lf_template_id (snd y) < lf_template_id (snd best) then y else best) xs x)"

fun node_find_exact ::
  "owned_token list \<Rightarrow> nat \<Rightarrow> bytes option \<Rightarrow> prefix_node \<Rightarrow> (leaf_loc \<times> leaf) option" where
  "node_find_exact template severity scope (Node cs ls) =
     min_by_id
       (concat (map (\<lambda>kc. case node_find_exact template severity scope (snd kc) of
                      None \<Rightarrow> []
                    | Some (loc, l) \<Rightarrow> [((fst kc # fst loc, snd loc), l)]) cs)
        @ map (\<lambda>(i, l). (([], i), l)) (filter (\<lambda>(i, l). leaf_is template severity scope l) (enum_from 0 ls)))"

definition find_exact ::
  "drain_tree \<Rightarrow> owned_token list \<Rightarrow> nat \<Rightarrow> bytes option \<Rightarrow> (leaf_loc \<times> leaf) option" where
  "find_exact t template severity scope =
     (case hm_get (by_length t) (length template) of
        None \<Rightarrow> None
      | Some bucket \<Rightarrow> node_find_exact template severity scope bucket)"

fun node_update_at :: "bytes list \<Rightarrow> nat \<Rightarrow> (leaf \<Rightarrow> leaf) \<Rightarrow> prefix_node \<Rightarrow> prefix_node" where
  "node_update_at [] i f (Node cs ls) = Node cs (ls[i := f (ls ! i)])"
| "node_update_at (k # ks) i f (Node cs ls) =
     (case hm_get cs k of
        None \<Rightarrow> Node cs ls
      | Some c \<Rightarrow> Node (hm_insert k (node_update_at ks i f c) cs) ls)"

definition update_at :: "drain_tree \<Rightarrow> nat \<Rightarrow> leaf_loc \<Rightarrow> (leaf \<Rightarrow> leaf) \<Rightarrow> drain_tree" where
  "update_at t len loc f =
     (case hm_get (by_length t) len of
        None \<Rightarrow> t
      | Some bucket \<Rightarrow>
          t\<lparr>by_length := hm_insert len (node_update_at (fst loc) (snd loc) f bucket) (by_length t)\<rparr>)"

section \<open>Counting\<close>

lemma count_leaves_eq: "count_leaves n = length (collect_leaves_recursive n)"
  by (induction n) (auto simp: length_concat comp_def intro!: arg_cong [of _ _ sum_list])

lemma tree_leaf_count_eq: "tree_leaf_count t = length (collect_leaves t)"
  by (simp add: tree_leaf_count_def collect_leaves_def length_concat count_leaves_eq comp_def)

lemma routed_leaves_recursive: "map fst (collect_routed_recursive route n) = collect_leaves_recursive n"
  by (induction n arbitrary: route)
     (auto simp: map_concat comp_def intro!: arg_cong [of _ _ concat])

lemma routed_leaves: "map fst (collect_routed_leaves t) = collect_leaves t"
  by (simp add: collect_routed_leaves_def collect_leaves_def map_concat comp_def routed_leaves_recursive)

section \<open>Descent\<close>

text \<open>The child a token routes to, and the node a path ends at in the tree as it stands; a missing
  node counts as empty.\<close>

definition route_key :: "prefix_node \<Rightarrow> bytes \<Rightarrow> nat \<Rightarrow> bytes" where
  "route_key n head cap =
     (if hm_get (children n) head = None \<and> keyed_children n \<ge> cap then wildcard_child else head)"

fun reached :: "prefix_node \<Rightarrow> bytes list \<Rightarrow> nat \<Rightarrow> prefix_node" where
  "reached n [] cap = n"
| "reached n (head # tail) cap = reached (or_default (hm_get (children n) (route_key n head cap))) tail cap"

lemma descend_recursively_Cons:
  "descend_recursively n (head # tail) cap k =
     (let key = route_key n head cap;
          (child', r) = descend_recursively (or_default (hm_get (children n) key)) tail cap k
      in (Node (hm_insert key child' (children n)) (leaves n), r))"
  by (simp add: route_key_def)

lemma reached_default [simp]: "reached default_node path cap = default_node"
  by (induction path) (auto simp: default_node_def or_default_def)

lemma descend_immutable_reached:
  "descend_immutable n path cap = (if \<exists>m. descend_immutable n path cap = Some m then Some (reached n path cap) else None)"
  by (induction n path cap rule: descend_immutable.induct)
     (auto simp: route_key_def or_default_def split: option.splits if_splits)

lemma descend_Some: "descend_immutable n path cap = Some m \<Longrightarrow> reached n path cap = m"
  using descend_immutable_reached [of n path cap] by (auto split: if_splits)

lemma descend_None: "descend_immutable n path cap = None \<Longrightarrow> reached n path cap = default_node"
  by (induction n path cap rule: descend_immutable.induct)
     (auto simp: route_key_def or_default_def split: option.splits if_splits)

lemma descend_result: "snd (descend_recursively n path cap k) = snd (k (reached n path cap))"
  by (induction path arbitrary: n)
     (simp_all add: descend_recursively_Cons case_prod_beta Let_def del: descend_recursively.simps(2))

text \<open>A descent changes the leaves of the node it reaches and no other.\<close>

lemma collect_Node:
  "mset (collect_leaves_recursive (Node cs ls))
   = mset ls + mset (concat (map (\<lambda>kc. collect_leaves_recursive (snd kc)) cs))"
  by simp

lemma descend_mset:
  obtains R where "mset (collect_leaves_recursive n) = R + mset (collect_leaves_recursive (reached n path cap))"
    and "mset (collect_leaves_recursive (fst (descend_recursively n path cap k)))
         = R + mset (collect_leaves_recursive (fst (k (reached n path cap))))"
proof (induction path arbitrary: n thesis)
  case Nil
  from Nil [of "{#}"] show ?case by simp
next
  case (Cons head tail)
  let ?key = "route_key n head cap" and ?f = "\<lambda>kc. collect_leaves_recursive (snd kc)"
  let ?c = "or_default (hm_get (children n) ?key)"
  obtain R where R: "mset (concat (map ?f (children n))) = R + mset (collect_leaves_recursive ?c)"
    "\<And>v. mset (concat (map ?f (hm_insert ?key v (children n)))) = R + mset (collect_leaves_recursive v)"
    using mset_entry_split [of ?f ?key default_node "children n"]
    by (auto simp: or_default_def default_node_def)
  obtain Q where Q: "mset (collect_leaves_recursive ?c) = Q + mset (collect_leaves_recursive (reached ?c tail cap))"
    "mset (collect_leaves_recursive (fst (descend_recursively ?c tail cap k)))
         = Q + mset (collect_leaves_recursive (fst (k (reached ?c tail cap))))"
    using Cons.IH by blast
  have n: "n = Node (children n) (leaves n)" by simp
  show ?case
  proof (rule Cons.prems [of "mset (leaves n) + R + Q"])
    show "mset (collect_leaves_recursive n)
          = mset (leaves n) + R + Q + mset (collect_leaves_recursive (reached n (head # tail) cap))"
      by (subst n, subst collect_Node) (simp add: R Q ac_simps)
    show "mset (collect_leaves_recursive (fst (descend_recursively n (head # tail) cap k)))
          = mset (leaves n) + R + Q + mset (collect_leaves_recursive (fst (k (reached n (head # tail) cap))))"
      unfolding descend_recursively_Cons Let_def case_prod_beta fst_conv collect_Node R Q
      by (simp add: ac_simps)
  qed
qed

section \<open>Well-formed trees\<close>

fun node_wf :: "prefix_node \<Rightarrow> bool" where
  "node_wf (Node cs ls) \<longleftrightarrow> hm_wf cs \<and> list_all (\<lambda>kc. node_wf (snd kc)) cs"

definition tree_wf :: "drain_tree \<Rightarrow> bool" where
  "tree_wf t \<longleftrightarrow> hm_wf (by_length t)
     \<and> (\<forall>(n, b) \<in> set (by_length t). node_wf b
          \<and> (\<forall>l \<in> set (collect_leaves_recursive b). length (lf_template l) = n))"

definition tree_reached :: "drain_tree \<Rightarrow> bytes list \<Rightarrow> nat \<Rightarrow> nat \<Rightarrow> prefix_node" where
  "tree_reached t masked depth cap =
     reached (or_default (hm_get (by_length t) (length masked))) (take (min depth (length masked)) masked) cap"

lemma node_wf_default [simp]: "node_wf default_node"
  by (simp add: default_node_def)

lemma tree_wf_new [simp]: "tree_wf tree_new"
  by (simp add: tree_wf_def tree_new_def)

lemma node_wf_get: "node_wf (Node cs ls) \<Longrightarrow> hm_get cs k = Some c \<Longrightarrow> node_wf c"
  by (auto simp: list_all_iff dest!: map_of_SomeD)

lemma node_wf_child: "node_wf n \<Longrightarrow> node_wf (or_default (hm_get (children n) k))"
  using node_wf_get [of "children n" "leaves n" k] by (auto simp: or_default_def split: option.split)

lemma set_update: "x \<in> set (hm_insert k v m) \<Longrightarrow> x = (k, v) \<or> x \<in> set m"
  by (induction m) (auto split: if_splits)

lemma node_wf_insert: "node_wf (Node cs ls) \<Longrightarrow> node_wf c \<Longrightarrow> node_wf (Node (hm_insert k c cs) ls')"
  by (auto simp: list_all_iff dest!: set_update)

lemma node_wf_reached: "node_wf n \<Longrightarrow> node_wf (reached n path cap)"
  by (induction path arbitrary: n) (auto simp: node_wf_child)

lemma node_wf_descend:
  "node_wf n \<Longrightarrow> node_wf (fst (k (reached n path cap))) \<Longrightarrow> node_wf (fst (descend_recursively n path cap k))"
proof (induction path arbitrary: n)
  case (Cons head tail)
  then have "node_wf (fst (descend_recursively (or_default (hm_get (children n) (route_key n head cap))) tail cap k))"
    by (simp add: node_wf_child)
  with Cons.prems(1) show ?case
    unfolding descend_recursively_Cons Let_def case_prod_beta fst_conv
    by (intro node_wf_insert [of _ "leaves n"]) auto
qed simp

lemma reached_leaves: "l \<in> set (collect_leaves_recursive (reached n path cap)) \<Longrightarrow> l \<in> set (collect_leaves_recursive n)"
  by (rule descend_mset [of n path cap "\<lambda>n. (n, ())"]) (metis mset_eq_setD set_mset_mset set_mset_union UnCI)

lemma bucket_leaves:
  assumes "tree_wf t" and "l \<in> set (collect_leaves_recursive (or_default (hm_get (by_length t) n)))"
  shows "length (lf_template l) = n" and "l \<in> set (collect_leaves t)"
proof -
  obtain b where b: "(n, b) \<in> set (by_length t)" "l \<in> set (collect_leaves_recursive b)"
    using assms(2) by (auto simp: or_default_def default_node_def dest!: map_of_SomeD split: option.splits)
  with assms(1) show "length (lf_template l) = n" by (auto simp: tree_wf_def)
  show "l \<in> set (collect_leaves t)" using b by (force simp: collect_leaves_def)
qed

lemma tree_reached_leaf:
  assumes "tree_wf t" and "l \<in> set (collect_leaves_recursive (tree_reached t masked depth cap))"
  shows "length (lf_template l) = length masked" and "l \<in> set (collect_leaves t)"
  by (rule bucket_leaves [OF assms(1) reached_leaves [OF assms(2) [unfolded tree_reached_def]]])+

lemma own_leaf: "l \<in> set (leaves n) \<Longrightarrow> l \<in> set (collect_leaves_recursive n)"
  by (cases n) auto

lemma descend_cases:
  assumes "masked \<noteq> []"
  shows "descend t masked depth cap = Some (Some n) \<Longrightarrow> tree_reached t masked depth cap = n"
    and "descend t masked depth cap = Some None \<Longrightarrow> tree_reached t masked depth cap = default_node"
    and "descend t masked depth cap \<noteq> None"
  using assms by (auto simp: descend_def tree_reached_def or_default_def descend_Some descend_None
      split: option.splits)

lemma descend_mut_ok:
  assumes "masked \<noteq> []" and "tree_wf t"
    and "node_wf (fst (k (tree_reached t masked depth cap)))"
    and "\<And>l. l \<in> set (collect_leaves_recursive (fst (k (tree_reached t masked depth cap)))) \<Longrightarrow>
           length (lf_template l) = length masked"
  obtains t' R where "descend_mut t masked depth cap k = Some (t', snd (k (tree_reached t masked depth cap)))"
    "mset (collect_leaves t) = R + mset (collect_leaves_recursive (tree_reached t masked depth cap))"
    "mset (collect_leaves t') = R + mset (collect_leaves_recursive (fst (k (tree_reached t masked depth cap))))"
    "tree_wf t'"
proof -
  let ?len = "length masked" and ?f = "\<lambda>kn. collect_leaves_recursive (snd kn)"
  let ?b = "or_default (hm_get (by_length t) ?len)" and ?path = "take (min depth (length masked)) masked"
  let ?N = "tree_reached t masked depth cap" and ?b' = "fst (descend_recursively
      (or_default (hm_get (by_length t) (length masked))) (take (min depth (length masked)) masked) cap k)"
  define t' where "t' = t\<lparr>by_length := hm_insert ?len ?b' (by_length t)\<rparr>"
  obtain R where R: "mset (concat (map ?f (by_length t))) = R + mset (collect_leaves_recursive ?b)"
    "\<And>v. mset (concat (map ?f (hm_insert ?len v (by_length t)))) = R + mset (collect_leaves_recursive v)"
    using mset_entry_split [of ?f ?len default_node "by_length t"]
    by (auto simp: or_default_def default_node_def)
  obtain Q where Q: "mset (collect_leaves_recursive ?b) = Q + mset (collect_leaves_recursive ?N)"
    "mset (collect_leaves_recursive ?b') = Q + mset (collect_leaves_recursive (fst (k ?N)))"
    using descend_mset [of ?b ?path cap k] unfolding tree_reached_def by blast
  have bl: "length (lf_template l) = ?len" if "l \<in> set (collect_leaves_recursive ?b')" for l
  proof -
    have "l \<in># Q \<or> l \<in># mset (collect_leaves_recursive (fst (k ?N)))"
      using that Q(2) by (metis set_mset_mset union_iff)
    with Q(1) bucket_leaves(1) [OF assms(2), of l ?len] assms(4) [of l] show ?thesis
      by (metis set_mset_mset union_iff)
  qed
  have "node_wf ?b" using assms(2) by (auto simp: tree_wf_def or_default_def dest!: map_of_SomeD split: option.split)
  then have "node_wf ?b'" using assms(3) by (intro node_wf_descend) (auto simp: tree_reached_def)
  then have "tree_wf t'"
    using assms(2) bl by (auto simp: tree_wf_def t'_def dest!: set_update)
  moreover have "descend_mut t masked depth cap k = Some (t', snd (k ?N))"
    using assms(1) descend_result [of ?b ?path cap k]
    by (simp add: descend_mut_def Let_def case_prod_beta t'_def tree_reached_def)
  moreover have "mset (collect_leaves t) = R + Q + mset (collect_leaves_recursive ?N)"
    using R(1) Q(1) by (simp add: collect_leaves_def ac_simps)
  moreover have "mset (collect_leaves t') = R + Q + mset (collect_leaves_recursive (fst (k ?N)))"
    using R(2) [of ?b'] Q(2) by (simp add: collect_leaves_def t'_def ac_simps)
  ultimately show thesis using that by blast
qed

section \<open>Exact lookup finds the lowest id\<close>

lemma min_by_id_None: "min_by_id xs = None \<longleftrightarrow> xs = []"
  by (cases xs) auto

lemma min_by_id_fold:
  "fold (\<lambda>y best. if lf_template_id (snd y) < lf_template_id (snd best) then y else best) xs x = z \<Longrightarrow>
   z \<in> set (x # xs) \<and> (\<forall>y \<in> set (x # xs). lf_template_id (snd z) \<le> lf_template_id (snd y))"
  by (induction xs arbitrary: x) (auto split: if_splits, fastforce+)

lemma min_by_id_Some:
  "min_by_id xs = Some z \<Longrightarrow> z \<in> set xs \<and> (\<forall>y \<in> set xs. lf_template_id (snd z) \<le> lf_template_id (snd y))"
  using min_by_id_fold [of "tl xs" "hd xs" z] by (cases xs) simp_all

text \<open>What a location denotes: the leaf can be split off and replaced.\<close>

definition denotes :: "prefix_node \<Rightarrow> leaf_loc \<Rightarrow> leaf \<Rightarrow> bool" where
  "denotes n loc l \<longleftrightarrow> (\<exists>R. mset (collect_leaves_recursive n) = add_mset l R
     \<and> (\<forall>f. mset (collect_leaves_recursive (node_update_at (fst loc) (snd loc) f n)) = add_mset (f l) R
          \<and> node_wf (node_update_at (fst loc) (snd loc) f n)))"

lemma denotes_own:
  assumes "i < length ls" and "node_wf (Node cs ls)"
  shows "denotes (Node cs ls) ([], i) (ls ! i)"
proof -
  have "mset ls = add_mset (ls ! i) (mset ls - {#ls ! i#})" using assms(1) by simp
  moreover have "mset (ls[i := x]) = add_mset x (mset ls - {#ls ! i#})" for x
    using assms(1) by (simp add: mset_update)
  ultimately show ?thesis
    using assms(2) unfolding denotes_def
    by (intro exI [of _ "mset ls - {#ls ! i#} + mset (concat (map (\<lambda>kc. collect_leaves_recursive (snd kc)) cs))"])
       auto
qed

lemma denotes_child:
  assumes "(k, c) \<in> set cs" and "node_wf (Node cs ls)" and "denotes c (ks, i) l"
  shows "denotes (Node cs ls) (k # ks, i) l"
proof -
  let ?f = "\<lambda>kc. collect_leaves_recursive (snd kc)"
  have get: "hm_get cs k = Some c" using assms(1,2) by (simp add: hm_wf_def)
  obtain R where R: "mset (concat (map ?f cs)) = R + mset (collect_leaves_recursive c)"
    "\<And>v. mset (concat (map ?f (hm_insert k v cs))) = R + mset (collect_leaves_recursive v)"
    using mset_update_present [OF get, of ?f] by auto
  obtain Q where Q: "mset (collect_leaves_recursive c) = add_mset l Q"
    "\<And>f. mset (collect_leaves_recursive (node_update_at ks i f c)) = add_mset (f l) Q"
    "\<And>f. node_wf (node_update_at ks i f c)"
    using assms(3) by (auto simp: denotes_def)
  show ?thesis unfolding denotes_def
  proof (intro exI [of _ "mset ls + R + Q"] conjI allI)
    fix f
    show "mset (collect_leaves_recursive (Node cs ls)) = add_mset l (mset ls + R + Q)"
      unfolding collect_Node R Q by (simp add: ac_simps)
    show "mset (collect_leaves_recursive (node_update_at (fst (k # ks, i)) (snd (k # ks, i)) f (Node cs ls)))
          = add_mset (f l) (mset ls + R + Q)"
      using get by (simp add: R Q ac_simps del: collect_leaves_recursive.simps add: collect_Node)
    show "node_wf (node_update_at (fst (k # ks, i)) (snd (k # ks, i)) f (Node cs ls))"
      using get assms(2) Q(3) by (simp add: node_wf_insert del: node_wf.simps)
  qed
qed

lemma node_find_exact_spec:
  assumes "node_wf n"
  shows "case node_find_exact T s c n of
      None \<Rightarrow> \<forall>l \<in> set (collect_leaves_recursive n). \<not> leaf_is T s c l
    | Some (loc, l) \<Rightarrow> leaf_is T s c l \<and> denotes n loc l
        \<and> (\<forall>l' \<in> set (collect_leaves_recursive n). leaf_is T s c l' \<longrightarrow> lf_template_id l \<le> lf_template_id l')"
  using assms
proof (induction n)
  case (Node cs ls)
  let ?sub = "concat (map (\<lambda>kc. case node_find_exact T s c (snd kc) of
                      None \<Rightarrow> [] | Some (loc, l) \<Rightarrow> [((fst kc # fst loc, snd loc), l)]) cs)"
  let ?own = "map (\<lambda>(i, l). (([], i), l)) (filter (\<lambda>(i, l). leaf_is T s c l) (enum_from 0 ls))"
  let ?xs = "?sub @ ?own"
  have ih: "case node_find_exact T s c ch of
      None \<Rightarrow> \<forall>l \<in> set (collect_leaves_recursive ch). \<not> leaf_is T s c l
    | Some (loc, l) \<Rightarrow> leaf_is T s c l \<and> denotes ch loc l
        \<and> (\<forall>l' \<in> set (collect_leaves_recursive ch). leaf_is T s c l' \<longrightarrow> lf_template_id l \<le> lf_template_id l')"
    if "(k, ch) \<in> set cs" for k ch
    using Node.IH [of "(k, ch)" ch] Node.prems that by (auto simp: list_all_iff)
  have mem: "leaf_is T s c l \<and> denotes (Node cs ls) loc l" if "(loc, l) \<in> set ?xs" for loc l
  proof (cases "(loc, l) \<in> set ?own")
    case True
    then obtain i where "loc = ([], i)" "i < length ls" "l = ls ! i" "leaf_is T s c l"
      by (auto simp: in_set_enumerate_eq)
    with denotes_own [OF _ Node.prems] show ?thesis by simp
  next
    case False
    with that obtain k ch loc' where k: "(k, ch) \<in> set cs" "node_find_exact T s c ch = Some (loc', l)"
      "loc = (k # fst loc', snd loc')" by (auto split: option.splits)
    with ih [OF k(1)] denotes_child [OF k(1) Node.prems, of "fst loc'" "snd loc'" l] show ?thesis by simp
  qed
  have cover: "\<exists>x \<in> set ?xs. lf_template_id (snd x) \<le> lf_template_id l"
    if l: "l \<in> set (collect_leaves_recursive (Node cs ls))" "leaf_is T s c l" for l
  proof (cases "l \<in> set ls")
    case True
    then obtain i where "i < length ls" "ls ! i = l" by (auto simp: in_set_conv_nth)
    with l(2) have "(([], i), l) \<in> set ?own" by (force simp: in_set_enumerate_eq)
    then show ?thesis by force
  next
    case False
    with l(1) obtain k ch where k: "(k, ch) \<in> set cs" "l \<in> set (collect_leaves_recursive ch)" by auto
    with ih [OF k(1)] l(2) obtain loc l' where "node_find_exact T s c ch = Some (loc, l')"
      "lf_template_id l' \<le> lf_template_id l" by (auto split: option.splits)
    with k(1) show ?thesis by (intro bexI [of _ "((k # fst loc, snd loc), l')"]) force+
  qed
  show ?case
  proof (cases "node_find_exact T s c (Node cs ls)")
    case None
    then have nil: "?xs = []" by (simp only: node_find_exact.simps min_by_id_None)
    have "\<not> leaf_is T s c l" if "l \<in> set (collect_leaves_recursive (Node cs ls))" for l
      using cover [OF that] unfolding nil by auto
    then show ?thesis unfolding None by simp
  next
    case (Some z)
    then have "min_by_id ?xs = Some z" by simp
    note z = min_by_id_Some [OF this]
    have "lf_template_id (snd z) \<le> lf_template_id l"
      if l: "l \<in> set (collect_leaves_recursive (Node cs ls))" "leaf_is T s c l" for l
    proof -
      obtain x where "x \<in> set ?xs" "lf_template_id (snd x) \<le> lf_template_id l"
        using cover [OF l] by blast
      with z show ?thesis by (meson le_trans)
    qed
    moreover have "leaf_is T s c (snd z) \<and> denotes (Node cs ls) (fst z) (snd z)"
      using mem [of "fst z" "snd z"] z by simp
    ultimately show ?thesis unfolding Some by (simp add: case_prod_beta)
  qed
qed

lemma find_exact_spec:
  assumes "tree_wf t"
  shows "case find_exact t T s c of
      None \<Rightarrow> \<forall>l \<in> set (collect_leaves t). \<not> leaf_is T s c l
    | Some (loc, l) \<Rightarrow> leaf_is T s c l
        \<and> (\<forall>l' \<in> set (collect_leaves t). leaf_is T s c l' \<longrightarrow> lf_template_id l \<le> lf_template_id l')
        \<and> (\<exists>R. mset (collect_leaves t) = add_mset l R
             \<and> (\<forall>f. mset (collect_leaves (update_at t (length T) loc f)) = add_mset (f l) R
                  \<and> (lf_template (f l) = lf_template l \<longrightarrow> tree_wf (update_at t (length T) loc f))))"
proof -
  have elsewhere: "l' \<in> set (collect_leaves_recursive (or_default (hm_get (by_length t) (length T))))"
    if l': "l' \<in> set (collect_leaves t)" "leaf_is T s c l'" for l'
  proof -
    obtain n b where b: "(n, b) \<in> set (by_length t)" "l' \<in> set (collect_leaves_recursive b)"
      using l'(1) by (auto simp: collect_leaves_def)
    then have "n = length T" using assms l'(2) by (auto simp: tree_wf_def leaf_is_def)
    with b assms show ?thesis by (simp add: tree_wf_def hm_wf_def or_default_def)
  qed
  show ?thesis
  proof (cases "hm_get (by_length t) (length T)")
    case None
    then show ?thesis using elsewhere by (auto simp: find_exact_def or_default_def default_node_def)
  next
    case (Some b)
    then have wf: "node_wf b" using assms by (auto simp: tree_wf_def dest!: map_of_SomeD)
    note spec = node_find_exact_spec [OF wf, of T s c]
    let ?f = "\<lambda>kn. collect_leaves_recursive (snd kn)"
    show ?thesis
    proof (cases "node_find_exact T s c b")
      case None
      with Some spec elsewhere show ?thesis by (auto simp: find_exact_def or_default_def)
    next
      case (Some z)
      obtain loc l where z: "z = (loc, l)" by (cases z)
      from spec Some z have l: "leaf_is T s c l" "denotes b loc l"
        "\<And>l'. l' \<in> set (collect_leaves_recursive b) \<Longrightarrow> leaf_is T s c l' \<Longrightarrow> lf_template_id l \<le> lf_template_id l'"
        by auto
      obtain R where R: "mset (concat (map ?f (by_length t))) = R + mset (collect_leaves_recursive b)"
        "\<And>v. mset (concat (map ?f (hm_insert (length T) v (by_length t)))) = R + mset (collect_leaves_recursive v)"
        using mset_update_present [OF \<open>hm_get (by_length t) (length T) = Some b\<close>, of ?f] by auto
      obtain Q where Q: "mset (collect_leaves_recursive b) = add_mset l Q"
        "\<And>f. mset (collect_leaves_recursive (node_update_at (fst loc) (snd loc) f b)) = add_mset (f l) Q"
        "\<And>f. node_wf (node_update_at (fst loc) (snd loc) f b)"
        using l(2) by (auto simp: denotes_def)
      have upd: "update_at t (length T) loc f = t\<lparr>by_length := hm_insert (length T)
          (node_update_at (fst loc) (snd loc) f b) (by_length t)\<rparr>" for f
        using \<open>hm_get (by_length t) (length T) = Some b\<close> by (simp add: update_at_def)
      have len: "length (lf_template x) = length T" if "x \<in># add_mset l Q" for x
        using that bucket_leaves(1) [OF assms, of x "length T"] \<open>hm_get (by_length t) (length T) = Some b\<close> Q(1)
        by (metis option.simps(5) or_default_def set_mset_mset)
      have twf: "tree_wf (update_at t (length T) loc f)" if "lf_template (f l) = lf_template l" for f
      proof -
        have "length (lf_template x) = length T"
          if "x \<in> set (collect_leaves_recursive (node_update_at (fst loc) (snd loc) f b))" for x
        proof -
          have "x \<in># add_mset (f l) Q" using that Q(2) [of f] by (metis set_mset_mset)
          with len [of x] len [of l] \<open>lf_template (f l) = lf_template l\<close> show ?thesis by auto
        qed
        with assms Q(3) [of f] show ?thesis unfolding upd by (auto simp: tree_wf_def dest!: set_update)
      qed
      have "\<exists>R. mset (collect_leaves t) = add_mset l R
             \<and> (\<forall>f. mset (collect_leaves (update_at t (length T) loc f)) = add_mset (f l) R
                  \<and> (lf_template (f l) = lf_template l \<longrightarrow> tree_wf (update_at t (length T) loc f)))"
        by (rule exI [of _ "R + Q"]) (use twf in \<open>simp add: upd collect_leaves_def R Q\<close>)
      with l elsewhere Some z \<open>hm_get (by_length t) (length T) = Some b\<close> show ?thesis
        by (auto simp: find_exact_def or_default_def)
    qed
  qed
qed

section \<open>Fan-out\<close>

fun fanout_ok :: "nat \<Rightarrow> prefix_node \<Rightarrow> bool" where
  "fanout_ok cap (Node cs ls) \<longleftrightarrow>
     keyed_children (Node cs ls) \<le> cap \<and> list_all (\<lambda>kc. fanout_ok cap (snd kc)) cs"

lemma fanout_default [simp]: "fanout_ok cap default_node"
  by (simp add: default_node_def keyed_children_def)

lemma fanout_child: "fanout_ok cap n \<Longrightarrow> fanout_ok cap (or_default (hm_get (children n) k))"
  by (cases n) (auto simp: or_default_def list_all_iff dest!: map_of_SomeD split: option.split)

lemma length_insert: "length (hm_insert k v m) = (if map_of m k = None then Suc (length m) else length m)"
  by (induction m) auto

lemma keyed_children_insert:
  assumes "keyed_children n \<le> cap"
  shows "keyed_children (Node (hm_insert (route_key n head cap) c (children n)) ls) \<le> cap"
proof -
  have "length (children n) \<noteq> 0" if "hm_get (children n) wildcard_child \<noteq> None" using that by auto
  with assms show ?thesis
    by (auto simp: keyed_children_def route_key_def length_insert update_conv split: if_splits)
qed

lemma fanout_descend:
  "fanout_ok cap n \<Longrightarrow> fanout_ok cap (fst (k (reached n path cap))) \<Longrightarrow>
   fanout_ok cap (fst (descend_recursively n path cap k))"
proof (induction path arbitrary: n)
  case (Cons head tail)
  then have c: "fanout_ok cap (fst (descend_recursively (or_default (hm_get (children n) (route_key n head cap))) tail cap k))"
    by (simp add: fanout_child)
  obtain cs ls where n: "n = Node cs ls" by (cases n)
  with Cons.prems(1) have "keyed_children n \<le> cap" "list_all (\<lambda>kc. fanout_ok cap (snd kc)) (children n)" by auto
  with c show ?case
    unfolding descend_recursively_Cons Let_def case_prod_beta fst_conv
    by (auto simp: keyed_children_insert list_all_iff dest!: set_update)
qed simp

section \<open>Properties\<close>

text \<open>C36. The writing descent and the reading descent agree: when \<open>descend\<close> finds a node,
  \<open>descend_mut\<close> hands the caller that very node; when it finds none, the caller gets an empty one.
  Every leaf outside the node handed out is untouched.\<close>

theorem descend_mut_agrees:
  assumes "masked \<noteq> []"
  shows "\<exists>n R t'. (descend t masked depth cap = Some (Some n)
                  \<or> descend t masked depth cap = Some None \<and> n = default_node)
     \<and> descend_mut t masked depth cap k = Some (t', snd (k n))
     \<and> mset (collect_leaves t) = R + mset (collect_leaves_recursive n)
     \<and> mset (collect_leaves t') = R + mset (collect_leaves_recursive (fst (k n)))"
proof -
  let ?N = "tree_reached t masked depth cap" and ?f = "\<lambda>kn. collect_leaves_recursive (snd kn)"
  let ?len = "length masked"
  let ?b = "or_default (hm_get (by_length t) ?len)" and ?path = "take (min depth (length masked)) masked"
  obtain R where R: "mset (concat (map ?f (by_length t))) = R + mset (collect_leaves_recursive ?b)"
    "\<And>v. mset (concat (map ?f (hm_insert ?len v (by_length t)))) = R + mset (collect_leaves_recursive v)"
    using mset_entry_split [of ?f ?len default_node "by_length t"]
    by (auto simp: or_default_def default_node_def)
  obtain Q where Q: "mset (collect_leaves_recursive ?b) = Q + mset (collect_leaves_recursive ?N)"
    "mset (collect_leaves_recursive (fst (descend_recursively ?b ?path cap k)))
       = Q + mset (collect_leaves_recursive (fst (k ?N)))"
    using descend_mset [of ?b ?path cap k] unfolding tree_reached_def by blast
  have "descend t masked depth cap = Some (Some ?N)
        \<or> descend t masked depth cap = Some None \<and> ?N = default_node"
    using descend_cases [OF assms, of t depth cap] by (cases "descend t masked depth cap") (auto, metis not_None_eq)
  moreover have "descend_mut t masked depth cap k = Some (t\<lparr>by_length :=
      hm_insert ?len (fst (descend_recursively ?b ?path cap k)) (by_length t)\<rparr>, snd (k ?N))"
    using assms descend_result [of ?b ?path cap k]
    by (simp add: descend_mut_def Let_def case_prod_beta tree_reached_def)
  ultimately show ?thesis
    using R Q by (intro exI [of _ ?N] exI [of _ "R + Q"] exI conjI)
      (auto simp: collect_leaves_def ac_simps)
qed

theorem descend_mut_agrees_witness:
  "\<exists>t'. descend_mut tree_new [''a''] 2 100 (\<lambda>n. (n, length (leaves n))) = Some (t', 0)"
  using descend_mut_agrees [of "[''a'']" tree_new 2 100 "\<lambda>n. (n, length (leaves n))"]
  by (auto simp: default_node_def descend_def tree_new_def)

text \<open>Fan-out stays bounded: if every node of a bucket has at most \<open>max_node_children\<close> keyed
  children and the caller keeps that at the node it is handed, the descent does too, whatever the
  tokens: the overflow goes through the single wildcard child.\<close>

theorem descend_fanout_bounded:
  assumes "fanout_ok cap n" and "fanout_ok cap (fst (k (reached n path cap)))"
  shows "fanout_ok cap (fst (descend_recursively n path cap k))"
  using assms by (rule fanout_descend)

theorem descend_fanout_bounded_witness:
  "fanout_ok 1 (fst (descend_recursively (Node [(''a'', default_node)] []) [''b''] 1 (\<lambda>n. (n, ()))))"
  by (rule descend_fanout_bounded)
     (auto simp: keyed_children_def wildcard_child_def route_key_def or_default_def)

text \<open>C37. Exact lookup is complete and deterministic: it finds nothing only if no leaf has the
  template, severity and scope, and otherwise the leaf with the lowest id among those that do,
  independently of the hash maps' order; writing through the result replaces that leaf alone.\<close>

theorem find_exact_lowest:
  assumes "tree_wf t"
  shows "case find_exact t T s c of
      None \<Rightarrow> \<forall>l \<in> set (collect_leaves t). \<not> leaf_is T s c l
    | Some (loc, l) \<Rightarrow> leaf_is T s c l
        \<and> (\<forall>l' \<in> set (collect_leaves t). leaf_is T s c l' \<longrightarrow> lf_template_id l \<le> lf_template_id l')
        \<and> (\<exists>R. mset (collect_leaves t) = add_mset l R
             \<and> (\<forall>f. mset (collect_leaves (update_at t (length T) loc f)) = add_mset (f l) R))"
  using find_exact_spec [OF assms, of T s c] by (auto split: option.splits)

theorem find_exact_lowest_witness:
  "\<exists>t l. tree_wf t \<and> collect_leaves t = [l] \<and> lf_template l = [Fixed ''a'', Wildcard]
     \<and> find_exact t [Fixed ''a'', Wildcard] 9 None \<noteq> None"
proof -
  let ?l = "\<lparr>lf_template = [Fixed ''a'', Wildcard], lf_template_id = 3, lf_template_version = 1,
       lf_severity_number = 9, lf_scope_name = None, lf_slot_types = [slot_singleton PT_Num],
       lf_provenance = prov_singleton Mined, lf_associations = ua_default\<rparr>"
  let ?t = "\<lparr>by_length = [(2, Node [(''a'', Node [] [?l])] [])]\<rparr>"
  have wf: "tree_wf ?t" by (simp add: tree_wf_def hm_wf_def)
  have "find_exact ?t [Fixed ''a'', Wildcard] 9 None \<noteq> None"
    using find_exact_lowest [OF wf, of "[Fixed ''a'', Wildcard]" 9 None]
    by (auto simp: collect_leaves_def leaf_is_def split: option.splits)
  with wf show ?thesis by (intro exI [of _ ?t] exI [of _ ?l]) (simp add: collect_leaves_def)
qed

end
