(* ===== verification/Id_Alloc.thy ===== *)
theory Id_Alloc
  imports Ourios_Prelude
begin

text \<open>
  The cluster-wide template-id allocator, \<open>crates/ourios-miner/src/cluster/id_alloc.rs\<close>. The
  reserver behind the \<open>IdReserver\<close> trait is a state and a function \<open>reserve\<close> on it; nothing is
  assumed of the function, because the allocator checks every block it is given. An \<open>IdBlock\<close> has
  private fields and one fallible constructor, so non-emptiness is an invariant of the type. Ids
  are natural numbers below \<open>2 ^ 63\<close>; the lemmas keep every sum within a \<open>u64\<close>.
\<close>

section \<open>Blocks and the range\<close>

definition max_template_id :: nat where
  "max_template_id = 2 ^ 63 - 1"

typedef id_block = "{(after :: nat, through :: nat). after < through}"
  by (intro exI [of _ "(0, 1)"]) simp

setup_lifting type_definition_id_block

lift_definition blk_after :: "id_block \<Rightarrow> nat" is fst .

lift_definition blk_through :: "id_block \<Rightarrow> nat" is snd .

lift_definition mk_block :: "nat \<Rightarrow> nat \<Rightarrow> id_block" is
  "\<lambda>after through. if after < through then (after, through) else (0, 1)"
  by simp

definition id_block_new :: "nat \<Rightarrow> nat \<Rightarrow> id_block option" where
  "id_block_new after through = (if after < through then Some (mk_block after through) else None)"

datatype id_reservation_error =
  Reserver_Error bytes
| Reaches_Below nat nat nat
| Space_Exhausted

type_synonym 'r reserver = "'r \<Rightarrow> nat \<Rightarrow> 'r \<times> (id_reservation_error + id_block)"

definition unreserved_reserve :: "unit reserver" where
  "unreserved_reserve r lower =
     (r, case id_block_new lower max_template_id of Some b \<Rightarrow> Inr b | None \<Rightarrow> Inl Space_Exhausted)"

record 'r id_range =
  ir_next :: nat
  ir_end :: nat
  ir_reserver :: 'r

definition ir_new :: "unit id_range" where
  "ir_new = \<lparr>ir_next = 1, ir_end = max_template_id + 1, ir_reserver = ()\<rparr>"

definition ir_ensure ::
  "'r reserver \<Rightarrow> 'r id_range \<Rightarrow> 'r id_range \<times> (id_reservation_error + unit)" where
  "ir_ensure reserve s =
     (if ir_next s < ir_end s then (s, Inr ())
      else (let lower = ir_next s - 1;
                (r', res) = reserve (ir_reserver s) lower;
                s' = s\<lparr>ir_reserver := r'\<rparr>
            in case res of
                 Inl e \<Rightarrow> (s', Inl e)
               | Inr block \<Rightarrow>
                   (if blk_after block < lower
                    then (s', Inl (Reaches_Below (blk_after block) (blk_through block) lower))
                    else if blk_through block > max_template_id then (s', Inl Space_Exhausted)
                    else (s'\<lparr>ir_end := blk_through block + 1, ir_next := blk_after block + 1\<rparr>, Inr ()))))"

definition ir_take ::
  "'r reserver \<Rightarrow> 'r id_range \<Rightarrow> 'r id_range \<times> (id_reservation_error + nat)" where
  "ir_take reserve s =
     (case ir_ensure reserve s of
        (s', Inl e) \<Rightarrow> (s', Inl e)
      | (s', Inr _) \<Rightarrow> (s'\<lparr>ir_next := ir_next s' + 1\<rparr>, Inr (ir_next s')))"

definition ir_allocate_past :: "'r id_range \<Rightarrow> nat \<Rightarrow> 'r id_range \<times> (id_reservation_error + unit)" where
  "ir_allocate_past s issued =
     (if issued > max_template_id then (s, Inl Space_Exhausted)
      else (s\<lparr>ir_next := max (ir_next s) (issued + 1)\<rparr>, Inr ()))"

definition ir_with_reserver :: "'r id_range \<Rightarrow> 'q \<Rightarrow> 'q id_range" where
  "ir_with_reserver s reserver = \<lparr>ir_next = ir_next s, ir_end = ir_next s, ir_reserver = reserver\<rparr>"

definition ir_highest :: "'r id_range \<Rightarrow> nat" where
  "ir_highest s = ir_next s - 1"

section \<open>A source of ids\<close>

text \<open>Draws from a source until it has been asked \<open>n\<close> times; a failed draw yields no id.\<close>

fun take_many :: "('s \<Rightarrow> 's \<times> ('e + nat)) \<Rightarrow> nat \<Rightarrow> 's \<Rightarrow> 's \<times> nat list" where
  "take_many draw 0 s = (s, [])"
| "take_many draw (Suc n) s =
     (case draw s of
        (s', Inl e) \<Rightarrow> take_many draw n s'
      | (s', Inr i) \<Rightarrow> (let (s'', is) = take_many draw n s' in (s'', i # is)))"

text \<open>What the cluster relies on of its allocator: a mark that only moves up, past every id handed
  out.\<close>

locale id_source =
  fixes wf :: "'s \<Rightarrow> bool" and draw :: "'s \<Rightarrow> 's \<times> ('e + nat)" and high :: "'s \<Rightarrow> nat" and top :: nat
  assumes draw_wf: "wf s \<Longrightarrow> wf (fst (draw s))"
    and draw_fresh: "wf s \<Longrightarrow> draw s = (s', Inr i) \<Longrightarrow> high s < i \<and> high s' = i \<and> i \<le> top"
    and draw_fail: "wf s \<Longrightarrow> draw s = (s', Inl e) \<Longrightarrow> high s' = high s"
begin

lemma many_fresh:
  "wf s \<Longrightarrow> take_many draw n s = (s', is) \<Longrightarrow>
   wf s' \<and> ascending is \<and> (\<forall>i \<in> set is. high s < i \<and> i \<le> high s' \<and> i \<le> top) \<and> high s \<le> high s'"
proof (induction n arbitrary: s "is")
  case (Suc n)
  obtain s1 res where d: "draw s = (s1, res)" by (cases "draw s")
  have wf1: "wf s1" using draw_wf [OF Suc.prems(1)] d by simp
  show ?case
  proof (cases res)
    case (Inl e)
    with d Suc.prems(2) have "take_many draw n s1 = (s', is)" by simp
    with Suc.IH [OF wf1] draw_fail [OF Suc.prems(1)] d Inl show ?thesis by auto
  next
    case (Inr i)
    with d Suc.prems(2) obtain js where js: "take_many draw n s1 = (s', js)" "is = i # js"
      by (auto split: prod.splits)
    have i: "high s < i" "high s1 = i" "i \<le> top" using draw_fresh [OF Suc.prems(1)] d Inr by auto
    from Suc.IH [OF wf1 js(1)] i js(2) show ?thesis by auto
  qed
qed simp

lemma many_distinct: "wf s \<Longrightarrow> take_many draw n s = (s', is) \<Longrightarrow> distinct is"
  using many_fresh ascending_distinct by blast

end

section \<open>The allocator is one\<close>

definition ir_wf :: "'r id_range \<Rightarrow> bool" where
  "ir_wf s \<longleftrightarrow> 1 \<le> ir_next s \<and> ir_next s \<le> max_template_id + 1 \<and> ir_end s \<le> max_template_id + 1"

lemma block_nonempty: "blk_after b < blk_through b"
  by transfer auto

lemma block_new_Some:
  "id_block_new a t = Some b \<Longrightarrow> blk_after b = a \<and> blk_through b = t \<and> a < t"
  by (auto simp: id_block_new_def blk_after.rep_eq blk_through.rep_eq mk_block.rep_eq split: if_splits)

lemma ir_ensure_spec:
  assumes "ir_wf s" and "ir_ensure reserve s = (s', res)"
  shows "ir_wf s' \<and> ir_next s \<le> ir_next s' \<and> (case res of Inl e \<Rightarrow> ir_next s' = ir_next s
     | Inr _ \<Rightarrow> ir_next s' < ir_end s')"
proof (cases "ir_next s < ir_end s")
  case True
  with assms show ?thesis by (auto simp: ir_ensure_def)
next
  case False
  obtain r' out where r: "reserve (ir_reserver s) (ir_next s - 1) = (r', out)"
    by (cases "reserve (ir_reserver s) (ir_next s - 1)")
  show ?thesis
  proof (cases out)
    case (Inl e)
    with assms False r show ?thesis by (auto simp: ir_ensure_def ir_wf_def Let_def)
  next
    case (Inr b)
    with assms False r block_nonempty [of b] show ?thesis
      by (auto simp: ir_ensure_def ir_wf_def Let_def split: if_splits)
  qed
qed

lemma ir_take_spec:
  assumes "ir_wf s" and "ir_take reserve s = (s', res)"
  shows "ir_wf s' \<and> (case res of Inl e \<Rightarrow> ir_next s' = ir_next s
     | Inr i \<Rightarrow> ir_next s \<le> i \<and> ir_next s' = i + 1 \<and> i \<le> max_template_id)"
proof -
  obtain s1 out where e: "ir_ensure reserve s = (s1, out)" by (cases "ir_ensure reserve s")
  from ir_ensure_spec [OF assms(1) e] e assms(2) show ?thesis
    by (cases out) (auto simp: ir_take_def ir_wf_def)
qed

interpretation ids: id_source ir_wf "ir_take reserve" ir_highest max_template_id for reserve
proof unfold_locales
  fix s :: "'a id_range"
  assume wf: "ir_wf s"
  show "ir_wf (fst (ir_take reserve s))"
    using ir_take_spec [OF wf, of reserve] by (cases "ir_take reserve s") auto
  fix s' i e
  show "ir_highest s < i \<and> ir_highest s' = i \<and> i \<le> max_template_id" if "ir_take reserve s = (s', Inr i)"
    using ir_take_spec [OF wf that] wf by (auto simp: ir_highest_def ir_wf_def)
  show "ir_highest s' = ir_highest s" if "ir_take reserve s = (s', Inl e)"
    using ir_take_spec [OF wf that] by (simp add: ir_highest_def)
qed

lemma ir_wf_new: "ir_wf ir_new"
  by (simp add: ir_wf_def ir_new_def max_template_id_def)

lemma ir_wf_past: "ir_wf s \<Longrightarrow> ir_wf (fst (ir_allocate_past s n))"
  by (auto simp: ir_wf_def ir_allocate_past_def)

lemma ir_wf_with_reserver: "ir_wf s \<Longrightarrow> ir_wf (ir_with_reserver s r)"
  by (auto simp: ir_wf_def ir_with_reserver_def)

section \<open>Properties\<close>

text \<open>C38. No id is issued twice: whatever blocks the reserver answers with, honest or not, the ids
  drawn from a range are strictly ascending, above every id issued or seated before, at most
  \<open>i64::MAX\<close>, and never the reserved value 0.\<close>

theorem ids_never_reissued:
  assumes "ir_wf s" and "take_many (ir_take reserve) n s = (s', is)"
  shows "ascending is \<and> (\<forall>i \<in> set is. 0 < i \<and> ir_highest s < i \<and> i \<le> ir_highest s' \<and> i \<le> max_template_id)"
  using ids.many_fresh [OF assms] by auto

theorem ids_never_reissued_witness:
  "take_many (ir_take unreserved_reserve) (Suc (Suc 0)) ir_new
     = (\<lparr>ir_next = 3, ir_end = max_template_id + 1, ir_reserver = ()\<rparr>, [1, 2]) \<and> ascending [1, 2 :: nat]"
proof -
  have t: "take_many (ir_take unreserved_reserve) (Suc (Suc 0)) ir_new
     = (\<lparr>ir_next = 3, ir_end = max_template_id + 1, ir_reserver = ()\<rparr>, [1, 2])"
    by (simp add: ir_take_def ir_ensure_def ir_new_def max_template_id_def)
  from ids_never_reissued [OF ir_wf_new t] t show ?thesis by simp
qed

text \<open>Seating the allocator past an issued id keeps every later draw above it, through any
  later reservation; an id outside the domain is refused and changes nothing.\<close>

theorem allocate_past_respected:
  assumes "ir_wf s" and "ir_allocate_past s issued = (s1, Inr ())"
    and "take_many (ir_take reserve) n s1 = (s', is)"
  shows "(\<forall>i \<in> set is. issued < i \<and> ir_highest s < i)
         \<and> (max_template_id < outside \<longrightarrow> (\<exists>e. ir_allocate_past s1 outside = (s1, Inl e)))"
proof -
  have wf: "ir_wf s1" and hi: "issued \<le> ir_highest s1" "ir_highest s \<le> ir_highest s1"
    using assms(1,2) ir_wf_past [OF assms(1), of issued]
    by (auto simp: ir_allocate_past_def ir_highest_def split: if_splits)
  from ids.many_fresh [OF wf assms(3)] hi show ?thesis by (fastforce simp: ir_allocate_past_def)
qed

theorem allocate_past_respected_witness:
  "take_many (ir_take unreserved_reserve) (Suc 0) (ir_new\<lparr>ir_next := 42\<rparr>) = (ir_new\<lparr>ir_next := 43\<rparr>, [42])
   \<and> 41 < (42 :: nat) \<and> (\<exists>e. ir_allocate_past (ir_new\<lparr>ir_next := 42\<rparr>) (2 ^ 63) = (ir_new\<lparr>ir_next := 42\<rparr>, Inl e))"
proof -
  have take: "take_many (ir_take unreserved_reserve) (Suc 0) (ir_new\<lparr>ir_next := 42\<rparr>) = (ir_new\<lparr>ir_next := 43\<rparr>, [42])"
    by (simp add: ir_take_def ir_ensure_def ir_new_def max_template_id_def)
  have seat: "ir_allocate_past ir_new 41 = (ir_new\<lparr>ir_next := 42\<rparr>, Inr ())"
    by (simp add: ir_allocate_past_def ir_new_def max_template_id_def)
  show ?thesis
    using allocate_past_respected [OF ir_wf_new seat take, of "2 ^ 63"] take by (simp add: max_template_id_def)
qed

end
