(* ===== verification/Cluster.thy ===== *)
theory Cluster
  imports Prefix_Tree Id_Alloc
begin

text \<open>
  The multi-tenant miner: \<open>MinerCluster\<close> of \<open>crates/ourios-miner/src/cluster/mod.rs\<close> with its
  submodules \<open>structured.rs\<close>, \<open>canonicals.rs\<close> and \<open>build.rs\<close>. The cluster is a record passed
  through every method; the audit and record sinks are the lists of what was handed to them, the
  atomic counters are 64-bit words, a panic is \<^term>\<open>None\<close>. The OpenTelemetry instruments are left
  out: nothing reads them back. What the code takes from elsewhere is the record \<open>env\<close>: SHA-256,
  BLAKE3, the string case of the generated \<open>AnyValue\<close>, its canonical encoding, the clock (its
  reading at the n-th audit event) and the id reserver.
\<close>

section \<open>State\<close>

record ('av, 'r) env =
  env_sha256 :: "bytes \<Rightarrow> bytes"
  env_blake3 :: "bytes \<Rightarrow> bytes"
  env_string_value :: "'av \<Rightarrow> bytes option"
  env_encode_any_value :: "'av \<Rightarrow> bytes option"
  env_now :: "nat \<Rightarrow> nat"
  env_reserve :: "'r reserver"

definition no_template :: nat where
  "no_template = 0"

type_synonym canonical_key = "bytes \<times> nat \<times> bytes option"

type_synonym mined_canonicals = "(canonical_key, nat) hash_map"

definition mc_insert :: "mined_canonicals \<Rightarrow> canonical_key \<Rightarrow> mined_canonicals" where
  "mc_insert m key = hm_insert key ((case hm_get m key of None \<Rightarrow> 0 | Some n \<Rightarrow> n) + 1) m"

definition mc_contains :: "mined_canonicals \<Rightarrow> canonical_key \<Rightarrow> bool" where
  "mc_contains m key \<longleftrightarrow> hm_get m key \<noteq> None"

definition mc_replace :: "mined_canonicals \<Rightarrow> canonical_key \<Rightarrow> canonical_key \<Rightarrow> mined_canonicals" where
  "mc_replace m old new =
     (let m' = (case hm_get m old of
                  None \<Rightarrow> m
                | Some n \<Rightarrow> (if n - 1 = 0 then hm_remove old m else hm_insert old (n - 1) m))
      in mc_insert m' new)"

record owned_adopted =
  oa_template_id :: nat
  oa_provenance :: provenance_set
  oa_associations :: upstream_associations

datatype adopted_entry = TreeBacked nat nat | Owned owned_adopted

record wal_high_water =
  hw_segment :: bytes
  hw_byte :: nat

record tenant_state =
  ten_tree :: drain_tree
  ten_structured :: "(nat \<times> bytes option \<times> bytes option, nat) hash_map"
  ten_adopted :: "(canonical_key, adopted_entry) hash_map"
  ten_owned_count :: nat
  ten_canonicals :: mined_canonicals
  ten_template_count :: nat
  ten_leaf_count :: nat
  ten_config :: miner_config
  ten_folded :: "wal_high_water option"

definition tenant_new :: "miner_config \<Rightarrow> tenant_state" where
  "tenant_new config =
     \<lparr>ten_tree = tree_new, ten_structured = [], ten_adopted = [], ten_owned_count = 0,
      ten_canonicals = [], ten_template_count = 0, ten_leaf_count = 0, ten_config = config,
      ten_folded = None\<rparr>"

definition take_converged_adoption ::
  "tenant_state \<Rightarrow> canonical_key \<Rightarrow> tenant_state \<times> owned_adopted option" where
  "take_converged_adoption st key =
     (case hm_get (ten_adopted st) key of
        Some (Owned owned) \<Rightarrow>
          (st\<lparr>ten_adopted := hm_insert key (TreeBacked (oa_template_id owned) 1)
                (hm_remove key (ten_adopted st)),
              ten_owned_count := ten_owned_count st - 1\<rparr>, Some owned)
      | _ \<Rightarrow> (st, None))"

datatype 'av mined_capture = Cap_Off | Cap_Armed | Captured "'av mined_record"

record ('av, 'r) miner_cluster =
  cl_config :: miner_config
  cl_tenant_overrides :: "(bytes, miner_config) hash_map"
  cl_tenants :: "(bytes, tenant_state) hash_map"
  cl_ids :: "'r id_range"
  cl_audit :: "audit_event list"
  cl_records :: "'av mined_record list"
  cl_merges_total :: "64 word"
  cl_parse_failures_total :: "64 word"
  cl_body_retentions_total :: "64 word"
  cl_params_overflow_total :: "64 word"
  cl_capture :: "'av mined_capture"
  cl_salvages :: "64 word"

definition cluster_new :: "miner_config \<Rightarrow> ('av, unit) miner_cluster" where
  "cluster_new config =
     \<lparr>cl_config = config, cl_tenant_overrides = [], cl_tenants = [], cl_ids = ir_new,
      cl_audit = [], cl_records = [], cl_merges_total = 0, cl_parse_failures_total = 0,
      cl_body_retentions_total = 0, cl_params_overflow_total = 0, cl_capture = Cap_Off,
      cl_salvages = 0\<rparr>"

definition with_tenant_config ::
  "('av, 'r) miner_cluster \<Rightarrow> bytes \<Rightarrow> miner_config \<Rightarrow> ('av, 'r) miner_cluster" where
  "with_tenant_config c tid config =
     c\<lparr>cl_tenant_overrides := hm_insert tid config (cl_tenant_overrides c)\<rparr>"

section \<open>Shared steps\<close>

definition effective_config :: "('av, 'r) miner_cluster \<Rightarrow> bytes \<Rightarrow> miner_config" where
  "effective_config c tid =
     (case hm_get (cl_tenants c) tid of
        Some st \<Rightarrow> ten_config st
      | None \<Rightarrow> (case hm_get (cl_tenant_overrides c) tid of
                   Some config \<Rightarrow> config
                 | None \<Rightarrow> cl_config c))"

definition tenant_or_new :: "('av, 'r) miner_cluster \<Rightarrow> bytes \<Rightarrow> miner_config \<Rightarrow> tenant_state" where
  "tenant_or_new c tid config =
     (case hm_get (cl_tenants c) tid of Some st \<Rightarrow> st | None \<Rightarrow> tenant_new config)"

definition set_tenant :: "('av, 'r) miner_cluster \<Rightarrow> bytes \<Rightarrow> tenant_state \<Rightarrow> ('av, 'r) miner_cluster" where
  "set_tenant c tid st = c\<lparr>cl_tenants := hm_insert tid st (cl_tenants c)\<rparr>"

definition apply_overflow_retention ::
  "('av, 'r) miner_cluster \<Rightarrow> bytes \<Rightarrow> 'av mined_record \<Rightarrow> ('av, 'r) miner_cluster \<times> 'av mined_record" where
  "apply_overflow_retention c raw rec =
     (let overflow_count = length (filter (\<lambda>p. pm_type p = PT_Overflow) (mr_params rec))
      in if overflow_count > 0
         then (c\<lparr>cl_params_overflow_total := cl_params_overflow_total c + of_nat overflow_count\<rparr>,
               rec\<lparr>mr_body := Some raw\<rparr>)
         else (c, rec))"

definition record_parse_failure :: "('av, 'r) miner_cluster \<Rightarrow> ('av, 'r) miner_cluster" where
  "record_parse_failure c =
     c\<lparr>cl_parse_failures_total := cl_parse_failures_total c + 1,
       cl_body_retentions_total := cl_body_retentions_total c + 1\<rparr>"

definition record_tokenizer_failure :: "('av, 'r) miner_cluster \<Rightarrow> ('av, 'r) miner_cluster" where
  "record_tokenizer_failure c = c\<lparr>cl_parse_failures_total := cl_parse_failures_total c + 1\<rparr>"

definition record_envelope :: "'av otlp_log_record \<Rightarrow> body_kind \<Rightarrow> 'av mined_record" where
  "record_envelope r kind =
     \<lparr>mr_tenant_id = ol_tenant_id r, mr_template_id = no_template, mr_template_version = 0,
      mr_severity_number = ol_severity_number r, mr_severity_text = ol_severity_text r,
      mr_scope_name = ol_scope_name r, mr_scope_version = ol_scope_version r,
      mr_scope_attributes = ol_scope_attributes r,
      mr_resource_schema_url = ol_resource_schema_url r, mr_scope_schema_url = ol_scope_schema_url r,
      mr_time_unix_nano = ol_time_unix_nano r,
      mr_observed_time_unix_nano = ol_observed_time_unix_nano r,
      mr_attributes = ol_attributes r, mr_dropped_attributes_count = ol_dropped_attributes_count r,
      mr_resource_attributes = ol_resource_attributes r, mr_trace_id = ol_trace_id r,
      mr_span_id = ol_span_id r, mr_flags = ol_flags r, mr_event_name = ol_event_name r,
      mr_body_kind = kind, mr_params = [], mr_separators = [], mr_body = None,
      mr_confidence = 0, mr_lossy_flag = False\<rparr>"

definition emit_record :: "('av, 'r) miner_cluster \<Rightarrow> 'av mined_record \<Rightarrow> ('av, 'r) miner_cluster" where
  "emit_record c rec =
     (case cl_capture c of
        Cap_Armed \<Rightarrow> c\<lparr>cl_capture := Captured rec\<rparr>
      | _ \<Rightarrow> c\<lparr>cl_records := cl_records c @ [rec]\<rparr>)"

record line_parts =
  lp_separators :: "bytes list"
  lp_params :: "param list"

definition emit_template_change ::
  "('av, 'r) env \<Rightarrow> ('av, 'r) miner_cluster \<Rightarrow> 'av otlp_log_record \<Rightarrow> bytes \<Rightarrow> nat \<Rightarrow> template_change
     \<Rightarrow> ('av, 'r) miner_cluster" where
  "emit_template_change env c r raw template_id change =
     c\<lparr>cl_audit := cl_audit c @
         [\<lparr>ae_tenant_id = ol_tenant_id r, ae_timestamp = env_now env (length (cl_audit c)),
           ae_payload = Template template_id (hash_triggering_line (env_blake3 env) raw)
             (Some (sample_first_256_bytes raw)) change\<rparr>]\<rparr>"

definition emit_adopted_audit ::
  "('av, 'r) env \<Rightarrow> ('av, 'r) miner_cluster \<Rightarrow> 'av otlp_log_record \<Rightarrow> bytes \<Rightarrow> nat \<Rightarrow> nat \<Rightarrow> bytes
     \<Rightarrow> ('av, 'r) miner_cluster" where
  "emit_adopted_audit env c r raw template_id version canonical =
     emit_template_change env c r raw template_id (Adopted version canonical)"

datatype fresh_leaf_zone = Zone_Clean | Zone_Lossy f32

definition emit_fresh_leaf_record ::
  "('av, 'r) miner_cluster \<Rightarrow> 'av otlp_log_record \<Rightarrow> bytes \<Rightarrow> line_parts \<Rightarrow> nat \<Rightarrow> fresh_leaf_zone
     \<Rightarrow> ('av, 'r) miner_cluster \<times> nat" where
  "emit_fresh_leaf_record c r raw parts new_id zone =
     (let rec = (record_envelope r BK_String)
            \<lparr>mr_template_id := new_id, mr_template_version := 1,
             mr_separators := lp_separators parts, mr_params := lp_params parts\<rparr>;
          (c, rec) = (case zone of
              Zone_Clean \<Rightarrow> (c, rec\<lparr>mr_confidence := 1\<rparr>)
            | Zone_Lossy confidence \<Rightarrow>
                (c\<lparr>cl_body_retentions_total := cl_body_retentions_total c + 1\<rparr>,
                 rec\<lparr>mr_confidence := confidence, mr_body := Some raw\<rparr>));
          (c, rec) = apply_overflow_retention c raw rec
      in (emit_record c rec, new_id))"

definition emit_string_parse_failure ::
  "('av, 'r) miner_cluster \<Rightarrow> 'av otlp_log_record \<Rightarrow> bytes \<Rightarrow> line_parts \<Rightarrow> ('av, 'r) miner_cluster \<times> nat" where
  "emit_string_parse_failure c r raw parts =
     (let rec = (record_envelope r BK_String)
            \<lparr>mr_separators := lp_separators parts, mr_params := lp_params parts,
             mr_body := Some raw, mr_lossy_flag := True\<rparr>;
          (c, rec) = apply_overflow_retention c raw rec
      in (record_parse_failure (emit_record c rec), no_template))"

definition at_ceiling :: "('av, 'r) miner_cluster \<Rightarrow> bytes \<Rightarrow> nat \<Rightarrow> bool" where
  "at_ceiling c tid maximum =
     (case hm_get (cl_tenants c) tid of
        None \<Rightarrow> False
      | Some st \<Rightarrow> ten_leaf_count st + ten_owned_count st \<ge> maximum)"

section \<open>Candidates\<close>

record candidate =
  cd_leaf_idx :: nat
  cd_similarity :: f32

text \<open>\<open>Iterator::max_by\<close>: the later of two equal elements wins.\<close>

definition candidate_greater :: "candidate \<times> nat \<Rightarrow> candidate \<times> nat \<Rightarrow> bool" where
  "candidate_greater a b \<longleftrightarrow>
     cd_similarity (fst a) > cd_similarity (fst b)
     \<or> cd_similarity (fst a) = cd_similarity (fst b) \<and> snd b > snd a"

fun max_candidate :: "(candidate \<times> nat) list \<Rightarrow> (candidate \<times> nat) option" where
  "max_candidate [] = None"
| "max_candidate (x # xs) = Some (fold (\<lambda>y best. if candidate_greater best y then best else y) xs x)"

definition score_leaves ::
  "'av otlp_log_record \<Rightarrow> masked \<Rightarrow> leaf list \<Rightarrow> (candidate \<times> nat) list option" where
  "score_leaves r m ls =
     those (map (\<lambda>(leaf_idx, l).
         map_option (\<lambda>s. (\<lparr>cd_leaf_idx = leaf_idx, cd_similarity = s\<rparr>, lf_template_id l))
           (sim_seq_owned (mk_tokens m) (lf_template l) (mk_positions m)))
       (filter (\<lambda>(_, l). lf_severity_number l = ol_severity_number r \<and> lf_scope_name l = ol_scope_name r)
         (enum_from 0 ls)))"

definition find_best_candidate ::
  "('av, 'r) miner_cluster \<Rightarrow> 'av otlp_log_record \<Rightarrow> masked \<Rightarrow> candidate option option" where
  "find_best_candidate c r m =
     (case hm_get (cl_tenants c) (ol_tenant_id r) of
        None \<Rightarrow> Some None
      | Some st \<Rightarrow> do {
          parent \<leftarrow> descend (ten_tree st) (mk_tokens m) (prefix_depth (ten_config st))
                     (max_node_children (ten_config st));
          (case parent of
             None \<Rightarrow> Some None
           | Some node \<Rightarrow> do {
               scored \<leftarrow> score_leaves r m (leaves node);
               Some (map_option fst (max_candidate scored))
             })
        })"

section \<open>Fresh leaves\<close>

definition canonical_key_of :: "'av otlp_log_record \<Rightarrow> bytes \<Rightarrow> canonical_key" where
  "canonical_key_of r canonical = (canonical, ol_severity_number r, ol_scope_name r)"

definition push_leaf :: "leaf \<Rightarrow> prefix_node \<Rightarrow> prefix_node \<times> unit" where
  "push_leaf l node = (Node (children node) (leaves node @ [l]), ())"

definition fresh_identity ::
  "('av, 'r) env \<Rightarrow> ('av, 'r) miner_cluster \<Rightarrow> bytes \<Rightarrow> canonical_key
     \<Rightarrow> ('av, 'r) miner_cluster \<times> (nat \<times> provenance_set \<times> upstream_associations \<times> bool) option" where
  "fresh_identity env c tid key =
     (let (c, converged) =
            (case hm_get (cl_tenants c) tid of
               None \<Rightarrow> (c, None)
             | Some st \<Rightarrow> (let (st', owned) = take_converged_adoption st key
                          in (set_tenant c tid st', owned)))
      in case converged of
           Some owned \<Rightarrow>
             (c, Some (oa_template_id owned, prov_insert (oa_provenance owned) Mined,
                       oa_associations owned, False))
         | None \<Rightarrow>
             (case ir_take (env_reserve env) (cl_ids c) of
                (ids, Inl e) \<Rightarrow> (c\<lparr>cl_ids := ids\<rparr>, None)
              | (ids, Inr new_id) \<Rightarrow>
                  (c\<lparr>cl_ids := ids\<rparr>, Some (new_id, prov_singleton Mined, ua_default, True))))"

definition create_new_leaf ::
  "('av, 'r) env \<Rightarrow> ('av, 'r) miner_cluster \<Rightarrow> 'av otlp_log_record \<Rightarrow> bytes \<Rightarrow> masked \<Rightarrow> bytes option
     \<Rightarrow> (('av, 'r) miner_cluster \<times> nat option) option" where
  "create_new_leaf env c r raw m observed =
     (let new_template = leaf_template m;
          created_template = format_template new_template;
          adopted_key = canonical_key_of r created_template;
          (c, identity) = fresh_identity env c (ol_tenant_id r) adopted_key
      in case identity of
           None \<Rightarrow> Some (c, None)
         | Some (new_id, provenance, associations, fresh) \<Rightarrow> do {
             let st = tenant_or_new c (ol_tenant_id r) (effective_config c (ol_tenant_id r));
             let l = associate_upstream
                   \<lparr>lf_template = new_template, lf_template_id = new_id, lf_template_version = 1,
                    lf_severity_number = ol_severity_number r, lf_scope_name = ol_scope_name r,
                    lf_slot_types = map (\<lambda>tp. slot_singleton (tp_type tp)) (mk_params m),
                    lf_provenance = provenance, lf_associations = associations\<rparr>
                   observed (upstream_association_limit (ten_config st));
             (tree, _) \<leftarrow> descend_mut (ten_tree st) (mk_tokens m) (prefix_depth (ten_config st))
                          (max_node_children (ten_config st)) (push_leaf l);
             let st' = st\<lparr>ten_tree := tree,
                          ten_template_count := ten_template_count st + (if fresh then 1 else 0),
                          ten_leaf_count := ten_leaf_count st + 1,
                          ten_canonicals := mc_insert (ten_canonicals st) adopted_key\<rparr>;
             let c = set_tenant c (ol_tenant_id r) st';
             Some (emit_template_change env c r raw new_id (Created created_template), Some new_id)
           })"

definition mint_fresh_leaf ::
  "('av, 'r) env \<Rightarrow> ('av, 'r) miner_cluster \<Rightarrow> 'av otlp_log_record \<Rightarrow> bytes \<Rightarrow> masked \<Rightarrow> line_parts
     \<Rightarrow> bytes option \<Rightarrow> fresh_leaf_zone \<Rightarrow> nat \<Rightarrow> (('av, 'r) miner_cluster \<times> nat) option" where
  "mint_fresh_leaf env c r raw m parts observed zone maximum =
     (if at_ceiling c (ol_tenant_id r) maximum then Some (emit_string_parse_failure c r raw parts)
      else do {
        (c, res) \<leftarrow> create_new_leaf env c r raw m observed;
        Some (case res of
                Some new_id \<Rightarrow> emit_fresh_leaf_record c r raw parts new_id zone
              | None \<Rightarrow> emit_string_parse_failure c r raw parts)
      })"

section \<open>Attaching\<close>

fun is_rejected :: "attach_plan \<Rightarrow> bool" where
  "is_rejected (Rejected _ _ _ _ _) = True"
| "is_rejected _ = False"

definition plan_on_node ::
  "(bytes \<Rightarrow> bytes) \<Rightarrow> masked \<Rightarrow> nat \<Rightarrow> nat \<Rightarrow> bytes option \<Rightarrow> nat \<Rightarrow> prefix_node
     \<Rightarrow> prefix_node \<times> attach_plan option" where
  "plan_on_node sha256 m byte_limit bound observed idx node =
     (if idx < length (leaves node)
      then (case plan_attach sha256 (leaves node ! idx) m byte_limit of
              None \<Rightarrow> (node, None)
            | Some (l, plan) \<Rightarrow>
                (let l = (if is_rejected plan then l else associate_upstream l observed bound)
                 in (Node (children node) ((leaves node)[idx := l]), Some plan)))
      else (node, None))"

definition plan_attach_on_candidate ::
  "('av, 'r) env \<Rightarrow> ('av, 'r) miner_cluster \<Rightarrow> 'av otlp_log_record \<Rightarrow> masked \<Rightarrow> candidate \<Rightarrow> nat
     \<Rightarrow> bytes option \<Rightarrow> (('av, 'r) miner_cluster \<times> attach_plan) option" where
  "plan_attach_on_candidate env c r m cand byte_limit observed = do {
     st \<leftarrow> hm_get (cl_tenants c) (ol_tenant_id r);
     (tree, plan) \<leftarrow> descend_mut (ten_tree st) (mk_tokens m) (prefix_depth (ten_config st))
        (max_node_children (ten_config st))
        (plan_on_node (env_sha256 env) m byte_limit (upstream_association_limit (ten_config st)) observed
           (cd_leaf_idx cand));
     plan \<leftarrow> plan;
     Some (set_tenant c (ol_tenant_id r) (st\<lparr>ten_tree := tree\<rparr>), plan)
   }"

definition widened_move :: "template_change list \<Rightarrow> (bytes \<times> bytes) option" where
  "widened_move events =
     fold (\<lambda>change acc.
         case change of
           Widened _ _ old_template new_template _ \<Rightarrow>
             Some (case acc of None \<Rightarrow> old_template | Some (old, _) \<Rightarrow> old, new_template)
         | _ \<Rightarrow> acc) events None"

definition move_mined_canonical ::
  "('av, 'r) miner_cluster \<Rightarrow> 'av otlp_log_record \<Rightarrow> template_change list \<Rightarrow> ('av, 'r) miner_cluster" where
  "move_mined_canonical c r events =
     (case (widened_move events, hm_get (cl_tenants c) (ol_tenant_id r)) of
        (Some (old_canonical, new_canonical), Some st) \<Rightarrow>
          set_tenant c (ol_tenant_id r)
            (st\<lparr>ten_canonicals := mc_replace (ten_canonicals st) (canonical_key_of r old_canonical)
                  (canonical_key_of r new_canonical)\<rparr>)
      | _ \<Rightarrow> c)"

definition emit_change_counted ::
  "('av, 'r) env \<Rightarrow> 'av otlp_log_record \<Rightarrow> bytes \<Rightarrow> nat \<Rightarrow> template_change \<Rightarrow> ('av, 'r) miner_cluster
     \<Rightarrow> ('av, 'r) miner_cluster" where
  "emit_change_counted env r raw template_id change c =
     (let c = emit_template_change env c r raw template_id change
      in if counts_as_merge change then c\<lparr>cl_merges_total := cl_merges_total c + 1\<rparr> else c)"

definition emit_attached ::
  "('av, 'r) miner_cluster \<Rightarrow> 'av otlp_log_record \<Rightarrow> bytes \<Rightarrow> bytes list \<Rightarrow> param list \<Rightarrow> nat \<Rightarrow> nat
     \<Rightarrow> ('av, 'r) miner_cluster \<times> nat" where
  "emit_attached c r raw seps params template_id version =
     (let rec = (record_envelope r BK_String)
            \<lparr>mr_template_id := template_id, mr_template_version := version,
             mr_separators := seps, mr_params := params, mr_confidence := 1\<rparr>;
          (c, rec) = apply_overflow_retention c raw rec
      in (emit_record c rec, template_id))"

definition attach_and_maybe_widen ::
  "('av, 'r) env \<Rightarrow> ('av, 'r) miner_cluster \<Rightarrow> 'av otlp_log_record \<Rightarrow> bytes \<Rightarrow> masked \<Rightarrow> candidate \<Rightarrow> nat
     \<Rightarrow> bytes option \<Rightarrow> line_parts \<Rightarrow> (('av, 'r) miner_cluster \<times> nat) option" where
  "attach_and_maybe_widen env c r raw m cand byte_limit observed parts = do {
     (c, plan) \<leftarrow> plan_attach_on_candidate env c r m cand byte_limit observed;
     Some (case plan of
         CleanReuse template_id version params \<Rightarrow>
           emit_attached c r raw (lp_separators parts) params template_id version
       | Rejected template_id version current_template would_be_template would_be_positions \<Rightarrow>
           emit_string_parse_failure
             (emit_template_change env c r raw template_id
                (RejectedDegenerate version current_template would_be_template would_be_positions))
             r raw parts
       | Mutated template_id events final_version params \<Rightarrow>
           (let c = move_mined_canonical c r events;
                c = fold (emit_change_counted env r raw template_id) events c
            in emit_attached c r raw (lp_separators parts) params template_id final_version))
   }"

section \<open>Adoption\<close>

datatype adopt_resolution =
  Existing nat nat
| FirstOnLeaf nat nat
| Interned nat
| Ceiling
| NoId

definition resolve_adoption ::
  "('av, 'r) env \<Rightarrow> ('av, 'r) miner_cluster \<Rightarrow> 'av otlp_log_record \<Rightarrow> bytes \<Rightarrow> owned_token list
     \<Rightarrow> canonical_key \<Rightarrow> miner_config \<Rightarrow> ('av, 'r) miner_cluster \<times> adopt_resolution" where
  "resolve_adoption env c r upstream owned_tokens key config =
     (let assoc_limit = upstream_association_limit config;
          tid = ol_tenant_id r;
          st = tenant_or_new c tid config
      in case hm_get (ten_adopted st) key of
           Some (TreeBacked template_id version) \<Rightarrow> (set_tenant c tid st, Existing template_id version)
         | Some (Owned owned) \<Rightarrow>
             (set_tenant c tid
                (st\<lparr>ten_adopted := hm_insert key (Owned (owned\<lparr>oa_associations :=
                      fst (ua_observe (oa_associations owned) upstream assoc_limit)\<rparr>)) (ten_adopted st)\<rparr>),
              Existing (oa_template_id owned) 1)
         | None \<Rightarrow>
             (case (if mc_contains (ten_canonicals st) key
                    then find_exact (ten_tree st) owned_tokens (ol_severity_number r) (ol_scope_name r)
                    else None) of
                Some (loc, l) \<Rightarrow>
                  (let first = \<not> prov_contains (lf_provenance l) UpstreamDerived;
                       tree = update_at (ten_tree st) (length owned_tokens) loc
                                (\<lambda>l. l\<lparr>lf_provenance := prov_insert (lf_provenance l) UpstreamDerived\<rparr>);
                       st' = st\<lparr>ten_tree := tree,
                                ten_adopted := hm_insert key
                                  (TreeBacked (lf_template_id l) (lf_template_version l)) (ten_adopted st)\<rparr>
                   in (set_tenant c tid st',
                       if first then FirstOnLeaf (lf_template_id l) (lf_template_version l)
                       else Existing (lf_template_id l) (lf_template_version l)))
              | None \<Rightarrow>
                  (if ten_leaf_count st + ten_owned_count st \<ge> max_templates config
                   then (set_tenant c tid st, Ceiling)
                   else (case ir_take (env_reserve env) (cl_ids c) of
                           (ids, Inl e) \<Rightarrow> (set_tenant (c\<lparr>cl_ids := ids\<rparr>) tid st, NoId)
                         | (ids, Inr candidate_id) \<Rightarrow>
                             (let owned = \<lparr>oa_template_id = candidate_id,
                                    oa_provenance = prov_singleton UpstreamDerived,
                                    oa_associations = fst (ua_observe ua_default upstream assoc_limit)\<rparr>;
                                  st' = st\<lparr>ten_adopted := hm_insert key (Owned owned) (ten_adopted st),
                                           ten_owned_count := ten_owned_count st + 1,
                                           ten_template_count := ten_template_count st + 1\<rparr>
                              in (set_tenant (c\<lparr>cl_ids := ids\<rparr>) tid st', Interned candidate_id))))))"

definition adopted_identity ::
  "('av, 'r) env \<Rightarrow> ('av, 'r) miner_cluster \<Rightarrow> 'av otlp_log_record \<Rightarrow> bytes \<Rightarrow> bytes \<Rightarrow> adopt_resolution
     \<Rightarrow> ('av, 'r) miner_cluster \<times> (nat \<times> nat) option" where
  "adopted_identity env c r raw canonical resolution =
     (case resolution of
        Ceiling \<Rightarrow> (c, None)
      | NoId \<Rightarrow> (c, None)
      | Existing i v \<Rightarrow> (c, Some (i, v))
      | FirstOnLeaf i v \<Rightarrow> (emit_adopted_audit env c r raw i v canonical, Some (i, v))
      | Interned i \<Rightarrow> (emit_adopted_audit env c r raw i 1 canonical, Some (i, 1)))"

definition try_adopt ::
  "('av, 'r) env \<Rightarrow> ('av, 'r) miner_cluster \<Rightarrow> 'av otlp_log_record \<Rightarrow> bytes \<Rightarrow> bytes \<Rightarrow> masked
     \<Rightarrow> miner_config \<Rightarrow> (('av, 'r) miner_cluster \<times> nat option) option" where
  "try_adopt env c r raw upstream m config =
     (if length upstream > upstream_template_byte_limit config then Some (c, None)
      else case parse_upstream_template upstream of
        Inl _ \<Rightarrow> Some (c, None)
      | Inr parsed \<Rightarrow>
          (case align parsed raw of
             Inl _ \<Rightarrow> Some (c, None)
           | Inr alignment \<Rightarrow>
               (let owned_tokens = to_owned_tokens parsed;
                    canonical = format_template owned_tokens;
                    (c, resolution) = resolve_adoption env c r upstream owned_tokens
                                        (canonical_key_of r canonical) config;
                    (c, identity) = adopted_identity env c r raw canonical resolution
                in case identity of
                     None \<Rightarrow> Some (c, None)
                   | Some (template_id, version) \<Rightarrow> do {
                       (params, separators) \<leftarrow>
                         adopted_row_parts (env_sha256 env) parsed alignment m (param_byte_limit config);
                       Some (apsnd Some (emit_attached c r raw separators params template_id version))
                     })))"

section \<open>Structured bodies\<close>

definition structured_template_id ::
  "('av, 'r) env \<Rightarrow> ('av, 'r) miner_cluster \<Rightarrow> 'av otlp_log_record \<Rightarrow> ('av, 'r) miner_cluster \<times> nat" where
  "structured_template_id env c r =
     (let key = (ol_severity_number r, ol_scope_name r, ol_event_name r);
          tid = ol_tenant_id r;
          config = effective_config c tid
      in case Option.bind (hm_get (cl_tenants c) tid) (\<lambda>st. hm_get (ten_structured st) key) of
           Some existing_id \<Rightarrow> (c, existing_id)
         | None \<Rightarrow>
             (case ir_take (env_reserve env) (cl_ids c) of
                (ids, Inl e) \<Rightarrow> (c\<lparr>cl_ids := ids\<rparr>, no_template)
              | (ids, Inr new_id) \<Rightarrow>
                  (let c = c\<lparr>cl_ids := ids\<rparr>;
                       st = tenant_or_new c tid config
                   in (set_tenant c tid
                         (st\<lparr>ten_structured := hm_insert key new_id (ten_structured st),
                             ten_template_count := ten_template_count st + 1\<rparr>), new_id))))"

definition emit_structured ::
  "('av, 'r) env \<Rightarrow> ('av, 'r) miner_cluster \<Rightarrow> 'av otlp_log_record \<Rightarrow> 'av \<Rightarrow> nat
     \<Rightarrow> ('av, 'r) miner_cluster option" where
  "emit_structured env c r any_value template_id = do {
     bs \<leftarrow> env_encode_any_value env any_value;
     let rec = (record_envelope r BK_Structured)
           \<lparr>mr_template_id := template_id, mr_template_version := 1, mr_confidence := 1,
            mr_body := Some bs\<rparr>;
     Some (emit_record c rec)
   }"

definition ingest_structured ::
  "('av, 'r) env \<Rightarrow> ('av, 'r) miner_cluster \<Rightarrow> 'av otlp_log_record \<Rightarrow> 'av
     \<Rightarrow> (('av, 'r) miner_cluster \<times> nat) option" where
  "ingest_structured env c r any_value =
     (let (c, template_id) = structured_template_id env c r;
          c = (if template_id = no_template then record_parse_failure c else c)
      in map_option (\<lambda>c. (c, template_id)) (emit_structured env c r any_value template_id))"

section \<open>Ingest\<close>

definition upstream_claim ::
  "('av, 'r) env \<Rightarrow> miner_config \<Rightarrow> 'av otlp_log_record \<Rightarrow> bytes option" where
  "upstream_claim env config r =
     (if upstream_mode config = Ignore then None
      else if upstream_template_byte_limit config = 0 then None
      else upstream_template_of (env_string_value env) r)"

definition observed_claim :: "miner_config \<Rightarrow> bytes option \<Rightarrow> bytes option" where
  "observed_claim config claim =
     (if upstream_mode config = Observe
      then Option.bind claim (\<lambda>s.
             if length s > upstream_template_byte_limit config then None
             else (case parse_upstream_template s of Inl _ \<Rightarrow> None | Inr _ \<Rightarrow> Some s))
      else None)"

definition mine_line ::
  "('av, 'r) env \<Rightarrow> ('av, 'r) miner_cluster \<Rightarrow> 'av otlp_log_record \<Rightarrow> bytes \<Rightarrow> masked \<Rightarrow> line_parts
     \<Rightarrow> miner_config \<Rightarrow> bytes option \<Rightarrow> (('av, 'r) miner_cluster \<times> nat) option" where
  "mine_line env c r raw m parts config observed = do {
     best \<leftarrow> find_best_candidate c r m;
     let threshold = similarity_threshold config;
     let flr = similarity_floor config;
     (case best of
        None \<Rightarrow> mint_fresh_leaf env c r raw m parts observed Zone_Clean (max_templates config)
      | Some cand \<Rightarrow>
          (case zone_classify (cd_similarity cand) threshold flr of
             Clean \<Rightarrow>
               attach_and_maybe_widen env c r raw m cand (param_byte_limit config) observed parts
           | Lossy \<Rightarrow>
               mint_fresh_leaf env c r raw m parts observed
                 (Zone_Lossy (f32_div (cd_similarity cand) threshold)) (max_templates config)
           | ParseFailure \<Rightarrow>
               mint_fresh_leaf env c r raw m parts observed Zone_Clean (max_templates config)))
   }"

definition ingest_string ::
  "('av, 'r) env \<Rightarrow> ('av, 'r) miner_cluster \<Rightarrow> 'av otlp_log_record \<Rightarrow> bytes
     \<Rightarrow> (('av, 'r) miner_cluster \<times> nat) option" where
  "ingest_string env c r raw =
     (case tokenize raw of
        Inl _ \<Rightarrow>
          (let rec = (record_envelope r BK_String)\<lparr>mr_body := Some raw, mr_lossy_flag := True\<rparr>
           in Some (record_tokenizer_failure (emit_record c rec), no_template))
      | Inr tz \<Rightarrow>
          (let m = mask_tokens (tz_tokens tz);
               config = effective_config c (ol_tenant_id r);
               parts = \<lparr>lp_separators = tz_separators tz,
                        lp_params = params_from_mask (env_sha256 env) (mk_params m) (param_byte_limit config)\<rparr>
           in if mk_tokens m = [] then
                (let rec = (record_envelope r BK_String)
                       \<lparr>mr_separators := lp_separators parts, mr_body := Some raw, mr_lossy_flag := True\<rparr>
                 in Some (record_parse_failure (emit_record c rec), no_template))
              else if length (mk_tokens m) > max_line_tokens config then
                Some (emit_string_parse_failure c r raw parts)
              else (let claim = upstream_claim env config r in do {
                (c, adopted) \<leftarrow>
                  (case (upstream_mode config = Adopt, claim) of
                     (True, Some s) \<Rightarrow> try_adopt env c r raw s m config
                   | _ \<Rightarrow> Some (c, None));
                (case adopted of
                   Some template_id \<Rightarrow> Some (c, template_id)
                 | None \<Rightarrow> mine_line env c r raw m parts config (observed_claim config claim))
              })))"

definition ingest ::
  "('av, 'r) env \<Rightarrow> ('av, 'r) miner_cluster \<Rightarrow> 'av otlp_log_record \<Rightarrow> (('av, 'r) miner_cluster \<times> nat) option" where
  "ingest env c r =
     (case ol_body r of
        None \<Rightarrow> Some (emit_record c (record_envelope r BK_Absent), no_template)
      | Some (Body_String raw) \<Rightarrow> ingest_string env c r raw
      | Some (Body_Structured body) \<Rightarrow> ingest_structured env c r body)"

definition take_mined_capture ::
  "('av, 'r) miner_cluster \<Rightarrow> ('av, 'r) miner_cluster \<times> 'av mined_record option" where
  "take_mined_capture c =
     (c\<lparr>cl_capture := Cap_Off\<rparr>, case cl_capture c of Captured rec \<Rightarrow> Some rec | _ \<Rightarrow> None)"

definition salvage_mined_capture :: "('av, 'r) miner_cluster \<Rightarrow> ('av, 'r) miner_cluster" where
  "salvage_mined_capture c =
     (case take_mined_capture c of
        (c, Some rec) \<Rightarrow> c\<lparr>cl_salvages := cl_salvages c + 1, cl_records := cl_records c @ [rec]\<rparr>
      | (c, None) \<Rightarrow> c)"

definition ingest_mined ::
  "('av, 'r) env \<Rightarrow> ('av, 'r) miner_cluster \<Rightarrow> 'av otlp_log_record
     \<Rightarrow> (('av, 'r) miner_cluster \<times> nat \<times> 'av mined_record option) option" where
  "ingest_mined env c r = do {
     (c, template_id) \<leftarrow> ingest env (c\<lparr>cl_capture := Cap_Armed\<rparr>) r;
     let (c, rec) = take_mined_capture c;
     Some (c, template_id, rec)
   }"

fun ingest_all ::
  "('av, 'r) env \<Rightarrow> ('av, 'r) miner_cluster \<Rightarrow> 'av otlp_log_record list \<Rightarrow> ('av, 'r) miner_cluster option" where
  "ingest_all env c [] = Some c"
| "ingest_all env c (r # rs) = do { (c, _) \<leftarrow> ingest env c r; ingest_all env c rs }"

definition template_count :: "('av, 'r) miner_cluster \<Rightarrow> bytes \<Rightarrow> nat" where
  "template_count c tid = (case hm_get (cl_tenants c) tid of None \<Rightarrow> 0 | Some st \<Rightarrow> ten_template_count st)"

end
