(* ===== verification/Template_Registry.thy ===== *)
theory Template_Registry
  imports Template "HOL-Library.Product_Lexorder"
begin

text \<open>
  The reader's template registry, \<open>crates/ourios-querier/src/template_registry.rs\<close>: the fold of a
  tenant's audit events into a map from (template id, version) to tokens. The streaming fold keeps
  one winner per key; it is proved equal to sorting the events by timestamp (stably) and letting
  the last one win, and conflict detection is proved exact.
\<close>

section \<open>The fold\<close>

definition template_initial_version :: nat where
  "template_initial_version = 1"

fun keyed_template :: "template_change \<Rightarrow> (nat \<times> bytes) option" where
  "keyed_template (Created new_template) = Some (template_initial_version, new_template)"
| "keyed_template (Widened _ new_version _ new_template _) = Some (new_version, new_template)"
| "keyed_template (TypeExpanded _ new_version _ new_template _) = Some (new_version, new_template)"
| "keyed_template (Adopted version new_template) = Some (version, new_template)"
| "keyed_template (RejectedDegenerate _ _ _ _) = None"

definition same_tokens :: "bytes \<Rightarrow> bytes \<Rightarrow> bool" where
  "same_tokens held incoming \<longleftrightarrow> held = incoming \<or> parse_template held = parse_template incoming"

type_synonym template_registry = "(nat \<times> nat, owned_token list) hash_map"

record registry_fold =
  rf_latest :: "(nat \<times> nat, nat \<times> bytes) hash_map"
  rf_conflicts :: "(nat \<times> nat) list"

definition rf_default :: registry_fold where
  "rf_default = \<lparr>rf_latest = [], rf_conflicts = []\<rparr>"

definition rf_seeded :: "template_registry \<Rightarrow> nat \<Rightarrow> (nat \<times> nat) list \<Rightarrow> registry_fold" where
  "rf_seeded registry held_at conflicts =
     \<lparr>rf_latest = map (\<lambda>(key, tokens). (key, held_at, format_template tokens)) registry,
      rf_conflicts = sorted_list_of_set (set conflicts)\<rparr>"

fun event_key :: "audit_event \<Rightarrow> ((nat \<times> nat) \<times> bytes) option" where
  "event_key e =
     (case ae_payload e of
        Template template_id _ _ change \<Rightarrow>
          map_option (\<lambda>(version, template). ((template_id, version), template)) (keyed_template change)
      | _ \<Rightarrow> None)"

declare event_key.simps [simp del]

definition rf_push :: "registry_fold \<Rightarrow> audit_event \<Rightarrow> registry_fold" where
  "rf_push rf e =
     (case event_key e of
        None \<Rightarrow> rf
      | Some (key, template) \<Rightarrow>
          (case hm_get (rf_latest rf) key of
             Some held \<Rightarrow>
               (let rf = (if \<not> same_tokens (snd held) template \<and> key \<notin> set (rf_conflicts rf)
                          then rf\<lparr>rf_conflicts := insort key (rf_conflicts rf)\<rparr> else rf)
                in if ae_timestamp e \<ge> fst held
                   then rf\<lparr>rf_latest := hm_insert key (ae_timestamp e, template) (rf_latest rf)\<rparr>
                   else rf)
           | None \<Rightarrow> rf\<lparr>rf_latest := hm_insert key (ae_timestamp e, template) (rf_latest rf)\<rparr>))"

definition rf_finish_checked :: "registry_fold \<Rightarrow> template_registry \<times> (nat \<times> nat) list" where
  "rf_finish_checked rf =
     (map (\<lambda>(key, held). (key, parse_template (snd held))) (rf_latest rf), rf_conflicts rf)"

definition fold_registry_checked :: "audit_event list \<Rightarrow> template_registry \<times> (nat \<times> nat) list" where
  "fold_registry_checked events = rf_finish_checked (foldl rf_push rf_default events)"

definition fold_registry :: "audit_event list \<Rightarrow> template_registry" where
  "fold_registry events = fst (fold_registry_checked events)"

section \<open>Reference: sort, then the last wins\<close>

text \<open>The (timestamp, template) pairs the events bind to a key, in scan order.\<close>

definition bindings :: "nat \<times> nat \<Rightarrow> audit_event list \<Rightarrow> (nat \<times> bytes) list" where
  "bindings key events =
     map (\<lambda>e. (ae_timestamp e, snd (the (event_key e))))
       (filter (\<lambda>e. map_option fst (event_key e) = Some key) events)"

definition last_by_time :: "(nat \<times> bytes) list \<Rightarrow> (nat \<times> bytes) option" where
  "last_by_time bs = (if bs = [] then None else Some (last (sort_key fst bs)))"

lemma last_sort_key:
  assumes "xs \<noteq> []" and "last (sort_key f xs) = l"
  shows "l \<in> set xs" and "y \<in> set xs \<Longrightarrow> f y \<le> f l" and "last (filter (\<lambda>y. f y = f l) xs) = l"
proof -
  have "sort_key f xs \<noteq> []" using assms(1) by (metis length_0_conv length_sort)
  then obtain ys where s: "sort_key f xs = ys @ [l]"
    using assms(2) by (metis append_butlast_last_id)
  have set: "set xs = insert l (set ys)" using arg_cong [OF s, of set] by simp
  then show "l \<in> set xs" by simp
  have "sorted (map f (ys @ [l]))" using sorted_sort_key [of f xs] by (simp only: s)
  then have "\<forall>y \<in> set ys. f y \<le> f l" by (simp add: sorted_append)
  with set show "y \<in> set xs \<Longrightarrow> f y \<le> f l" by auto
  have "filter (\<lambda>y. f y = f l) xs = filter (\<lambda>y. f y = f l) (ys @ [l])"
    using sort_key_stable [of f "f l" xs] by (simp only: s)
  then show "last (filter (\<lambda>y. f y = f l) xs) = l" by simp
qed

lemma last_by_time_snoc:
  "last_by_time (bs @ [x]) =
     Some (case last_by_time bs of None \<Rightarrow> x | Some h \<Rightarrow> if fst x \<ge> fst h then x else h)"
proof (cases "bs = []")
  case False
  define l m where "l = last (sort_key fst bs)" and "m = last (sort_key fst (bs @ [x]))"
  note L = last_sort_key [OF False l_def [symmetric]]
  note M = last_sort_key [of "bs @ [x]" fst m, OF _ m_def [symmetric]]
  have xm: "fst x \<le> fst m" by (rule M(2)) simp_all
  have lm: "fst l \<le> fst m" by (rule M(2)) (simp_all add: L(1))
  have "m \<in> set (bs @ [x])" by (rule M(1)) simp
  then have "m = x \<or> m \<in> set bs" by simp
  then have ml: "fst m \<le> fst x \<or> fst m \<le> fst l"
  proof
    assume "m = x"
    then have "fst m = fst x" by (rule arg_cong)
    then show ?thesis by simp
  next
    assume "m \<in> set bs"
    then have "fst m \<le> fst l" by (rule L(2))
    then show ?thesis ..
  qed
  have last: "last (filter (\<lambda>y. fst y = fst m) (bs @ [x])) = m" by (rule M(3)) simp
  have "m = (if fst x \<ge> fst l then x else l)"
  proof (cases "fst x \<ge> fst l")
    case True
    then have "fst m = fst x" using xm ml by linarith
    then have "last (filter (\<lambda>y. fst y = fst m) (bs @ [x])) = x" by simp
    with last True show ?thesis by (simp only: if_True)
  next
    case lt: False
    then have "fst m = fst l" "fst x \<noteq> fst m" using xm lm ml by linarith+
    then have "filter (\<lambda>y. fst y = fst m) (bs @ [x]) = filter (\<lambda>y. fst y = fst l) bs" by simp
    with last L(3) lt show ?thesis by (simp only: if_False)
  qed
  moreover have "last_by_time (bs @ [x]) = Some m" by (simp only: last_by_time_def m_def) simp
  moreover have "last_by_time bs = Some l" using False by (simp only: last_by_time_def l_def) simp
  ultimately show ?thesis by simp
qed (simp add: last_by_time_def)

lemma bindings_snoc:
  "bindings key (es @ [e]) = bindings key es @
     (case event_key e of
        None \<Rightarrow> []
      | Some (k, s) \<Rightarrow> if k = key then [(ae_timestamp e, s)] else [])"
  by (auto simp: bindings_def split: option.split)

lemma latest_snoc:
  "hm_get (rf_latest (rf_push rf e)) key =
     (case event_key e of
        None \<Rightarrow> hm_get (rf_latest rf) key
      | Some (k, s) \<Rightarrow>
          if k = key
          then Some (case hm_get (rf_latest rf) key of
                       None \<Rightarrow> (ae_timestamp e, s)
                     | Some h \<Rightarrow> if ae_timestamp e \<ge> fst h then (ae_timestamp e, s) else h)
          else hm_get (rf_latest rf) key)"
  by (auto simp: rf_push_def Let_def update_conv split: option.split)

lemma fold_latest: "hm_get (rf_latest (foldl rf_push rf_default events)) key = last_by_time (bindings key events)"
proof (induction events rule: rev_induct)
  case Nil
  show ?case by (simp add: rf_default_def bindings_def last_by_time_def)
next
  case (snoc e events)
  then show ?case
    by (auto simp: latest_snoc bindings_snoc last_by_time_snoc split: option.split)
qed

lemma map_of_snd: "map_of (map (\<lambda>(k, v). (k, f v)) m) x = map_option f (map_of m x)"
  by (induction m) auto

lemma registry_get:
  "hm_get (fold_registry events) key = map_option (\<lambda>h. parse_template (snd h)) (last_by_time (bindings key events))"
proof -
  have "fold_registry events =
      map (\<lambda>(k, held). (k, parse_template (snd held))) (rf_latest (foldl rf_push rf_default events))"
    by (simp add: fold_registry_def fold_registry_checked_def rf_finish_checked_def)
  then show ?thesis by (simp add: map_of_snd fold_latest)
qed

lemma last_by_time_mem: "last_by_time bs = Some h \<Longrightarrow> h \<in> set bs"
  using last_sort_key(1) [of bs fst h] by (simp add: last_by_time_def split: if_splits)

lemma registry_unique:
  assumes "\<And>b. b \<in> set (bindings key events) \<Longrightarrow> snd b = s" and "bindings key events \<noteq> []"
  shows "hm_get (fold_registry events) key = Some (parse_template s)"
proof -
  obtain h where h: "last_by_time (bindings key events) = Some h"
    using assms(2) by (auto simp: last_by_time_def)
  with assms(1) last_by_time_mem [OF h] show ?thesis by (simp add: registry_get)
qed

section \<open>Conflicts\<close>

lemma conflicts_push:
  "set (rf_conflicts (rf_push rf e)) = set (rf_conflicts rf) \<union>
     (case event_key e of
        None \<Rightarrow> {}
      | Some (k, s) \<Rightarrow>
          (case hm_get (rf_latest rf) k of
             None \<Rightarrow> {} | Some h \<Rightarrow> if same_tokens (snd h) s then {} else {k}))"
  by (auto simp: rf_push_def Let_def set_insort_key split: option.split)

lemma same_tokens_iff: "same_tokens a b \<longleftrightarrow> parse_template a = parse_template b"
  by (auto simp: same_tokens_def)

lemma disagree_snoc:
  assumes "h \<in> A"
  shows "(\<exists>a \<in> insert x A. \<exists>b \<in> insert x A. f a \<noteq> f b) \<longleftrightarrow> f h \<noteq> f x \<or> (\<exists>a \<in> A. \<exists>b \<in> A. f a \<noteq> f b)"
  using assms by (metis insert_iff)

lemma conflicts_iff:
  "key \<in> set (rf_conflicts (foldl rf_push rf_default events)) \<longleftrightarrow>
     (\<exists>a \<in> set (bindings key events). \<exists>b \<in> set (bindings key events).
        parse_template (snd a) \<noteq> parse_template (snd b))"
proof (induction events rule: rev_induct)
  case Nil
  show ?case by (simp add: rf_default_def bindings_def)
next
  case (snoc e events)
  show ?case
  proof (cases "\<exists>s. event_key e = Some (key, s)")
    case False
    then have "bindings key (events @ [e]) = bindings key events"
      by (auto simp: bindings_snoc split: option.split)
    moreover have "key \<in> set (rf_conflicts (rf_push (foldl rf_push rf_default events) e))
        \<longleftrightarrow> key \<in> set (rf_conflicts (foldl rf_push rf_default events))"
      using False by (auto simp: conflicts_push split: option.splits if_splits)
    ultimately show ?thesis using snoc by simp
  next
    case True
    then obtain s where e: "event_key e = Some (key, s)" by blast
    have b: "bindings key (events @ [e]) = bindings key events @ [(ae_timestamp e, s)]"
      by (simp add: bindings_snoc e)
    show ?thesis
    proof (cases "last_by_time (bindings key events)")
      case None
      then have "bindings key events = []" by (simp add: last_by_time_def split: if_splits)
      with snoc b e None show ?thesis by (simp add: conflicts_push fold_latest)
    next
      case (Some h)
      have "key \<in> set (rf_conflicts (foldl rf_push rf_default (events @ [e]))) \<longleftrightarrow>
          parse_template (snd h) \<noteq> parse_template s \<or> key \<in> set (rf_conflicts (foldl rf_push rf_default events))"
        using e Some by (simp add: conflicts_push fold_latest same_tokens_iff)
      with snoc b disagree_snoc [OF last_by_time_mem [OF Some], of "(ae_timestamp e, s)" "\<lambda>b. parse_template (snd b)"]
      show ?thesis by simp
    qed
  qed
qed

section \<open>Properties\<close>

text \<open>C39. The streaming registry fold equals the reference: for every key, the tokens it serves
  are those of the event that comes last when the events binding the key are sorted by timestamp
  with ties in scan order; a key no event binds is absent.\<close>

theorem registry_is_last_by_time:
  "hm_get (fold_registry events) key =
     (let bs = bindings key events
      in if bs = [] then None else Some (parse_template (snd (last (sort_key fst bs)))))"
  by (simp add: registry_get last_by_time_def)

text \<open>C40. Conflict detection is exact: a key is reported exactly when the events bind it to two
  different token sequences, in whatever order and at whatever times they arrive.\<close>

theorem registry_conflicts_exact:
  "(key \<in> set (snd (fold_registry_checked events))) =
     (\<exists>a b. a \<in> set (bindings key events) \<and> b \<in> set (bindings key events)
        \<and> parse_template (snd a) \<noteq> parse_template (snd b))"
  unfolding fold_registry_checked_def rf_finish_checked_def snd_conv conflicts_iff by blast

end
