(* ===== verification/Cluster_Invariant.thy ===== *)
theory Cluster_Invariant
  imports Cluster Template_Registry
begin

text \<open>
  The invariant of the miner cluster. Per tenant it says that the tree is well formed, that the
  cached counts and the index of mined shapes are functions of the tree and the maps, and that the
  audit stream is a history of the templates: every leaf's current (id, version) and every adopted
  entry is bound to its text by an event, each (id, version) to one text only, and no version beyond
  a leaf's own is bound. Across tenants, template ids are pairwise distinct and issued. Each way an
  ingest changes the state is one lemma on the tenant; \<open>cluster_step\<close> lifts them to the cluster.
\<close>

section \<open>What the audit stream binds\<close>

definition bound :: "audit_event list \<Rightarrow> bytes \<Rightarrow> nat \<Rightarrow> nat \<Rightarrow> bytes \<Rightarrow> bool" where
  "bound evs tid i v s \<longleftrightarrow> (\<exists>e \<in> set evs. ae_tenant_id e = tid \<and> event_key e = Some ((i, v), s))"

definition owned_ids :: "(canonical_key, adopted_entry) hash_map \<Rightarrow> nat list" where
  "owned_ids ad = concat (map (\<lambda>ke. case snd ke of Owned o' \<Rightarrow> [oa_template_id o'] | TreeBacked _ _ \<Rightarrow> []) ad)"

definition entry_bound :: "audit_event list \<Rightarrow> bytes \<Rightarrow> canonical_key \<Rightarrow> adopted_entry \<Rightarrow> bool" where
  "entry_bound evs tid key e =
     (case e of Owned o' \<Rightarrow> bound evs tid (oa_template_id o') 1 (fst key) | TreeBacked i v \<Rightarrow> bound evs tid i v (fst key))"

text \<open>\<open>L\<close> holds (id, version, text) of the tenant's leaves.\<close>

definition audit_inv ::
  "audit_event list \<Rightarrow> bytes \<Rightarrow> (nat \<times> nat \<times> bytes) set \<Rightarrow> (canonical_key, adopted_entry) hash_map \<Rightarrow> bool" where
  "audit_inv evs tid L ad \<longleftrightarrow>
     (\<forall>(i, v, s) \<in> L. 1 \<le> v \<and> bound evs tid i v s)
     \<and> (\<forall>(key, e) \<in> set ad. entry_bound evs tid key e)
     \<and> (\<forall>i v s. bound evs tid i v s \<longrightarrow> (\<exists>v' s'. (i, v', s') \<in> L \<and> v \<le> v') \<or> i \<in> set (owned_ids ad) \<and> v = 1)
     \<and> (\<forall>i v s s'. bound evs tid i v s \<and> bound evs tid i v s' \<longrightarrow> s = s')"

lemma entry_bound_simps [simp]:
  "entry_bound evs tid key (TreeBacked i v) = bound evs tid i v (fst key)"
  "entry_bound evs tid key (Owned o') = bound evs tid (oa_template_id o') 1 (fst key)"
  by (simp_all add: entry_bound_def)

lemma bound_append: "bound (evs @ es) tid i v s \<longleftrightarrow> bound evs tid i v s \<or> bound es tid i v s"
  by (auto simp: bound_def)

lemma bound_mono: "bound evs tid i v s \<Longrightarrow> bound (evs @ es) tid i v s"
  by (simp add: bound_append)

lemma bound_one: "bound [e] tid i v s \<longleftrightarrow> ae_tenant_id e = tid \<and> event_key e = Some ((i, v), s)"
  by (auto simp: bound_def)

lemma entry_bound_mono: "entry_bound evs tid key e \<Longrightarrow> entry_bound (evs @ es) tid key e"
  by (auto simp: entry_bound_def bound_mono split: adopted_entry.split)

lemma audit_invD:
  assumes "audit_inv evs tid L ad"
  shows "(i, v, s) \<in> L \<Longrightarrow> 1 \<le> v \<and> bound evs tid i v s"
    and "(key, e) \<in> set ad \<Longrightarrow> entry_bound evs tid key e"
    and "bound evs tid i v s \<Longrightarrow> (\<exists>v' s'. (i, v', s') \<in> L \<and> v \<le> v') \<or> i \<in> set (owned_ids ad) \<and> v = 1"
    and "bound evs tid i v s \<Longrightarrow> bound evs tid i v s' \<Longrightarrow> s = s'"
  using assms unfolding audit_inv_def by blast+

lemma audit_invI:
  assumes "\<And>i v s. (i, v, s) \<in> L \<Longrightarrow> 1 \<le> v \<and> bound evs tid i v s"
    and "\<And>key e. (key, e) \<in> set ad \<Longrightarrow> entry_bound evs tid key e"
    and "\<And>i v s. bound evs tid i v s \<Longrightarrow> (\<exists>v' s'. (i, v', s') \<in> L \<and> v \<le> v') \<or> i \<in> set (owned_ids ad) \<and> v = 1"
    and "\<And>i v s s'. bound evs tid i v s \<Longrightarrow> bound evs tid i v s' \<Longrightarrow> s = s'"
  shows "audit_inv evs tid L ad"
  unfolding audit_inv_def using assms by blast

lemma audit_inv_cong:
  assumes "\<And>i v s. bound evs tid i v s \<longleftrightarrow> bound evs' tid i v s"
  shows "audit_inv evs tid L ad \<longleftrightarrow> audit_inv evs' tid L ad"
proof -
  have "bound evs tid = bound evs' tid" by (intro ext) (rule assms)
  then show ?thesis unfolding audit_inv_def entry_bound_def by (simp only:)
qed

lemma audit_inv_other:
  assumes "audit_inv evs tid L ad" and "\<And>i v s. \<not> bound es tid i v s"
  shows "audit_inv (evs @ es) tid L ad"
  using assms(1) by (subst audit_inv_cong [of _ _ evs]) (simp_all add: bound_append assms(2))

lemma audit_inv_empty: "(\<And>i v s. \<not> bound evs tid i v s) \<Longrightarrow> audit_inv evs tid {} []"
  by (simp add: audit_inv_def)

text \<open>An event on a fresh id: a leaf or an owned entry is born.\<close>

lemma audit_inv_fresh_leaf:
  assumes inv: "audit_inv evs tid L ad" and e: "ae_tenant_id e = tid" "event_key e = Some ((i, 1), s)"
    and fresh: "\<And>v t. (i, v, t) \<notin> L" "i \<notin> set (owned_ids ad)"
  shows "audit_inv (evs @ [e]) tid (insert (i, 1, s) L) ad"
proof -
  have none: "\<not> bound evs tid i v t" for v t
    using audit_invD(3) [OF inv] fresh by blast
  have b: "bound (evs @ [e]) tid j v t \<longleftrightarrow> bound evs tid j v t \<or> (j = i \<and> v = 1 \<and> t = s)" for j v t
    using e by (auto simp: bound_append bound_one)
  show ?thesis unfolding audit_inv_def
  proof (intro conjI)
    show "\<forall>(j, v, t) \<in> insert (i, 1, s) L. 1 \<le> v \<and> bound (evs @ [e]) tid j v t"
      using audit_invD(1) [OF inv] b by auto
    show "\<forall>(key, x) \<in> set ad. entry_bound (evs @ [e]) tid key x"
      using audit_invD(2) [OF inv] by (auto intro: entry_bound_mono)
    show "\<forall>j v t. bound (evs @ [e]) tid j v t \<longrightarrow>
        (\<exists>v' s'. (j, v', s') \<in> insert (i, 1, s) L \<and> v \<le> v') \<or> j \<in> set (owned_ids ad) \<and> v = 1"
      using audit_invD(3) [OF inv] b by (metis insertCI le_refl)
    show "\<forall>j v t t'. bound (evs @ [e]) tid j v t \<and> bound (evs @ [e]) tid j v t' \<longrightarrow> t = t'"
      using audit_invD(4) [OF inv] b none by metis
  qed
qed

text \<open>A leaf goes one version up.\<close>

lemma audit_inv_bump:
  assumes inv: "audit_inv evs tid (insert (i, v, s) L) ad"
    and e: "ae_tenant_id e = tid" "event_key e = Some ((i, v + 1), s1)"
    and fresh: "\<And>v t. (i, v, t) \<notin> L" "i \<notin> set (owned_ids ad)"
  shows "audit_inv (evs @ [e]) tid (insert (i, v + 1, s1) L) ad"
proof -
  have le: "w \<le> v" if "bound evs tid i w t" for w t
    using audit_invD(3) [OF inv that] fresh by auto
  have b: "bound (evs @ [e]) tid j w t \<longleftrightarrow> bound evs tid j w t \<or> (j = i \<and> w = v + 1 \<and> t = s1)" for j w t
    using e by (auto simp: bound_append bound_one)
  have none: "\<not> bound evs tid i (v + 1) t" for t using le by fastforce
  show ?thesis unfolding audit_inv_def
  proof (intro conjI)
    show "\<forall>(j, w, t) \<in> insert (i, v + 1, s1) L. 1 \<le> w \<and> bound (evs @ [e]) tid j w t"
      using audit_invD(1) [OF inv] b by auto
    show "\<forall>(key, x) \<in> set ad. entry_bound (evs @ [e]) tid key x"
      using audit_invD(2) [OF inv] by (auto intro: entry_bound_mono)
    show "\<forall>j w t. bound (evs @ [e]) tid j w t \<longrightarrow>
        (\<exists>v' s'. (j, v', s') \<in> insert (i, v + 1, s1) L \<and> w \<le> v') \<or> j \<in> set (owned_ids ad) \<and> w = 1"
    proof (intro allI impI)
      fix j w t
      assume "bound (evs @ [e]) tid j w t"
      then consider "j = i" "w \<le> v + 1" | "j \<noteq> i" "bound evs tid j w t" using b le by force
      then show "(\<exists>v' s'. (j, v', s') \<in> insert (i, v + 1, s1) L \<and> w \<le> v') \<or> j \<in> set (owned_ids ad) \<and> w = 1"
      proof cases
        case 2
        with audit_invD(3) [OF inv] show ?thesis by blast
      qed blast
    qed
    show "\<forall>j w t t'. bound (evs @ [e]) tid j w t \<and> bound (evs @ [e]) tid j w t' \<longrightarrow> t = t'"
      using audit_invD(4) [OF inv] b none by metis
  qed
qed

text \<open>A repeated binding of what is bound already, and a binding added to the adopted map.\<close>

lemma audit_inv_rebind:
  assumes inv: "audit_inv evs tid L ad" and e: "ae_tenant_id e = tid" "event_key e = Some ((i, v), s)"
    and old: "bound evs tid i v s"
  shows "audit_inv (evs @ [e]) tid L ad"
  using inv by (subst audit_inv_cong [of _ _ evs]) (use e old in \<open>auto simp: bound_append bound_one\<close>)

lemma owned_ids_insert_fresh:
  "hm_get ad key = None \<Longrightarrow> owned_ids (hm_insert key e ad) =
     owned_ids ad @ (case e of Owned o' \<Rightarrow> [oa_template_id o'] | TreeBacked _ _ \<Rightarrow> [])"
  by (simp add: owned_ids_def update_fresh)

lemma audit_inv_adopted_leaf:
  assumes "audit_inv evs tid L ad" and "hm_get ad key = None" and "bound evs tid i v (fst key)"
  shows "audit_inv evs tid L (hm_insert key (TreeBacked i v) ad)"
proof (rule audit_invI)
  show "(i', v', s') \<in> L \<Longrightarrow> 1 \<le> v' \<and> bound evs tid i' v' s'" for i' v' s'
    by (rule audit_invD(1) [OF assms(1)])
  show "(key', e) \<in> set (hm_insert key (TreeBacked i v) ad) \<Longrightarrow> entry_bound evs tid key' e" for key' e
    using set_update [of "(key', e)" key "TreeBacked i v" ad] audit_invD(2) [OF assms(1), of key' e] assms(3)
    by auto
  show "bound evs tid i' v' s' \<Longrightarrow> (\<exists>w t. (i', w, t) \<in> L \<and> v' \<le> w)
      \<or> i' \<in> set (owned_ids (hm_insert key (TreeBacked i v) ad)) \<and> v' = 1" for i' v' s'
    using audit_invD(3) [OF assms(1)] assms(2) by (simp add: owned_ids_insert_fresh)
  show "bound evs tid i' v' s \<Longrightarrow> bound evs tid i' v' s' \<Longrightarrow> s = s'" for i' v' s s'
    by (rule audit_invD(4) [OF assms(1)])
qed

lemma audit_inv_fresh_owned:
  assumes inv: "audit_inv evs tid L ad" and e: "ae_tenant_id e = tid" "event_key e = Some ((oa_template_id o', 1), fst key)"
    and fresh: "\<And>v t. (oa_template_id o', v, t) \<notin> L" "oa_template_id o' \<notin> set (owned_ids ad)"
    and new: "hm_get ad key = None"
  shows "audit_inv (evs @ [e]) tid L (hm_insert key (Owned o') ad)"
proof -
  let ?i = "oa_template_id o'"
  have none: "\<not> bound evs tid ?i v t" for v t
    using audit_invD(3) [OF inv] fresh by blast
  have b: "bound (evs @ [e]) tid j v t \<longleftrightarrow> bound evs tid j v t \<or> (j = ?i \<and> v = 1 \<and> t = fst key)" for j v t
    using e by (auto simp: bound_append bound_one)
  show ?thesis
  proof (rule audit_invI)
    show "(j, v, t) \<in> L \<Longrightarrow> 1 \<le> v \<and> bound (evs @ [e]) tid j v t" for j v t
      using audit_invD(1) [OF inv] b by auto
    show "(k, x) \<in> set (hm_insert key (Owned o') ad) \<Longrightarrow> entry_bound (evs @ [e]) tid k x" for k x
    proof -
      assume "(k, x) \<in> set (hm_insert key (Owned o') ad)"
      then consider "k = key" "x = Owned o'" | "(k, x) \<in> set ad" by (blast dest: set_update)
      then show ?thesis
      proof cases
        case 1
        then show ?thesis by (simp add: b)
      next
        case 2
        then show ?thesis by (rule audit_invD(2) [OF inv, THEN entry_bound_mono])
      qed
    qed
    show "bound (evs @ [e]) tid j v t \<Longrightarrow> (\<exists>w u. (j, w, u) \<in> L \<and> v \<le> w)
        \<or> j \<in> set (owned_ids (hm_insert key (Owned o') ad)) \<and> v = 1" for j v t
      using audit_invD(3) [OF inv, of j v t] unfolding b owned_ids_insert_fresh [OF new] by auto
    show "bound (evs @ [e]) tid j v t \<Longrightarrow> bound (evs @ [e]) tid j v u \<Longrightarrow> t = u" for j v t u
      using audit_invD(4) [OF inv, of j v t u] none unfolding b by blast
  qed
qed

text \<open>An owned entry read and written back with the same id, and one that becomes a leaf's.\<close>

lemma owned_ids_split:
  assumes "hm_get ad key = Some (Owned o')"
  obtains R where "mset (owned_ids ad) = add_mset (oa_template_id o') R"
    "\<And>e. mset (owned_ids (hm_insert key e ad)) = R + mset (case e of Owned o' \<Rightarrow> [oa_template_id o'] | TreeBacked _ _ \<Rightarrow> [])"
  using mset_update_present [OF assms, of "\<lambda>ke. case snd ke of Owned o' \<Rightarrow> [oa_template_id o'] | TreeBacked _ _ \<Rightarrow> []"]
  unfolding owned_ids_def by auto

lemma audit_inv_owned_same:
  assumes inv: "audit_inv evs tid L ad" and get: "hm_get ad key = Some (Owned o')"
    and same: "oa_template_id o2 = oa_template_id o'"
  shows "audit_inv evs tid L (hm_insert key (Owned o2) ad)"
proof -
  obtain R where "mset (owned_ids ad) = add_mset (oa_template_id o') R"
    "\<And>e. mset (owned_ids (hm_insert key e ad)) = R + mset (case e of Owned o' \<Rightarrow> [oa_template_id o'] | TreeBacked _ _ \<Rightarrow> [])"
    using owned_ids_split [OF get] by blast
  with same have "mset (owned_ids (hm_insert key (Owned o2) ad)) = mset (owned_ids ad)" by simp
  then have ids: "set (owned_ids (hm_insert key (Owned o2) ad)) = set (owned_ids ad)" by (rule mset_eq_setD)
  show ?thesis
  proof (rule audit_invI)
    show "(k, x) \<in> set (hm_insert key (Owned o2) ad) \<Longrightarrow> entry_bound evs tid k x" for k x
      using set_update [of "(k, x)" key "Owned o2" ad] audit_invD(2) [OF inv, of k x]
        audit_invD(2) [OF inv map_of_SomeD [OF get]] same by auto
    show "bound evs tid j v t \<Longrightarrow> (\<exists>w u. (j, w, u) \<in> L \<and> v \<le> w)
        \<or> j \<in> set (owned_ids (hm_insert key (Owned o2) ad)) \<and> v = 1" for j v t
      using audit_invD(3) [OF inv] by (simp add: ids)
  qed (use audit_invD(1,4) [OF inv] in blast)+
qed

lemma set_remove: "x \<in> set (hm_remove k m) \<Longrightarrow> x \<in> set m"
  by (induction m) (auto split: if_splits)

lemma owned_ids_removed:
  assumes get: "hm_get ad key = Some (Owned o')" and wf: "hm_wf ad"
  shows "mset (owned_ids ad) = add_mset (oa_template_id o')
           (mset (owned_ids (hm_insert key (TreeBacked i v) (hm_remove key ad))))"
proof -
  have "mset (owned_ids ad) = add_mset (oa_template_id o') (mset (owned_ids (hm_remove key ad)))"
    using assms
  proof (induction ad)
    case (Cons p ad)
    show ?case
    proof (cases "fst p = key")
      case True
      with Cons.prems have "snd p = Owned o'" "key \<notin> fst ` set ad" by (auto simp: hm_wf_def)
      then have "hm_remove key ad = ad" by (simp add: delete_id)
      with True \<open>snd p = Owned o'\<close> show ?thesis by (simp add: owned_ids_def)
    next
      case False
      with Cons show ?thesis by (cases p) (simp add: owned_ids_def hm_wf_def)
    qed
  qed simp
  then show ?thesis by (simp add: owned_ids_insert_fresh delete_conv)
qed

lemma audit_inv_converged:
  assumes inv: "audit_inv evs tid L ad" and get: "hm_get ad key = Some (Owned o')" and wf: "hm_wf ad"
  shows "audit_inv evs tid (insert (oa_template_id o', 1, fst key) L)
           (hm_insert key (TreeBacked (oa_template_id o') 1) (hm_remove key ad))"
proof -
  let ?ad = "hm_insert key (TreeBacked (oa_template_id o') 1) (hm_remove key ad)"
  have b: "bound evs tid (oa_template_id o') 1 (fst key)"
    using audit_invD(2) [OF inv map_of_SomeD [OF get]] by simp
  have ids: "i = oa_template_id o' \<or> i \<in> set (owned_ids ?ad)" if "i \<in> set (owned_ids ad)" for i
    using mset_eq_setD [OF owned_ids_removed [OF get wf, of "oa_template_id o'" 1, folded mset.simps(2)]] that
    by auto
  show ?thesis
  proof (rule audit_invI)
    show "(j, v, t) \<in> insert (oa_template_id o', 1, fst key) L \<Longrightarrow> 1 \<le> v \<and> bound evs tid j v t" for j v t
      using audit_invD(1) [OF inv] b by auto
    show "(k, x) \<in> set ?ad \<Longrightarrow> entry_bound evs tid k x" for k x
      using set_update [of "(k, x)" key "TreeBacked (oa_template_id o') 1" "hm_remove key ad"]
        set_remove [of "(k, x)" key ad] audit_invD(2) [OF inv, of k x] b by auto
    show "bound evs tid j v t \<Longrightarrow> (\<exists>w u. (j, w, u) \<in> insert (oa_template_id o', 1, fst key) L \<and> v \<le> w)
        \<or> j \<in> set (owned_ids ?ad) \<and> v = 1" for j v t
      using audit_invD(3) [OF inv, of j v t] ids [of j] by auto
    show "bound evs tid j v t \<Longrightarrow> bound evs tid j v u \<Longrightarrow> t = u" for j v t u
      by (rule audit_invD(4) [OF inv])
  qed
qed

section \<open>The index of mined shapes\<close>

text \<open>What the cluster relies on of the index: it answers membership in the multiset of shapes the
  leaves have, through insertion and through one leaf changing shape.\<close>

locale shape_index =
  fixes rep :: "'i \<Rightarrow> 'k multiset \<Rightarrow> bool" and ins :: "'i \<Rightarrow> 'k \<Rightarrow> 'i"
    and repl :: "'i \<Rightarrow> 'k \<Rightarrow> 'k \<Rightarrow> 'i" and has :: "'i \<Rightarrow> 'k \<Rightarrow> bool"
  assumes rep_has: "rep m M \<Longrightarrow> has m k \<longleftrightarrow> k \<in># M"
    and rep_ins: "rep m M \<Longrightarrow> rep (ins m k) (add_mset k M)"
    and rep_repl: "rep m (add_mset old M) \<Longrightarrow> rep (repl m old new) (add_mset new M)"
begin

lemma shared_shape_stays:
  "rep m (add_mset old (add_mset old M)) \<Longrightarrow> has (repl m old new) old"
  using rep_has [OF rep_repl] by auto

lemma last_shape_goes:
  "rep m (add_mset old M) \<Longrightarrow> old \<notin># M \<Longrightarrow> old \<noteq> new \<Longrightarrow> \<not> has (repl m old new) old \<and> has (repl m old new) new"
  using rep_has [OF rep_repl] by auto

end

definition mc_ok :: "mined_canonicals \<Rightarrow> canonical_key multiset \<Rightarrow> bool" where
  "mc_ok m M \<longleftrightarrow> (\<forall>key. hm_get m key = (if count M key = 0 then None else Some (count M key)))"

lemma mc_ok_insert: "mc_ok m M \<Longrightarrow> mc_ok (mc_insert m k) (add_mset k M)"
  by (auto simp: mc_ok_def mc_insert_def update_conv count_eq_zero_iff simp del: split_paired_All)

interpretation mci: shape_index mc_ok mc_insert mc_replace mc_contains
proof unfold_locales
  fix m :: mined_canonicals and M k old new
  show "mc_contains m k \<longleftrightarrow> k \<in># M" if "mc_ok m M"
    using that by (simp add: mc_ok_def mc_contains_def count_eq_zero_iff del: split_paired_All)
  show "mc_ok (mc_insert m k) (add_mset k M)" if "mc_ok m M"
    using that by (rule mc_ok_insert)
  show "mc_ok (mc_replace m old new) (add_mset new M)" if ok: "mc_ok m (add_mset old M)"
  proof -
    have get: "hm_get m old = Some (Suc (count M old))" using ok by (simp add: mc_ok_def del: split_paired_All)
    have "mc_ok (if count M old = 0 then hm_remove old m else hm_insert old (count M old) m) M"
      using ok by (auto simp: mc_ok_def update_conv delete_conv count_eq_zero_iff simp del: split_paired_All)
    then have "mc_ok (mc_insert (if count M old = 0 then hm_remove old m else hm_insert old (count M old) m) new)
        (add_mset new M)"
      by (rule mc_ok_insert)
    with get show ?thesis by (cases "count M old = 0") (simp_all add: mc_replace_def count_eq_zero_iff)
  qed
qed

section \<open>Tenants\<close>

abbreviation ten_leaves :: "tenant_state \<Rightarrow> leaf list" where
  "ten_leaves st \<equiv> collect_leaves (ten_tree st)"

definition leaf_info :: "leaf \<Rightarrow> nat \<times> nat \<times> bytes" where
  "leaf_info l = (lf_template_id l, lf_template_version l, format_template (lf_template l))"

definition leaf_key :: "leaf \<Rightarrow> canonical_key" where
  "leaf_key l = (format_template (lf_template l), lf_severity_number l, lf_scope_name l)"

definition tenant_ids :: "tenant_state \<Rightarrow> nat list" where
  "tenant_ids st = map lf_template_id (ten_leaves st) @ owned_ids (ten_adopted st) @ map snd (ten_structured st)"

definition tenant_inv :: "audit_event list \<Rightarrow> bytes \<Rightarrow> tenant_state \<Rightarrow> bool" where
  "tenant_inv evs tid st \<longleftrightarrow>
     tree_wf (ten_tree st) \<and> (\<forall>l \<in> set (ten_leaves st). leaf_wf l) \<and> hm_wf (ten_adopted st)
     \<and> ten_leaf_count st = length (ten_leaves st)
     \<and> ten_owned_count st = length (owned_ids (ten_adopted st))
     \<and> ten_template_count st = length (tenant_ids st)
     \<and> mc_ok (ten_canonicals st) (image_mset leaf_key (mset (ten_leaves st)))
     \<and> audit_inv evs tid (leaf_info ` set (ten_leaves st)) (ten_adopted st)
     \<and> distinct (tenant_ids st)"

lemma tenant_inv_new:
  assumes "\<And>i v s. \<not> bound evs tid i v s"
  shows "tenant_inv evs tid (tenant_new config)"
  using audit_inv_empty [OF assms]
  by (simp add: tenant_inv_def tenant_new_def tenant_ids_def owned_ids_def mc_ok_def)
     (simp add: tree_new_def collect_leaves_def)

lemma tenant_inv_other:
  "tenant_inv evs tid st \<Longrightarrow> (\<And>i v s. \<not> bound es tid i v s) \<Longrightarrow> tenant_inv (evs @ es) tid st"
  by (simp add: tenant_inv_def audit_inv_other)

lemma tenant_ids_mset:
  "mset (tenant_ids st) = image_mset lf_template_id (mset (ten_leaves st))
     + mset (owned_ids (ten_adopted st)) + mset (map snd (ten_structured st))"
  by (simp add: tenant_ids_def)

lemma distinct_by_mset: "mset xs = mset ys \<Longrightarrow> distinct xs = distinct ys"
  by (metis mset_eq_imp_distinct_iff)

text \<open>A structured key gets an id.\<close>

lemma tenant_structured:
  assumes inv: "tenant_inv evs tid st" and new: "hm_get (ten_structured st) key = None"
    and i: "i \<notin> set (tenant_ids st)"
    and st': "st' = st\<lparr>ten_structured := hm_insert key i (ten_structured st),
                      ten_template_count := ten_template_count st + 1\<rparr>"
  shows "tenant_inv evs tid st'" and "mset (tenant_ids st') = add_mset i (mset (tenant_ids st))"
proof -
  show m: "mset (tenant_ids st') = add_mset i (mset (tenant_ids st))"
    using new by (simp add: tenant_ids_mset st' update_fresh)
  have "distinct (tenant_ids st')"
    using inv i distinct_by_mset [of "tenant_ids st'" "i # tenant_ids st"] m by (simp add: tenant_inv_def)
  moreover have "length (tenant_ids st') = Suc (length (tenant_ids st))"
    using arg_cong [OF m, of size] by simp
  ultimately show "tenant_inv evs tid st'" using inv by (simp add: tenant_inv_def st')
qed

text \<open>A leaf is replaced by one with the same identity, version, text and key.\<close>

lemma tenant_same_info:
  assumes inv: "tenant_inv evs tid st" and tree: "tree_wf tree"
    and old: "mset (ten_leaves st) = add_mset l R" and new: "mset (collect_leaves tree) = add_mset l' R"
    and same: "leaf_info l' = leaf_info l" "leaf_key l' = leaf_key l" "leaf_wf l'"
  shows "tenant_inv evs tid (st\<lparr>ten_tree := tree\<rparr>)"
    and "mset (tenant_ids (st\<lparr>ten_tree := tree\<rparr>)) = mset (tenant_ids st)"
proof -
  let ?st = "st\<lparr>ten_tree := tree\<rparr>"
  have id: "lf_template_id l' = lf_template_id l" using same(1) by (simp add: leaf_info_def)
  then show m: "mset (tenant_ids ?st) = mset (tenant_ids st)"
    by (simp add: tenant_ids_mset old new)
  have sets: "set (ten_leaves st) = insert l (set_mset R)" "set (collect_leaves tree) = insert l' (set_mset R)"
    using arg_cong [OF old, of set_mset] arg_cong [OF new, of set_mset] by simp_all
  have len: "length (collect_leaves tree) = length (ten_leaves st)"
    using arg_cong [OF old, of size] arg_cong [OF new, of size] by simp
  show "tenant_inv evs tid ?st"
    using inv tree same distinct_by_mset [OF m] arg_cong [OF m, of size]
    by (simp add: tenant_inv_def sets len old new)
qed

lemma info_id: "(i, v, s) \<in> leaf_info ` A \<Longrightarrow> i \<in> lf_template_id ` A"
  by (auto simp: leaf_info_def)

lemma tenant_ids_fresh:
  assumes "i \<notin> set (tenant_ids st)"
  shows "(i, v, s) \<notin> leaf_info ` set (ten_leaves st)" and "i \<notin> set (owned_ids (ten_adopted st))"
  using assms info_id [of i v s "set (ten_leaves st)"] by (auto simp: tenant_ids_def)

text \<open>A leaf is born at version 1 with a fresh id.\<close>

lemma tenant_new_leaf:
  assumes inv: "tenant_inv evs tid st" and tree: "tree_wf tree"
    and new: "mset (collect_leaves tree) = add_mset l (mset (ten_leaves st))"
    and l: "leaf_wf l" "lf_template_version l = 1" "lf_template_id l \<notin> set (tenant_ids st)"
    and e: "ae_tenant_id e = tid" "event_key e = Some ((lf_template_id l, 1), format_template (lf_template l))"
    and st': "st' = st\<lparr>ten_tree := tree, ten_template_count := ten_template_count st + 1,
                       ten_leaf_count := ten_leaf_count st + 1,
                       ten_canonicals := mc_insert (ten_canonicals st) (leaf_key l)\<rparr>"
  shows "tenant_inv (evs @ [e]) tid st'"
    and "mset (tenant_ids st') = add_mset (lf_template_id l) (mset (tenant_ids st))"
proof -
  show m: "mset (tenant_ids st') = add_mset (lf_template_id l) (mset (tenant_ids st))"
    by (simp add: tenant_ids_mset st' new)
  have sets: "set (collect_leaves tree) = insert l (set (ten_leaves st))"
    using arg_cong [OF new, of set_mset] by simp
  have len: "length (collect_leaves tree) = Suc (length (ten_leaves st))"
    using arg_cong [OF new, of size] by simp
  have "distinct (tenant_ids st')"
    using inv l(3) distinct_by_mset [of "tenant_ids st'" "lf_template_id l # tenant_ids st"] m
    by (simp add: tenant_inv_def)
  moreover have "audit_inv (evs @ [e]) tid (insert (lf_template_id l, 1, format_template (lf_template l))
      (leaf_info ` set (ten_leaves st))) (ten_adopted st)"
    using inv tenant_ids_fresh [OF l(3)] e by (intro audit_inv_fresh_leaf) (auto simp: tenant_inv_def)
  moreover have "leaf_info l = (lf_template_id l, 1, format_template (lf_template l))"
    using l(2) by (simp add: leaf_info_def)
  moreover have "mc_ok (mc_insert (ten_canonicals st) (leaf_key l))
      (add_mset (leaf_key l) (image_mset leaf_key (mset (ten_leaves st))))"
    using inv by (intro mci.rep_ins) (simp add: tenant_inv_def)
  ultimately show "tenant_inv (evs @ [e]) tid st'"
    using inv tree l(1) arg_cong [OF m, of size]
    by (simp add: tenant_inv_def st' sets len new)
qed

text \<open>A leaf is born under the identity of an adopted entry of the same shape.\<close>

lemma tenant_converged_leaf:
  assumes inv: "tenant_inv evs tid st" and get: "hm_get (ten_adopted st) (leaf_key l) = Some (Owned o')"
    and tree: "tree_wf tree" and new: "mset (collect_leaves tree) = add_mset l (mset (ten_leaves st))"
    and l: "leaf_wf l" "lf_template_version l = 1" "lf_template_id l = oa_template_id o'"
    and e: "ae_tenant_id e = tid" "event_key e = Some ((lf_template_id l, 1), format_template (lf_template l))"
    and st': "st' = (fst (take_converged_adoption st (leaf_key l)))\<lparr>ten_tree := tree,
                       ten_leaf_count := ten_leaf_count st + 1,
                       ten_canonicals := mc_insert (ten_canonicals st) (leaf_key l)\<rparr>"
  shows "tenant_inv (evs @ [e]) tid st'" and "mset (tenant_ids st') = mset (tenant_ids st)"
proof -
  let ?ad = "hm_insert (leaf_key l) (TreeBacked (oa_template_id o') 1) (hm_remove (leaf_key l) (ten_adopted st))"
  have wf: "hm_wf (ten_adopted st)" and ai: "audit_inv evs tid (leaf_info ` set (ten_leaves st)) (ten_adopted st)"
    using inv by (auto simp: tenant_inv_def)
  have st'': "st' = st\<lparr>ten_adopted := ?ad, ten_owned_count := ten_owned_count st - 1, ten_tree := tree,
      ten_leaf_count := ten_leaf_count st + 1, ten_canonicals := mc_insert (ten_canonicals st) (leaf_key l)\<rparr>"
    using get by (simp add: st' take_converged_adoption_def)
  note om = owned_ids_removed [OF get wf, of "oa_template_id o'" 1]
  show m: "mset (tenant_ids st') = mset (tenant_ids st)"
    using om l(3) by (simp add: tenant_ids_mset st'' new)
  have sets: "set (collect_leaves tree) = insert l (set (ten_leaves st))"
    using arg_cong [OF new, of set_mset] by simp
  have len: "length (collect_leaves tree) = Suc (length (ten_leaves st))"
    using arg_cong [OF new, of size] by simp
  have olen: "length (owned_ids (ten_adopted st)) = Suc (length (owned_ids ?ad))"
    using arg_cong [OF om, of size] by simp
  have key: "fst (leaf_key l) = format_template (lf_template l)" by (simp add: leaf_key_def)
  have info: "leaf_info l = (oa_template_id o', 1, fst (leaf_key l))"
    using l by (simp add: leaf_info_def leaf_key_def)
  have "bound evs tid (oa_template_id o') 1 (fst (leaf_key l))"
    using audit_invD(2) [OF ai map_of_SomeD [OF get]] by simp
  then have "audit_inv (evs @ [e]) tid (insert (oa_template_id o', 1, fst (leaf_key l))
      (leaf_info ` set (ten_leaves st))) ?ad"
    using e l key by (intro audit_inv_rebind [OF audit_inv_converged [OF ai get wf]]) auto
  moreover have "mc_ok (mc_insert (ten_canonicals st) (leaf_key l))
      (add_mset (leaf_key l) (image_mset leaf_key (mset (ten_leaves st))))"
    using inv by (intro mci.rep_ins) (simp add: tenant_inv_def)
  ultimately show "tenant_inv (evs @ [e]) tid st'"
    using inv tree l(1) distinct_by_mset [OF m] arg_cong [OF m, of size] olen
    by (simp add: tenant_inv_def st'' sets len new info)
qed

text \<open>Adoption: a fresh entry, an entry observed again, an entry that rides a leaf.\<close>

lemma tenant_intern:
  assumes inv: "tenant_inv evs tid st" and get: "hm_get (ten_adopted st) key = None"
    and i: "oa_template_id o' \<notin> set (tenant_ids st)"
    and e: "ae_tenant_id e = tid" "event_key e = Some ((oa_template_id o', 1), fst key)"
    and st': "st' = st\<lparr>ten_adopted := hm_insert key (Owned o') (ten_adopted st),
                       ten_owned_count := ten_owned_count st + 1,
                       ten_template_count := ten_template_count st + 1\<rparr>"
  shows "tenant_inv (evs @ [e]) tid st'"
    and "mset (tenant_ids st') = add_mset (oa_template_id o') (mset (tenant_ids st))"
proof -
  have oi: "owned_ids (hm_insert key (Owned o') (ten_adopted st)) = owned_ids (ten_adopted st) @ [oa_template_id o']"
    by (simp add: owned_ids_insert_fresh [OF get])
  show m: "mset (tenant_ids st') = add_mset (oa_template_id o') (mset (tenant_ids st))"
    by (simp add: tenant_ids_mset st' oi)
  have "distinct (tenant_ids st')"
    using inv i distinct_by_mset [of "tenant_ids st'" "oa_template_id o' # tenant_ids st"] m
    by (simp add: tenant_inv_def)
  moreover have "audit_inv (evs @ [e]) tid (leaf_info ` set (ten_leaves st)) (hm_insert key (Owned o') (ten_adopted st))"
    using inv tenant_ids_fresh [OF i] e get by (intro audit_inv_fresh_owned) (auto simp: tenant_inv_def)
  ultimately show "tenant_inv (evs @ [e]) tid st'"
    using inv arg_cong [OF m, of size] by (simp add: tenant_inv_def st' oi)
qed

lemma tenant_observe_owned:
  assumes inv: "tenant_inv evs tid st" and get: "hm_get (ten_adopted st) key = Some (Owned o')"
    and same: "oa_template_id o2 = oa_template_id o'"
    and st': "st' = st\<lparr>ten_adopted := hm_insert key (Owned o2) (ten_adopted st)\<rparr>"
  shows "tenant_inv evs tid st'" and "mset (tenant_ids st') = mset (tenant_ids st)"
proof -
  obtain R where "mset (owned_ids (ten_adopted st)) = add_mset (oa_template_id o') R"
    "\<And>e. mset (owned_ids (hm_insert key e (ten_adopted st))) =
       R + mset (case e of Owned o' \<Rightarrow> [oa_template_id o'] | TreeBacked _ _ \<Rightarrow> [])"
    using owned_ids_split [OF get] by blast
  with same have om: "mset (owned_ids (hm_insert key (Owned o2) (ten_adopted st))) = mset (owned_ids (ten_adopted st))"
    by simp
  show m: "mset (tenant_ids st') = mset (tenant_ids st)" by (simp add: tenant_ids_mset st' om)
  show "tenant_inv evs tid st'"
    using inv audit_inv_owned_same [OF _ get same] distinct_by_mset [OF m] arg_cong [OF m, of size]
      arg_cong [OF om, of size]
    by (simp add: tenant_inv_def st')
qed

lemma tenant_adopt_leaf:
  assumes inv: "tenant_inv evs tid st" and get: "hm_get (ten_adopted st) key = None"
    and b: "bound evs tid i v (fst key)"
    and st': "st' = st\<lparr>ten_adopted := hm_insert key (TreeBacked i v) (ten_adopted st)\<rparr>"
  shows "tenant_inv evs tid st'" and "mset (tenant_ids st') = mset (tenant_ids st)"
proof -
  have oi: "owned_ids (hm_insert key (TreeBacked i v) (ten_adopted st)) = owned_ids (ten_adopted st)"
    by (simp add: owned_ids_insert_fresh [OF get])
  show m: "mset (tenant_ids st') = mset (tenant_ids st)" by (simp add: tenant_ids_mset st' oi)
  show "tenant_inv evs tid st'"
    using inv audit_inv_adopted_leaf [OF _ get b] distinct_by_mset [OF m] arg_cong [OF m, of size]
    by (simp add: tenant_inv_def st' oi)
qed

section \<open>Attaching\<close>

definition is_event :: "bytes \<Rightarrow> nat \<Rightarrow> template_change \<Rightarrow> audit_event \<Rightarrow> bool" where
  "is_event tid i change e \<longleftrightarrow> ae_tenant_id e = tid
     \<and> event_key e = map_option (\<lambda>(v, t). ((i, v), t)) (keyed_template change)"

lemma audit_inv_chain:
  assumes "list_all2 (is_event tid i) events es" and "version_chain v s events v' s'"
    and "audit_inv evs tid (insert (i, v, s) L) ad"
    and "\<And>v t. (i, v, t) \<notin> L" and "i \<notin> set (owned_ids ad)"
  shows "audit_inv (evs @ es) tid (insert (i, v', s') L) ad"
  using assms(1-3)
proof (induction events es arbitrary: evs v s rule: list_all2_induct)
  case Nil
  then show ?case by simp
next
  case (Cons ch events e es)
  from Cons.prems(1) obtain s1 where ch: "keyed_template ch = Some (v + 1, s1)"
    "version_chain (v + 1) s1 events v' s'"
    by (cases ch) auto
  have "audit_inv (evs @ [e]) tid (insert (i, v + 1, s1) L) ad"
    by (rule audit_inv_bump [OF Cons.prems(2)]) (use Cons.hyps(1) ch(1) assms(4,5) in \<open>auto simp: is_event_def\<close>)
  from Cons.IH [OF ch(2) this] show ?case by simp
qed

lemma widened_move_fold:
  "version_chain v s events v' s' \<Longrightarrow>
   fold (\<lambda>change acc.
         case change of
           Widened _ _ old_template new_template _ \<Rightarrow>
             Some (case acc of None \<Rightarrow> old_template | Some (old, _) \<Rightarrow> old, new_template)
         | _ \<Rightarrow> acc) events acc = acc \<and> s' = s
   \<or> fold (\<lambda>change acc.
         case change of
           Widened _ _ old_template new_template _ \<Rightarrow>
             Some (case acc of None \<Rightarrow> old_template | Some (old, _) \<Rightarrow> old, new_template)
         | _ \<Rightarrow> acc) events acc = Some (case acc of None \<Rightarrow> s | Some (old, _) \<Rightarrow> old, s')"
proof (induction events arbitrary: v s acc)
  case (Cons ch events)
  show ?case
  proof (cases ch)
    case (Widened ov nv os ns pos)
    with Cons.prems have "version_chain nv ns events v' s'" "os = s" by auto
    from Cons.IH [OF this(1), of "Some (case acc of None \<Rightarrow> s | Some (old, _) \<Rightarrow> old, ns)"] this(2) Widened
    show ?thesis by (auto split: option.split)
  next
    case (TypeExpanded ov nv os ns sl)
    with Cons.prems have "version_chain nv s events v' s'" by auto
    from Cons.IH [OF this, of acc] TypeExpanded show ?thesis by simp
  qed (use Cons.prems in auto)
qed simp

lemma widened_move_chain:
  assumes "version_chain v s events v' s'"
  shows "widened_move events = None \<and> s' = s \<or> widened_move events = Some (s, s')"
  using widened_move_fold [OF assms, of None] unfolding widened_move_def by simp

lemma tenant_attach:
  assumes inv: "tenant_inv evs tid st" and tree: "tree_wf tree"
    and old: "mset (ten_leaves st) = add_mset l R" and new: "mset (collect_leaves tree) = add_mset l' R"
    and l': "lf_template_id l' = lf_template_id l" "leaf_wf l'"
    and es: "list_all2 (is_event tid (lf_template_id l)) events es"
    and chain: "version_chain (lf_template_version l) (format_template (lf_template l)) events
                  (lf_template_version l') (format_template (lf_template l'))"
    and mc: "mc_ok mcs (image_mset leaf_key (mset (collect_leaves tree)))"
    and st': "st' = st\<lparr>ten_tree := tree, ten_canonicals := mcs\<rparr>"
  shows "tenant_inv (evs @ es) tid st'" and "mset (tenant_ids st') = mset (tenant_ids st)"
proof -
  show m: "mset (tenant_ids st') = mset (tenant_ids st)"
    by (simp add: tenant_ids_mset st' old new l')
  have sets: "set (ten_leaves st) = insert l (set_mset R)" "set (collect_leaves tree) = insert l' (set_mset R)"
    using arg_cong [OF old, of set_mset] arg_cong [OF new, of set_mset] by simp_all
  have len: "length (collect_leaves tree) = length (ten_leaves st)"
    using arg_cong [OF old, of size] arg_cong [OF new, of size] by simp
  obtain ls where R: "R = mset ls" by (metis ex_mset)
  have "mset (tenant_ids st) = mset (lf_template_id l # map lf_template_id ls
      @ owned_ids (ten_adopted st) @ map snd (ten_structured st))"
    by (simp add: tenant_ids_mset old R)
  from distinct_by_mset [OF this] inv have d: "lf_template_id l \<notin> lf_template_id ` set_mset R"
    "lf_template_id l \<notin> set (owned_ids (ten_adopted st))"
    by (auto simp: tenant_inv_def R)
  have "audit_inv (evs @ es) tid (insert (lf_template_id l, lf_template_version l', format_template (lf_template l'))
      (leaf_info ` set_mset R)) (ten_adopted st)"
    using inv d info_id [of "lf_template_id l" _ _ "set_mset R"]
    by (intro audit_inv_chain [OF es chain]) (auto simp: tenant_inv_def sets leaf_info_def)
  with inv tree l' mc distinct_by_mset [OF m] arg_cong [OF m, of size] show "tenant_inv (evs @ es) tid st'"
    by (simp add: tenant_inv_def st' sets len leaf_info_def)
qed

text \<open>The index after the attach's move.\<close>

lemma moved_index:
  assumes ok: "mc_ok m (add_mset (leaf_key l) M)"
    and chain: "version_chain v (format_template (lf_template l)) events v' (format_template (lf_template l'))"
    and same: "lf_severity_number l' = lf_severity_number l" "lf_scope_name l' = lf_scope_name l"
  shows "mc_ok (case widened_move events of
            None \<Rightarrow> m
          | Some (old, new) \<Rightarrow> mc_replace m (old, lf_severity_number l, lf_scope_name l)
              (new, lf_severity_number l, lf_scope_name l)) (add_mset (leaf_key l') M)"
  using widened_move_chain [OF chain] ok same mci.rep_repl [OF ok [unfolded leaf_key_def]]
  by (auto simp: leaf_key_def)

section \<open>The cluster\<close>

definition cluster_ids :: "('av, 'r) miner_cluster \<Rightarrow> nat list" where
  "cluster_ids c = concat (map (\<lambda>ts. tenant_ids (snd ts)) (cl_tenants c))"

definition cluster_inv :: "('av, 'r) miner_cluster \<Rightarrow> bool" where
  "cluster_inv c \<longleftrightarrow>
     hm_wf (cl_tenants c) \<and> ir_wf (cl_ids c) \<and> distinct (cluster_ids c)
     \<and> (\<forall>i \<in> set (cluster_ids c). 1 \<le> i \<and> i \<le> ir_highest (cl_ids c))
     \<and> (\<forall>(tid, st) \<in> set (cl_tenants c). tenant_inv (cl_audit c) tid st)
     \<and> (\<forall>tid. hm_get (cl_tenants c) tid = None \<longrightarrow> (\<forall>i v s. \<not> bound (cl_audit c) tid i v s))"

definition all_tenants :: "(tenant_state \<Rightarrow> bool) \<Rightarrow> ('av, 'r) miner_cluster \<Rightarrow> bool" where
  "all_tenants Q c \<longleftrightarrow> (\<forall>(tid, st) \<in> set (cl_tenants c). Q st)"

lemma cluster_inv_tenant:
  assumes "cluster_inv c"
  shows "tenant_inv (cl_audit c) tid (tenant_or_new c tid config)"
proof (cases "hm_get (cl_tenants c) tid")
  case None
  then have "\<not> bound (cl_audit c) tid i v s" for i v s using assms by (simp add: cluster_inv_def)
  with None show ?thesis by (simp add: tenant_or_new_def tenant_inv_new)
next
  case (Some st)
  with assms show ?thesis by (auto simp: tenant_or_new_def cluster_inv_def dest!: map_of_SomeD)
qed

lemma tenant_ids_new [simp]: "tenant_ids (tenant_new config) = []"
  by (simp add: tenant_ids_def tenant_new_def tree_new_def collect_leaves_def owned_ids_def)

lemma tenant_id_issued:
  assumes "cluster_inv c" and "i \<in> set (tenant_ids (tenant_or_new c tid config))"
  shows "1 \<le> i \<and> i \<le> ir_highest (cl_ids c)"
proof -
  have "i \<in> set (cluster_ids c)"
    using assms(2) by (force simp: tenant_or_new_def cluster_ids_def dest!: map_of_SomeD split: option.splits)
  with assms(1) show ?thesis by (auto simp: cluster_inv_def)
qed

lemma cluster_step:
  fixes c c' :: "('av, 'r) miner_cluster"
  assumes inv: "cluster_inv c"
    and ten: "cl_tenants c' = hm_insert tid st' (cl_tenants c)"
    and aud: "cl_audit c' = cl_audit c @ es" "\<And>e. e \<in> set es \<Longrightarrow> ae_tenant_id e = tid"
    and tinv: "tenant_inv (cl_audit c @ es) tid st'"
    and wf: "ir_wf (cl_ids c')" and hi: "ir_highest (cl_ids c) \<le> ir_highest (cl_ids c')"
    and ids: "mset (tenant_ids st') = mset (tenant_ids (tenant_or_new c tid config))
              \<or> mset (tenant_ids st') = add_mset (ir_highest (cl_ids c')) (mset (tenant_ids (tenant_or_new c tid config)))
                \<and> ir_highest (cl_ids c) < ir_highest (cl_ids c')"
  shows "cluster_inv c'"
proof -
  let ?f = "\<lambda>ts. tenant_ids (snd ts)" and ?hi = "ir_highest (cl_ids c')"
  have eq: "tenant_or_new c tid config =
      (case hm_get (cl_tenants c) tid of None \<Rightarrow> tenant_new config | Some w \<Rightarrow> w)"
    by (simp add: tenant_or_new_def split: option.split)
  obtain R where R: "mset (cluster_ids c) = R + mset (tenant_ids (tenant_or_new c tid config))"
    "mset (cluster_ids c') = R + mset (tenant_ids st')"
    using mset_entry_split [of ?f tid "tenant_new config" "cl_tenants c"]
    unfolding cluster_ids_def ten eq by auto
  have "mset (cluster_ids c') = mset (cluster_ids c)
        \<or> mset (cluster_ids c') = mset (?hi # cluster_ids c) \<and> ir_highest (cl_ids c) < ?hi"
    using R ids by auto
  then have "distinct (cluster_ids c') \<and> (\<forall>i \<in> set (cluster_ids c'). 1 \<le> i \<and> i \<le> ?hi)"
  proof (elim disjE conjE)
    assume m: "mset (cluster_ids c') = mset (cluster_ids c)"
    with inv hi distinct_by_mset [OF m] mset_eq_setD [OF m] show ?thesis
      by (fastforce simp: cluster_inv_def)
  next
    assume m: "mset (cluster_ids c') = mset (?hi # cluster_ids c)" and lt: "ir_highest (cl_ids c) < ?hi"
    from inv lt have "?hi \<notin> set (cluster_ids c)" by (fastforce simp: cluster_inv_def)
    with inv hi lt distinct_by_mset [OF m] mset_eq_setD [OF m] show ?thesis
      by (fastforce simp: cluster_inv_def)
  qed
  moreover have other: "\<not> bound es t i v s" if "t \<noteq> tid" for t i v s
    using aud(2) that by (auto simp: bound_def)
  have "tenant_inv (cl_audit c') t s" if ts: "(t, s) \<in> set (cl_tenants c')" for t s
  proof (cases "t = tid")
    case True
    have "hm_wf (cl_tenants c')" using inv by (simp add: cluster_inv_def ten)
    then have "hm_get (cl_tenants c') t = Some s" using ts by (simp add: hm_wf_def)
    with True tinv show ?thesis by (simp add: ten aud update_conv)
  next
    case False
    with ts have "(t, s) \<in> set (cl_tenants c)" unfolding ten by (blast dest: set_update)
    with inv have "tenant_inv (cl_audit c) t s" by (auto simp: cluster_inv_def)
    with other [OF False] show ?thesis by (simp add: aud tenant_inv_other)
  qed
  moreover have "\<not> bound (cl_audit c') t i v s" if "hm_get (cl_tenants c') t = None" for t i v s
  proof -
    from that have "t \<noteq> tid" "hm_get (cl_tenants c) t = None" by (auto simp: ten update_conv split: if_splits)
    with inv other show ?thesis by (simp add: aud bound_append cluster_inv_def)
  qed
  ultimately show ?thesis using inv wf by (auto simp: cluster_inv_def ten)
qed

text \<open>Steps that leave tenants and audit stream alone.\<close>

lemma cluster_idle:
  assumes "cluster_inv c" and "cl_tenants c' = cl_tenants c" and "cl_audit c' = cl_audit c"
    and "ir_wf (cl_ids c')" and "ir_highest (cl_ids c) \<le> ir_highest (cl_ids c')"
  shows "cluster_inv c'"
proof -
  have "cluster_ids c' = cluster_ids c" using assms(2) by (simp add: cluster_ids_def)
  with assms show ?thesis unfolding cluster_inv_def by (metis le_trans)
qed

lemma all_tenants_insert:
  "all_tenants Q c \<Longrightarrow> Q st \<Longrightarrow> cl_tenants c' = hm_insert tid st (cl_tenants c) \<Longrightarrow> all_tenants Q c'"
  by (auto simp: all_tenants_def dest!: set_update)

lemma all_tenants_get: "all_tenants Q c \<Longrightarrow> hm_get (cl_tenants c) tid = Some st \<Longrightarrow> Q st"
  by (auto simp: all_tenants_def dest!: map_of_SomeD)

end
