(* ===== verification/Cluster_Steps.thy ===== *)
theory Cluster_Steps
  imports Cluster_Invariant
begin

text \<open>
  Every exit of \<open>ingest\<close> keeps the cluster invariant and emits one record that gives its line back.
  \<open>good pr n c\<close> bundles the invariant with what the runs need of the configuration (line lengths fit
  the 16-bit audit positions, the template ceiling is positive and respected), a bound \<open>n\<close> on template versions and, when \<open>pr\<close> holds, that every
  template prints and parses back. \<open>moves\<close> is a step that emits no record; \<open>finishes\<close> is a step that
  emits the record of a string line.
\<close>

section \<open>Predicates\<close>

definition cfg_ok :: "miner_config \<Rightarrow> bool" where
  "cfg_ok config \<longleftrightarrow> 0 < max_templates config \<and> max_line_tokens config \<le> 65535"

definition ten_ok :: "bool \<Rightarrow> nat \<Rightarrow> tenant_state \<Rightarrow> bool" where
  "ten_ok pr n st \<longleftrightarrow> cfg_ok (ten_config st)
     \<and> ten_leaf_count st + ten_owned_count st \<le> max_templates (ten_config st)
     \<and> (\<forall>l \<in> set (ten_leaves st). lf_template_version l \<le> n \<and> (pr \<longrightarrow> printable (lf_template l)))"

definition configs_ok :: "('av, 'r) miner_cluster \<Rightarrow> bool" where
  "configs_ok c \<longleftrightarrow> cfg_ok (cl_config c) \<and> (\<forall>(t, config) \<in> set (cl_tenant_overrides c). cfg_ok config)"

definition good :: "bool \<Rightarrow> nat \<Rightarrow> ('av, 'r) miner_cluster \<Rightarrow> bool" where
  "good pr n c \<longleftrightarrow> cluster_inv c \<and> all_tenants (ten_ok pr n) c \<and> configs_ok c"

definition same_config :: "('av, 'r) miner_cluster \<Rightarrow> ('av, 'r) miner_cluster \<Rightarrow> bool" where
  "same_config c c' \<longleftrightarrow> cl_config c' = cl_config c \<and> cl_tenant_overrides c' = cl_tenant_overrides c"

definition same_sink :: "('av, 'r) miner_cluster \<Rightarrow> ('av, 'r) miner_cluster \<Rightarrow> bool" where
  "same_sink c c' \<longleftrightarrow> cl_records c' = cl_records c \<and> cl_capture c' = cl_capture c"

definition grows :: "('av, 'r) miner_cluster \<Rightarrow> ('av, 'r) miner_cluster \<Rightarrow> bool" where
  "grows c c' \<longleftrightarrow> (\<exists>es. cl_audit c' = cl_audit c @ es)"

definition moves :: "bool \<Rightarrow> nat \<Rightarrow> ('av, 'r) miner_cluster \<Rightarrow> ('av, 'r) miner_cluster \<Rightarrow> bool" where
  "moves pr n c c' \<longleftrightarrow> good pr n c' \<and> same_config c c' \<and> same_sink c c' \<and> grows c c'
     \<and> (\<forall>tid. effective_config c' tid = effective_config c tid)"

definition emitted ::
  "('av, 'r) miner_cluster \<Rightarrow> 'av mined_record \<Rightarrow> ('av, 'r) miner_cluster \<Rightarrow> bool" where
  "emitted c rec c' \<longleftrightarrow>
     (case cl_capture c of
        Cap_Armed \<Rightarrow> cl_capture c' = Captured rec \<and> cl_records c' = cl_records c
      | k \<Rightarrow> cl_capture c' = k \<and> cl_records c' = cl_records c @ [rec])"

text \<open>The fields of the wire record that the stored record carries through unchanged.\<close>

definition carries :: "'av otlp_log_record \<Rightarrow> 'av mined_record \<Rightarrow> bool" where
  "carries r rec \<longleftrightarrow>
     mr_tenant_id rec = ol_tenant_id r
     \<and> mr_severity_number rec = ol_severity_number r \<and> mr_severity_text rec = ol_severity_text r
     \<and> mr_scope_name rec = ol_scope_name r \<and> mr_scope_version rec = ol_scope_version r
     \<and> mr_scope_attributes rec = ol_scope_attributes r
     \<and> mr_resource_schema_url rec = ol_resource_schema_url r \<and> mr_scope_schema_url rec = ol_scope_schema_url r
     \<and> mr_time_unix_nano rec = ol_time_unix_nano r
     \<and> mr_observed_time_unix_nano rec = ol_observed_time_unix_nano r
     \<and> mr_attributes rec = ol_attributes r \<and> mr_dropped_attributes_count rec = ol_dropped_attributes_count r
     \<and> mr_resource_attributes rec = ol_resource_attributes r \<and> mr_trace_id rec = ol_trace_id r
     \<and> mr_span_id rec = ol_span_id r \<and> mr_flags rec = ol_flags r \<and> mr_event_name rec = ol_event_name r"

definition row_ok ::
  "bool \<Rightarrow> audit_event list \<Rightarrow> 'av otlp_log_record \<Rightarrow> bytes \<Rightarrow> 'av mined_record \<Rightarrow> nat \<Rightarrow> bool" where
  "row_ok pr evs r raw rec i \<longleftrightarrow>
     carries r rec \<and> mr_body_kind rec = BK_String \<and> mr_template_id rec = i
     \<and> (if i = no_template then mr_lossy_flag rec \<and> mr_body rec = Some raw
        else \<not> mr_lossy_flag rec \<and>
          (\<exists>t. bound evs (ol_tenant_id r) i (mr_template_version rec) (format_template t)
             \<and> record_recovers raw t rec \<and> (pr \<longrightarrow> printable t)))"

definition finishes ::
  "bool \<Rightarrow> nat \<Rightarrow> ('av, 'r) miner_cluster \<Rightarrow> 'av otlp_log_record \<Rightarrow> bytes \<Rightarrow> ('av, 'r) miner_cluster \<Rightarrow> nat \<Rightarrow> bool" where
  "finishes pr n c r raw c' i \<longleftrightarrow> good pr n c' \<and> same_config c c' \<and> grows c c'
     \<and> (\<exists>rec. emitted c rec c' \<and> row_ok pr (cl_audit c') r raw rec i)"

lemma moves_refl: "good pr n c \<Longrightarrow> moves pr n c c"
  by (simp add: moves_def same_config_def same_sink_def grows_def)

lemma moves_trans: "moves pr n c c' \<Longrightarrow> moves pr n c' c'' \<Longrightarrow> moves pr n c c''"
  by (auto simp: moves_def same_config_def same_sink_def grows_def)

lemma moves_finishes: "moves pr n c c' \<Longrightarrow> finishes pr n c' r raw c'' i \<Longrightarrow> finishes pr n c r raw c'' i"
  by (auto simp: moves_def finishes_def same_config_def same_sink_def grows_def emitted_def split: mined_capture.splits)

lemma ten_ok_mono: "ten_ok pr n st \<Longrightarrow> n \<le> n' \<Longrightarrow> ten_ok pr n' st"
  by (fastforce simp: ten_ok_def)

lemma good_mono: "good pr n c \<Longrightarrow> n \<le> n' \<Longrightarrow> good pr n' c"
  by (auto simp: good_def all_tenants_def intro: ten_ok_mono)

lemma good_config:
  assumes "good pr n c"
  shows "cfg_ok (effective_config c tid)"
  using assms all_tenants_get [of "ten_ok pr n" c tid]
  by (auto simp: good_def configs_ok_def effective_config_def ten_ok_def dest!: map_of_SomeD split: option.split)

lemma good_tenant:
  assumes "good pr n c" and "cfg_ok config"
  shows "ten_ok pr n (tenant_or_new c tid config)" and "tenant_inv (cl_audit c) tid (tenant_or_new c tid config)"
  using assms all_tenants_get [of "ten_ok pr n" c tid] cluster_inv_tenant [of c tid config]
  by (auto simp: good_def tenant_or_new_def ten_ok_def tenant_new_def tree_new_def collect_leaves_def
      split: option.split)

lemma tenant_config: "ten_config (tenant_or_new c tid (effective_config c tid)) = effective_config c tid"
  by (simp add: tenant_or_new_def effective_config_def tenant_new_def split: option.split)

lemma effective_config_cong:
  assumes "cl_tenants c' = cl_tenants c" "cl_config c' = cl_config c" "cl_tenant_overrides c' = cl_tenant_overrides c"
  shows "effective_config c' tid = effective_config c tid"
  using assms by (simp add: effective_config_def split: option.split)

lemma effective_config_simps [simp]:
  "effective_config (c\<lparr>cl_ids := ids\<rparr>) tid = effective_config c tid"
  "effective_config (c\<lparr>cl_body_retentions_total := k\<rparr>) tid = effective_config c tid"
  by (rule effective_config_cong; simp)+

section \<open>Emission\<close>

lemma emit_record_simps [simp]:
  "cl_tenants (emit_record c rec) = cl_tenants c" "cl_ids (emit_record c rec) = cl_ids c"
  "cl_audit (emit_record c rec) = cl_audit c" "cl_config (emit_record c rec) = cl_config c"
  "cl_tenant_overrides (emit_record c rec) = cl_tenant_overrides c"
  by (simp_all add: emit_record_def split: mined_capture.split)

text \<open>The invariant looks at tenants, ids and audit stream only.\<close>

lemma good_cong:
  assumes "cl_tenants c' = cl_tenants c" "cl_ids c' = cl_ids c" "cl_audit c' = cl_audit c" "same_config c c'"
  shows "good pr n c' \<longleftrightarrow> good pr n c"
  using assms
  by (simp add: good_def cluster_inv_def cluster_ids_def all_tenants_def configs_ok_def same_config_def)

lemma emitted_record:
  assumes "cl_records c' = cl_records (emit_record c rec)" "cl_capture c' = cl_capture (emit_record c rec)"
  shows "emitted c rec c'"
  using assms by (simp add: emitted_def emit_record_def split: mined_capture.split)

lemma overflow_count: "length (filter (\<lambda>p. pm_type p = PT_Overflow) ps) > 0 \<longleftrightarrow> any_overflow ps"
  by (induction ps) auto

lemma apply_overflow_cases:
  obtains k where "apply_overflow_retention c raw rec
     = (c\<lparr>cl_params_overflow_total := k\<rparr>, if any_overflow (mr_params rec) then rec\<lparr>mr_body := Some raw\<rparr> else rec)"
  using overflow_count [of "mr_params rec"] that [of "cl_params_overflow_total c"]
  by (cases "any_overflow (mr_params rec)")
     (auto simp: apply_overflow_retention_def Let_def)

text \<open>A record with no template keeps the line in its body.\<close>

lemma parse_failure_finishes:
  assumes "good pr n c"
  shows "finishes pr n c r raw (fst (emit_string_parse_failure c r raw parts)) (snd (emit_string_parse_failure c r raw parts))"
proof -
  let ?rec = "(record_envelope r BK_String)\<lparr>mr_separators := lp_separators parts, mr_params := lp_params parts,
             mr_body := Some raw, mr_lossy_flag := True\<rparr>"
  obtain k where k: "apply_overflow_retention c raw ?rec
     = (c\<lparr>cl_params_overflow_total := k\<rparr>, if any_overflow (mr_params ?rec) then ?rec\<lparr>mr_body := Some raw\<rparr> else ?rec)"
    by (rule apply_overflow_cases)
  let ?c = "c\<lparr>cl_params_overflow_total := k\<rparr>"
  let ?rec' = "if any_overflow (mr_params ?rec) then ?rec\<lparr>mr_body := Some raw\<rparr> else ?rec"
  have eq: "emit_string_parse_failure c r raw parts = (record_parse_failure (emit_record ?c ?rec'), no_template)"
    unfolding emit_string_parse_failure_def Let_def k by simp
  have "emitted c ?rec' (record_parse_failure (emit_record ?c ?rec'))"
    by (rule emitted_record) (simp_all add: record_parse_failure_def emit_record_def split: mined_capture.split)
  moreover have "row_ok pr evs r raw ?rec' no_template" for evs
    by (simp add: row_ok_def carries_def record_envelope_def)
  moreover have "good pr n (record_parse_failure (emit_record ?c ?rec'))"
    using assms by (subst good_cong [of _ c]) (simp_all add: record_parse_failure_def same_config_def)
  ultimately show ?thesis
    unfolding finishes_def eq by (auto simp: record_parse_failure_def same_config_def grows_def)
qed

text \<open>A record under a template: its parameters rebuild the line, or its body keeps it.\<close>

lemma row_recovers:
  assumes "rebuilds toks t ps" and "interleave seps toks = raw" and "length seps = length toks + 1"
    and "mr_separators rec = seps" and "mr_params rec = ps" and "\<not> mr_lossy_flag rec"
    and "any_overflow ps \<Longrightarrow> mr_body rec = Some raw"
  shows "record_recovers raw t rec"
  using assms by (simp add: record_recovers_def rebuilds_def template_shape_matches_record_def)

lemma row_finishes:
  assumes good: "good pr n c" and i: "i \<noteq> no_template"
    and b: "bound (cl_audit c) (ol_tenant_id r) i v (format_template t)" and pr: "pr \<longrightarrow> printable t"
    and line: "rebuilds toks t ps" "interleave seps toks = raw" "length seps = length toks + 1"
    and rec: "carries r rec" "mr_body_kind rec = BK_String" "mr_template_id rec = i"
      "mr_template_version rec = v" "mr_separators rec = seps" "mr_params rec = ps" "\<not> mr_lossy_flag rec"
    and out: "apply_overflow_retention c raw rec = (c1, rec1)"
  shows "finishes pr n c r raw (emit_record c1 rec1) i"
proof -
  obtain k where "apply_overflow_retention c raw rec
     = (c\<lparr>cl_params_overflow_total := k\<rparr>, if any_overflow (mr_params rec) then rec\<lparr>mr_body := Some raw\<rparr> else rec)"
    by (rule apply_overflow_cases)
  with out rec(6) have c1: "c1 = c\<lparr>cl_params_overflow_total := k\<rparr>"
    and rec1: "rec1 = (if any_overflow ps then rec\<lparr>mr_body := Some raw\<rparr> else rec)" by auto
  have "emitted c rec1 (emit_record c1 rec1)"
    by (rule emitted_record) (simp_all add: c1 emit_record_def split: mined_capture.split)
  moreover have "record_recovers raw t rec1"
    by (rule row_recovers [OF line]) (simp_all add: rec1 rec)
  then have "row_ok pr (cl_audit c) r raw rec1 i"
    using i b pr rec by (cases "any_overflow ps") (auto simp: row_ok_def rec1 carries_def)
  moreover have "good pr n (emit_record c1 rec1)"
    using good by (subst good_cong [of _ c]) (simp_all add: c1 same_config_def)
  ultimately show ?thesis
    unfolding finishes_def by (auto simp: c1 same_config_def grows_def)
qed

lemma attached_finishes:
  assumes "good pr n c" and "i \<noteq> no_template"
    and "bound (cl_audit c) (ol_tenant_id r) i v (format_template t)" and "pr \<longrightarrow> printable t"
    and "rebuilds toks t ps" "interleave seps toks = raw" "length seps = length toks + 1"
  shows "snd (emit_attached c r raw seps ps i v) = i"
    and "finishes pr n c r raw (fst (emit_attached c r raw seps ps i v)) i"
  by (auto simp: emit_attached_def Let_def record_envelope_def carries_def split: prod.split intro!: row_finishes [OF assms])

lemma fresh_finishes:
  assumes good: "good pr n c" and i: "i \<noteq> no_template"
    and b: "bound (cl_audit c) (ol_tenant_id r) i 1 (format_template t)" and pr: "pr \<longrightarrow> printable t"
    and line: "rebuilds toks t (lp_params parts)" "interleave (lp_separators parts) toks = raw"
      "length (lp_separators parts) = length toks + 1"
  shows "finishes pr n c r raw (fst (emit_fresh_leaf_record c r raw parts i zone))
           (snd (emit_fresh_leaf_record c r raw parts i zone))"
proof (cases zone)
  case Zone_Clean
  then show ?thesis
    by (auto simp: emit_fresh_leaf_record_def Let_def record_envelope_def carries_def split: prod.split
        intro!: row_finishes [OF good i b pr line])
next
  case (Zone_Lossy conf)
  let ?c = "c\<lparr>cl_body_retentions_total := cl_body_retentions_total c + 1\<rparr>"
  have good': "good pr n ?c" using good by (subst good_cong [of _ c]) (simp_all add: same_config_def)
  then have moves: "moves pr n c ?c" by (simp add: moves_def same_config_def same_sink_def grows_def)
  have b': "bound (cl_audit ?c) (ol_tenant_id r) i 1 (format_template t)" using b by simp
  from Zone_Lossy show ?thesis
    by (auto simp: emit_fresh_leaf_record_def Let_def record_envelope_def carries_def split: prod.split
        intro!: moves_finishes [OF moves] row_finishes [OF good' i b' pr line])
qed

section \<open>Steps that change a tenant\<close>

lemma tenant_moves:
  assumes good: "good pr n c" and ten: "cl_tenants c' = hm_insert tid st' (cl_tenants c)"
    and aud: "cl_audit c' = cl_audit c @ es" "\<And>e. e \<in> set es \<Longrightarrow> ae_tenant_id e = tid"
    and inv: "tenant_inv (cl_audit c @ es) tid st'"
    and wf: "ir_wf (cl_ids c')" "ir_highest (cl_ids c) \<le> ir_highest (cl_ids c')"
    and ids: "mset (tenant_ids st') = mset (tenant_ids (tenant_or_new c tid config))
              \<or> mset (tenant_ids st') = add_mset (ir_highest (cl_ids c')) (mset (tenant_ids (tenant_or_new c tid config)))
                \<and> ir_highest (cl_ids c) < ir_highest (cl_ids c')"
    and ok: "ten_ok pr n st'" and same: "same_config c c'" "same_sink c c'"
    and conf: "ten_config st' = effective_config c tid"
  shows "moves pr n c c'"
proof -
  have "cluster_inv c'"
    using good by (intro cluster_step [OF _ ten aud inv wf ids]) (simp_all add: good_def)
  moreover have "all_tenants (ten_ok pr n) c'"
    using good ok ten by (auto simp: good_def intro: all_tenants_insert)
  moreover have "configs_ok c'"
    using good same by (simp add: good_def configs_ok_def same_config_def)
  moreover have "effective_config c' t = effective_config c t" for t
    using ten conf same(1) by (simp add: effective_config_def same_config_def update_conv split: option.split)
  ultimately show ?thesis using same aud by (auto simp: moves_def good_def grows_def)
qed

text \<open>An id drawn is new; a failed draw changes nothing the invariant sees.\<close>

lemma take_fresh:
  assumes good: "good pr n c" and take: "ir_take reserve (cl_ids c) = (ids, Inr i)"
  shows "ir_wf ids" "ir_highest ids = i" "ir_highest (cl_ids c) < i" "i \<noteq> no_template"
    "i \<notin> set (tenant_ids (tenant_or_new c tid config))"
proof -
  have inv: "cluster_inv c" using good by (simp add: good_def)
  then have wf: "ir_wf (cl_ids c)" by (simp add: cluster_inv_def)
  from ir_take_spec [OF wf take] wf show "ir_wf ids" "ir_highest ids = i" and hi: "ir_highest (cl_ids c) < i"
    by (auto simp: ir_highest_def ir_wf_def)
  then show "i \<noteq> no_template" by (simp add: no_template_def)
  show "i \<notin> set (tenant_ids (tenant_or_new c tid config))"
    using tenant_id_issued [OF inv, of i tid config] hi by auto
qed

lemma take_failed:
  assumes good: "good pr n c" and take: "ir_take reserve (cl_ids c) = (ids, Inl e)"
  shows "moves pr n c (c\<lparr>cl_ids := ids\<rparr>)" "ir_wf ids" "ir_highest ids = ir_highest (cl_ids c)"
proof -
  have inv: "cluster_inv c" using good by (simp add: good_def)
  then have "ir_wf (cl_ids c)" by (simp add: cluster_inv_def)
  from ir_take_spec [OF this take] show wf: "ir_wf ids" and hi: "ir_highest ids = ir_highest (cl_ids c)"
    by (auto simp: ir_highest_def)
  have "cluster_inv (c\<lparr>cl_ids := ids\<rparr>)" using wf hi by (intro cluster_idle [OF inv]) simp_all
  with good show "moves pr n c (c\<lparr>cl_ids := ids\<rparr>)"
    by (simp add: moves_def good_def all_tenants_def configs_ok_def same_config_def same_sink_def grows_def)
qed

lemma emit_change:
  obtains e where "emit_template_change env c r raw i ch = c\<lparr>cl_audit := cl_audit c @ [e]\<rparr>"
    "is_event (ol_tenant_id r) i ch e"
  by (rule that, unfold emit_template_change_def, rule refl) (simp add: is_event_def event_key.simps)

lemma update_same [simp]: "hm_get m k = Some v \<Longrightarrow> hm_insert k v m = m"
  by (induction m) (auto split: if_splits)

section \<open>Fresh leaves\<close>

lemma tree_reached_wf: "tree_wf t \<Longrightarrow> node_wf (tree_reached t masked depth cap)"
  unfolding tree_reached_def
  by (intro node_wf_reached) (auto simp: tree_wf_def or_default_def dest!: map_of_SomeD split: option.split)

lemma push_leaf_ok:
  assumes "masked \<noteq> []" and "tree_wf t" and "length (lf_template l) = length masked"
  obtains t' where "descend_mut t masked depth cap (push_leaf l) = Some (t', ())" "tree_wf t'"
    "mset (collect_leaves t') = add_mset l (mset (collect_leaves t))"
proof -
  let ?N = "tree_reached t masked depth cap"
  obtain cs ls where N: "?N = Node cs ls" by (cases ?N)
  have 1: "node_wf (fst (push_leaf l ?N))"
    using tree_reached_wf [OF assms(2), of masked depth cap] by (simp add: push_leaf_def N)
  have 2: "length (lf_template x) = length masked" if "x \<in> set (collect_leaves_recursive (fst (push_leaf l ?N)))" for x
    using that tree_reached_leaf(1) [OF assms(2), of x masked depth cap] assms(3) by (auto simp: push_leaf_def N)
  show thesis
  proof (rule descend_mut_ok [where k = "push_leaf l", OF assms(1,2) 1 2])
    fix t' R
    assume "descend_mut t masked depth cap (push_leaf l) = Some (t', snd (push_leaf l ?N))" "tree_wf t'"
      "mset (collect_leaves t) = R + mset (collect_leaves_recursive ?N)"
      "mset (collect_leaves t') = R + mset (collect_leaves_recursive (fst (push_leaf l ?N)))"
    then show thesis by (intro that [of t']) (simp_all add: push_leaf_def N)
  qed
qed

text \<open>A leaf pushed under a fresh id, and one that takes over the identity of an adopted entry.\<close>

lemma create_fresh:
  assumes good: "good pr n c" and n: "1 \<le> n" and mtoks: "mk_tokens m \<noteq> []"
    and take: "ir_take reserve (cl_ids c) = (ids, Inr i)"
    and st: "st = tenant_or_new c (ol_tenant_id r) (effective_config c (ol_tenant_id r))"
    and room: "ten_leaf_count st + ten_owned_count st < max_templates (ten_config st)"
    and tree: "tree_wf tree" "mset (collect_leaves tree) = add_mset l (mset (ten_leaves st))"
    and l: "leaf_wf l" "lf_template_version l = 1" "lf_template_id l = i" "pr \<longrightarrow> printable (lf_template l)"
    and e: "is_event (ol_tenant_id r) i (Created (format_template (lf_template l))) e"
    and c': "c' = set_tenant (c\<lparr>cl_ids := ids\<rparr>) (ol_tenant_id r) (st\<lparr>ten_tree := tree,
                  ten_template_count := ten_template_count st + 1, ten_leaf_count := ten_leaf_count st + 1,
                  ten_canonicals := mc_insert (ten_canonicals st) (leaf_key l)\<rparr>)
                  \<lparr>cl_audit := cl_audit c @ [e]\<rparr>"
  shows "moves pr n c c'"
proof -
  let ?tid = "ol_tenant_id r"
  define st' where "st' = st\<lparr>ten_tree := tree, ten_template_count := ten_template_count st + 1,
                  ten_leaf_count := ten_leaf_count st + 1,
                  ten_canonicals := mc_insert (ten_canonicals st) (leaf_key l)\<rparr>"
  note tk = take_fresh(1-4) [OF good take]
  have inv: "tenant_inv (cl_audit c) ?tid st" and ok: "ten_ok pr n st"
    unfolding st by (intro good_tenant [OF good good_config [OF good]])+
  have id: "lf_template_id l \<notin> set (tenant_ids st)"
    using take_fresh(5) [OF good take] l(3) st by simp
  have ek: "event_key e = Some ((lf_template_id l, 1), format_template (lf_template l))"
    and et: "ae_tenant_id e = ?tid"
    using e by (simp_all add: is_event_def l(3) template_initial_version_def)
  note new = tenant_new_leaf [OF inv tree l(1,2) id et ek st'_def]
  have "set (collect_leaves tree) = insert l (set (ten_leaves st))"
    using arg_cong [OF tree(2), of set_mset] by simp
  then have "ten_ok pr n st'"
    using ok room n l(2,4) by (auto simp: ten_ok_def st'_def)
  then show ?thesis
    using tk new l(3) et c' tenant_config [of c ?tid]
    by (intro tenant_moves [OF good, of c' ?tid st' "[e]" "effective_config c ?tid"])
       (simp_all add: set_tenant_def st'_def same_config_def same_sink_def flip: st)
qed

lemma owned_id_listed:
  assumes "hm_get ad key = Some (Owned o')"
  shows "oa_template_id o' \<in> set (owned_ids ad)"
  using assms by (force simp: owned_ids_def dest: map_of_SomeD)

lemma create_converged:
  assumes good: "good pr n c" and n: "1 \<le> n"
    and get: "hm_get (cl_tenants c) (ol_tenant_id r) = Some st"
    and own: "hm_get (ten_adopted st) (leaf_key l) = Some (Owned o')"
    and tree: "tree_wf tree" "mset (collect_leaves tree) = add_mset l (mset (ten_leaves st))"
    and l: "leaf_wf l" "lf_template_version l = 1" "lf_template_id l = oa_template_id o'"
      "pr \<longrightarrow> printable (lf_template l)"
    and e: "is_event (ol_tenant_id r) (oa_template_id o') (Created (format_template (lf_template l))) e"
    and c': "c' = set_tenant c (ol_tenant_id r) ((fst (take_converged_adoption st (leaf_key l)))\<lparr>ten_tree := tree,
                  ten_leaf_count := ten_leaf_count st + 1,
                  ten_canonicals := mc_insert (ten_canonicals st) (leaf_key l)\<rparr>)
                  \<lparr>cl_audit := cl_audit c @ [e]\<rparr>"
  shows "moves pr n c c'" and "oa_template_id o' \<noteq> no_template"
proof -
  let ?tid = "ol_tenant_id r"
  define st' where "st' = (fst (take_converged_adoption st (leaf_key l)))\<lparr>ten_tree := tree,
                  ten_leaf_count := ten_leaf_count st + 1,
                  ten_canonicals := mc_insert (ten_canonicals st) (leaf_key l)\<rparr>"
  have st: "tenant_or_new c ?tid (effective_config c ?tid) = st" using get by (simp add: tenant_or_new_def)
  have inv: "tenant_inv (cl_audit c) ?tid st" and ok: "ten_ok pr n st"
    using good_tenant [OF good good_config [OF good, of ?tid], of ?tid] st by simp_all
  have cinv: "cluster_inv c" using good by (simp add: good_def)
  have "oa_template_id o' \<in> set (owned_ids (ten_adopted st))" by (rule owned_id_listed [OF own])
  then have owned: "0 < ten_owned_count st" and "oa_template_id o' \<in> set (tenant_ids st)"
    using inv by (auto simp: tenant_inv_def tenant_ids_def)
  with tenant_id_issued [OF cinv, of "oa_template_id o'" ?tid "effective_config c ?tid"] st
  show "oa_template_id o' \<noteq> no_template" by (simp add: no_template_def)
  have ek: "event_key e = Some ((lf_template_id l, 1), format_template (lf_template l))"
    and et: "ae_tenant_id e = ?tid"
    using e by (simp_all add: is_event_def l(3) template_initial_version_def)
  note new = tenant_converged_leaf [OF inv own tree l(1-3) et ek st'_def]
  have "set (collect_leaves tree) = insert l (set (ten_leaves st))"
    using arg_cong [OF tree(2), of set_mset] by simp
  then have "ten_ok pr n st'"
    using ok owned n l(2,4) own by (auto simp: ten_ok_def st'_def take_converged_adoption_def)
  then show "moves pr n c c'"
    using new cinv et c' tenant_config [of c ?tid] own
    by (intro tenant_moves [OF good, of c' ?tid st' "[e]" "effective_config c ?tid"])
       (simp_all add: set_tenant_def st st'_def same_config_def same_sink_def cluster_inv_def take_converged_adoption_def)
qed

lemma fresh_leaf_wf:
  assumes "masked_ok toks m"
  shows "leaf_wf (associate_upstream \<lparr>lf_template = leaf_template m, lf_template_id = i, lf_template_version = 1,
                    lf_severity_number = s, lf_scope_name = sc,
                    lf_slot_types = map (\<lambda>tp. slot_singleton (tp_type tp)) (mk_params m),
                    lf_provenance = p, lf_associations = a\<rparr> observed b)"
proof -
  have "length (mk_params m) = wildcard_count (leaf_template m)"
    using assms leaf_template_wpos [OF assms] wpos_len [of 0 "leaf_template m"] by (simp add: masked_ok_def)
  then show ?thesis by (simp add: leaf_wf_def)
qed

lemma set_tenant_simps [simp]:
  "cl_tenants (set_tenant c tid st) = hm_insert tid st (cl_tenants c)" "cl_ids (set_tenant c tid st) = cl_ids c"
  "cl_audit (set_tenant c tid st) = cl_audit c" "cl_config (set_tenant c tid st) = cl_config c"
  "cl_tenant_overrides (set_tenant c tid st) = cl_tenant_overrides c"
  "cl_records (set_tenant c tid st) = cl_records c" "cl_capture (set_tenant c tid st) = cl_capture c"
  "tenant_or_new (set_tenant c tid st) tid config = st"
  by (simp_all add: set_tenant_def tenant_or_new_def update_conv)

lemma set_tenant_twice [simp]: "set_tenant (set_tenant c tid a) tid b = set_tenant c tid b"
  by (simp add: set_tenant_def)

lemma tenant_count_kept:
  "st\<lparr>ten_tree := t, ten_template_count := ten_template_count st, ten_leaf_count := a, ten_canonicals := m\<rparr>
   = st\<lparr>ten_tree := t, ten_leaf_count := a, ten_canonicals := m\<rparr>"
  by (cases st) simp

lemma converged_identity:
  assumes "hm_get (cl_tenants c) tid = Some st" and "hm_get (ten_adopted st) key = Some (Owned o')"
  shows "fresh_identity env c tid key = (set_tenant c tid (fst (take_converged_adoption st key)),
           Some (oa_template_id o', prov_insert (oa_provenance o') Mined, oa_associations o', False))"
  using assms by (simp add: fresh_identity_def take_converged_adoption_def)

lemma drawn_identity:
  assumes "\<And>st o'. hm_get (cl_tenants c) tid = Some st \<Longrightarrow> hm_get (ten_adopted st) key \<noteq> Some (Owned o')"
  shows "fresh_identity env c tid key =
           (case ir_take (env_reserve env) (cl_ids c) of
              (ids, Inl e) \<Rightarrow> (c\<lparr>cl_ids := ids\<rparr>, None)
            | (ids, Inr i) \<Rightarrow> (c\<lparr>cl_ids := ids\<rparr>, Some (i, prov_singleton Mined, ua_default, True)))"
proof (cases "hm_get (cl_tenants c) tid")
  case (Some st)
  have "take_converged_adoption st key = (st, None)"
    using assms [OF Some] by (auto simp: take_converged_adoption_def split: option.split adopted_entry.split)
  moreover have "set_tenant c tid st = c" using Some by (simp add: set_tenant_def)
  ultimately show ?thesis using Some by (simp add: fresh_identity_def)
qed (simp add: fresh_identity_def)

lemma bound_created:
  "is_event tid i (Created s) e \<Longrightarrow> bound (evs @ [e]) tid i 1 s"
  by (simp add: bound_append bound_one is_event_def template_initial_version_def)

lemma create_new_leaf_ok:
  assumes good: "good pr n c" and n: "1 \<le> n" and ok: "masked_ok toks m" and toks: "toks \<noteq> []"
    and pr: "pr \<longrightarrow> printable (leaf_template m)"
    and room: "\<not> at_ceiling c (ol_tenant_id r) (max_templates (effective_config c (ol_tenant_id r)))"
  obtains c' res where "create_new_leaf env c r raw m observed = Some (c', res)" "moves pr n c c'"
    "\<And>i. res = Some i \<Longrightarrow> i \<noteq> no_template
       \<and> bound (cl_audit c') (ol_tenant_id r) i 1 (format_template (leaf_template m))"
proof -
  let ?tid = "ol_tenant_id r" and ?s = "format_template (leaf_template m)"
  let ?key = "canonical_key_of r ?s"
  let ?l = "\<lambda>i p a b. associate_upstream
       \<lparr>lf_template = leaf_template m, lf_template_id = i, lf_template_version = 1,
        lf_severity_number = ol_severity_number r, lf_scope_name = ol_scope_name r,
        lf_slot_types = map (\<lambda>tp. slot_singleton (tp_type tp)) (mk_params m),
        lf_provenance = p, lf_associations = a\<rparr> observed b"
  have mt: "mk_tokens m \<noteq> []" "length (leaf_template m) = length (mk_tokens m)"
    using ok toks leaf_template_len [OF ok] by (auto simp: masked_ok_def)
  have key: "leaf_key (?l i p a b) = ?key" for i p a b by (simp add: leaf_key_def canonical_key_of_def)
  note wf = fresh_leaf_wf [OF ok]
  define st where "st = tenant_or_new c ?tid (effective_config c ?tid)"
  have inv: "tenant_inv (cl_audit c) ?tid st"
    unfolding st_def by (rule good_tenant [OF good good_config [OF good]])
  then have tw: "tree_wf (ten_tree st)" by (simp add: tenant_inv_def)
  show thesis
  proof (cases "\<exists>st o'. hm_get (cl_tenants c) ?tid = Some st \<and> hm_get (ten_adopted st) ?key = Some (Owned o')")
    case True
    then obtain o' where get: "hm_get (cl_tenants c) ?tid = Some st" and own: "hm_get (ten_adopted st) ?key = Some (Owned o')"
      by (auto simp: st_def tenant_or_new_def)
    let ?st1 = "fst (take_converged_adoption st ?key)"
    have st1: "ten_tree ?st1 = ten_tree st" "ten_config ?st1 = ten_config st" "ten_leaf_count ?st1 = ten_leaf_count st"
      "ten_canonicals ?st1 = ten_canonicals st"
      using own by (simp_all add: take_converged_adoption_def)
    let ?leaf = "?l (oa_template_id o') (prov_insert (oa_provenance o') Mined) (oa_associations o')
        (upstream_association_limit (ten_config st))"
    obtain tree where tree: "descend_mut (ten_tree st) (mk_tokens m) (prefix_depth (ten_config st))
          (max_node_children (ten_config st)) (push_leaf ?leaf) = Some (tree, ())" "tree_wf tree"
        "mset (collect_leaves tree) = add_mset ?leaf (mset (ten_leaves st))"
      by (rule push_leaf_ok [OF mt(1) tw, of ?leaf]) (use mt in auto)
    let ?c1 = "set_tenant c ?tid (?st1\<lparr>ten_tree := tree, ten_leaf_count := ten_leaf_count st + 1,
                  ten_canonicals := mc_insert (ten_canonicals st) ?key\<rparr>)"
    obtain e where e: "emit_template_change env ?c1 r raw (oa_template_id o') (Created ?s) = ?c1\<lparr>cl_audit := cl_audit ?c1 @ [e]\<rparr>"
        "is_event ?tid (oa_template_id o') (Created ?s) e" by (rule emit_change)
    have "create_new_leaf env c r raw m observed
        = Some (?c1\<lparr>cl_audit := cl_audit ?c1 @ [e]\<rparr>, Some (oa_template_id o'))"
      unfolding create_new_leaf_def Let_def converged_identity [OF get own] using tree(1) st1 e(1)
      by (simp add: tenant_count_kept)
    moreover note cc = create_converged [OF good n get, of ?leaf o' tree e, unfolded key, OF own tree(2,3) wf]
    have "moves pr n c (?c1\<lparr>cl_audit := cl_audit ?c1 @ [e]\<rparr>)" "oa_template_id o' \<noteq> no_template"
      using pr e(2) by (intro cc; simp)+
    moreover have "bound (cl_audit (?c1\<lparr>cl_audit := cl_audit ?c1 @ [e]\<rparr>)) ?tid (oa_template_id o') 1 ?s"
      using bound_created [OF e(2)] by simp
    ultimately show thesis using that by blast
  next
    case False
    have ident: "fresh_identity env c ?tid ?key =
           (case ir_take (env_reserve env) (cl_ids c) of
              (ids, Inl e) \<Rightarrow> (c\<lparr>cl_ids := ids\<rparr>, None)
            | (ids, Inr i) \<Rightarrow> (c\<lparr>cl_ids := ids\<rparr>, Some (i, prov_singleton Mined, ua_default, True)))"
      by (rule drawn_identity) (use False in auto)
    obtain ids res where take: "ir_take (env_reserve env) (cl_ids c) = (ids, res)" by force
    show thesis
    proof (cases res)
      case (Inl e)
      then have "create_new_leaf env c r raw m observed = Some (c\<lparr>cl_ids := ids\<rparr>, None)"
        by (simp add: create_new_leaf_def Let_def ident take)
      with take_failed(1) [OF good take [unfolded Inl]] that show thesis by blast
    next
      case (Inr i)
      let ?c0 = "c\<lparr>cl_ids := ids\<rparr>"
      have c0: "tenant_or_new ?c0 ?tid (effective_config c ?tid) = st"
        by (simp add: st_def tenant_or_new_def)
      let ?leaf = "?l i (prov_singleton Mined) ua_default (upstream_association_limit (ten_config st))"
      obtain tree where tree: "descend_mut (ten_tree st) (mk_tokens m) (prefix_depth (ten_config st))
            (max_node_children (ten_config st)) (push_leaf ?leaf) = Some (tree, ())" "tree_wf tree"
          "mset (collect_leaves tree) = add_mset ?leaf (mset (ten_leaves st))"
        by (rule push_leaf_ok [OF mt(1) tw, of ?leaf]) (use mt in auto)
      let ?c1 = "set_tenant ?c0 ?tid (st\<lparr>ten_tree := tree, ten_template_count := ten_template_count st + 1,
                    ten_leaf_count := ten_leaf_count st + 1, ten_canonicals := mc_insert (ten_canonicals st) ?key\<rparr>)"
      obtain e where e: "emit_template_change env ?c1 r raw i (Created ?s) = ?c1\<lparr>cl_audit := cl_audit ?c1 @ [e]\<rparr>"
          "is_event ?tid i (Created ?s) e" by (rule emit_change)
      have "create_new_leaf env c r raw m observed = Some (?c1\<lparr>cl_audit := cl_audit ?c1 @ [e]\<rparr>, Some i)"
        unfolding create_new_leaf_def Let_def ident take Inr using tree(1) e(1) by (simp add: c0)
      moreover have "ten_leaf_count st + ten_owned_count st < max_templates (ten_config st)"
        using room good_config [OF good, of ?tid]
        by (auto simp: at_ceiling_def st_def tenant_or_new_def effective_config_def tenant_new_def cfg_ok_def
            split: option.splits)
      then have "moves pr n c (?c1\<lparr>cl_audit := cl_audit ?c1 @ [e]\<rparr>)"
        using pr e(2) by (intro create_fresh [OF good n mt(1) take [unfolded Inr] st_def _ tree(2,3) wf])
          (simp_all add: leaf_key_def canonical_key_of_def)
      moreover have "bound (cl_audit (?c1\<lparr>cl_audit := cl_audit ?c1 @ [e]\<rparr>)) ?tid i 1 ?s"
        using bound_created [OF e(2)] by simp
      ultimately show thesis using that take_fresh(4) [OF good take [unfolded Inr]] by blast
    qed
  qed
qed

definition line_ok :: "bool \<Rightarrow> bytes \<Rightarrow> bytes list \<Rightarrow> masked \<Rightarrow> line_parts \<Rightarrow> bool" where
  "line_ok pr raw toks m parts \<longleftrightarrow> masked_ok toks m \<and> toks \<noteq> [] \<and> length toks \<le> 65535
     \<and> interleave (lp_separators parts) toks = raw \<and> length (lp_separators parts) = length toks + 1
     \<and> rebuilds toks (leaf_template m) (lp_params parts) \<and> (pr \<longrightarrow> printable (map Fixed toks))"

lemma line_okD:
  assumes "line_ok pr raw toks m parts"
  shows "masked_ok toks m" "toks \<noteq> []" "length toks \<le> 65535" "interleave (lp_separators parts) toks = raw"
    "length (lp_separators parts) = length toks + 1" "rebuilds toks (leaf_template m) (lp_params parts)"
    "mk_tokens m \<noteq> []" "length (mk_tokens m) = length toks" "pr \<longrightarrow> printable (leaf_template m)"
proof -
  show "masked_ok toks m" "toks \<noteq> []" "length toks \<le> 65535" "interleave (lp_separators parts) toks = raw"
    "length (lp_separators parts) = length toks + 1" "rebuilds toks (leaf_template m) (lp_params parts)"
    "mk_tokens m \<noteq> []" "length (mk_tokens m) = length toks"
    using assms by (auto simp: line_ok_def masked_ok_def)
  show "pr \<longrightarrow> printable (leaf_template m)"
  proof (intro impI, unfold printable_def, intro allI impI)
    fix s assume pr and "Fixed s \<in> set (leaf_template m)"
    then obtain i where i: "i < length toks" "leaf_template m ! i = Fixed s"
      using leaf_template_len assms by (auto simp: in_set_conv_nth line_ok_def)
    then have "s = toks ! i" using leaf_template_nth [of toks m i] assms by (auto simp: line_ok_def split: if_splits)
    with i(1) assms \<open>pr\<close> show "s \<noteq> [] \<and> CHR '' '' \<notin> set s \<and> s \<noteq> ''<*>''"
      by (auto simp: line_ok_def printable_def)
  qed
qed

lemma mint_finishes:
  assumes good: "good pr n c" and n: "1 \<le> n" and line: "line_ok pr raw toks m parts"
    and maximum: "maximum = max_templates (effective_config c (ol_tenant_id r))"
  obtains c' i where "mint_fresh_leaf env c r raw m parts observed zone maximum = Some (c', i)"
    "finishes pr n c r raw c' i"
proof (cases "at_ceiling c (ol_tenant_id r) maximum")
  case True
  then show thesis
    by (intro that [OF _ parse_failure_finishes [OF good, of r raw parts]]) (simp add: mint_fresh_leaf_def)
next
  case False
  note l = line_okD [OF line]
  obtain c1 res where c1: "create_new_leaf env c r raw m observed = Some (c1, res)" "moves pr n c c1"
    and id: "\<And>i. res = Some i \<Longrightarrow> i \<noteq> no_template
       \<and> bound (cl_audit c1) (ol_tenant_id r) i 1 (format_template (leaf_template m))"
    by (rule create_new_leaf_ok [OF good n l(1,2,9)]) (use False maximum in auto)
  then have good1: "good pr n c1" by (simp add: moves_def)
  show thesis
  proof (cases res)
    case None
    with False c1 show thesis
      by (intro that [OF _ moves_finishes [OF c1(2) parse_failure_finishes [OF good1, of r raw parts]]])
         (simp add: mint_fresh_leaf_def)
  next
    case (Some i)
    with id have i: "i \<noteq> no_template" "bound (cl_audit c1) (ol_tenant_id r) i 1 (format_template (leaf_template m))" by auto
    with False Some c1 show thesis
      by (intro that [OF _ moves_finishes [OF c1(2) fresh_finishes [OF good1 i l(9,6,4,5), of zone]]])
         (simp add: mint_fresh_leaf_def)
  qed
qed

section \<open>Candidates\<close>

lemma those_map_Some:
  "(\<And>x. x \<in> set xs \<Longrightarrow> f x \<noteq> None) \<Longrightarrow> \<exists>ys. those (map f xs) = Some ys"
  by (induction xs) (fastforce split: option.split)+

lemma those_map_member:
  "those (map f xs) = Some ys \<Longrightarrow> y \<in> set ys \<Longrightarrow> \<exists>x \<in> set xs. f x = Some y"
  by (induction xs arbitrary: ys) (auto split: option.splits)

lemma max_candidate_member:
  assumes "max_candidate xs = Some x"
  shows "x \<in> set xs"
proof -
  have "fold (\<lambda>y best. if candidate_greater best y then best else y) ys a \<in> insert a (set ys)" for ys a
    by (induction ys arbitrary: a) auto
  with assms show ?thesis by (cases xs) (force simp del: fold_simps)+
qed

lemma enum_from_member: "(i, l) \<in> set (enum_from k ls) \<Longrightarrow> k \<le> i \<and> i - k < length ls \<and> ls ! (i - k) = l"
  by (auto simp: in_set_enumerate_eq)

abbreviation ten_reached :: "tenant_state \<Rightarrow> masked \<Rightarrow> prefix_node" where
  "ten_reached st m \<equiv> tree_reached (ten_tree st) (mk_tokens m) (prefix_depth (ten_config st)) (max_node_children (ten_config st))"

lemma score_leaves_ok:
  assumes "\<And>l. l \<in> set ls \<Longrightarrow> length (lf_template l) = length (mk_tokens m)" and "mk_tokens m \<noteq> []"
  obtains xs where "score_leaves r m ls = Some xs"
    "\<And>cand i. (cand, i) \<in> set xs \<Longrightarrow> cd_leaf_idx cand < length ls
       \<and> lf_severity_number (ls ! cd_leaf_idx cand) = ol_severity_number r
       \<and> lf_scope_name (ls ! cd_leaf_idx cand) = ol_scope_name r"
proof -
  have "\<exists>xs. score_leaves r m ls = Some xs"
    unfolding score_leaves_def
    by (rule those_map_Some) (use assms sim_seq_owned_Some [of "mk_tokens m"] in \<open>fastforce dest: enum_from_member\<close>)
  then obtain xs where xs: "score_leaves r m ls = Some xs" by blast
  moreover have "cd_leaf_idx cand < length ls
       \<and> lf_severity_number (ls ! cd_leaf_idx cand) = ol_severity_number r
       \<and> lf_scope_name (ls ! cd_leaf_idx cand) = ol_scope_name r" if "(cand, i) \<in> set xs" for cand i
    using those_map_member [OF xs [unfolded score_leaves_def] that] by (auto dest!: enum_from_member)
  ultimately show thesis using that by blast
qed

lemma find_best_candidate_ok:
  assumes good: "good pr n c" and mt: "mk_tokens m \<noteq> []"
  obtains best where "find_best_candidate c r m = Some best"
    "\<And>cand. best = Some cand \<Longrightarrow> \<exists>st. hm_get (cl_tenants c) (ol_tenant_id r) = Some st
       \<and> cd_leaf_idx cand < length (leaves (ten_reached st m))
       \<and> lf_severity_number (leaves (ten_reached st m) ! cd_leaf_idx cand) = ol_severity_number r
       \<and> lf_scope_name (leaves (ten_reached st m) ! cd_leaf_idx cand) = ol_scope_name r"
proof (cases "hm_get (cl_tenants c) (ol_tenant_id r)")
  case None
  then show thesis using that by (simp add: find_best_candidate_def)
next
  case (Some st)
  have "tenant_inv (cl_audit c) (ol_tenant_id r) st"
    using good_tenant(2) [OF good good_config [OF good, of "ol_tenant_id r"], of "ol_tenant_id r"] Some
    by (simp add: tenant_or_new_def)
  then have wf: "tree_wf (ten_tree st)" by (simp add: tenant_inv_def)
  note dc = descend_cases [OF mt, of "ten_tree st" "prefix_depth (ten_config st)" "max_node_children (ten_config st)"]
  show thesis
  proof (cases "descend (ten_tree st) (mk_tokens m) (prefix_depth (ten_config st)) (max_node_children (ten_config st))")
    case None
    with dc(3) show thesis by simp
  next
    case desc: (Some parent)
    show thesis
    proof (cases parent)
      case None
      with Some desc that show thesis by (simp add: find_best_candidate_def)
    next
      case node: (Some node)
      then have N: "ten_reached st m = node" using dc(1) desc by simp
      obtain xs where xs: "score_leaves r m (leaves node) = Some xs"
        and mem: "\<And>cand i. (cand, i) \<in> set xs \<Longrightarrow> cd_leaf_idx cand < length (leaves node)
           \<and> lf_severity_number (leaves node ! cd_leaf_idx cand) = ol_severity_number r
           \<and> lf_scope_name (leaves node ! cd_leaf_idx cand) = ol_scope_name r"
        by (rule score_leaves_ok [of "leaves node" m r])
           (use mt tree_reached_leaf(1) [OF wf, of _ "mk_tokens m"] N own_leaf in blast)+
      have "find_best_candidate c r m = Some (map_option fst (max_candidate xs))"
        using Some desc node xs by (simp add: find_best_candidate_def)
      moreover have "\<exists>st. hm_get (cl_tenants c) (ol_tenant_id r) = Some st
           \<and> cd_leaf_idx cand < length (leaves (ten_reached st m))
           \<and> lf_severity_number (leaves (ten_reached st m) ! cd_leaf_idx cand) = ol_severity_number r
           \<and> lf_scope_name (leaves (ten_reached st m) ! cd_leaf_idx cand) = ol_scope_name r"
        if "map_option fst (max_candidate xs) = Some cand" for cand
        using that Some N mem by (auto dest!: max_candidate_member)
      ultimately show thesis using that by blast
    qed
  qed
qed

section \<open>Attaching\<close>

lemma tenant_leaf_bound:
  assumes good: "good pr n c" and get: "hm_get (cl_tenants c) tid = Some st" and l: "l \<in> set (ten_leaves st)"
  shows "lf_template_id l \<noteq> no_template"
    and "bound (cl_audit c) tid (lf_template_id l) (lf_template_version l) (format_template (lf_template l))"
    and "pr \<longrightarrow> printable (lf_template l)" and "lf_template_version l \<le> n" and "leaf_wf l"
proof -
  have st: "tenant_or_new c tid (effective_config c tid) = st" using get by (simp add: tenant_or_new_def)
  have inv: "tenant_inv (cl_audit c) tid st" and ok: "ten_ok pr n st"
    using good_tenant [OF good good_config [OF good, of tid], of tid] st by simp_all
  have cinv: "cluster_inv c" using good by (simp add: good_def)
  show "lf_template_id l \<noteq> no_template"
    using tenant_id_issued [OF cinv, of "lf_template_id l" tid "effective_config c tid"] st l
    by (auto simp: no_template_def tenant_ids_def)
  have "leaf_info l \<in> leaf_info ` set (ten_leaves st)" using l by simp
  then show "bound (cl_audit c) tid (lf_template_id l) (lf_template_version l) (format_template (lf_template l))"
    using inv audit_invD(1) [of "cl_audit c" tid "leaf_info ` set (ten_leaves st)" "ten_adopted st"]
    by (auto simp: tenant_inv_def leaf_info_def)
  show "pr \<longrightarrow> printable (lf_template l)" "lf_template_version l \<le> n" using ok l by (auto simp: ten_ok_def)
  show "leaf_wf l" using inv l by (simp add: tenant_inv_def)
qed

lemma leaf_finishes:
  assumes moves: "moves pr n c c'" and get: "hm_get (cl_tenants c') (ol_tenant_id r) = Some st"
    and l: "l \<in> set (ten_leaves st)" and line: "line_ok pr raw toks m parts"
    and ps: "rebuilds toks (lf_template l) ps" and i: "i = lf_template_id l" "v = lf_template_version l"
  shows "finishes pr n c r raw (fst (emit_attached c' r raw (lp_separators parts) ps i v)) i"
    and "snd (emit_attached c' r raw (lp_separators parts) ps i v) = i"
proof -
  have good: "good pr n c'" using moves by (simp add: moves_def)
  note lb = tenant_leaf_bound [OF good get l] and lo = line_okD [OF line]
  note fin = attached_finishes [OF good lb(1-3) ps lo(4,5)]
  show "finishes pr n c r raw (fst (emit_attached c' r raw (lp_separators parts) ps i v)) i"
    and "snd (emit_attached c' r raw (lp_separators parts) ps i v) = i"
    using moves_finishes [OF moves fin(2)] fin(1) by (simp_all add: i)
qed

lemma plan_on_node_ok:
  assumes wf: "tree_wf t" and mt: "mk_tokens m \<noteq> []"
    and N: "N = tree_reached t (mk_tokens m) depth cap" and idx: "idx < length (leaves N)"
    and plan: "plan_attach sha256 (leaves N ! idx) m limit = Some (l1, plan)"
    and len: "length (lf_template l1) = length (mk_tokens m)"
    and l': "l' = (if is_rejected plan then l1 else associate_upstream l1 observed b)"
  obtains tree R where
    "descend_mut t (mk_tokens m) depth cap (plan_on_node sha256 m limit b observed idx) = Some (tree, Some plan)"
    "tree_wf tree" "mset (collect_leaves t) = add_mset (leaves N ! idx) R" "mset (collect_leaves tree) = add_mset l' R"
proof -
  obtain cs ls where Nc: "N = Node cs ls" by (cases N)
  let ?k = "plan_on_node sha256 m limit b observed idx"
  have k: "?k N = (Node cs (ls[idx := l']), Some plan)"
    using idx plan by (simp add: plan_on_node_def Nc l' Let_def)
  have mls: "mset (ls[idx := l']) = add_mset l' (mset ls - {#ls ! idx#})" "mset ls = add_mset (ls ! idx) (mset ls - {#ls ! idx#})"
    using idx by (simp_all add: Nc mset_update)
  have 1: "node_wf (fst (?k (tree_reached t (mk_tokens m) depth cap)))"
    using tree_reached_wf [OF wf, of "mk_tokens m" depth cap] k by (simp add: Nc flip: N)
  have old: "length (lf_template x) = length (mk_tokens m)" if "x \<in> set (collect_leaves_recursive N)" for x
    using tree_reached_leaf(1) [OF wf, of x "mk_tokens m" depth cap] that N by simp
  have 2: "length (lf_template x) = length (mk_tokens m)"
    if x: "x \<in> set (collect_leaves_recursive (fst (?k (tree_reached t (mk_tokens m) depth cap))))" for x
  proof -
    from x have "x \<in> set (collect_leaves_recursive (Node cs (ls[idx := l'])))" using k by (simp flip: N)
    then have "x = l' \<or> x \<in> set (collect_leaves_recursive N)"
      unfolding Nc by (auto dest: subsetD [OF set_update_subset_insert])
    with old [of x] len l' show ?thesis by auto
  qed
  show thesis
  proof (rule descend_mut_ok [where k = ?k, OF mt wf 1 2])
    fix t' R
    assume t': "descend_mut t (mk_tokens m) depth cap ?k = Some (t', snd (?k (tree_reached t (mk_tokens m) depth cap)))" "tree_wf t'"
      "mset (collect_leaves t) = R + mset (collect_leaves_recursive (tree_reached t (mk_tokens m) depth cap))"
      "mset (collect_leaves t') = R + mset (collect_leaves_recursive (fst (?k (tree_reached t (mk_tokens m) depth cap))))"
    let ?R = "R + mset (concat (map (\<lambda>kc. collect_leaves_recursive (snd kc)) cs)) + (mset ls - {#ls ! idx#})"
    have "mset (collect_leaves t) = add_mset (leaves N ! idx) ?R" using t'(3) mls(2) by (simp add: Nc flip: N)
    moreover have "mset (collect_leaves t') = add_mset l' ?R" using t'(4) k mls(1) by (simp add: Nc flip: N)
    ultimately show thesis using t'(1,2) k N by (intro that [of t' ?R]) simp_all
  qed
qed

lemma plan_attach_version:
  "plan_attach sha256 l m limit = Some (l', plan) \<Longrightarrow> lf_template_version l' \<le> lf_template_version l + 2"
  by (auto simp: plan_attach_def Let_def checked_succ_u32_def bind_eq_Some_conv split: if_splits)

lemma generalises_printable: "generalises t' t \<Longrightarrow> printable t \<Longrightarrow> printable t'"
  by (fastforce simp: generalises_def printable_def list_all2_conv_all_nth in_set_conv_nth)

lemma emit_changes:
  obtains es k where "fold (emit_change_counted env r raw i) events c = c\<lparr>cl_audit := cl_audit c @ es, cl_merges_total := k\<rparr>"
    "list_all2 (is_event (ol_tenant_id r) i) events es"
proof -
  have "\<exists>es k. fold (emit_change_counted env r raw i) events c = c\<lparr>cl_audit := cl_audit c @ es, cl_merges_total := k\<rparr>
      \<and> list_all2 (is_event (ol_tenant_id r) i) events es"
  proof (induction events arbitrary: c)
    case Nil
    show ?case by (intro exI [of _ "[]"] exI [of _ "cl_merges_total c"]) simp
  next
    case (Cons ch events)
    obtain e where e: "emit_template_change env c r raw i ch = c\<lparr>cl_audit := cl_audit c @ [e]\<rparr>"
      "is_event (ol_tenant_id r) i ch e" by (rule emit_change)
    obtain k where "emit_change_counted env r raw i ch c = c\<lparr>cl_audit := cl_audit c @ [e], cl_merges_total := k\<rparr>"
      by (rule that [of "if counts_as_merge ch then cl_merges_total c + 1 else cl_merges_total c"])
         (simp add: emit_change_counted_def e(1) Let_def)
    moreover obtain es k' where "fold (emit_change_counted env r raw i) events (c\<lparr>cl_audit := cl_audit c @ [e], cl_merges_total := k\<rparr>)
        = c\<lparr>cl_audit := cl_audit c @ e # es, cl_merges_total := k'\<rparr>" "list_all2 (is_event (ol_tenant_id r) i) events es"
      using Cons.IH [of "c\<lparr>cl_audit := cl_audit c @ [e], cl_merges_total := k\<rparr>"] by auto
    ultimately show ?case using e(2) by (intro exI [of _ "e # es"] exI [of _ k']) simp
  qed
  then show thesis using that by blast
qed

text \<open>The state after the plan: one leaf replaced, the index moved, the events in the stream.\<close>

lemma attach_moves:
  assumes good: "good pr n c" and get: "hm_get (cl_tenants c) (ol_tenant_id r) = Some st" and N: "n \<le> N"
    and tree: "tree_wf tree" "mset (ten_leaves st) = add_mset l R" "mset (collect_leaves tree) = add_mset l' R"
    and l': "leaf_frame l1 = leaf_frame l" "leaf_wf l1" "l' = l1 \<or> l' = associate_upstream l1 observed b"
      "lf_template_version l1 \<le> N" "pr \<longrightarrow> printable (lf_template l1)"
    and r: "lf_severity_number l = ol_severity_number r" "lf_scope_name l = ol_scope_name r"
    and es: "list_all2 (is_event (ol_tenant_id r) (lf_template_id l)) events es"
    and chain: "version_chain (lf_template_version l) (format_template (lf_template l)) events
                  (lf_template_version l1) (format_template (lf_template l1))"
    and c': "c' = (move_mined_canonical (set_tenant c (ol_tenant_id r) (st\<lparr>ten_tree := tree\<rparr>)) r events)
                  \<lparr>cl_audit := cl_audit c @ es, cl_merges_total := k\<rparr>"
  shows "moves pr N c c'"
    and "\<exists>st'. hm_get (cl_tenants c') (ol_tenant_id r) = Some st' \<and> l' \<in> set (ten_leaves st')"
proof -
  let ?tid = "ol_tenant_id r"
  have sev: "lf_severity_number l' = lf_severity_number l" "lf_scope_name l' = lf_scope_name l"
    "lf_template_id l' = lf_template_id l" "lf_template l' = lf_template l1"
    "lf_template_version l' = lf_template_version l1" "leaf_wf l'"
    using l' by (auto simp: leaf_frame_def leaf_wf_def)
  have st: "tenant_or_new c ?tid (effective_config c ?tid) = st" using get by (simp add: tenant_or_new_def)
  have inv: "tenant_inv (cl_audit c) ?tid st" and ok: "ten_ok pr n st"
    using good_tenant [OF good good_config [OF good, of ?tid], of ?tid] st by simp_all
  define mcs where "mcs = (case widened_move events of
            None \<Rightarrow> ten_canonicals st
          | Some (old, new) \<Rightarrow> mc_replace (ten_canonicals st) (old, lf_severity_number l, lf_scope_name l)
              (new, lf_severity_number l, lf_scope_name l))"
  define st' where "st' = st\<lparr>ten_tree := tree, ten_canonicals := mcs\<rparr>"
  have "mc_ok (ten_canonicals st) (add_mset (leaf_key l) (image_mset leaf_key R))"
    using inv tree(2) by (simp add: tenant_inv_def)
  then have mc: "mc_ok mcs (image_mset leaf_key (mset (collect_leaves tree)))"
    using moved_index [of "ten_canonicals st" l "image_mset leaf_key R" _ events _ l'] chain sev tree(3)
    by (simp add: mcs_def)
  have chain': "version_chain (lf_template_version l) (format_template (lf_template l)) events
                  (lf_template_version l') (format_template (lf_template l'))" using chain sev by simp
  note att = tenant_attach [OF inv tree sev(3,6) es chain' mc st'_def]
  have "move_mined_canonical (set_tenant c ?tid (st\<lparr>ten_tree := tree\<rparr>)) r events = set_tenant c ?tid st'"
    by (auto simp: move_mined_canonical_def st'_def mcs_def canonical_key_of_def r update_conv
        split: option.split)
  then have c'': "c' = (set_tenant c ?tid st')\<lparr>cl_audit := cl_audit c @ es, cl_merges_total := k\<rparr>" using c' by simp
  have sub: "set (collect_leaves tree) \<subseteq> insert l' (set (ten_leaves st))" and mem: "l' \<in> set (collect_leaves tree)"
    using arg_cong [OF tree(3), of set_mset] arg_cong [OF tree(2), of set_mset] by auto
  have "ten_ok pr N st'"
    using ok N sub sev l'(4,5) by (fastforce simp: ten_ok_def st'_def)
  moreover have "ae_tenant_id e = ?tid" if "e \<in> set es" for e
    using es that by (auto simp: list_all2_conv_all_nth in_set_conv_nth is_event_def)
  ultimately show "moves pr N c c'"
    using att good tenant_config [of c ?tid] by (intro tenant_moves [OF good_mono [OF good N], of c' ?tid st' es "effective_config c ?tid"])
      (simp_all add: c'' st st'_def good_def cluster_inv_def same_config_def same_sink_def)
  show "\<exists>st'. hm_get (cl_tenants c') ?tid = Some st' \<and> l' \<in> set (ten_leaves st')"
    using mem by (simp add: c'' st'_def update_conv)
qed

lemma move_nothing [simp]: "move_mined_canonical c r [] = c"
  by (simp add: move_mined_canonical_def widened_move_def)

lemma unbound_moves:
  assumes good: "good pr n c" and get: "hm_get (cl_tenants c) tid = Some st"
    and e: "is_event tid i ch e" "keyed_template ch = None"
  shows "moves pr n c (c\<lparr>cl_audit := cl_audit c @ [e]\<rparr>)"
proof -
  have st: "tenant_or_new c tid (effective_config c tid) = st" using get by (simp add: tenant_or_new_def)
  have inv: "tenant_inv (cl_audit c) tid st" and ok: "ten_ok pr n st"
    using good_tenant [OF good good_config [OF good, of tid], of tid] st by simp_all
  have "tenant_inv (cl_audit c @ [e]) tid st"
    by (rule tenant_inv_other [OF inv]) (use e in \<open>simp add: bound_one is_event_def\<close>)
  then show ?thesis
    using ok get e good st tenant_config [of c tid]
    by (intro tenant_moves [OF good, of _ tid st "[e]" "effective_config c tid"])
       (simp_all add: is_event_def good_def cluster_inv_def same_config_def same_sink_def)
qed

lemma attach_finishes:
  assumes good: "good pr n c" and line: "line_ok pr raw toks m parts" and ver: "n + 2 \<le> 4294967295"
    and get: "hm_get (cl_tenants c) (ol_tenant_id r) = Some st"
    and idx: "cd_leaf_idx cand < length (leaves (ten_reached st m))"
    and sev: "lf_severity_number (leaves (ten_reached st m) ! cd_leaf_idx cand) = ol_severity_number r"
      "lf_scope_name (leaves (ten_reached st m) ! cd_leaf_idx cand) = ol_scope_name r"
  obtains c' i where "attach_and_maybe_widen env c r raw m cand limit observed parts = Some (c', i)"
    "finishes pr (n + 2) c r raw c' i"
proof -
  let ?tid = "ol_tenant_id r" and ?b = "upstream_association_limit (ten_config st)"
  define l where "l = leaves (ten_reached st m) ! cd_leaf_idx cand"
  note lo = line_okD [OF line]
  have "tenant_inv (cl_audit c) ?tid st"
    using good_tenant(2) [OF good good_config [OF good, of ?tid], of ?tid] get by (simp add: tenant_or_new_def)
  then have wf: "tree_wf (ten_tree st)" by (simp add: tenant_inv_def)
  have "l \<in> set (collect_leaves_recursive (ten_reached st m))" using idx by (simp add: l_def own_leaf)
  then have l: "length (lf_template l) = length (mk_tokens m)" "l \<in> set (ten_leaves st)"
    by (rule tree_reached_leaf [OF wf])+
  note lb = tenant_leaf_bound [OF good get l(2)]
  obtain l1 plan where plan: "plan_attach (env_sha256 env) l m limit = Some (l1, plan)" "plan_ok toks m l l1 plan"
    using plan_attach_ok [of toks m l "env_sha256 env" limit] lo(1,3,8) l(1) lb(4,5) ver by auto
  note fr = plan_attach_frame [OF plan(2) lb(5)]
  define l' where "l' = (if is_rejected plan then l1 else associate_upstream l1 observed ?b)"
  have l': "l' = l1 \<or> l' = associate_upstream l1 observed ?b" by (simp add: l'_def)
  obtain tree R where tree: "descend_mut (ten_tree st) (mk_tokens m) (prefix_depth (ten_config st))
        (max_node_children (ten_config st)) (plan_on_node (env_sha256 env) m limit ?b observed (cd_leaf_idx cand)) = Some (tree, Some plan)"
      "tree_wf tree" "mset (ten_leaves st) = add_mset l R" "mset (collect_leaves tree) = add_mset l' R"
    using plan_on_node_ok [OF wf lo(7) refl idx plan(1) [unfolded l_def] _ l'_def] fr(3) l(1) l_def by metis
  let ?c1 = "set_tenant c ?tid (st\<lparr>ten_tree := tree\<rparr>)"
  have cand: "plan_attach_on_candidate env c r m cand limit observed = Some (?c1, plan)"
    using tree(1) get by (simp add: plan_attach_on_candidate_def)
  have bounds: "n \<le> n + 2" "lf_template_version l1 \<le> n + 2"
    using plan_attach_version [OF plan(1)] lb(4) by simp_all
  have pr: "pr \<longrightarrow> printable (lf_template l1)"
    using plan(2) lb(3) by (cases plan) (auto simp: plan_ok_def intro: generalises_printable)
  note am = attach_moves [OF good get bounds(1) tree(2-4) fr(2,1) l' bounds(2) pr sev [folded l_def]]
  have idle: "?c1 = (move_mined_canonical ?c1 r [])\<lparr>cl_audit := cl_audit c @ [], cl_merges_total := cl_merges_total c\<rparr>"
    by (simp add: set_tenant_def)
  note im = am [where events = "[]" and es = "[]", OF _ _ idle]
  show thesis
  proof (cases plan)
    case (CleanReuse i v ps)
    then have p: "l1 = l" "i = lf_template_id l'" "v = lf_template_version l'" "rebuilds toks (lf_template l') ps"
      using plan(2) l' by (auto simp: plan_ok_def)
    have "moves pr (n + 2) c ?c1" "\<exists>st'. hm_get (cl_tenants ?c1) ?tid = Some st' \<and> l' \<in> set (ten_leaves st')"
      using im by (simp_all add: p(1))
    then obtain st' where "hm_get (cl_tenants ?c1) ?tid = Some st'" "l' \<in> set (ten_leaves st')" by blast
    note fin = leaf_finishes [OF \<open>moves pr (n + 2) c ?c1\<close> this line p(4,2,3)]
    show thesis
      by (rule that [OF _ fin(1)]) (use fin(2) in \<open>simp add: attach_and_maybe_widen_def cand CleanReuse prod_eq_iff\<close>)
  next
    case (Rejected i v cur would pos)
    then have p: "l1 = l" using plan(2) by (auto simp: plan_ok_def)
    have mv: "moves pr (n + 2) c ?c1" using im(1) by (simp add: p(1))
    let ?ch = "RejectedDegenerate v cur would pos"
    obtain e where e: "emit_template_change env ?c1 r raw i ?ch = ?c1\<lparr>cl_audit := cl_audit ?c1 @ [e]\<rparr>"
        "is_event ?tid i ?ch e" by (rule emit_change)
    have "moves pr (n + 2) ?c1 (?c1\<lparr>cl_audit := cl_audit ?c1 @ [e]\<rparr>)"
      using mv by (intro unbound_moves [OF _ _ e(2)]) (simp_all add: moves_def update_conv)
    with mv have mv2: "moves pr (n + 2) c (?c1\<lparr>cl_audit := cl_audit ?c1 @ [e]\<rparr>)" by (rule moves_trans)
    note fin = moves_finishes [OF mv2 parse_failure_finishes [of pr "n + 2" _ r raw parts]]
    show thesis
      by (rule that [OF _ fin]) (use mv2 in
          \<open>simp_all add: attach_and_maybe_widen_def cand Rejected e(1) moves_def\<close>)
  next
    case (Mutated i events v ps)
    then have p: "i = lf_template_id l" "v = lf_template_version l1" "rebuilds toks (lf_template l1) ps"
      "version_chain (lf_template_version l) (format_template (lf_template l)) events
         (lf_template_version l1) (format_template (lf_template l1))" "leaf_frame l1 = leaf_frame l"
      using plan(2) by (auto simp: plan_ok_def)
    have p': "i = lf_template_id l'" "v = lf_template_version l'" "rebuilds toks (lf_template l') ps"
      using p l' by (auto simp: leaf_frame_def)
    let ?c2 = "move_mined_canonical ?c1 r events"
    obtain es k where es: "fold (emit_change_counted env r raw i) events ?c2 = ?c2\<lparr>cl_audit := cl_audit ?c2 @ es, cl_merges_total := k\<rparr>"
      "list_all2 (is_event ?tid i) events es" by (rule emit_changes)
    have aud: "cl_audit ?c2 = cl_audit c" by (simp add: move_mined_canonical_def split: option.split)
    let ?c3 = "?c2\<lparr>cl_audit := cl_audit c @ es, cl_merges_total := k\<rparr>"
    note am' = am [OF es(2) [unfolded p(1)] p(4) refl, of k]
    from am'(2) obtain st' where "hm_get (cl_tenants ?c3) ?tid = Some st'" "l' \<in> set (ten_leaves st')" by blast
    note fin = leaf_finishes [OF am'(1) this line p'(3,1,2)]
    show thesis
      by (rule that [OF _ fin(1)])
         (use fin(2) es(1) in \<open>simp add: attach_and_maybe_widen_def cand Mutated aud Let_def prod_eq_iff\<close>)
  qed
qed

section \<open>Adoption\<close>

lemma tenant_rebind:
  assumes inv: "tenant_inv evs tid st" and e: "is_event tid i (Adopted v s) e" and b: "bound evs tid i v s"
  shows "tenant_inv (evs @ [e]) tid st"
  using inv audit_inv_rebind [of evs tid "leaf_info ` set (ten_leaves st)" "ten_adopted st" e i v s] e b
  by (auto simp: tenant_inv_def is_event_def)

lemma bound_issued:
  assumes good: "good pr n c" and b: "bound (cl_audit c) tid i v s"
  shows "i \<noteq> no_template"
proof -
  let ?st = "tenant_or_new c tid (effective_config c tid)"
  have inv: "tenant_inv (cl_audit c) tid ?st" by (rule good_tenant [OF good good_config [OF good]])
  then have "i \<in> set (tenant_ids ?st)"
    using audit_invD(3) [of "cl_audit c" tid "leaf_info ` set (ten_leaves ?st)" "ten_adopted ?st" i v s] b
    by (auto simp: tenant_inv_def tenant_ids_def leaf_info_def)
  then show ?thesis
    using tenant_id_issued [of c i tid "effective_config c tid"] good by (simp add: good_def no_template_def)
qed

text \<open>The tenant after an adoption that takes no id, and what the entry is bound to.\<close>

lemma adopt_tenant:
  assumes good: "good pr n c" and st: "st = tenant_or_new c tid (effective_config c tid)"
    and inv: "tenant_inv (cl_audit c @ es) tid st'" and ids: "mset (tenant_ids st') = mset (tenant_ids st)"
    and same: "ten_config st' = ten_config st" "ten_leaf_count st' = ten_leaf_count st" "ten_owned_count st' = ten_owned_count st"
      "\<And>l. l \<in> set (ten_leaves st') \<Longrightarrow> \<exists>l0 \<in> set (ten_leaves st).
          lf_template_version l = lf_template_version l0 \<and> lf_template l = lf_template l0"
    and es: "\<And>e. e \<in> set es \<Longrightarrow> ae_tenant_id e = tid"
  shows "moves pr n c ((set_tenant c tid st')\<lparr>cl_audit := cl_audit c @ es\<rparr>)"
proof -
  have "ten_ok pr n st" unfolding st by (rule good_tenant [OF good good_config [OF good]])
  then have "ten_ok pr n st'" using same by (fastforce simp: ten_ok_def)
  then show ?thesis
    using inv ids good es st same(1) tenant_config [of c tid]
    by (intro tenant_moves [OF good, of _ tid st' es "effective_config c tid"])
       (simp_all add: good_def cluster_inv_def same_config_def same_sink_def)
qed

lemma adopt_tenant_quiet:
  assumes "good pr n c" and "st = tenant_or_new c tid (effective_config c tid)"
    and "tenant_inv (cl_audit c) tid st'" and "mset (tenant_ids st') = mset (tenant_ids st)"
    and "ten_config st' = ten_config st" "ten_leaf_count st' = ten_leaf_count st" "ten_owned_count st' = ten_owned_count st"
      "\<And>l. l \<in> set (ten_leaves st') \<Longrightarrow> \<exists>l0 \<in> set (ten_leaves st).
          lf_template_version l = lf_template_version l0 \<and> lf_template l = lf_template l0"
  shows "moves pr n c (set_tenant c tid st')"
  using adopt_tenant [OF assms(1,2), of "[]" st'] assms(3-) by (simp add: set_tenant_def)

lemma adopt_mined:
  assumes good: "good pr n c" and st: "st = tenant_or_new c (ol_tenant_id r) (effective_config c (ol_tenant_id r))"
    and get: "hm_get (ten_adopted st) key = None" and key: "fst key = format_template T"
    and found: "find_exact (ten_tree st) T s sc = Some (loc, l)"
    and st': "st' = st\<lparr>ten_tree := update_at (ten_tree st) (length T) loc
                          (\<lambda>l. l\<lparr>lf_provenance := prov_insert (lf_provenance l) UpstreamDerived\<rparr>),
                ten_adopted := hm_insert key (TreeBacked (lf_template_id l) (lf_template_version l)) (ten_adopted st)\<rparr>"
    and res: "res = (if f then FirstOnLeaf (lf_template_id l) (lf_template_version l)
                     else Existing (lf_template_id l) (lf_template_version l))"
  obtains c' where "adopted_identity env (set_tenant c (ol_tenant_id r) st') r raw (format_template T) res
                      = (c', Some (lf_template_id l, lf_template_version l))" "moves pr n c c'"
    "bound (cl_audit c') (ol_tenant_id r) (lf_template_id l) (lf_template_version l) (format_template T)"
proof -
  let ?tid = "ol_tenant_id r"
  let ?f = "\<lambda>l. l\<lparr>lf_provenance := prov_insert (lf_provenance l) UpstreamDerived\<rparr>"
  have inv: "tenant_inv (cl_audit c) ?tid st"
    unfolding st by (rule good_tenant [OF good good_config [OF good]])
  then have wf: "tree_wf (ten_tree st)" by (simp add: tenant_inv_def)
  let ?tree = "update_at (ten_tree st) (length T) loc ?f"
  obtain R where l: "lf_template l = T" and R: "mset (ten_leaves st) = add_mset l R"
      "mset (collect_leaves ?tree) = add_mset (?f l) R" "tree_wf ?tree"
    using find_exact_spec [OF wf, of T s sc] by (auto simp: found leaf_is_def)
  have mem: "l \<in> set (ten_leaves st)" using arg_cong [OF R(1), of set_mset] by auto
  then have "leaf_info l \<in> leaf_info ` set (ten_leaves st)" "leaf_wf l" using inv by (auto simp: tenant_inv_def)
  then have b: "bound (cl_audit c) ?tid (lf_template_id l) (lf_template_version l) (format_template T)"
    using inv audit_invD(1) [of "cl_audit c" ?tid "leaf_info ` set (ten_leaves st)" "ten_adopted st"] l
    by (auto simp: tenant_inv_def leaf_info_def)
  have "leaf_wf (?f l)" using \<open>leaf_wf l\<close> by (simp add: leaf_wf_def)
  note same = tenant_same_info [OF inv R(3,1,2) _ _ this]
  have inv1: "tenant_inv (cl_audit c) ?tid (st\<lparr>ten_tree := ?tree\<rparr>)"
    and ids1: "mset (tenant_ids (st\<lparr>ten_tree := ?tree\<rparr>)) = mset (tenant_ids st)"
    by (intro same; simp add: leaf_info_def leaf_key_def)+
  have st'': "st' = (st\<lparr>ten_tree := ?tree\<rparr>)\<lparr>ten_adopted := hm_insert key (TreeBacked (lf_template_id l) (lf_template_version l))
      (ten_adopted (st\<lparr>ten_tree := ?tree\<rparr>))\<rparr>" using st' by simp
  have get': "hm_get (ten_adopted (st\<lparr>ten_tree := ?tree\<rparr>)) key = None" using get by simp
  note ad = tenant_adopt_leaf [OF inv1 get' b [folded key] st'']
  have fields: "ten_config st' = ten_config st" "ten_leaf_count st' = ten_leaf_count st" "ten_owned_count st' = ten_owned_count st"
    "ten_tree st' = ?tree" by (simp_all add: st')
  have lv: "\<exists>l0 \<in> set (ten_leaves st). lf_template_version x = lf_template_version l0 \<and> lf_template x = lf_template l0"
    if "x \<in> set (ten_leaves st')" for x
  proof -
    have "x = ?f l \<or> x \<in># R" using that arg_cong [OF R(2), of set_mset] fields(4) by auto
    then show ?thesis using mem arg_cong [OF R(1), of set_mset] by auto
  qed
  show thesis
  proof (cases f)
    case True
    obtain e where e: "emit_template_change env (set_tenant c ?tid st') r raw (lf_template_id l) (Adopted (lf_template_version l) (format_template T))
        = (set_tenant c ?tid st')\<lparr>cl_audit := cl_audit (set_tenant c ?tid st') @ [e]\<rparr>"
      "is_event ?tid (lf_template_id l) (Adopted (lf_template_version l) (format_template T)) e" by (rule emit_change)
    have "moves pr n c ((set_tenant c ?tid st')\<lparr>cl_audit := cl_audit c @ [e]\<rparr>)"
      using tenant_rebind [OF ad(1) e(2) b] ad(2) ids1 fields(1-3) lv e(2)
      by (intro adopt_tenant [OF good st]) (simp_all add: is_event_def)
    then show thesis
      using True e(1) bound_mono [OF b, of "[e]"]
      by (intro that [of "(set_tenant c ?tid st')\<lparr>cl_audit := cl_audit c @ [e]\<rparr>"])
         (simp_all add: res adopted_identity_def emit_adopted_audit_def)
  next
    case False
    then show thesis
      using adopt_tenant_quiet [OF good st ad(1) _ fields(1-3) lv] ad(2) ids1 b
      by (intro that [of "set_tenant c ?tid st'"]) (simp_all add: res adopted_identity_def)
  qed
qed

lemma adopt_interned:
  assumes good: "good pr n c" and st: "st = tenant_or_new c (ol_tenant_id r) (effective_config c (ol_tenant_id r))"
    and get: "hm_get (ten_adopted st) key = None" and key: "fst key = canonical"
    and take: "ir_take reserve (cl_ids c) = (ids, Inr i)" and own: "oa_template_id owned = i"
    and room: "ten_leaf_count st + ten_owned_count st < max_templates (ten_config st)"
    and st': "st' = st\<lparr>ten_adopted := hm_insert key (Owned owned) (ten_adopted st),
                ten_owned_count := ten_owned_count st + 1, ten_template_count := ten_template_count st + 1\<rparr>"
  obtains c' where "adopted_identity env (set_tenant (c\<lparr>cl_ids := ids\<rparr>) (ol_tenant_id r) st') r raw canonical (Interned i)
                      = (c', Some (i, 1))" "moves pr n c c'"
    "bound (cl_audit c') (ol_tenant_id r) i 1 canonical"
proof -
  let ?tid = "ol_tenant_id r" and ?c1 = "set_tenant (c\<lparr>cl_ids := ids\<rparr>) (ol_tenant_id r) st'"
  note tk = take_fresh(1-4) [OF good take]
  have inv: "tenant_inv (cl_audit c) ?tid st" and ok: "ten_ok pr n st"
    unfolding st by (intro good_tenant [OF good good_config [OF good]])+
  have fresh: "oa_template_id owned \<notin> set (tenant_ids st)"
    using take_fresh(5) [OF good take] own st by simp
  obtain e where e: "emit_template_change env ?c1 r raw i (Adopted 1 canonical) = ?c1\<lparr>cl_audit := cl_audit ?c1 @ [e]\<rparr>"
    "is_event ?tid i (Adopted 1 canonical) e" by (rule emit_change)
  have ek: "ae_tenant_id e = ?tid" "event_key e = Some ((oa_template_id owned, 1), fst key)"
    using e(2) own key by (simp_all add: is_event_def)
  note new = tenant_intern [OF inv get fresh ek st']
  have "ten_ok pr n st'" "ten_config st' = ten_config st" using ok room by (simp_all add: ten_ok_def st')
  then have "moves pr n c (?c1\<lparr>cl_audit := cl_audit c @ [e]\<rparr>)"
    using new own tk ek(1) st tenant_config [of c ?tid]
    by (intro tenant_moves [OF good, of _ ?tid st' "[e]" "effective_config c ?tid"])
       (simp_all add: same_config_def same_sink_def)
  moreover have "bound (cl_audit c @ [e]) ?tid i 1 canonical"
    using e(2) by (simp add: bound_append bound_one is_event_def)
  ultimately show thesis
    using e(1) by (intro that [of "?c1\<lparr>cl_audit := cl_audit c @ [e]\<rparr>"])
      (simp_all add: adopted_identity_def emit_adopted_audit_def)
qed

lemma adopt_moves:
  assumes good: "good pr n c" and config: "config = effective_config c (ol_tenant_id r)"
    and key: "key = canonical_key_of r (format_template T)"
    and res: "resolve_adoption env c r upstream T key config = (c1, resolution)"
  obtains c' identity where "adopted_identity env c1 r raw (format_template T) resolution = (c', identity)"
    "moves pr n c c'"
    "\<And>i v. identity = Some (i, v) \<Longrightarrow> bound (cl_audit c') (ol_tenant_id r) i v (format_template T)"
proof -
  let ?tid = "ol_tenant_id r"
  define st where "st = tenant_or_new c ?tid (effective_config c ?tid)"
  have inv: "tenant_inv (cl_audit c) ?tid st" and ok: "ten_ok pr n st"
    unfolding st_def by (intro good_tenant [OF good good_config [OF good]])+
  have conf: "ten_config st = config"
    by (simp add: st_def config tenant_or_new_def effective_config_def tenant_new_def split: option.split)
  have fk: "fst key = format_template T" by (simp add: key canonical_key_of_def)
  have eb: "entry_bound (cl_audit c) ?tid key e" if "hm_get (ten_adopted st) key = Some e" for e
    using inv that audit_invD(2) [of "cl_audit c" ?tid _ "ten_adopted st" key e]
    by (auto simp: tenant_inv_def dest: map_of_SomeD)
  have quiet: "moves pr n c (set_tenant c ?tid st)"
    by (rule adopt_tenant_quiet [OF good st_def inv]) auto
  note R = res [unfolded resolve_adoption_def Let_def, folded config, folded st_def [folded config]]
  have st_eq: "tenant_or_new c ?tid config = st" by (simp add: st_def config)
  show thesis
  proof (cases "hm_get (ten_adopted st) key")
    case Some: (Some entry)
    show thesis
    proof (cases entry)
      case (TreeBacked i v)
      with R Some have "c1 = set_tenant c ?tid st" "resolution = Existing i v" by (auto simp: st_eq)
      then show thesis using quiet eb [OF Some] TreeBacked fk
        by (intro that [of "set_tenant c ?tid st" "Some (i, v)"]) (simp_all add: adopted_identity_def)
    next
      case (Owned owned)
      let ?own = "owned\<lparr>oa_associations := fst (ua_observe (oa_associations owned) upstream (upstream_association_limit config))\<rparr>"
      let ?st' = "st\<lparr>ten_adopted := hm_insert key (Owned ?own) (ten_adopted st)\<rparr>"
      from Owned R Some have c1: "c1 = set_tenant c ?tid ?st'" "resolution = Existing (oa_template_id owned) 1"
        by (auto simp: st_eq)
      have "tenant_inv (cl_audit c) ?tid ?st'" "mset (tenant_ids ?st') = mset (tenant_ids st)"
        by (intro tenant_observe_owned [OF inv Some [unfolded Owned] _ refl]; simp)+
      then have "moves pr n c (set_tenant c ?tid ?st')"
        by (intro adopt_tenant_quiet [OF good st_def]) auto
      then show thesis using eb [OF Some] Owned fk c1
        by (intro that [of c1 "Some (oa_template_id owned, 1)"]) (simp_all add: adopted_identity_def)
    qed
  next
    case None
    show thesis
    proof (cases "if mc_contains (ten_canonicals st) key
                  then find_exact (ten_tree st) T (ol_severity_number r) (ol_scope_name r) else None")
      case (Some hit)
      obtain loc l where hit: "hit = (loc, l)" by (cases hit)
      from Some have found: "find_exact (ten_tree st) T (ol_severity_number r) (ol_scope_name r) = Some (loc, l)"
        by (simp add: hit split: if_splits)
      let ?st' = "st\<lparr>ten_tree := update_at (ten_tree st) (length T) loc
                          (\<lambda>l. l\<lparr>lf_provenance := prov_insert (lf_provenance l) UpstreamDerived\<rparr>),
                ten_adopted := hm_insert key (TreeBacked (lf_template_id l) (lf_template_version l)) (ten_adopted st)\<rparr>"
      let ?res = "if \<not> prov_contains (lf_provenance l) UpstreamDerived
          then FirstOnLeaf (lf_template_id l) (lf_template_version l) else Existing (lf_template_id l) (lf_template_version l)"
      from R None Some have c1: "c1 = set_tenant c ?tid ?st'" "resolution = ?res" by (auto simp: st_eq hit)
      show thesis
        by (rule adopt_mined [OF good st_def None fk found refl refl, of env raw
              "\<not> prov_contains (lf_provenance l) UpstreamDerived"]) (use that c1 in auto)
    next
      case nohit: None
      show thesis
      proof (cases "ten_leaf_count st + ten_owned_count st \<ge> max_templates config")
        case True
        with R None nohit have "c1 = set_tenant c ?tid st" "resolution = Ceiling" by (auto simp: st_eq)
        with quiet that [of c1 None] show thesis by (simp add: adopted_identity_def)
      next
        case room: False
        obtain ids out where take: "ir_take (env_reserve env) (cl_ids c) = (ids, out)" by force
        show thesis
        proof (cases out)
          case (Inl e)
          with R None nohit room take have c1: "c1 = set_tenant (c\<lparr>cl_ids := ids\<rparr>) ?tid st" "resolution = NoId"
            by (auto simp: st_eq)
          note tf = take_failed [OF good take [unfolded Inl]]
          have "moves pr n (c\<lparr>cl_ids := ids\<rparr>) c1"
            unfolding c1(1) using tf(1) inv
            by (intro adopt_tenant_quiet [of _ _ _ st])
               (auto simp: st_def moves_def tenant_or_new_def effective_config_def split: option.splits)
          with tf(1) have "moves pr n c c1" by (rule moves_trans)
          then show thesis using that [of c1 None] c1(2) by (simp add: adopted_identity_def)
        next
          case (Inr i)
          let ?owned = "\<lparr>oa_template_id = i, oa_provenance = prov_singleton UpstreamDerived,
              oa_associations = fst (ua_observe ua_default upstream (upstream_association_limit config))\<rparr>"
          let ?st' = "st\<lparr>ten_adopted := hm_insert key (Owned ?owned) (ten_adopted st),
              ten_owned_count := ten_owned_count st + 1, ten_template_count := ten_template_count st + 1\<rparr>"
          from Inr R None nohit room take
          have c1: "c1 = set_tenant (c\<lparr>cl_ids := ids\<rparr>) ?tid ?st'" "resolution = Interned i" by (auto simp: st_eq)
          show thesis
            by (rule adopt_interned [OF good st_def None fk take [unfolded Inr], of ?owned ?st' env raw])
               (use that c1 room conf in auto)
        qed
      qed
    qed
  qed
qed

text \<open>The parameters of an adopted row are the line's tokens at the template's wildcards.\<close>

lemma fill_values:
  "length vs = wildcard_count t \<Longrightarrow> fill t vs = drop p toks \<Longrightarrow> p + length t = length toks \<Longrightarrow>
   vs = map ((!) toks) (wpos p t) \<and> (\<forall>i s. i < length t \<longrightarrow> t ! i = Fixed s \<longrightarrow> toks ! (p + i) = s)"
proof (induction t vs arbitrary: p rule: fill.induct)
  case (2 s t vs)
  then have d: "drop p toks = toks ! p # drop (Suc p) toks" by (simp add: Cons_nth_drop_Suc)
  have "vs = map ((!) toks) (wpos (Suc p) t) \<and> (\<forall>i s. i < length t \<longrightarrow> t ! i = Fixed s \<longrightarrow> toks ! (Suc p + i) = s)"
    by (rule "2.IH") (use "2.prems" d in auto)
  with "2.prems" d show ?case by (auto simp: less_Suc_eq_0_disj)
next
  case (4 t v vs)
  then have d: "drop p toks = toks ! p # drop (Suc p) toks" by (simp add: Cons_nth_drop_Suc)
  have "vs = map ((!) toks) (wpos (Suc p) t) \<and> (\<forall>i s. i < length t \<longrightarrow> t ! i = Fixed s \<longrightarrow> toks ! (Suc p + i) = s)"
    by (rule "4.IH") (use "4.prems" d in auto)
  with "4.prems" d show ?case by (auto simp: less_Suc_eq_0_disj)
qed auto

lemma upstream_wpos:
  "map fst (filter (\<lambda>(i, t). is_upstream_wildcard t) (enum_from p us)) = wpos p (map to_owned_token us)"
proof (induction us arbitrary: p)
  case (Cons u us)
  then show ?case by (cases u) auto
qed simp

lemma adopted_row_ok:
  assumes ok: "masked_ok (tz_tokens tz) m" and tok: "tokenize raw = Inr tz" and al: "align parsed raw = Inr a"
  obtains ps where "adopted_row_parts sha256 parsed a m limit = Some (ps, tz_separators tz)"
    "rebuilds (tz_tokens tz) (to_owned_tokens parsed) ps"
proof -
  let ?T = "to_owned_tokens parsed" and ?toks = "tz_tokens tz"
  obtain tz' where "tokenize raw = Inr tz'" "al_separators a = tz_separators tz'"
      "length (al_params a) = wildcard_count ?T" "fill ?T (map ap_value (al_params a)) = tz_tokens tz'"
      "length (ut_tokens parsed) = length (tz_tokens tz')"
    by (rule align_ok [OF al])
  with tok have a: "al_separators a = tz_separators tz" "length (al_params a) = wildcard_count ?T"
    "fill ?T (map ap_value (al_params a)) = ?toks" "length ?T = length ?toks" by (auto simp: to_owned_tokens_def)
  then have vs: "map ap_value (al_params a) = map ((!) ?toks) (wpos 0 ?T)"
    and fixed: "\<And>i s. i < length ?T \<Longrightarrow> ?T ! i = Fixed s \<Longrightarrow> ?toks ! i = s"
    using fill_values [of "map ap_value (al_params a)" ?T 0 ?toks] by auto
  let ?g = "\<lambda>(p, pos). map_option (\<lambda>ty. cap_param_value sha256 ty (ap_value p) limit)
                 (param_type_for_line_position pos (mk_positions m) (mk_params m))"
  have "those (map ?g (zip xs qs)) = Some (map (row_param sha256 limit ?toks m) qs)"
    if "map ap_value xs = map ((!) ?toks) qs" for xs qs
    using that by (induction xs qs rule: list_induct2') (auto simp: line_type_Some(1) [OF ok] row_param_def)
  from this [OF vs] have "adopted_row_parts sha256 parsed a m limit
      = Some (map (row_param sha256 limit ?toks m) (wpos 0 ?T), tz_separators tz)"
    by (simp add: adopted_row_parts_def upstream_wpos a(1) flip: to_owned_tokens_def)
  then show thesis using rebuilds_row [OF a(4) fixed] by (rule that)
qed

lemma try_adopt_ok:
  assumes good: "good pr n c" and config: "config = effective_config c (ol_tenant_id r)"
    and tok: "tokenize raw = Inr tz" and line: "line_ok pr raw (tz_tokens tz) m parts"
    and seps: "lp_separators parts = tz_separators tz" and pr: "pr \<longrightarrow> is_str upstream"
  obtains c' res where "try_adopt env c r raw upstream m config = Some (c', res)"
    "case res of None \<Rightarrow> moves pr n c c' | Some i \<Rightarrow> finishes pr n c r raw c' i"
proof -
  note lo = line_okD [OF line]
  note out = that
  have refuse: thesis if "try_adopt env c r raw upstream m config = Some (c, None)"
    using out [OF that] moves_refl [OF good] by simp
  show thesis
  proof (cases "length upstream > upstream_template_byte_limit config")
    case True
    then show thesis by (intro refuse) (simp add: try_adopt_def)
  next
    case fits: False
    show thesis
    proof (cases "parse_upstream_template upstream")
      case (Inl e)
      with fits show thesis by (intro refuse) (simp add: try_adopt_def)
    next
      case parsed: (Inr parsed)
      show thesis
      proof (cases "align parsed raw")
        case (Inl e)
        with fits parsed show thesis by (intro refuse) (simp add: try_adopt_def)
      next
        case al: (Inr a)
        let ?T = "to_owned_tokens parsed"
        obtain c1 res where res: "resolve_adoption env c r upstream ?T (canonical_key_of r (format_template ?T)) config = (c1, res)"
          by force
        obtain c2 identity where id: "adopted_identity env c1 r raw (format_template ?T) res = (c2, identity)" "moves pr n c c2"
            "\<And>i v. identity = Some (i, v) \<Longrightarrow> bound (cl_audit c2) (ol_tenant_id r) i v (format_template ?T)"
          by (rule adopt_moves [where raw = raw, OF good config refl res]) (rule that)
        have good2: "good pr n c2" using id(2) by (simp add: moves_def)
        show thesis
        proof (cases identity)
          case None
          with fits parsed al res id(1,2) show thesis by (intro that [of c2 None]) (simp_all add: try_adopt_def Let_def)
        next
          case (Some iv)
          obtain i v where iv: "iv = (i, v)" by force
          have b: "bound (cl_audit c2) (ol_tenant_id r) i v (format_template ?T)" using id(3) Some iv by simp
          obtain ps where ps: "adopted_row_parts (env_sha256 env) parsed a m (param_byte_limit config) = Some (ps, tz_separators tz)"
              "rebuilds (tz_tokens tz) ?T ps"
            by (rule adopted_row_ok [OF lo(1) tok al])
          have pT: "pr \<longrightarrow> printable ?T" using pr printable_upstream [OF parsed] by blast
          note fin = attached_finishes [OF good2 bound_issued [OF good2 b] b pT ps(2) lo(4,5) [unfolded seps]]
          obtain c3 where c3: "emit_attached c2 r raw (tz_separators tz) ps i v = (c3, i)"
            using fin(1) by (cases "emit_attached c2 r raw (tz_separators tz) ps i v") simp
          show thesis
            by (rule that [of c3 "Some i"])
               (use fits parsed al res id(1) Some iv ps(1) c3 moves_finishes [OF id(2) fin(2)] in
                 \<open>simp_all add: try_adopt_def Let_def\<close>)
        qed
      qed
    qed
  qed
qed

end
