(* ===== verification/Cluster_Run.thy ===== *)
theory Cluster_Run
  imports Cluster_Steps
begin

text \<open>
  One call of \<open>ingest\<close> and runs of it. Every call on a cluster that satisfies the invariant returns
  (no panic), keeps the invariant and emits exactly one record; a string record gives its line back
  when read through the template its (id, version) is bound to in the audit stream. Runs are lists of
  records ingested one after the other.
\<close>

section \<open>Conditions on the input\<close>

text \<open>Text the read path can tell apart from the wildcard marker: valid UTF-8 with no token \<open><*>\<close>.\<close>

definition clean_line :: "bytes \<Rightarrow> bool" where
  "clean_line raw \<longleftrightarrow> is_str raw \<and> (case tokenize raw of Inl _ \<Rightarrow> True | Inr tz \<Rightarrow> ''<*>'' \<notin> set (tz_tokens tz))"

definition clean_record :: "('av, 'r) env \<Rightarrow> 'av otlp_log_record \<Rightarrow> bool" where
  "clean_record env r \<longleftrightarrow>
     (case ol_body r of Some (Body_String raw) \<Rightarrow> clean_line raw | _ \<Rightarrow> True)
     \<and> (case upstream_template_of (env_string_value env) r of Some s \<Rightarrow> is_str s | None \<Rightarrow> True)"

text \<open>The canonical encoder accepts the structured body of the record.\<close>

definition encodes :: "('av, 'r) env \<Rightarrow> 'av otlp_log_record \<Rightarrow> bool" where
  "encodes env r \<longleftrightarrow>
     (case ol_body r of Some (Body_Structured av) \<Rightarrow> env_encode_any_value env av \<noteq> None | _ \<Rightarrow> True)"

section \<open>String bodies\<close>

lemma clean_tokens:
  assumes "clean_line raw" and "tokenize raw = Inr tz"
  shows "printable (map Fixed (tz_tokens tz))"
  using assms tokenize_token_no_space [OF assms(2)] by (auto simp: clean_line_def printable_def)

lemma tokenized_line_ok:
  assumes tok: "tokenize raw = Inr tz" and ne: "tz_tokens tz \<noteq> []" and len: "length (tz_tokens tz) \<le> 65535"
    and pr: "pr \<longrightarrow> clean_line raw"
    and parts: "parts = \<lparr>lp_separators = tz_separators tz,
                  lp_params = params_from_mask h (mk_params (mask_tokens (tz_tokens tz))) limit\<rparr>"
  shows "line_ok pr raw (tz_tokens tz) (mask_tokens (tz_tokens tz)) parts"
  using assms tokenize_len [OF tok] tokenize_weave [OF tok] masked_ok_mask [of "tz_tokens tz"]
    rebuilds_fresh [of "tz_tokens tz" "mask_tokens (tz_tokens tz)" h limit] clean_tokens [OF _ tok]
  by (simp add: line_ok_def)

lemma mine_line_finishes:
  assumes good: "good pr n c" and n: "1 \<le> n" and ver: "n + 2 \<le> 4294967295"
    and line: "line_ok pr raw toks m parts" and config: "config = effective_config c (ol_tenant_id r)"
  obtains c' i where "mine_line env c r raw m parts config observed = Some (c', i)" "finishes pr (n + 2) c r raw c' i"
proof -
  note lo = line_okD [OF line] and out = that
  have good2: "good pr (n + 2) c" and n2: "1 \<le> n + 2" using good_mono [OF good, of "n + 2"] by simp_all
  obtain best where best: "find_best_candidate c r m = Some best"
    "\<And>cand. best = Some cand \<Longrightarrow> \<exists>st. hm_get (cl_tenants c) (ol_tenant_id r) = Some st
       \<and> cd_leaf_idx cand < length (leaves (ten_reached st m))
       \<and> lf_severity_number (leaves (ten_reached st m) ! cd_leaf_idx cand) = ol_severity_number r
       \<and> lf_scope_name (leaves (ten_reached st m) ! cd_leaf_idx cand) = ol_scope_name r"
    by (rule find_best_candidate_ok [where r = r, OF good lo(7)]) (rule that)
  have mint: thesis if "mine_line env c r raw m parts config observed
      = mint_fresh_leaf env c r raw m parts observed zone (max_templates config)" for zone
    by (rule mint_finishes [OF good2 n2 line, of "max_templates config" r env observed zone])
       (use config out that in auto)
  show thesis
  proof (cases best)
    case None
    then show thesis by (intro mint) (simp add: mine_line_def best(1) Let_def)
  next
    case (Some cand)
    from best(2) [OF this] obtain st where st: "hm_get (cl_tenants c) (ol_tenant_id r) = Some st"
       "cd_leaf_idx cand < length (leaves (ten_reached st m))"
       "lf_severity_number (leaves (ten_reached st m) ! cd_leaf_idx cand) = ol_severity_number r"
       "lf_scope_name (leaves (ten_reached st m) ! cd_leaf_idx cand) = ol_scope_name r" by blast
    show thesis
    proof (cases "zone_classify (cd_similarity cand) (similarity_threshold config) (similarity_floor config)")
      case Clean
      show thesis
        by (rule attach_finishes [OF good line ver st, of env "param_byte_limit config" observed])
           (use that Clean Some best(1) in \<open>simp add: mine_line_def Let_def\<close>)
    qed (auto intro!: mint simp: mine_line_def best(1) Some Let_def)
  qed
qed

lemma no_template_finishes:
  assumes good: "good pr n c" and rec: "carries r rec" "mr_body_kind rec = BK_String"
      "mr_template_id rec = no_template" "mr_lossy_flag rec" "mr_body rec = Some raw"
  shows "finishes pr n c r raw (record_parse_failure (emit_record c rec)) no_template"
    and "finishes pr n c r raw (record_tokenizer_failure (emit_record c rec)) no_template"
proof -
  have row: "row_ok pr evs r raw rec no_template" for evs using rec by (simp add: row_ok_def)
  have "emitted c rec (record_parse_failure (emit_record c rec))" "emitted c rec (record_tokenizer_failure (emit_record c rec))"
    by (rule emitted_record; simp add: record_parse_failure_def record_tokenizer_failure_def)+
  moreover have "good pr n (record_parse_failure (emit_record c rec))" "good pr n (record_tokenizer_failure (emit_record c rec))"
    using good by (subst good_cong [of _ c]; simp add: record_parse_failure_def record_tokenizer_failure_def same_config_def)+
  ultimately show "finishes pr n c r raw (record_parse_failure (emit_record c rec)) no_template"
    and "finishes pr n c r raw (record_tokenizer_failure (emit_record c rec)) no_template"
    using row by (auto simp: finishes_def same_config_def grows_def record_parse_failure_def record_tokenizer_failure_def)
qed

lemma finishes_mono: "finishes pr n c r raw c' i \<Longrightarrow> n \<le> n' \<Longrightarrow> finishes pr n' c r raw c' i"
  by (auto simp: finishes_def intro: good_mono)

lemma ingest_string_finishes:
  assumes good: "good pr n c" and n: "1 \<le> n" and ver: "n + 2 \<le> 4294967295"
    and pr: "pr \<longrightarrow> clean_line raw \<and> (case upstream_template_of (env_string_value env) r of Some s \<Rightarrow> is_str s | None \<Rightarrow> True)"
  obtains c' i where "ingest_string env c r raw = Some (c', i)" "finishes pr (n + 2) c r raw c' i"
proof -
  let ?config = "effective_config c (ol_tenant_id r)"
  note out = that
  have short: thesis if "ingest_string env c r raw = Some (c', i)" "finishes pr n c r raw c' i" for c' i
    using out [OF that(1) finishes_mono [OF that(2)]] by simp
  show thesis
  proof (cases "tokenize raw")
    case (Inl e)
    then show thesis
      by (intro short [OF _ no_template_finishes(2) [OF good,
            where rec = "(record_envelope r BK_String)\<lparr>mr_body := Some raw, mr_lossy_flag := True\<rparr>"]])
         (simp_all add: ingest_string_def record_envelope_def carries_def)
  next
    case tok: (Inr tz)
    let ?m = "mask_tokens (tz_tokens tz)"
    let ?parts = "\<lparr>lp_separators = tz_separators tz,
        lp_params = params_from_mask (env_sha256 env) (mk_params ?m) (param_byte_limit ?config)\<rparr>"
    have mlen: "length (mk_tokens ?m) = length (tz_tokens tz)"
      using masked_ok_mask [of "tz_tokens tz"] by (simp add: masked_ok_def)
    show thesis
    proof (cases "mk_tokens ?m = []")
      case True
      then show thesis
        by (intro short [OF _ no_template_finishes(1) [OF good, where rec = "(record_envelope r BK_String)
              \<lparr>mr_separators := lp_separators ?parts, mr_body := Some raw, mr_lossy_flag := True\<rparr>"]])
           (simp_all add: ingest_string_def tok record_envelope_def carries_def)
    next
      case ne: False
      show thesis
      proof (cases "length (mk_tokens ?m) > max_line_tokens ?config")
        case True
        then show thesis
          by (intro short [OF _ parse_failure_finishes [OF good, of r raw ?parts]])
             (simp add: ingest_string_def tok ne Let_def)
      next
        case fits: False
        have line: "line_ok pr raw (tz_tokens tz) ?m ?parts"
          using good_config [OF good, of "ol_tenant_id r"] fits ne mlen pr
          by (intro tokenized_line_ok [OF tok]) (auto simp: cfg_ok_def)
        let ?claim = "upstream_claim env ?config r"
        have claim: "pr \<longrightarrow> is_str s" if "?claim = Some s" for s
          using that pr by (auto simp: upstream_claim_def split: if_splits)
        obtain c1 res where adopted: "(case (upstream_mode ?config = Adopt, ?claim) of
                     (True, Some s) \<Rightarrow> try_adopt env c r raw s ?m ?config
                   | _ \<Rightarrow> Some (c, None)) = Some (c1, res)"
            "case res of None \<Rightarrow> moves pr n c c1 | Some i \<Rightarrow> finishes pr n c r raw c1 i"
        proof (cases "upstream_mode ?config = Adopt \<and> ?claim \<noteq> None")
          case True
          then obtain s where s: "?claim = Some s" by auto
          show thesis
            by (rule try_adopt_ok [OF good refl tok line, of s env]) (use s claim True that in auto)
        next
          case False
          then show thesis by (intro that [of c None]) (auto simp: moves_refl [OF good] split: option.split bool.split)
        qed
        let ?observed = "observed_claim ?config ?claim"
        have eq: "ingest_string env c r raw = (case res of Some i \<Rightarrow> Some (c1, i)
            | None \<Rightarrow> mine_line env c1 r raw ?m ?parts ?config ?observed)"
          using adopted(1) fits ne by (simp add: ingest_string_def tok Let_def)
        show thesis
        proof (cases res)
          case (Some i)
          with eq adopted(2) show thesis by (intro short [of c1 i]) simp_all
        next
          case None
          with adopted(2) have mv: "moves pr n c c1" by simp
          then have good1: "good pr n c1" and cfg: "?config = effective_config c1 (ol_tenant_id r)" by (simp_all add: moves_def)
          obtain c' i where "mine_line env c1 r raw ?m ?parts ?config ?observed = Some (c', i)" "finishes pr (n + 2) c1 r raw c' i"
            by (rule mine_line_finishes [OF good1 n ver line cfg])
          moreover have "moves pr (n + 2) c c1" using mv good_mono [of pr n c1 "n + 2"] by (simp add: moves_def)
          ultimately show thesis using eq None moves_finishes [of pr "n + 2" c c1] by (intro out [of c' i]) auto
        qed
      qed
    qed
  qed
qed

section \<open>One ingest\<close>

lemma structured_moves:
  assumes good: "good pr n c"
  shows "moves pr n c (fst (structured_template_id env c r))"
proof -
  let ?tid = "ol_tenant_id r" and ?key = "(ol_severity_number r, ol_scope_name r, ol_event_name r)"
  let ?st = "tenant_or_new c ?tid (effective_config c ?tid)"
  show ?thesis
  proof (cases "Option.bind (hm_get (cl_tenants c) ?tid) (\<lambda>st. hm_get (ten_structured st) ?key)")
    case (Some i)
    then show ?thesis by (simp add: structured_template_id_def Let_def moves_refl [OF good])
  next
    case None
    then have new: "hm_get (ten_structured ?st) ?key = None"
      by (auto simp: tenant_or_new_def tenant_new_def split: option.splits)
    obtain ids res where take: "ir_take (env_reserve env) (cl_ids c) = (ids, res)" by force
    show ?thesis
    proof (cases res)
      case (Inl e)
      with None take take_failed(1) [OF good take [unfolded Inl]] show ?thesis
        by (simp add: structured_template_id_def Let_def)
    next
      case (Inr i)
      note tk = take_fresh [OF good take [unfolded Inr]]
      let ?st' = "?st\<lparr>ten_structured := hm_insert ?key i (ten_structured ?st), ten_template_count := ten_template_count ?st + 1\<rparr>"
      have eq: "fst (structured_template_id env c r) = set_tenant (c\<lparr>cl_ids := ids\<rparr>) ?tid ?st'"
        using None take Inr by (simp add: structured_template_id_def Let_def tenant_or_new_def)
      have inv: "tenant_inv (cl_audit c) ?tid ?st" and ok: "ten_ok pr n ?st"
        by (intro good_tenant [OF good good_config [OF good]])+
      note ts = tenant_structured [OF inv new tk(5) refl]
      have "ten_ok pr n ?st'" using ok by (simp add: ten_ok_def)
      then show ?thesis
        unfolding eq using ts tk(1-4) tenant_config [of c ?tid]
        by (intro tenant_moves [OF good, of _ ?tid ?st' "[]" "effective_config c ?tid"])
           (simp_all add: same_config_def same_sink_def)
    qed
  qed
qed

definition served ::
  "bool \<Rightarrow> ('av, 'r) env \<Rightarrow> audit_event list \<Rightarrow> 'av otlp_log_record \<Rightarrow> 'av mined_record \<Rightarrow> nat \<Rightarrow> bool" where
  "served pr env evs r rec i \<longleftrightarrow>
     (case ol_body r of
        None \<Rightarrow> rec = record_envelope r BK_Absent \<and> i = no_template
      | Some (Body_String raw) \<Rightarrow> row_ok pr evs r raw rec i
      | Some (Body_Structured av) \<Rightarrow>
          rec = (record_envelope r BK_Structured)\<lparr>mr_template_id := i, mr_template_version := 1, mr_confidence := 1,
                  mr_body := env_encode_any_value env av\<rparr> \<and> env_encode_any_value env av \<noteq> None)"

lemma row_ok_mono: "row_ok pr evs r raw rec i \<Longrightarrow> row_ok pr (evs @ es) r raw rec i"
  unfolding row_ok_def by (auto split: if_splits intro: bound_mono)

lemma served_mono: "served pr env evs r rec i \<Longrightarrow> served pr env (evs @ es) r rec i"
  unfolding served_def by (auto split: option.split body.split intro: row_ok_mono)

lemma emit_moves:
  assumes "moves pr n c c1"
  shows "good pr n (emit_record c1 rec)" "same_config c (emit_record c1 rec)" "grows c (emit_record c1 rec)"
    "emitted c rec (emit_record c1 rec)"
proof -
  show "good pr n (emit_record c1 rec)"
    using assms by (subst good_cong [of _ c1]) (simp_all add: same_config_def moves_def)
  show "same_config c (emit_record c1 rec)" "grows c (emit_record c1 rec)"
    using assms by (simp_all add: moves_def same_config_def grows_def)
  show "emitted c rec (emit_record c1 rec)"
    using assms by (auto simp: moves_def same_sink_def emitted_def emit_record_def split: mined_capture.split)
qed

lemma failure_moves:
  assumes "good pr n c"
  shows "moves pr n c (record_parse_failure c)"
proof -
  have "good pr n (record_parse_failure c)"
    using assms by (subst good_cong [of _ c]) (simp_all add: record_parse_failure_def same_config_def)
  moreover have "effective_config (record_parse_failure c) tid = effective_config c tid" for tid
    by (rule effective_config_cong) (simp_all add: record_parse_failure_def)
  ultimately show ?thesis
    by (simp add: moves_def same_config_def same_sink_def grows_def record_parse_failure_def)
qed

lemma ingest_step:
  assumes good: "good pr n c" and n: "1 \<le> n" and ver: "n + 2 \<le> 4294967295"
    and enc: "encodes env r" and pr: "pr \<longrightarrow> clean_record env r"
  obtains c' i rec where "ingest env c r = Some (c', i)" "good pr (n + 2) c'" "same_config c c'" "grows c c'"
    "emitted c rec c'" "served pr env (cl_audit c') r rec i"
proof (cases "ol_body r")
  case None
  note em = emit_moves [OF moves_refl [OF good], of "record_envelope r BK_Absent"]
  show thesis
    by (rule that [OF _ good_mono [OF em(1)] em(2-4)]) (simp_all add: ingest_def None served_def)
next
  case (Some b)
  show thesis
  proof (cases b)
    case (Body_String raw)
    obtain c' i where "ingest_string env c r raw = Some (c', i)" "finishes pr (n + 2) c r raw c' i"
      by (rule ingest_string_finishes [OF good n ver, of raw env r])
         (use pr Some Body_String that in \<open>auto simp: clean_record_def\<close>)
    then show thesis using Some Body_String that by (auto simp: ingest_def served_def finishes_def)
  next
    case (Body_Structured av)
    obtain bs where bs: "env_encode_any_value env av = Some bs" using enc Some Body_Structured by (auto simp: encodes_def)
    obtain c1 i where st: "structured_template_id env c r = (c1, i)" by force
    define c2 where "c2 = (if i = no_template then record_parse_failure c1 else c1)"
    have "moves pr n c c1" using structured_moves [OF good, of env r] st by simp
    then have mv: "moves pr n c c2"
      using moves_trans [OF _ failure_moves, of pr n c c1] by (auto simp: c2_def moves_def)
    let ?rec = "(record_envelope r BK_Structured)\<lparr>mr_template_id := i, mr_template_version := 1, mr_confidence := 1, mr_body := Some bs\<rparr>"
    note em = emit_moves [OF mv, of ?rec]
    have "ingest env c r = Some (emit_record c2 ?rec, i)"
      by (simp add: ingest_def Some Body_Structured ingest_structured_def st emit_structured_def bs flip: c2_def)
    then show thesis
      by (rule that [OF _ good_mono [OF em(1)] em(2-4)]) (simp_all add: Some Body_Structured served_def bs)
  qed
qed

section \<open>Runs\<close>

lemma ingest_run:
  assumes "good pr n c" and "1 \<le> n" and "n + 2 * length rs \<le> 4294967295"
    and "\<And>r. r \<in> set rs \<Longrightarrow> encodes env r" and "\<And>r. r \<in> set rs \<Longrightarrow> pr \<Longrightarrow> clean_record env r" and "cl_capture c = Cap_Off"
  shows "\<exists>c' recs. ingest_all env c rs = Some c' \<and> good pr (n + 2 * length rs) c' \<and> grows c c'
           \<and> cl_records c' = cl_records c @ recs
           \<and> list_all2 (\<lambda>r rec. \<exists>i. served pr env (cl_audit c') r rec i) rs recs"
  using assms
proof (induction rs arbitrary: n c)
  case Nil
  then show ?case by (simp add: grows_def)
next
  case (Cons r rs)
  obtain c1 i rec where s: "ingest env c r = Some (c1, i)" "good pr (n + 2) c1" "grows c c1" "emitted c rec c1"
      "served pr env (cl_audit c1) r rec i"
    by (rule ingest_step [OF Cons.prems(1,2), where r = r and env = env]) (use Cons.prems(3,4,5) in auto)
  have c1: "cl_capture c1 = Cap_Off" "cl_records c1 = cl_records c @ [rec]"
    using s(4) Cons.prems(6) by (simp_all add: emitted_def)
  obtain c' recs where c': "ingest_all env c1 rs = Some c'" "good pr (n + 2 + 2 * length rs) c'" "grows c1 c'"
      "cl_records c' = cl_records c1 @ recs" "list_all2 (\<lambda>r rec. \<exists>i. served pr env (cl_audit c') r rec i) rs recs"
    using Cons.IH [OF s(2) _ _ _ _ c1(1)] Cons.prems(3,4,5) by auto
  have "\<exists>i. served pr env (cl_audit c') r rec i" using s(5) c'(3) served_mono by (fastforce simp: grows_def)
  with c' s(1,3) c1(2) show ?case
    by (intro exI [of _ c'] exI [of _ "rec # recs"]) (auto simp: grows_def add.assoc)
qed

text \<open>A cluster that has seen nothing: any allocator, any reserver, overrides allowed.\<close>

definition fresh_cluster :: "('av, 'r) miner_cluster \<Rightarrow> bool" where
  "fresh_cluster c \<longleftrightarrow> cl_tenants c = [] \<and> cl_audit c = [] \<and> cl_records c = [] \<and> cl_capture c = Cap_Off
     \<and> ir_wf (cl_ids c) \<and> cfg_ok (cl_config c) \<and> (\<forall>config \<in> set (map snd (cl_tenant_overrides c)). cfg_ok config)"

lemma fresh_good: "fresh_cluster c \<Longrightarrow> good pr n c"
  by (auto simp: fresh_cluster_def good_def cluster_inv_def cluster_ids_def all_tenants_def configs_ok_def
      bound_def hm_wf_def)

lemma fresh_run:
  assumes "fresh_cluster c" and "1 + 2 * length rs \<le> 4294967295"
    and "\<And>r. r \<in> set rs \<Longrightarrow> encodes env r" and "\<And>r. r \<in> set rs \<Longrightarrow> pr \<Longrightarrow> clean_record env r"
  obtains c' where "ingest_all env c rs = Some c'" "good pr (1 + 2 * length rs) c'"
    "list_all2 (\<lambda>r rec. \<exists>i. served pr env (cl_audit c') r rec i) rs (cl_records c')"
  using ingest_run [OF fresh_good [OF assms(1)] _ assms(2,3), where pr = pr] assms(1,4)
  by (force simp: fresh_cluster_def)

section \<open>What the reader finds\<close>

definition tenant_events :: "bytes \<Rightarrow> audit_event list \<Rightarrow> audit_event list" where
  "tenant_events tid evs = filter (\<lambda>e. ae_tenant_id e = tid) evs"

lemma bindings_bound:
  "b \<in> set (bindings (i, v) (tenant_events tid evs)) \<Longrightarrow> bound evs tid i v (snd b)"
  by (force simp: bindings_def tenant_events_def bound_def)

lemma bound_bindings: "bound evs tid i v s \<Longrightarrow> \<exists>t. (t, s) \<in> set (bindings (i, v) (tenant_events tid evs))"
  by (force simp: bindings_def tenant_events_def bound_def)

lemma bound_unique:
  assumes good: "good pr n c" and "bound (cl_audit c) tid i v s" "bound (cl_audit c) tid i v s'"
  shows "s = s'"
  using good_tenant(2) [OF good good_config [OF good, of tid], of tid] assms(2,3) audit_invD(4)
  by (fastforce simp: tenant_inv_def)

lemma registry_serves:
  assumes good: "good pr n c" and b: "bound (cl_audit c) tid i v s"
  shows "hm_get (fold_registry (tenant_events tid (cl_audit c))) (i, v) = Some (parse_template s)"
proof (rule registry_unique)
  show "snd b' = s" if "b' \<in> set (bindings (i, v) (tenant_events tid (cl_audit c)))" for b'
    using bound_unique [OF good bindings_bound [OF that] b] .
  show "bindings (i, v) (tenant_events tid (cl_audit c)) \<noteq> []" using bound_bindings [OF b] by auto
qed

lemma registry_none:
  assumes good: "good pr n c"
  shows "hm_get (fold_registry (tenant_events tid (cl_audit c))) (no_template, v) = None"
proof -
  let ?bs = "bindings (no_template, v) (tenant_events tid (cl_audit c))"
  have "?bs = []"
  proof (rule ccontr)
    assume "?bs \<noteq> []"
    then have "hd ?bs \<in> set ?bs" by simp
    from bound_issued [OF good bindings_bound [OF this]] show False by simp
  qed
  then show ?thesis by (simp add: registry_get last_by_time_def)
qed

end
