(* ===== verification/Log_Row.thy ===== *)
theory Log_Row
  imports Template_Registry Reconstruct
begin

text \<open>
  Query rows, \<open>crates/ourios-querier/src/log_row.rs\<close>: a stored record becomes the row a query
  returns, its body rendered through the template registry. \<open>from_records\<close> looks each
  (template id, version) up once and memoises the result. The structured decoder of
  \<open>ourios_core::otlp::canonical\<close> is the argument \<open>decode\<close>; a panic is \<^term>\<open>None\<close>.
\<close>

section \<open>Definitions\<close>

datatype 'av log_body =
  Rendered bytes reconstruction
| LB_Structured 'av
| Masked
| LB_Absent

record 'av log_row =
  lr_time_unix_nano :: nat
  lr_observed_time_unix_nano :: "nat option"
  lr_severity_number :: nat
  lr_severity_text :: "bytes option"
  lr_trace_id :: "bytes option"
  lr_span_id :: "bytes option"
  lr_flags :: nat
  lr_event_name :: "bytes option"
  lr_scope_name :: "bytes option"
  lr_scope_version :: "bytes option"
  lr_scope_attributes :: "'av key_value list"
  lr_resource_schema_url :: "bytes option"
  lr_scope_schema_url :: "bytes option"
  lr_attributes :: "'av key_value list"
  lr_resource_attributes :: "'av key_value list"
  lr_dropped_attributes_count :: nat
  lr_template_id :: nat
  lr_template_version :: nat
  lr_template :: "bytes option"
  lr_body :: "'av log_body"

definition render_body_from_tokens ::
  "(bytes \<Rightarrow> 'av option) \<Rightarrow> 'av mined_record \<Rightarrow> owned_token list option \<Rightarrow> 'av log_body option" where
  "render_body_from_tokens decode rec tokens =
     (if mr_body_kind rec = BK_Absent then Some LB_Absent
      else if mr_body_kind rec = BK_Structured then
        Some (case Option.bind (mr_body rec) decode of
                Some value \<Rightarrow> LB_Structured value
              | None \<Rightarrow> Rendered [] RetainedVerbatim)
      else map_option (\<lambda>(line, rc). Rendered line rc)
             (render rec (case tokens of Some ts \<Rightarrow> ts | None \<Rightarrow> [])))"

definition render_log_body ::
  "(bytes \<Rightarrow> 'av option) \<Rightarrow> 'av mined_record \<Rightarrow> template_registry \<Rightarrow> 'av log_body option" where
  "render_log_body decode rec registry =
     render_body_from_tokens decode rec (hm_get registry (mr_template_id rec, mr_template_version rec))"

definition log_row_build ::
  "(bytes \<Rightarrow> 'av option) \<Rightarrow> 'av mined_record \<Rightarrow> owned_token list option \<Rightarrow> bytes option \<Rightarrow> 'av log_row option" where
  "log_row_build decode rec tokens template =
     map_option (\<lambda>body.
       \<lparr>lr_time_unix_nano = mr_time_unix_nano rec,
        lr_observed_time_unix_nano = mr_observed_time_unix_nano rec,
        lr_severity_number = mr_severity_number rec, lr_severity_text = mr_severity_text rec,
        lr_trace_id = mr_trace_id rec, lr_span_id = mr_span_id rec, lr_flags = mr_flags rec,
        lr_event_name = mr_event_name rec, lr_scope_name = mr_scope_name rec,
        lr_scope_version = mr_scope_version rec, lr_scope_attributes = mr_scope_attributes rec,
        lr_resource_schema_url = mr_resource_schema_url rec, lr_scope_schema_url = mr_scope_schema_url rec,
        lr_attributes = mr_attributes rec, lr_resource_attributes = mr_resource_attributes rec,
        lr_dropped_attributes_count = mr_dropped_attributes_count rec,
        lr_template_id = mr_template_id rec, lr_template_version = mr_template_version rec,
        lr_template = template, lr_body = body\<rparr>)
     (render_body_from_tokens decode rec tokens)"

definition from_record ::
  "(bytes \<Rightarrow> 'av option) \<Rightarrow> 'av mined_record \<Rightarrow> template_registry \<Rightarrow> 'av log_row option" where
  "from_record decode rec registry =
     (let tokens = hm_get registry (mr_template_id rec, mr_template_version rec)
      in log_row_build decode rec tokens (map_option format_template tokens))"

type_synonym row_memo = "(nat \<times> nat, owned_token list option \<times> bytes option) hash_map"

fun from_records_loop ::
  "(bytes \<Rightarrow> 'av option) \<Rightarrow> template_registry \<Rightarrow> row_memo \<Rightarrow> 'av mined_record list \<Rightarrow> 'av log_row list option" where
  "from_records_loop decode registry memo [] = Some []"
| "from_records_loop decode registry memo (rec # recs) =
     (let key = (mr_template_id rec, mr_template_version rec);
          (memo, tokens, template) =
            (case hm_get memo key of
               Some held \<Rightarrow> (memo, held)
             | None \<Rightarrow> (let tokens = hm_get registry key; held = (tokens, map_option format_template tokens)
                        in (hm_insert key held memo, held)))
      in do {
        row \<leftarrow> log_row_build decode rec tokens template;
        rows \<leftarrow> from_records_loop decode registry memo recs;
        Some (row # rows)
      })"

definition from_records ::
  "(bytes \<Rightarrow> 'av option) \<Rightarrow> 'av mined_record list \<Rightarrow> template_registry \<Rightarrow> 'av log_row list option" where
  "from_records decode recs registry = from_records_loop decode registry [] recs"

section \<open>Lemmas\<close>

definition memo_ok :: "template_registry \<Rightarrow> row_memo \<Rightarrow> bool" where
  "memo_ok registry memo \<longleftrightarrow>
     (\<forall>key held. hm_get memo key = Some held \<longrightarrow>
        held = (hm_get registry key, map_option format_template (hm_get registry key)))"

lemma memo_ok_insert:
  "memo_ok registry memo \<Longrightarrow>
   memo_ok registry (hm_insert key (hm_get registry key, map_option format_template (hm_get registry key)) memo)"
  by (auto simp: memo_ok_def update_conv)

lemma bind_map_option: "Option.bind x (\<lambda>y. Some (f y)) = map_option f x"
  by (cases x) simp_all

lemma from_records_loop_map:
  "memo_ok registry memo \<Longrightarrow>
   from_records_loop decode registry memo recs = those (map (\<lambda>rec. from_record decode rec registry) recs)"
proof (induction recs arbitrary: memo)
  case (Cons rec recs)
  let ?key = "(mr_template_id rec, mr_template_version rec)"
  let ?held = "(hm_get registry ?key, map_option format_template (hm_get registry ?key))"
  show ?case
  proof (cases "hm_get memo ?key")
    case None
    note IH = Cons.IH [OF memo_ok_insert [OF Cons.prems, of ?key]]
    from None IH show ?thesis
      by (cases "from_record decode rec registry") (auto simp: Let_def from_record_def bind_map_option)
  next
    case (Some held)
    then have "held = ?held" using Cons.prems unfolding memo_ok_def by blast
    with Some Cons.IH [OF Cons.prems] show ?thesis
      by (cases "from_record decode rec registry") (auto simp: Let_def from_record_def bind_map_option)
  qed
qed simp

lemma render_Some: "\<exists>x. render rec t = Some x"
  using reconstruct_from_template_fill [of rec t]
  by (auto simp: render_def Let_def split: body_kind.split option.split)

lemma from_record_Some: "\<exists>row. from_record decode rec registry = Some row"
  using render_Some [of rec] by (fastforce simp: from_record_def log_row_build_def render_body_from_tokens_def Let_def)

section \<open>Properties\<close>

text \<open>C21. Materialising a result set through the memo table never panics and gives the same rows as
  rendering every record on its own: the memo only saves registry lookups and string formatting.\<close>

theorem from_records_equiv:
  "from_records decode recs registry = Some (map (\<lambda>rec. the (from_record decode rec registry)) recs)"
proof -
  have "from_records decode recs registry = those (map (\<lambda>rec. from_record decode rec registry) recs)"
    unfolding from_records_def by (rule from_records_loop_map) (simp add: memo_ok_def)
  also have "\<dots> = Some (map (\<lambda>rec. the (from_record decode rec registry)) recs)"
  proof (induction recs)
    case (Cons rec recs)
    then show ?case using from_record_Some [of decode rec registry] by auto
  qed simp
  finally show ?thesis .
qed

end
