(* ===== verification/End_To_End.thy ===== *)
theory End_To_End
  imports Cluster_Run Log_Row
begin

text \<open>
  The miner and the reader together: what a query returns for a record that was ingested. The run
  starts from a cluster that has seen nothing; the reader folds the tenant's audit events into its
  template registry and renders the stored records through it.
\<close>

section \<open>What a row shows of a record\<close>

definition row_carries :: "'av otlp_log_record \<Rightarrow> 'av log_row \<Rightarrow> bool" where
  "row_carries r row \<longleftrightarrow>
     lr_time_unix_nano row = ol_time_unix_nano r
     \<and> lr_observed_time_unix_nano row = ol_observed_time_unix_nano r
     \<and> lr_severity_number row = ol_severity_number r \<and> lr_severity_text row = ol_severity_text r
     \<and> lr_trace_id row = ol_trace_id r \<and> lr_span_id row = ol_span_id r \<and> lr_flags row = ol_flags r
     \<and> lr_event_name row = ol_event_name r \<and> lr_scope_name row = ol_scope_name r
     \<and> lr_scope_version row = ol_scope_version r \<and> lr_scope_attributes row = ol_scope_attributes r
     \<and> lr_resource_schema_url row = ol_resource_schema_url r \<and> lr_scope_schema_url row = ol_scope_schema_url r
     \<and> lr_attributes row = ol_attributes r \<and> lr_resource_attributes row = ol_resource_attributes r
     \<and> lr_dropped_attributes_count row = ol_dropped_attributes_count r"

definition body_shown :: "'av otlp_log_record \<Rightarrow> 'av log_body \<Rightarrow> bool" where
  "body_shown r b \<longleftrightarrow>
     (case ol_body r of
        None \<Rightarrow> b = LB_Absent
      | Some (Body_String raw) \<Rightarrow> (\<exists>rc. b = Rendered raw rc)
      | Some (Body_Structured av) \<Rightarrow> b = LB_Structured av)"

definition codec_ok :: "('av, 'r) env \<Rightarrow> (bytes \<Rightarrow> 'av option) \<Rightarrow> 'av otlp_log_record \<Rightarrow> bool" where
  "codec_ok env decode r \<longleftrightarrow>
     (case ol_body r of
        Some (Body_Structured av) \<Rightarrow> Option.bind (env_encode_any_value env av) decode = Some av
      | _ \<Rightarrow> True)"

lemma codec_encodes: "codec_ok env decode r \<Longrightarrow> encodes env r"
  by (auto simp: codec_ok_def encodes_def bind_eq_Some_conv split: option.splits body.splits)

lemma render_recovers:
  assumes "mr_body_kind rec = BK_String" and "record_recovers raw t rec"
  shows "\<exists>rc. render rec t = Some (raw, rc)"
  using assms by (auto simp: record_recovers_def render_def Let_def body_bytes_or_empty_def
      reconstruct_from_template_fill split: if_splits)

lemma build_carries:
  "carries r rec \<Longrightarrow> log_row_build decode rec ts s = Some row \<Longrightarrow> row_carries r row"
  by (auto simp: carries_def row_carries_def log_row_build_def)

lemma served_carries: "served pr env evs r rec i \<Longrightarrow> carries r rec"
  by (auto simp: served_def row_ok_def carries_def record_envelope_def split: option.splits body.splits)

lemma from_record_carries:
  assumes "carries r rec" and "from_record decode rec registry = Some row"
  shows "row_carries r row"
    and "render_body_from_tokens decode rec (hm_get registry (mr_template_id rec, mr_template_version rec)) = Some (lr_body row)"
  using assms build_carries [OF assms(1)] by (auto simp: from_record_def Let_def log_row_build_def)

text \<open>A record served by a clean run is shown as it came in.\<close>

lemma served_shown:
  assumes good: "good True n c" and s: "served True env (cl_audit c) r rec i" and codec: "codec_ok env decode r"
  obtains row where
    "from_record decode rec (fold_registry (tenant_events (ol_tenant_id r) (cl_audit c))) = Some row"
    "row_carries r row" "body_shown r (lr_body row)"
proof -
  let ?reg = "fold_registry (tenant_events (ol_tenant_id r) (cl_audit c))"
  obtain row where row: "from_record decode rec ?reg = Some row" using from_record_Some by blast
  note fr = from_record_carries [OF served_carries [OF s] row]
  have "body_shown r (lr_body row)"
  proof (cases "ol_body r")
    case None
    with s fr(2) show ?thesis by (simp add: served_def body_shown_def render_body_from_tokens_def record_envelope_def)
  next
    case (Some b)
    show ?thesis
    proof (cases b)
      case (Body_Structured av)
      with Some s fr(2) codec show ?thesis
        by (auto simp: served_def body_shown_def render_body_from_tokens_def record_envelope_def codec_ok_def
            split: option.splits)
    next
      case (Body_String raw)
      with Some s have ro: "row_ok True (cl_audit c) r raw rec i" by (simp add: served_def)
      then have k: "mr_body_kind rec = BK_String" "mr_template_id rec = i" by (simp_all add: row_ok_def)
      have "\<exists>rc. render rec (case hm_get ?reg (i, mr_template_version rec) of Some ts \<Rightarrow> ts | None \<Rightarrow> []) = Some (raw, rc)"
      proof (cases "i = no_template")
        case True
        with ro show ?thesis
          by (simp add: row_ok_def registry_none [OF good] render_def Let_def body_bytes_or_empty_def)
      next
        case False
        with ro obtain t where t: "bound (cl_audit c) (ol_tenant_id r) i (mr_template_version rec) (format_template t)"
          "record_recovers raw t rec" "printable t" by (auto simp: row_ok_def)
        with registry_serves [OF good t(1)] render_recovers [OF k(1) t(2)] show ?thesis by (simp add: parse_format)
      qed
      then obtain rc where
        "render rec (case hm_get ?reg (i, mr_template_version rec) of Some ts \<Rightarrow> ts | None \<Rightarrow> []) = Some (raw, rc)" ..
      with fr(2) k have "lr_body row = Rendered raw rc" by (simp add: render_body_from_tokens_def)
      with Some Body_String show ?thesis by (simp add: body_shown_def)
    qed
  qed
  with row fr(1) show thesis by (rule that)
qed

section \<open>Properties\<close>


text \<open>Inputs for the concrete instances below.\<close>

definition demo_env :: "(unit, unit) env" where
  "demo_env = \<lparr>env_sha256 = (\<lambda>_. []), env_blake3 = (\<lambda>_. []), env_string_value = (\<lambda>_. None),
     env_encode_any_value = (\<lambda>_. Some ''{}''), env_now = id, env_reserve = unreserved_reserve\<rparr>"

definition demo_record :: "bytes \<Rightarrow> unit otlp_log_record" where
  "demo_record raw = \<lparr>ol_tenant_id = ''acme'', ol_time_unix_nano = 0, ol_observed_time_unix_nano = None,
     ol_severity_number = 9, ol_severity_text = None, ol_scope_name = None, ol_scope_version = None,
     ol_scope_attributes = [], ol_resource_schema_url = None, ol_scope_schema_url = None,
     ol_attributes = [], ol_dropped_attributes_count = 0, ol_resource_attributes = [], ol_trace_id = None,
     ol_span_id = None, ol_flags = 0, ol_event_name = None, ol_body = Some (Body_String raw)\<rparr>"

lemma demo_fresh: "fresh_cluster (cluster_new default_config)"
  using ir_wf_new by (simp add: fresh_cluster_def cluster_new_def cfg_ok_def default_config_def)

lemma demo_clean: "clean_record demo_env (demo_record ''user 42'') \<and> codec_ok demo_env decode (demo_record ''user 42'')"
  by (simp add: clean_record_def demo_record_def clean_line_def tokenize_eq tok_simps codec_ok_def
      upstream_template_of_def)


text \<open>C2. Mining is total and lossless on every input, clean or not: whatever bytes the string bodies
  hold, the run returns and emits exactly one record per input, and the record of a string body either
  has no template and keeps the line in its body, or is bound in the tenant's audit stream to the text
  of a template from which reconstruction gives the line back byte for byte.\<close>

theorem ingest_total_lossless:
  assumes "fresh_cluster c" and "length rs < 2147483648" and "\<forall>r \<in> set rs. encodes env r"
  shows "\<exists>c'. ingest_all env c rs = Some c' \<and> length (cl_records c') = length rs
     \<and> (\<forall>k raw. k < length rs \<and> ol_body (rs ! k) = Some (Body_String raw) \<longrightarrow>
          (let rec = cl_records c' ! k; tid = ol_tenant_id (rs ! k) in
             mr_template_id rec = no_template \<and> mr_lossy_flag rec \<and> mr_body rec = Some raw
             \<or> \<not> mr_lossy_flag rec \<and> (\<exists>t. bound (cl_audit c') tid (mr_template_id rec) (mr_template_version rec) (format_template t)
                  \<and> reconstruct rec t = Some raw)))"
proof -
  obtain c' where c': "ingest_all env c rs = Some c'"
      "list_all2 (\<lambda>r rec. \<exists>i. served False env (cl_audit c') r rec i) rs (cl_records c')"
    by (rule fresh_run [OF assms(1), of rs env False]) (use assms(2,3) in auto)
  have "let rec = cl_records c' ! k; tid = ol_tenant_id (rs ! k) in
             mr_template_id rec = no_template \<and> mr_lossy_flag rec \<and> mr_body rec = Some raw
             \<or> \<not> mr_lossy_flag rec \<and> (\<exists>t. bound (cl_audit c') tid (mr_template_id rec) (mr_template_version rec) (format_template t)
                  \<and> reconstruct rec t = Some raw)"
    if k: "k < length rs" "ol_body (rs ! k) = Some (Body_String raw)" for k raw
  proof -
    obtain i where "served False env (cl_audit c') (rs ! k) (cl_records c' ! k) i"
      using c'(2) k by (auto simp: list_all2_conv_all_nth)
    then have ro: "row_ok False (cl_audit c') (rs ! k) raw (cl_records c' ! k) i" using k by (simp add: served_def)
    then have kind: "mr_body_kind (cl_records c' ! k) = BK_String" by (simp add: row_ok_def)
    from ro record_recovers_reconstruct [OF kind] show ?thesis by (auto simp: row_ok_def Let_def split: if_splits)
  qed
  with c' show ?thesis by (auto simp: list_all2_conv_all_nth)
qed

theorem ingest_total_lossless_witness:
  "\<exists>c'. ingest_all demo_env (cluster_new default_config) [demo_record ''a <*>''] = Some c' \<and> length (cl_records c') = 1"
  using ingest_total_lossless [OF demo_fresh, of "[demo_record ''a <*>'']" demo_env]
  by (auto simp: encodes_def demo_record_def)

text \<open>C3. Identities stay apart: after any run from a fresh cluster, all template ids of all tenants
  (mined leaves, owned adopted entries and structured keys) are pairwise distinct, none is the
  reserved 0, and every tenant's cached counts are exact: the template count is the number of its ids,
  the leaf count that of its tree, and leaves plus owned entries never exceed the tenant's ceiling.\<close>

theorem ids_apart_counts_exact:
  assumes "fresh_cluster c" and "length rs < 2147483648" and "\<forall>r \<in> set rs. encodes env r"
  shows "\<exists>c'. ingest_all env c rs = Some c' \<and> distinct (cluster_ids c') \<and> no_template \<notin> set (cluster_ids c')
     \<and> (\<forall>tid st. hm_get (cl_tenants c') tid = Some st \<longrightarrow>
          template_count c' tid = length (tenant_ids st)
          \<and> ten_leaf_count st = tree_leaf_count (ten_tree st)
          \<and> ten_leaf_count st + ten_owned_count st \<le> max_templates (ten_config st))"
proof -
  obtain c' where c': "ingest_all env c rs = Some c'" "good False (1 + 2 * length rs) c'"
    by (rule fresh_run [OF assms(1), of rs env False]) (use assms(2,3) in auto)
  then have inv: "cluster_inv c'" by (simp add: good_def)
  have "template_count c' tid = length (tenant_ids st) \<and> ten_leaf_count st = tree_leaf_count (ten_tree st)
          \<and> ten_leaf_count st + ten_owned_count st \<le> max_templates (ten_config st)"
    if st: "hm_get (cl_tenants c') tid = Some st" for tid st
  proof -
    have "tenant_inv (cl_audit c') tid st" "ten_ok False (1 + 2 * length rs) st"
      using good_tenant [OF c'(2) good_config [OF c'(2), of tid], of tid] st by (simp_all add: tenant_or_new_def)
    then show ?thesis using st by (simp add: tenant_inv_def ten_ok_def template_count_def tree_leaf_count_eq)
  qed
  with c'(1) inv show ?thesis by (fastforce simp: cluster_inv_def no_template_def)
qed

theorem ids_apart_counts_exact_witness:
  "\<exists>c'. ingest_all demo_env (cluster_new default_config) [demo_record ''user 42''] = Some c' \<and> distinct (cluster_ids c')"
  using ids_apart_counts_exact [OF demo_fresh, of "[demo_record ''user 42'']" demo_env]
  by (auto simp: encodes_def demo_record_def)

text \<open>C4. The audit stream is a function: after any run, no tenant's events bind one (template id,
  version) to two token sequences, so the reader's conflict check never fires, and it serves for each
  leaf of the tree the tokens of the text the leaf has now.\<close>

theorem audit_stream_functional:
  assumes "fresh_cluster c" and "length rs < 2147483648" and "\<forall>r \<in> set rs. encodes env r"
  shows "\<exists>c'. ingest_all env c rs = Some c'
     \<and> (\<forall>tid. snd (fold_registry_checked (tenant_events tid (cl_audit c'))) = [])
     \<and> (\<forall>tid st l. hm_get (cl_tenants c') tid = Some st \<and> l \<in> set (collect_leaves (ten_tree st)) \<longrightarrow>
          hm_get (fold_registry (tenant_events tid (cl_audit c'))) (lf_template_id l, lf_template_version l)
            = Some (parse_template (format_template (lf_template l))))"
proof -
  obtain c' where c': "ingest_all env c rs = Some c'" "good False (1 + 2 * length rs) c'"
    by (rule fresh_run [OF assms(1), of rs env False]) (use assms(2,3) in auto)
  have "(i, v) \<notin> set (rf_conflicts (foldl rf_push rf_default (tenant_events tid (cl_audit c'))))" for tid i v
  proof
    assume "(i, v) \<in> set (rf_conflicts (foldl rf_push rf_default (tenant_events tid (cl_audit c'))))"
    then obtain a b where ab: "a \<in> set (bindings (i, v) (tenant_events tid (cl_audit c')))"
        "b \<in> set (bindings (i, v) (tenant_events tid (cl_audit c')))" "parse_template (snd a) \<noteq> parse_template (snd b)"
      unfolding conflicts_iff by blast
    from bound_unique [OF c'(2) bindings_bound [OF ab(1)] bindings_bound [OF ab(2)]] ab(3) show False by simp
  qed
  then have "set (rf_conflicts (foldl rf_push rf_default (tenant_events tid (cl_audit c')))) = {}" for tid
    unfolding set_eq_iff by (simp only: split_paired_All) blast
  then have functional: "snd (fold_registry_checked (tenant_events tid (cl_audit c'))) = []" for tid
    by (simp add: fold_registry_checked_def rf_finish_checked_def)
  have leaf: "hm_get (fold_registry (tenant_events tid (cl_audit c'))) (lf_template_id l, lf_template_version l)
            = Some (parse_template (format_template (lf_template l)))"
    if "hm_get (cl_tenants c') tid = Some st" "l \<in> set (collect_leaves (ten_tree st))" for tid st l
    by (rule registry_serves [OF c'(2) tenant_leaf_bound(2) [OF c'(2) that]])
  show ?thesis
    by (intro exI [of _ c'] conjI allI impI c'(1) functional) (elim conjE, rule leaf)
qed

theorem audit_stream_functional_witness:
  "\<exists>c'. ingest_all demo_env (cluster_new default_config) [demo_record ''user 42'', demo_record ''user x''] = Some c'
     \<and> snd (fold_registry_checked (tenant_events ''acme'' (cl_audit c'))) = []"
  using audit_stream_functional [OF demo_fresh, of "[demo_record ''user 42'', demo_record ''user x'']" demo_env]
  by (auto simp: encodes_def demo_record_def)


end
