(* ===== verification/Wal_Codec.thy ===== *)
theory Wal_Codec
  imports Core_Types "HOL-Library.List_Lexorder" "HOL-Library.Char_ord"
begin

text \<open>
  The byte formats of the write-ahead log, \<open>crates/ourios-wal/src\<close>: frames (\<open>frame.rs\<close>), segment
  headers (\<open>segment.rs\<close>), the \<open>CHECKPOINT\<close> sidecar (\<open>checkpoint.rs\<close>), and the two payload codecs,
  \<open>TenantBatch\<close> (\<open>lib.rs\<close>) and \<open>ReplicatedRecord\<close> (\<open>replicated.rs\<close>). A \<open>Uuid\<close> is its sixteen bytes,
  which order it. The \<open>crc32c\<close> crate is a pair of functions of which nothing is assumed. A reader
  is the bytes it will still give and the error it gives instead of more; a writer is a function
  that takes one buffer.
\<close>

section \<open>Integers in little-endian order\<close>

primrec le_bytes :: "nat \<Rightarrow> nat \<Rightarrow> bytes" where
  "le_bytes 0 x = []"
| "le_bytes (Suc n) x = char_of (x mod 256) # le_bytes n (x div 256)"

primrec le_val :: "bytes \<Rightarrow> nat" where
  "le_val [] = 0"
| "le_val (c # cs) = of_char c + 256 * le_val cs"

section \<open>Offsets\<close>

text \<open>\<open>WalOffset\<close>: a segment and a byte in it, compared lexicographically.\<close>

type_synonym uuid = bytes

datatype wal_offset = Wal_Offset (wo_segment: uuid) (wo_byte: nat)

instantiation wal_offset :: linorder
begin

definition less_eq_wal_offset :: "wal_offset \<Rightarrow> wal_offset \<Rightarrow> bool" where
  "less_eq_wal_offset a b \<longleftrightarrow>
     wo_segment a < wo_segment b \<or> wo_segment a = wo_segment b \<and> wo_byte a \<le> wo_byte b"

definition less_wal_offset :: "wal_offset \<Rightarrow> wal_offset \<Rightarrow> bool" where
  "less_wal_offset a b \<longleftrightarrow>
     wo_segment a < wo_segment b \<or> wo_segment a = wo_segment b \<and> wo_byte a < wo_byte b"

instance
  by standard (auto simp: less_eq_wal_offset_def less_wal_offset_def wal_offset.expand
    intro: less_trans)

end

definition uuid_ok :: "uuid \<Rightarrow> bool" where
  "uuid_ok u \<longleftrightarrow> length u = 16"

definition offset_ok :: "wal_offset \<Rightarrow> bool" where
  "offset_ok p \<longleftrightarrow> uuid_ok (wo_segment p) \<and> wo_byte p < 2 ^ 64"

section \<open>Readers and writers\<close>

datatype error_kind = UnexpectedEof | InvalidData | NotFound | OtherKind

record io_error =
  ie_kind :: error_kind
  ie_detail :: bytes

record reader =
  rd_rest :: bytes
  rd_end :: io_error

definition read_exact :: "nat \<Rightarrow> reader \<Rightarrow> reader \<times> (io_error + bytes)" where
  "read_exact n r =
     (if n \<le> length (rd_rest r)
      then (r\<lparr>rd_rest := drop n (rd_rest r)\<rparr>, Inr (take n (rd_rest r)))
      else (r\<lparr>rd_rest := []\<rparr>, Inl (rd_end r)))"

type_synonym 'w writer = "'w \<Rightarrow> bytes \<Rightarrow> 'w \<times> io_error option"

definition vec_writer :: "bytes writer" where
  "vec_writer w buf = (w @ buf, None)"

section \<open>Frames\<close>

datatype frame_kind = OtlpBatch | AuditEvent | TenantOtlpBatch | ReplicatedEntry

definition max_frame_bytes :: nat where
  "max_frame_bytes = 16 * 1024 * 1024"

definition frame_header_len :: nat where
  "frame_header_len = 12"

definition frame_pad_zeros :: bytes where
  "frame_pad_zeros = [CHR 0x00, CHR 0x00, CHR 0x00]"

fun kind_byte :: "frame_kind \<Rightarrow> char" where
  "kind_byte OtlpBatch = CHR 0x01"
| "kind_byte AuditEvent = CHR 0x02"
| "kind_byte TenantOtlpBatch = CHR 0x03"
| "kind_byte ReplicatedEntry = CHR 0x04"

definition kind_of_byte :: "char \<Rightarrow> frame_kind option" where
  "kind_of_byte b =
     (if b = CHR 0x01 then Some OtlpBatch else if b = CHR 0x02 then Some AuditEvent
      else if b = CHR 0x03 then Some TenantOtlpBatch else if b = CHR 0x04 then Some ReplicatedEntry
      else None)"

datatype frame_error =
  CrcMismatch "32 word" "32 word"
| UnknownKind char
| NonZeroPad bytes
| OversizeLen nat
| Frame_Io io_error

record crc_fns =
  crc32c :: "bytes \<Rightarrow> 32 word"
  crc32c_append :: "32 word \<Rightarrow> bytes \<Rightarrow> 32 word"

definition checksum_input :: "crc_fns \<Rightarrow> char \<Rightarrow> bytes \<Rightarrow> 32 word" where
  "checksum_input crc kind payload =
     (let prefix = kind # frame_pad_zeros; h = crc32c crc prefix in crc32c_append crc h payload)"

definition frame_header :: "crc_fns \<Rightarrow> frame_kind \<Rightarrow> bytes \<Rightarrow> bytes" where
  "frame_header crc kind payload =
     le_bytes 4 (length payload) @ [kind_byte kind] @ frame_pad_zeros
       @ le_bytes 4 (unat (checksum_input crc (kind_byte kind) payload))"

definition write_frame ::
  "crc_fns \<Rightarrow> 'w writer \<Rightarrow> 'w \<Rightarrow> frame_kind \<Rightarrow> bytes \<Rightarrow> ('w \<times> io_error option) option" where
  "write_frame crc write_all w kind payload =
     (if length payload < 2 ^ 32
      then Some (case write_all w (frame_header crc kind payload) of
                   (w, Some e) \<Rightarrow> (w, Some e)
                 | (w, None) \<Rightarrow> write_all w payload)
      else None)"

definition read_frame :: "crc_fns \<Rightarrow> reader \<Rightarrow> reader \<times> (frame_error + frame_kind \<times> bytes)" where
  "read_frame crc r =
     (case read_exact frame_header_len r of
        (r, Inl e) \<Rightarrow> (r, Inl (Frame_Io e))
      | (r, Inr header) \<Rightarrow>
          (let len = le_val (slice header 0 4) in
           if len > max_frame_bytes then (r, Inl (OversizeLen len))
           else (case kind_of_byte (header ! 4) of
                   None \<Rightarrow> (r, Inl (UnknownKind (header ! 4)))
                 | Some kind \<Rightarrow>
                     (let pad = slice header 5 8 in
                      if pad \<noteq> frame_pad_zeros then (r, Inl (NonZeroPad pad))
                      else (let stored_crc = word_of_nat (le_val (slice header 8 12)) in
                            case read_exact len r of
                              (r, Inl e) \<Rightarrow> (r, Inl (Frame_Io e))
                            | (r, Inr payload) \<Rightarrow>
                                (let computed_crc = checksum_input crc (header ! 4) payload in
                                 if stored_crc \<noteq> computed_crc
                                 then (r, Inl (CrcMismatch stored_crc computed_crc))
                                 else (r, Inr (kind, payload))))))))"

section \<open>Segment headers\<close>

definition segment_magic :: bytes where
  "segment_magic = ''OWAL''"

definition segment_version :: nat where
  "segment_version = 2"

definition segment_version_legacy :: nat where
  "segment_version_legacy = 1"

definition segment_flags_reserved :: nat where
  "segment_flags_reserved = 0"

definition segment_header_len :: nat where
  "segment_header_len = 24"

record segment_header =
  sh_version :: nat
  sh_flags :: nat
  sh_uuid :: uuid

datatype header_error = BadMagic bytes | UnknownVersion nat | Header_Io io_error

definition segment_header_new :: "uuid \<Rightarrow> segment_header" where
  "segment_header_new u =
     \<lparr>sh_version = segment_version, sh_flags = segment_flags_reserved, sh_uuid = u\<rparr>"

definition header_bytes :: "segment_header \<Rightarrow> bytes" where
  "header_bytes h = segment_magic @ le_bytes 2 (sh_version h) @ le_bytes 2 (sh_flags h) @ sh_uuid h"

definition write_header :: "'w writer \<Rightarrow> 'w \<Rightarrow> segment_header \<Rightarrow> 'w \<times> io_error option" where
  "write_header write_all w h = write_all w (header_bytes h)"

definition read_header :: "reader \<Rightarrow> reader \<times> (header_error + segment_header)" where
  "read_header r =
     (case read_exact segment_header_len r of
        (r, Inl e) \<Rightarrow> (r, Inl (Header_Io e))
      | (r, Inr buf) \<Rightarrow>
          (let magic = slice buf 0 4 in
           if magic \<noteq> segment_magic then (r, Inl (BadMagic magic))
           else (let version = le_val (slice buf 4 6) in
                 if version \<noteq> segment_version_legacy \<and> version \<noteq> segment_version
                 then (r, Inl (UnknownVersion version))
                 else (r, Inr \<lparr>sh_version = version, sh_flags = le_val (slice buf 6 8),
                               sh_uuid = slice buf 8 24\<rparr>))))"

section \<open>The checkpoint sidecar\<close>

definition sidecar_len :: nat where
  "sidecar_len = 32"

definition sidecar_magic :: bytes where
  "sidecar_magic = ''OWCK''"

definition sidecar_version :: nat where
  "sidecar_version = 2"

definition sidecar_version_legacy :: nat where
  "sidecar_version_legacy = 1"

datatype sidecar_ver = Sidecar_Legacy | Sidecar_Current

record sidecar =
  sc_offset :: wal_offset
  sc_version :: sidecar_ver

datatype sidecar_error = Bad_Size nat | Bad_Magic bytes | Bad_Version nat | Bad_Flags nat

definition sidecar_encode :: "wal_offset \<Rightarrow> bytes" where
  "sidecar_encode p =
     sidecar_magic @ le_bytes 2 sidecar_version @ le_bytes 2 0 @ wo_segment p @ le_bytes 8 (wo_byte p)"

definition sidecar_decode :: "bytes \<Rightarrow> sidecar_error + sidecar" where
  "sidecar_decode bs =
     (if length bs \<noteq> sidecar_len then Inl (Bad_Size (length bs))
      else if slice bs 0 4 \<noteq> sidecar_magic then Inl (Bad_Magic (slice bs 0 4))
      else (let v = le_val (slice bs 4 6) in
            if v \<noteq> sidecar_version_legacy \<and> v \<noteq> sidecar_version then Inl (Bad_Version v)
            else (let flags = le_val (slice bs 6 8) in
                  if flags \<noteq> 0 then Inl (Bad_Flags flags)
                  else Inr \<lparr>sc_offset = Wal_Offset (slice bs 8 24) (le_val (slice bs 24 32)),
                            sc_version = (if v = sidecar_version then Sidecar_Current
                                          else Sidecar_Legacy)\<rparr>)))"

section \<open>Tenant batches\<close>

text \<open>\<open>str::from_utf8\<close>: the well-formed UTF-8 byte sequences.\<close>

definition is_cont :: "nat \<Rightarrow> nat \<Rightarrow> char \<Rightarrow> bool" where
  "is_cont lo hi c \<longleftrightarrow> lo \<le> byte_val c \<and> byte_val c \<le> hi"

fun utf8_valid :: "bytes \<Rightarrow> bool" where
  "utf8_valid [] = True"
| "utf8_valid (a # s) =
     (let v = byte_val a in
      if v < 0x80 then utf8_valid s
      else if v < 0xC2 then False
      else if v < 0xE0 then (case s of b # s \<Rightarrow> is_cont 0x80 0xBF b \<and> utf8_valid s | _ \<Rightarrow> False)
      else if v < 0xF0 then
        (case s of
           b # c # s \<Rightarrow>
             is_cont (if v = 0xE0 then 0xA0 else 0x80) (if v = 0xED then 0x9F else 0xBF) b
             \<and> is_cont 0x80 0xBF c \<and> utf8_valid s
         | _ \<Rightarrow> False)
      else if v < 0xF5 then
        (case s of
           b # c # d # s \<Rightarrow>
             is_cont (if v = 0xF0 then 0x90 else 0x80) (if v = 0xF4 then 0x8F else 0xBF) b
             \<and> is_cont 0x80 0xBF c \<and> is_cont 0x80 0xBF d \<and> utf8_valid s
         | _ \<Rightarrow> False)
      else False)"

record tenant_batch =
  tb_tenant :: bytes
  tb_protobuf :: bytes

datatype tenant_batch_error =
  TruncatedPrefix nat | EmptyTenant | TenantTooLong nat | TenantPastEnd nat nat | NotUtf8

definition tenant_batch_encode :: "bytes \<Rightarrow> bytes \<Rightarrow> tenant_batch_error + bytes" where
  "tenant_batch_encode tenant protobuf =
     (let len = length tenant in
      if len = 0 then Inl EmptyTenant
      else if len > max_tenant_bytes then Inl (TenantTooLong len)
      else Inr (le_bytes 2 len @ tenant @ protobuf))"

definition tenant_batch_decode :: "bytes \<Rightarrow> tenant_batch_error + tenant_batch" where
  "tenant_batch_decode payload =
     (if length payload < 2 then Inl (TruncatedPrefix (length payload))
      else (let len = le_val (take 2 payload); rest = drop 2 payload in
            if len = 0 then Inl EmptyTenant
            else if len > max_tenant_bytes then Inl (TenantTooLong len)
            else if len > length rest then Inl (TenantPastEnd len (length rest))
            else (let tenant = take len rest; protobuf = drop len rest in
                  if utf8_valid tenant then Inr \<lparr>tb_tenant = tenant, tb_protobuf = protobuf\<rparr>
                  else Inl NotUtf8)))"

section \<open>Replicated records\<close>

record raft_log_id =
  rl_term :: nat
  rl_index :: nat

definition log_id_len :: nat where
  "log_id_len = 16"

definition entry_prefix_len :: nat where
  "entry_prefix_len = 1 + log_id_len"

definition log_id_write :: "raft_log_id \<Rightarrow> bytes" where
  "log_id_write i = le_bytes 8 (rl_term i) @ le_bytes 8 (rl_index i)"

definition log_id_read :: "bytes \<Rightarrow> raft_log_id" where
  "log_id_read bs = \<lparr>rl_term = le_val (take 8 bs), rl_index = le_val (drop 8 bs)\<rparr>"

datatype entry_body = Blank | Normal bytes | Membership bytes

datatype replicated_record =
  Entry raft_log_id entry_body
| TruncateAfter "raft_log_id option"
| Purge raft_log_id
| Committed raft_log_id

datatype replicated_record_error =
  Empty_Payload
| UnknownTag char
| WrongLength char nat nat
| Bad_Tenant_Batch tenant_batch_error

definition tag_blank :: char where "tag_blank = CHR 0x01"
definition tag_normal :: char where "tag_normal = CHR 0x02"
definition tag_membership :: char where "tag_membership = CHR 0x03"
definition tag_truncate_after :: char where "tag_truncate_after = CHR 0x10"
definition tag_truncate_all :: char where "tag_truncate_all = CHR 0x11"
definition tag_purge :: char where "tag_purge = CHR 0x12"
definition tag_committed :: char where "tag_committed = CHR 0x13"

fun replicated_encode :: "replicated_record \<Rightarrow> replicated_record_error + bytes" where
  "replicated_encode (Entry i body) =
     (case body of
        Blank \<Rightarrow> Inr (tag_blank # log_id_write i)
      | Normal bs \<Rightarrow>
          (case tenant_batch_decode bs of
             Inl e \<Rightarrow> Inl (Bad_Tenant_Batch e)
           | Inr _ \<Rightarrow> Inr (tag_normal # log_id_write i @ bs))
      | Membership bs \<Rightarrow> Inr (tag_membership # log_id_write i @ bs))"
| "replicated_encode (TruncateAfter None) = Inr [tag_truncate_all]"
| "replicated_encode (TruncateAfter (Some i)) = Inr (tag_truncate_after # log_id_write i)"
| "replicated_encode (Purge i) = Inr (tag_purge # log_id_write i)"
| "replicated_encode (Committed i) = Inr (tag_committed # log_id_write i)"

definition exact_log_id :: "char \<Rightarrow> bytes \<Rightarrow> replicated_record_error + raft_log_id" where
  "exact_log_id tag body =
     (if length body = log_id_len then Inr (log_id_read body)
      else Inl (WrongLength tag log_id_len (length body)))"

definition decode_entry :: "char \<Rightarrow> bytes \<Rightarrow> replicated_record_error + replicated_record" where
  "decode_entry tag body =
     (if length body < log_id_len then Inl (WrongLength tag log_id_len (length body))
      else (let i = log_id_read (take log_id_len body); rest = drop log_id_len body in
            if tag = tag_blank then
              (if rest = [] then Inr (Entry i Blank)
               else Inl (WrongLength tag log_id_len (length body)))
            else if tag = tag_normal then
              (case tenant_batch_decode rest of
                 Inl e \<Rightarrow> Inl (Bad_Tenant_Batch e)
               | Inr _ \<Rightarrow> Inr (Entry i (Normal rest)))
            else Inr (Entry i (Membership rest))))"

definition replicated_decode :: "bytes \<Rightarrow> replicated_record_error + replicated_record" where
  "replicated_decode payload =
     (case payload of
        [] \<Rightarrow> Inl Empty_Payload
      | tag # body \<Rightarrow>
          (if tag = tag_blank \<or> tag = tag_normal \<or> tag = tag_membership then decode_entry tag body
           else if tag = tag_truncate_all then
             (if body = [] then Inr (TruncateAfter None) else Inl (WrongLength tag 0 (length body)))
           else if tag = tag_truncate_after then
             map_sum id (\<lambda>i. TruncateAfter (Some i)) (exact_log_id tag body)
           else if tag = tag_purge then map_sum id Purge (exact_log_id tag body)
           else if tag = tag_committed then map_sum id Committed (exact_log_id tag body)
           else Inl (UnknownTag tag)))"

definition tenant_batch_payload :: "frame_kind \<Rightarrow> bytes \<Rightarrow> bytes option" where
  "tenant_batch_payload kind payload =
     (case kind of
        TenantOtlpBatch \<Rightarrow> Some payload
      | ReplicatedEntry \<Rightarrow>
          (case payload of
             tag # _ \<Rightarrow>
               (if tag = tag_normal
                then (if entry_prefix_len \<le> length payload then Some (drop entry_prefix_len payload)
                      else None)
                else None)
           | [] \<Rightarrow> None)
      | _ \<Rightarrow> None)"

section \<open>Lemmas\<close>

lemma length_le_bytes [simp]: "length (le_bytes n x) = n"
  by (induction n arbitrary: x) simp_all

lemma le_val_bound: "le_val bs < 256 ^ length bs"
proof (induction bs)
  case (Cons c cs)
  have "(of_char c :: nat) < 256" by simp
  then have "of_char c + 256 * le_val cs < 256 * Suc (le_val cs)" by simp
  also from Cons have "\<dots> \<le> 256 * 256 ^ length cs" by (intro mult_le_mono2 Suc_leI)
  finally show ?case by simp
qed simp

lemma le_val_le_bytes [simp]: "le_val (le_bytes n x) = x mod 256 ^ n"
proof (induction n arbitrary: x)
  case (Suc n)
  then show ?case by (simp add: mod_mult2_eq add.commute)
qed simp

lemma le_bytes_le_val: "le_bytes (length bs) (le_val bs) = bs"
  by (induction bs) simp_all

lemma le_bytes_le_val_len: "length bs = n \<Longrightarrow> le_bytes n (le_val bs) = bs"
  using le_bytes_le_val by blast

lemma length_frame_pad [simp]: "length frame_pad_zeros = 3"
  by (simp add: frame_pad_zeros_def)

lemma length_frame_header [simp]: "length (frame_header crc kind payload) = frame_header_len"
  by (simp add: frame_header_def frame_header_len_def)

lemma kind_of_byte_iff [simp]: "kind_of_byte b = Some k \<longleftrightarrow> b = kind_byte k"
  by (cases k) (auto simp: kind_of_byte_def)

lemma kind_of_kind_byte [simp]: "kind_of_byte (kind_byte k) = Some k"
  by simp

lemma slice_one: "i < length s \<Longrightarrow> slice s i (Suc i) = [s ! i]"
  by (simp add: slice_def take_Suc_conv_app_nth [of 0 "drop i s", simplified] hd_drop_conv_nth)

lemma length_slice [simp]: "b \<le> length s \<Longrightarrow> length (slice s a b) = b - a"
  by (simp add: slice_def)

lemma slice_append_left: "b \<le> length s \<Longrightarrow> slice (s @ t) a b = slice s a b"
  by (simp add: slice_def)

lemma slice_append_right: "length s \<le> a \<Longrightarrow> slice (s @ t) a b = slice t (a - length s) (b - length s)"
  by (simp add: slice_def)

lemma slice_0: "slice s 0 b = take b s"
  by (simp add: slice_def)

lemmas slice_parts = slice_append_left slice_append_right slice_0

lemma header_split:
  assumes "length h = 12"
  shows "h = slice h 0 4 @ [h ! 4] @ slice h 5 8 @ slice h 8 12"
proof -
  have "h = slice h 0 12" using assms by (simp add: slice_def)
  also have "\<dots> = slice h 0 4 @ slice h 4 5 @ slice h 5 8 @ slice h 8 12"
    using slice_append [of 0 4 12 h] slice_append [of 4 5 12 h] slice_append [of 5 8 12 h] by simp
  also have "slice h 4 5 = [h ! 4]" using slice_one [of 4 h] assms by simp
  finally show ?thesis .
qed

lemma frame_header_fields:
  shows "slice (frame_header crc kind payload) 0 4 = le_bytes 4 (length payload)"
    and "frame_header crc kind payload ! 4 = kind_byte kind"
    and "slice (frame_header crc kind payload) 5 8 = frame_pad_zeros"
    and "slice (frame_header crc kind payload) 8 12
         = le_bytes 4 (unat (checksum_input crc (kind_byte kind) payload))"
  by (simp_all add: frame_header_def slice_def drop_Cons' nth_append)

lemma max_frame_fits: "n \<le> max_frame_bytes \<Longrightarrow> n < 2 ^ 32" "n \<le> max_frame_bytes \<Longrightarrow> n mod 256 ^ 4 = n"
  by (simp_all add: max_frame_bytes_def)

lemma unat_le_32 [simp]: "unat (w :: 32 word) mod 256 ^ 4 = unat w"
  using unsigned_less [of w, where ?'a = nat] by simp

lemma write_frame_vec:
  assumes "length payload \<le> max_frame_bytes"
  shows "write_frame crc vec_writer w kind payload
         = Some (w @ frame_header crc kind payload @ payload, None)"
  using max_frame_fits(1) [OF assms] by (simp add: write_frame_def vec_writer_def)

lemma read_frame_complete:
  assumes "length payload \<le> max_frame_bytes"
  shows "read_frame crc \<lparr>rd_rest = frame_header crc kind payload @ payload @ rest, rd_end = e\<rparr>
         = (\<lparr>rd_rest = rest, rd_end = e\<rparr>, Inr (kind, payload))"
  using assms max_frame_fits [OF assms]
  by (simp add: read_frame_def read_exact_def frame_header_fields Let_def del: power_numeral)

lemma header_of_fields:
  assumes "length h = frame_header_len" and "le_val (slice h 0 4) = length payload"
    and "h ! 4 = kind_byte kind" and "slice h 5 8 = frame_pad_zeros"
    and "word_of_nat (le_val (slice h 8 12)) = checksum_input crc (kind_byte kind) payload"
  shows "h = frame_header crc kind payload"
proof -
  have l: "length h = 12" using assms(1) by (simp add: frame_header_len_def)
  have a: "slice h 0 4 = le_bytes 4 (length payload)"
    using le_bytes_le_val_len [of "slice h 0 4" 4] l assms(2) by simp
  have "le_val (slice h 8 12) < 2 ^ 32" using le_val_bound [of "slice h 8 12"] l by simp
  then have "le_val (slice h 8 12) = unat (checksum_input crc (kind_byte kind) payload)"
    using assms(5) by (simp add: unat_of_nat flip: assms(5)) 
  then have "slice h 8 12 = le_bytes 4 (unat (checksum_input crc (kind_byte kind) payload))"
    using le_bytes_le_val_len [of "slice h 8 12" 4] l by simp
  with a assms(3,4) header_split [OF l] show ?thesis by (simp add: frame_header_def)
qed

lemma read_frame_sound:
  assumes "read_frame crc r = (r', Inr (kind, payload))"
  shows "length payload \<le> max_frame_bytes
         \<and> rd_rest r = frame_header crc kind payload @ payload @ rd_rest r' \<and> rd_end r' = rd_end r"
proof -
  define h where "h = take frame_header_len (rd_rest r)"
  define t where "t = drop frame_header_len (rd_rest r)"
  have rest: "rd_rest r = h @ t" by (simp add: h_def t_def)
  have len: "frame_header_len \<le> length (rd_rest r)"
    using assms by (rule contrapos_pp) (simp add: read_frame_def read_exact_def)
  define n where "n = le_val (slice h 0 4)"
  have body: "read_frame crc r =
     (let r = r\<lparr>rd_rest := t\<rparr> in
      if n > max_frame_bytes then (r, Inl (OversizeLen n))
      else case kind_of_byte (h ! 4) of
             None \<Rightarrow> (r, Inl (UnknownKind (h ! 4)))
           | Some kind \<Rightarrow>
               if slice h 5 8 \<noteq> frame_pad_zeros then (r, Inl (NonZeroPad (slice h 5 8)))
               else if n \<le> length t then
                 (let c = checksum_input crc (h ! 4) (take n t); s = word_of_nat (le_val (slice h 8 12)) in
                  if s \<noteq> c then (r\<lparr>rd_rest := drop n t\<rparr>, Inl (CrcMismatch s c))
                  else (r\<lparr>rd_rest := drop n t\<rparr>, Inr (kind, take n t)))
               else (r\<lparr>rd_rest := []\<rparr>, Inl (Frame_Io (rd_end r))))"
    using len by (simp add: read_frame_def read_exact_def Let_def h_def t_def n_def split: option.split)
  have f: "n \<le> max_frame_bytes" "h ! 4 = kind_byte kind"
      "slice h 5 8 = frame_pad_zeros" "n \<le> length t" "payload = take n t"
      "word_of_nat (le_val (slice h 8 12)) = checksum_input crc (h ! 4) payload"
      "rd_rest r' = drop n t" "rd_end r' = rd_end r"
    using assms unfolding body Let_def
    by (auto simp: not_less split: if_splits option.splits)
  have "h = frame_header crc kind payload"
    by (rule header_of_fields) (use len f in \<open>simp_all add: h_def n_def\<close>)
  with rest f show ?thesis by simp
qed

lemma read_frame_torn:
  assumes "length payload \<le> max_frame_bytes" and "n < frame_header_len + length payload"
  shows "snd (read_frame crc \<lparr>rd_rest = take n (frame_header crc kind payload @ payload), rd_end = e\<rparr>)
         = Inl (Frame_Io e)"
proof (cases "n < frame_header_len")
  case True
  then show ?thesis by (simp add: read_frame_def read_exact_def)
next
  case False
  with assms max_frame_fits [OF assms(1)] show ?thesis
    by (simp add: read_frame_def read_exact_def frame_header_fields Let_def not_le del: power_numeral) linarith+
qed

definition header_ok :: "segment_header \<Rightarrow> bool" where
  "header_ok h \<longleftrightarrow>
     (sh_version h = segment_version_legacy \<or> sh_version h = segment_version)
     \<and> sh_flags h < 2 ^ 16 \<and> uuid_ok (sh_uuid h)"

lemma slice_pieces:
  assumes "a \<le> b" and "b \<le> length s"
  shows "drop a s = slice s a b @ drop b s"
proof -
  have "drop (b - a) (drop a s) = drop b s" using assms(1) by simp
  then show ?thesis using append_take_drop_id [of "b - a" "drop a s"] by (simp add: slice_def)
qed

lemma length_header_bytes [simp]: "uuid_ok (sh_uuid h) \<Longrightarrow> length (header_bytes h) = segment_header_len"
  by (simp add: header_bytes_def segment_magic_def uuid_ok_def segment_header_len_def)

lemma header_bytes_fields:
  assumes "uuid_ok (sh_uuid h)"
  shows "slice (header_bytes h) 0 4 = segment_magic"
    and "slice (header_bytes h) 4 6 = le_bytes 2 (sh_version h)"
    and "slice (header_bytes h) 6 8 = le_bytes 2 (sh_flags h)"
    and "slice (header_bytes h) 8 24 = sh_uuid h"
  using assms by (simp_all add: header_bytes_def slice_def segment_magic_def uuid_ok_def)

lemma read_header_complete:
  assumes "header_ok h"
  shows "read_header \<lparr>rd_rest = header_bytes h @ rest, rd_end = e\<rparr> = (\<lparr>rd_rest = rest, rd_end = e\<rparr>, Inr h)"
proof -
  have u: "uuid_ok (sh_uuid h)" using assms by (simp add: header_ok_def)
  have "sh_version h < 256 ^ 2" "sh_flags h < 256 ^ 2"
    using assms by (auto simp: header_ok_def segment_version_def segment_version_legacy_def)
  then show ?thesis
    using assms
    by (simp add: read_header_def read_exact_def Let_def header_bytes_fields [OF u]
        length_header_bytes [OF u] header_ok_def del: power_numeral)
qed

lemma read_header_new:
  "uuid_ok u \<Longrightarrow> read_header \<lparr>rd_rest = header_bytes (segment_header_new u) @ rest, rd_end = e\<rparr>
     = (\<lparr>rd_rest = rest, rd_end = e\<rparr>, Inr (segment_header_new u))"
  by (rule read_header_complete)
    (simp add: header_ok_def segment_header_new_def segment_flags_reserved_def)

lemma read_header_sound:
  assumes "read_header r = (r', Inr h)"
  shows "header_ok h \<and> rd_rest r = header_bytes h @ rd_rest r' \<and> rd_end r' = rd_end r"
proof -
  define b where "b = take segment_header_len (rd_rest r)"
  have len: "segment_header_len \<le> length (rd_rest r)"
    using assms by (rule contrapos_pp) (simp add: read_header_def read_exact_def)
  then have l: "length b = 24" by (simp add: b_def segment_header_len_def)
  have body: "read_header r =
     (let r = r\<lparr>rd_rest := drop segment_header_len (rd_rest r)\<rparr> in
      if slice b 0 4 \<noteq> segment_magic then (r, Inl (BadMagic (slice b 0 4)))
      else (let v = le_val (slice b 4 6) in
            if v \<noteq> segment_version_legacy \<and> v \<noteq> segment_version then (r, Inl (UnknownVersion v))
            else (r, Inr \<lparr>sh_version = v, sh_flags = le_val (slice b 6 8), sh_uuid = slice b 8 24\<rparr>)))"
    using len by (simp add: read_header_def read_exact_def Let_def b_def)
  have f: "slice b 0 4 = segment_magic"
    "h = \<lparr>sh_version = le_val (slice b 4 6), sh_flags = le_val (slice b 6 8), sh_uuid = slice b 8 24\<rparr>"
    "sh_version h = segment_version_legacy \<or> sh_version h = segment_version"
    "rd_rest r' = drop segment_header_len (rd_rest r)" "rd_end r' = rd_end r"
    using assms unfolding body Let_def by (auto split: if_splits)
  have "sh_flags h < 2 ^ 16" using le_val_bound [of "slice b 6 8"] l f(2) by simp
  moreover have "b = header_bytes h"
    using slice_pieces [of 0 4 b] slice_pieces [of 4 6 b] slice_pieces [of 6 8 b]
      slice_pieces [of 8 24 b] l f(1,2) le_bytes_le_val_len [of "slice b 4 6" 2]
      le_bytes_le_val_len [of "slice b 6 8" 2]
    by (simp add: header_bytes_def)
  ultimately show ?thesis
    using f l append_take_drop_id [of segment_header_len "rd_rest r"]
    by (simp add: header_ok_def uuid_ok_def b_def)
qed

lemma length_sidecar_encode [simp]: "offset_ok p \<Longrightarrow> length (sidecar_encode p) = sidecar_len"
  by (simp add: sidecar_encode_def sidecar_magic_def offset_ok_def uuid_ok_def sidecar_len_def)

lemma sidecar_encode_fields:
  assumes "offset_ok p"
  shows "slice (sidecar_encode p) 0 4 = sidecar_magic"
    and "slice (sidecar_encode p) 4 6 = le_bytes 2 sidecar_version"
    and "slice (sidecar_encode p) 6 8 = le_bytes 2 0"
    and "slice (sidecar_encode p) 8 24 = wo_segment p"
    and "slice (sidecar_encode p) 24 32 = le_bytes 8 (wo_byte p)"
  using assms by (simp_all add: sidecar_encode_def slice_def sidecar_magic_def offset_ok_def uuid_ok_def)

lemma sidecar_decode_encode:
  assumes "offset_ok p"
  shows "sidecar_decode (sidecar_encode p) = Inr \<lparr>sc_offset = p, sc_version = Sidecar_Current\<rparr>"
proof -
  have "wo_byte p mod 256 ^ 8 = wo_byte p" using assms by (simp add: offset_ok_def)
  moreover have "2 mod 256 ^ 2 = (2 :: nat)" by simp
  ultimately show ?thesis
    by (simp add: sidecar_decode_def sidecar_encode_fields [OF assms] length_sidecar_encode [OF assms]
        Let_def sidecar_version_def sidecar_version_legacy_def del: power_numeral)
qed

lemma sidecar_decode_sound:
  assumes "sidecar_decode bs = Inr s" and "sc_version s = Sidecar_Current"
  shows "offset_ok (sc_offset s) \<and> bs = sidecar_encode (sc_offset s)"
proof -
  have l: "length bs = 32" using assms(1) by (auto simp: sidecar_decode_def sidecar_len_def split: if_splits)
  have f: "slice bs 0 4 = sidecar_magic" "le_val (slice bs 4 6) = sidecar_version"
    "le_val (slice bs 6 8) = 0" "sc_offset s = Wal_Offset (slice bs 8 24) (le_val (slice bs 24 32))"
    using assms by (auto simp: sidecar_decode_def Let_def split: if_splits)
  have "slice bs 4 6 = le_bytes 2 sidecar_version" "slice bs 6 8 = le_bytes 2 0"
    "slice bs 24 32 = le_bytes 8 (le_val (slice bs 24 32))"
    using le_bytes_le_val_len [of "slice bs 4 6" 2] le_bytes_le_val_len [of "slice bs 6 8" 2]
      le_bytes_le_val_len [of "slice bs 24 32" 8] l f by simp_all
  then have "bs = sidecar_encode (sc_offset s)"
    using slice_pieces [of 0 4 bs] slice_pieces [of 4 6 bs] slice_pieces [of 6 8 bs]
      slice_pieces [of 8 24 bs] slice_pieces [of 24 32 bs] l f
    by (simp add: sidecar_encode_def)
  then show ?thesis using le_val_bound [of "slice bs 24 32"] l f by (simp add: offset_ok_def uuid_ok_def)
qed

lemma tenant_batch_roundtrip:
  "tenant_batch_decode payload = Inr b \<longleftrightarrow>
     utf8_valid (tb_tenant b) \<and> tenant_batch_encode (tb_tenant b) (tb_protobuf b) = Inr payload"
  (is "?D \<longleftrightarrow> ?E")
proof
  assume ?D
  then have l: "2 \<le> length payload" "le_val (take 2 payload) \<le> length (drop 2 payload)"
    and f: "le_val (take 2 payload) \<noteq> 0" "le_val (take 2 payload) \<le> max_tenant_bytes"
      "tb_tenant b = take (le_val (take 2 payload)) (drop 2 payload)" "utf8_valid (tb_tenant b)"
      "tb_protobuf b = drop (le_val (take 2 payload)) (drop 2 payload)"
    by (auto simp: tenant_batch_decode_def Let_def split: if_splits)
  have "length (tb_tenant b) = le_val (take 2 payload)" using l f by simp
  moreover have "le_bytes 2 (le_val (take 2 payload)) = take 2 payload"
    using l by (intro le_bytes_le_val_len) simp
  moreover have "tb_tenant b @ tb_protobuf b = drop 2 payload"
    unfolding f(3,5) by (rule append_take_drop_id)
  ultimately show ?E using f by (simp add: tenant_batch_encode_def)
next
  assume e: ?E
  then have p: "payload = le_bytes 2 (length (tb_tenant b)) @ tb_tenant b @ tb_protobuf b"
    and n: "length (tb_tenant b) \<noteq> 0" "length (tb_tenant b) \<le> max_tenant_bytes" "utf8_valid (tb_tenant b)"
    by (auto simp: tenant_batch_encode_def Let_def split: if_splits)
  have m: "length (tb_tenant b) mod 256 ^ 2 = length (tb_tenant b)"
    using n(2) by (simp add: max_tenant_bytes_def)
  show ?D unfolding p using n m by (simp add: tenant_batch_decode_def Let_def del: power_numeral)
qed

definition log_id_ok :: "raft_log_id \<Rightarrow> bool" where
  "log_id_ok i \<longleftrightarrow> rl_term i < 2 ^ 64 \<and> rl_index i < 2 ^ 64"

fun record_ok :: "replicated_record \<Rightarrow> bool" where
  "record_ok (Entry i body) = log_id_ok i"
| "record_ok (TruncateAfter i) = pred_option log_id_ok i"
| "record_ok (Purge i) = log_id_ok i"
| "record_ok (Committed i) = log_id_ok i"

lemma length_log_id_write [simp]: "length (log_id_write i) = log_id_len"
  by (simp add: log_id_write_def log_id_len_def)

lemma log_id_read_write [simp]: "log_id_ok i \<Longrightarrow> log_id_read (log_id_write i) = i"
  by (simp add: log_id_ok_def log_id_read_def log_id_write_def)

lemma log_id_write_read:
  assumes "length bs = log_id_len"
  shows "log_id_write (log_id_read bs) = bs" and "log_id_ok (log_id_read bs)"
proof -
  have l: "length bs = 16" using assms by (simp add: log_id_len_def)
  show "log_id_write (log_id_read bs) = bs"
    using l le_bytes_le_val_len [of "take 8 bs" 8] le_bytes_le_val_len [of "drop 8 bs" 8]
    by (simp add: log_id_write_def log_id_read_def)
  show "log_id_ok (log_id_read bs)"
    using l le_val_bound [of "take 8 bs"] le_val_bound [of "drop 8 bs"]
    by (simp add: log_id_ok_def log_id_read_def)
qed

lemmas tag_defs = tag_blank_def tag_normal_def tag_membership_def tag_truncate_all_def
  tag_truncate_after_def tag_purge_def tag_committed_def

lemma map_sum_Inr_iff: "map_sum id f x = Inr y \<longleftrightarrow> (\<exists>z. x = Inr z \<and> y = f z)"
  by (cases x) auto

lemma exact_log_id_iff: "exact_log_id tag body = Inr i \<longleftrightarrow> log_id_ok i \<and> body = log_id_write i"
  using log_id_write_read [of body] by (auto simp: exact_log_id_def)

lemma decode_entry_iff:
  assumes "tag \<in> {tag_blank, tag_normal, tag_membership}"
  shows "decode_entry tag body = Inr r \<longleftrightarrow> 
    (\<exists>i b. r = Entry i b \<and> log_id_ok i \<and> replicated_encode r = Inr (tag # body))"
    (is "?D \<longleftrightarrow> ?E")
proof
  assume ?D
  define h where "h = take log_id_len body"
  define t where "t = drop log_id_len body"
  have l: "length h = log_id_len" and b: "body = h @ t"
    using \<open>?D\<close> by (auto simp: decode_entry_def h_def t_def split: if_splits)
  from \<open>?D\<close> assms log_id_write_read [OF l] show ?E
    by (auto simp: decode_entry_def Let_def b l tag_defs split: if_splits sum.splits)
next
  assume ?E
  then show ?D using assms
    by (auto simp: decode_entry_def Let_def tag_defs split: entry_body.splits sum.splits)
qed

lemma replicated_roundtrip:
  "replicated_decode payload = Inr r \<longleftrightarrow> record_ok r \<and> replicated_encode r = Inr payload"
proof (cases payload)
  case Nil
  then show ?thesis
    by (cases r rule: replicated_encode.cases)
      (auto simp: replicated_decode_def split: entry_body.splits sum.splits)
next
  case (Cons tag body)
  show ?thesis
  proof (cases "tag \<in> {tag_blank, tag_normal, tag_membership}")
    case True
    then have "replicated_decode payload = decode_entry tag body"
      by (auto simp: Cons replicated_decode_def)
    with decode_entry_iff [OF True, of body r] True show ?thesis
      by (cases r rule: replicated_encode.cases) (auto simp: Cons tag_defs)
  next
    case False
    then show ?thesis
      by (cases r rule: replicated_encode.cases)
        (auto simp: Cons replicated_decode_def map_sum_Inr_iff exact_log_id_iff tag_defs
          split: entry_body.splits sum.splits)
  qed
qed

section \<open>Properties\<close>

text \<open>C17. The frame reader accepts exactly what the frame writer produces: it returns a kind and a
  payload if and only if the bytes before it are the header and payload that \<open>write_frame\<close> lays
  down for them, the payload is within \<open>MAX_FRAME_BYTES\<close>, and the reader is left on the byte
  after them. No two frames share an encoding and no byte string is read two ways.\<close>

theorem frame_codec_exact:
  "read_frame crc r = (r', Inr (kind, payload)) \<longleftrightarrow>
     length payload \<le> max_frame_bytes
     \<and> write_frame crc vec_writer [] kind payload
         = Some (take (length (rd_rest r) - length (rd_rest r')) (rd_rest r), None)
     \<and> (\<exists>frame. rd_rest r = frame @ rd_rest r') \<and> rd_end r' = rd_end r"
  (is "?R \<longleftrightarrow> ?W")
proof
  assume ?R
  from read_frame_sound [OF this] show ?W by (auto simp: write_frame_vec)
next
  assume w: ?W
  then obtain frame where f: "rd_rest r = frame @ rd_rest r'" by blast
  with w have "rd_rest r = frame_header crc kind payload @ payload @ rd_rest r'"
    by (auto simp: write_frame_vec)
  with w have "r = \<lparr>rd_rest = frame_header crc kind payload @ payload @ rd_rest r', rd_end = rd_end r'\<rparr>"
    by (cases r) simp
  with w read_frame_complete [of payload crc kind "rd_rest r'" "rd_end r'"] show ?R
    by (cases r') simp
qed

text \<open>C18. A torn frame is always told apart from a corrupt one: cut anywhere before its last byte,
  a frame reads as the reader's own end-of-input error and never as a frame, a checksum failure,
  an unknown kind, a padding error or an oversize length.\<close>

theorem frame_torn_detected:
  assumes "length payload \<le> max_frame_bytes"
    and "write_frame crc vec_writer [] kind payload = Some (frame, None)"
    and "n < length frame"
  shows "snd (read_frame crc \<lparr>rd_rest = take n frame, rd_end = e\<rparr>) = Inl (Frame_Io e)"
proof -
  have "frame = frame_header crc kind payload @ payload"
    using assms(1,2) by (simp add: write_frame_vec)
  with read_frame_torn [OF assms(1)] assms(3) show ?thesis by simp
qed

definition toy_crc :: crc_fns where
  "toy_crc = \<lparr>crc32c = (\<lambda>bs. word_of_nat (le_val bs)), crc32c_append = (\<lambda>h bs. h + word_of_nat (le_val bs))\<rparr>"

theorem frame_torn_detected_witness:
  "snd (read_frame toy_crc
     \<lparr>rd_rest = take 13 (frame_header toy_crc OtlpBatch ''ab'' @ ''ab''), rd_end = \<lparr>ie_kind = UnexpectedEof, ie_detail = []\<rparr>\<rparr>)
   = Inl (Frame_Io \<lparr>ie_kind = UnexpectedEof, ie_detail = []\<rparr>)"
  by (rule frame_torn_detected [where payload = "''ab''" and kind = OtlpBatch])
    (simp_all add: max_frame_bytes_def write_frame_def vec_writer_def frame_header_len_def)

text \<open>C19. The two fixed-size records are read exactly: a segment header is accepted if and only if
  the bytes are those of a header of a known version (whatever its flags), and a version-2
  \<open>CHECKPOINT\<close> decodes to an offset if and only if it is the encoding of that offset.\<close>

theorem sidecars_exact:
  "(read_header r = (r', Inr h) \<longleftrightarrow>
      header_ok h \<and> rd_rest r = header_bytes h @ rd_rest r' \<and> rd_end r' = rd_end r)
   \<and> (sidecar_decode bs = Inr \<lparr>sc_offset = p, sc_version = Sidecar_Current\<rparr> \<longleftrightarrow>
      offset_ok p \<and> bs = sidecar_encode p)"
proof (intro conjI iffI)
  assume "header_ok h \<and> rd_rest r = header_bytes h @ rd_rest r' \<and> rd_end r' = rd_end r"
  with read_header_complete [of h "rd_rest r'" "rd_end r'"] show "read_header r = (r', Inr h)"
    by (cases r; cases r') simp
qed (use read_header_sound [of r r' h] sidecar_decode_encode sidecar_decode_sound [of bs] in auto)

text \<open>C20. The payload codecs are exact inverses: a \<open>TenantBatch\<close> payload decodes to a tenant and
  protobuf bytes if and only if the tenant is UTF-8 and encoding them gives that payload, and a
  \<open>ReplicatedEntry\<close> payload decodes to a record if and only if the record's log ids are \<open>u64\<close>s and
  encoding it gives that payload; so nothing is written that the decoder refuses and no payload
  carries two readings.\<close>

theorem payload_codecs_exact:
  "(tenant_batch_decode payload = Inr b \<longleftrightarrow>
      utf8_valid (tb_tenant b) \<and> tenant_batch_encode (tb_tenant b) (tb_protobuf b) = Inr payload)
   \<and> (replicated_decode payload = Inr rec \<longleftrightarrow> record_ok rec \<and> replicated_encode rec = Inr payload)"
  using tenant_batch_roundtrip [of payload b] replicated_roundtrip [of payload rec] by simp

end
