(* ===== verification/Segment_Ledger.thy ===== *)
theory Segment_Ledger
  imports Wal_Codec
begin

text \<open>
  The retention ledger of the write-ahead log, \<open>crates/ourios-wal/src/retain.rs\<close>: which tenants hold
  frames in which surviving segment, how far each tenant's snapshot horizon has been applied, and
  which closed segments a capped pass may plan for unlinking. A \<open>BTreeSet\<close> or \<open>HashSet\<close> is a set
  (ordered iteration is \<^term>\<open>sorted_list_of_set\<close>), a map an association list whose order stands
  for the iteration order of a \<open>HashMap\<close>; ordered iteration of a \<open>BTreeMap\<close> sorts its keys. Counts
  and byte sums are natural numbers.
\<close>

section \<open>Horizons and floors\<close>

type_synonym tenant = bytes

datatype tenant_horizon = Restorable wal_offset | RecordedOnly wal_offset

fun restorable :: "tenant_horizon \<Rightarrow> wal_offset option" where
  "restorable (Restorable p) = Some p"
| "restorable (RecordedOnly p) = None"

type_synonym marks = "(tenant, tenant_horizon) hash_map"

datatype snapshot_horizons = NoConsumer | Known marks

datatype retain_floor =
  Floor_Unknown | Floor_None | Floor_Min wal_offset | Floor_Pinned wal_offset nat

definition mark_of :: "marks \<Rightarrow> tenant \<Rightarrow> wal_offset option" where
  "mark_of ms t = (case hm_get ms t of Some h \<Rightarrow> restorable h | None \<Rightarrow> None)"

section \<open>The ledger\<close>

record span =
  sp_first :: wal_offset
  sp_last :: wal_offset

datatype seg_state = Eligible | Reclaiming bool

fun is_reclaiming :: "seg_state \<Rightarrow> bool" where
  "is_reclaiming (Reclaiming _) = True"
| "is_reclaiming Eligible = False"

record frame_at =
  fa_offset :: wal_offset
  fa_bytes :: nat
  fa_tenant :: "tenant option"
  fa_path :: bytes

record seg_entry =
  sg_path :: bytes
  sg_highest :: wal_offset
  sg_bytes :: nat
  sg_members :: "(tenant, span) hash_map"
  sg_pending :: "tenant set"
  sg_state :: seg_state
  sg_attempted :: bool

record tenant_entry =
  te_horizon :: "wal_offset option"
  te_cursor :: "uuid option"
  te_segments :: "uuid set"
  te_behind :: nat

record segment_ledger =
  ld_segments :: "(uuid, seg_entry) hash_map"
  ld_tenants :: "(tenant, tenant_entry) hash_map"
  ld_unpinned :: "uuid set"
  ld_behind_total :: nat
  ld_reclaiming :: "uuid set"
  ld_held_bytes :: nat
  ld_held_segments :: nat
  ld_describes_root :: bool
  ld_consumer :: bool
  ld_floor :: retain_floor

definition ledger_default :: segment_ledger where
  "ledger_default =
     \<lparr>ld_segments = [], ld_tenants = [], ld_unpinned = {}, ld_behind_total = 0, ld_reclaiming = {},
      ld_held_bytes = 0, ld_held_segments = 0, ld_describes_root = False, ld_consumer = False,
      ld_floor = Floor_Unknown\<rparr>"

definition tenant_default :: tenant_entry where
  "tenant_default = \<lparr>te_horizon = None, te_cursor = None, te_segments = {}, te_behind = 0\<rparr>"

definition describe_root :: "segment_ledger \<Rightarrow> segment_ledger" where
  "describe_root l = l\<lparr>ld_describes_root := True\<rparr>"

definition is_above :: "uuid option \<Rightarrow> uuid \<Rightarrow> bool" where
  "is_above cursor i = (case cursor of None \<Rightarrow> True | Some c \<Rightarrow> c < i)"

text \<open>\<open>BTreeSet::range\<close>: the least element after a cursor, the greatest below an id.\<close>

definition first_above :: "uuid option \<Rightarrow> uuid set \<Rightarrow> uuid option" where
  "first_above cursor S =
     (case sorted_list_of_set {x \<in> S. is_above cursor x} of [] \<Rightarrow> None | x # _ \<Rightarrow> Some x)"

definition last_below :: "uuid \<Rightarrow> uuid set \<Rightarrow> uuid option" where
  "last_below i S =
     (let xs = sorted_list_of_set {x \<in> S. x < i} in if xs = [] then None else Some (last xs))"

section \<open>Observing frames\<close>

definition record_frame :: "frame_at \<Rightarrow> segment_ledger \<Rightarrow> segment_ledger" where
  "record_frame fa l =
     (let i = wo_segment (fa_offset fa);
          entry = (case hm_get (ld_segments l) i of
                     Some e \<Rightarrow> e
                   | None \<Rightarrow> \<lparr>sg_path = fa_path fa, sg_highest = fa_offset fa, sg_bytes = 0,
                              sg_members = [], sg_pending = {}, sg_state = Eligible,
                              sg_attempted = False\<rparr>)
      in l\<lparr>ld_unpinned := (if sg_state entry = Eligible \<and> sg_pending entry = {}
                          then insert i (ld_unpinned l) else ld_unpinned l),
           ld_segments := hm_insert i (entry\<lparr>sg_bytes := sg_bytes entry + fa_bytes fa,
                                            sg_highest := max (sg_highest entry) (fa_offset fa)\<rparr>)
             (ld_segments l),
           ld_held_bytes := (if sg_pending entry \<noteq> {} then ld_held_bytes l + fa_bytes fa
                             else ld_held_bytes l)\<rparr>)"

definition extend_span :: "tenant \<Rightarrow> wal_offset \<Rightarrow> segment_ledger \<Rightarrow> segment_ledger \<times> bool" where
  "extend_span t p l =
     (case hm_get (ld_segments l) (wo_segment p) of
        None \<Rightarrow> (l, False)
      | Some e \<Rightarrow>
          (case hm_get (sg_members e) t of
             None \<Rightarrow> (l, False)
           | Some sp \<Rightarrow>
               (l\<lparr>ld_segments := hm_insert (wo_segment p)
                    (e\<lparr>sg_members := hm_insert t (sp\<lparr>sp_last := max (sp_last sp) p\<rparr>) (sg_members e)\<rparr>)
                    (ld_segments l)\<rparr>, True)))"

definition pin :: "tenant \<Rightarrow> uuid \<Rightarrow> segment_ledger \<Rightarrow> segment_ledger \<times> bool" where
  "pin t i l =
     (case hm_get (ld_segments l) i of
        None \<Rightarrow> (l, False)
      | Some e \<Rightarrow>
          (if t \<in> sg_pending e then (l, False)
           else (l\<lparr>ld_segments := hm_insert i (e\<lparr>sg_pending := insert t (sg_pending e)\<rparr>) (ld_segments l),
                   ld_held_bytes := (if sg_pending e = {} then ld_held_bytes l + sg_bytes e
                                     else ld_held_bytes l),
                   ld_held_segments := (if sg_pending e = {} then ld_held_segments l + 1
                                        else ld_held_segments l),
                   ld_unpinned := ld_unpinned l - {i}\<rparr>, True)))"

definition unpin :: "tenant \<Rightarrow> uuid \<Rightarrow> segment_ledger \<Rightarrow> segment_ledger" where
  "unpin t i l =
     (case hm_get (ld_segments l) i of
        None \<Rightarrow> l
      | Some e \<Rightarrow>
          (let e' = e\<lparr>sg_pending := sg_pending e - {t}\<rparr>;
               l = l\<lparr>ld_segments := hm_insert i e' (ld_segments l)\<rparr>
           in if t \<notin> sg_pending e \<or> sg_pending e' \<noteq> {} then l
              else l\<lparr>ld_held_bytes := ld_held_bytes l - sg_bytes e,
                     ld_held_segments := ld_held_segments l - 1,
                     ld_unpinned := (if sg_state e = Eligible then insert i (ld_unpinned l)
                                     else ld_unpinned l)\<rparr>))"

definition join_segment :: "tenant \<Rightarrow> wal_offset \<Rightarrow> segment_ledger \<Rightarrow> segment_ledger" where
  "join_segment t p l =
     (let i = wo_segment p;
          l = (case hm_get (ld_segments l) i of
                 None \<Rightarrow> l
               | Some e \<Rightarrow> l\<lparr>ld_segments := hm_insert i
                   (e\<lparr>sg_members := hm_insert t \<lparr>sp_first = p, sp_last = p\<rparr> (sg_members e)\<rparr>)
                   (ld_segments l)\<rparr>);
          l = fst (pin t i l);
          st = (case hm_get (ld_tenants l) t of Some st \<Rightarrow> st | None \<Rightarrow> tenant_default);
          counts = (i \<notin> te_segments st \<and> is_above (te_cursor st) i)
      in l\<lparr>ld_tenants := hm_insert t
             (st\<lparr>te_segments := insert i (te_segments st),
                te_behind := te_behind st + (if counts then 1 else 0)\<rparr>) (ld_tenants l),
           ld_behind_total := ld_behind_total l + (if counts then 1 else 0)\<rparr>)"

definition repin :: "tenant \<Rightarrow> uuid \<Rightarrow> segment_ledger \<Rightarrow> segment_ledger" where
  "repin t i l =
     (let horizon = (case hm_get (ld_tenants l) t of Some st \<Rightarrow> te_horizon st | None \<Rightarrow> None);
          held = (case hm_get (ld_segments l) i of Some e \<Rightarrow> hm_get (sg_members e) t | None \<Rightarrow> None);
          covered = (case (horizon, held) of (Some h, Some sp) \<Rightarrow> sp_last sp \<le> h | _ \<Rightarrow> False)
      in if covered then l
         else (case pin t i l of
                 (l, False) \<Rightarrow> l
               | (l, True) \<Rightarrow>
                   (case hm_get (ld_tenants l) t of
                      None \<Rightarrow> l
                    | Some st \<Rightarrow>
                        (if is_above (te_cursor st) i then l
                         else l\<lparr>ld_tenants := hm_insert t
                                  (st\<lparr>te_cursor := last_below i (te_segments st),
                                     te_behind := te_behind st + 1\<rparr>) (ld_tenants l),
                                ld_behind_total := ld_behind_total l + 1\<rparr>))))"

definition observe :: "frame_at \<Rightarrow> segment_ledger \<Rightarrow> segment_ledger" where
  "observe fa l =
     (let l = record_frame fa l in
      case fa_tenant fa of
        None \<Rightarrow> l
      | Some t \<Rightarrow>
          (case extend_span t (fa_offset fa) l of
             (l, True) \<Rightarrow> repin t (wo_segment (fa_offset fa)) l
           | (l, False) \<Rightarrow> join_segment t (fa_offset fa) l))"

section \<open>Figures\<close>

definition held_of :: "segment_ledger \<Rightarrow> uuid \<Rightarrow> nat \<times> nat" where
  "held_of l i =
     (case hm_get (ld_segments l) i of
        Some e \<Rightarrow> (if sg_pending e \<noteq> {} then (sg_bytes e, 1) else (0, 0))
      | None \<Rightarrow> (0, 0))"

definition ledger_bytes :: "segment_ledger \<Rightarrow> nat" where
  "ledger_bytes l = sum_list (map (\<lambda>(_, e). sg_bytes e) (ld_segments l))"

definition horizon_remaining :: "segment_ledger \<Rightarrow> nat" where
  "horizon_remaining l = (if ld_consumer l then ld_behind_total l else 0)"

definition unlink_remaining :: "segment_ledger \<Rightarrow> uuid \<Rightarrow> nat" where
  "unlink_remaining l current =
     card (ld_unpinned l) - (if current \<in> ld_unpinned l then 1 else 0) + card (ld_reclaiming l)"

definition oldest_frame :: "segment_ledger \<Rightarrow> tenant \<Rightarrow> wal_offset option" where
  "oldest_frame l t =
     (case hm_get (ld_tenants l) t of
        None \<Rightarrow> None
      | Some st \<Rightarrow>
          (case List.map_filter
                  (\<lambda>i. case hm_get (ld_segments l) i of
                         Some e \<Rightarrow> hm_get (sg_members e) t | None \<Rightarrow> None)
                  (sorted_list_of_set (te_segments st)) of
             [] \<Rightarrow> None
           | sp # _ \<Rightarrow> Some (sp_first sp)))"

definition may_hold_frames :: "segment_ledger \<Rightarrow> tenant \<Rightarrow> bool" where
  "may_hold_frames l t \<longleftrightarrow> \<not> ld_describes_root l \<or> oldest_frame l t \<noteq> None"

definition lag :: "segment_ledger \<Rightarrow> uuid \<Rightarrow> nat \<times> nat" where
  "lag l current =
     (case ld_floor l of
        Floor_Unknown \<Rightarrow> (0, 0)
      | Floor_None \<Rightarrow> (0, 0)
      | _ \<Rightarrow> (ld_held_bytes l - fst (held_of l current), ld_held_segments l - snd (held_of l current)))"

section \<open>Settling segments\<close>

definition withdraw :: "uuid \<Rightarrow> segment_ledger \<Rightarrow> segment_ledger" where
  "withdraw i l =
     (case hm_get (ld_segments l) i of
        None \<Rightarrow> l
      | Some e \<Rightarrow>
          (case sg_state e of
             Eligible \<Rightarrow> l
           | Reclaiming uncertain \<Rightarrow>
               l\<lparr>ld_segments := hm_insert i
                   (e\<lparr>sg_attempted := sg_attempted e \<or> uncertain, sg_state := Eligible\<rparr>) (ld_segments l),
                 ld_reclaiming := ld_reclaiming l - {i},
                 ld_unpinned := (if sg_pending e = {} then insert i (ld_unpinned l)
                                 else ld_unpinned l)\<rparr>))"

definition restore :: "uuid \<Rightarrow> segment_ledger \<Rightarrow> segment_ledger" where
  "restore i l =
     (case hm_get (ld_segments l) i of
        None \<Rightarrow> l
      | Some e \<Rightarrow>
          (let inherited = (case sg_state e of Reclaiming uncertain \<Rightarrow> uncertain | Eligible \<Rightarrow> False)
           in l\<lparr>ld_segments := hm_insert i
                  (e\<lparr>sg_state := Eligible, sg_attempted := inherited\<rparr>) (ld_segments l),
                ld_reclaiming := (if is_reclaiming (sg_state e) then ld_reclaiming l - {i}
                                  else ld_reclaiming l),
                ld_unpinned := (if sg_pending e = {} then insert i (ld_unpinned l)
                                else ld_unpinned l)\<rparr>))"

definition hold :: "uuid \<Rightarrow> bool \<Rightarrow> segment_ledger \<Rightarrow> segment_ledger" where
  "hold i uncertain l =
     (case hm_get (ld_segments l) i of
        None \<Rightarrow> l
      | Some e \<Rightarrow>
          l\<lparr>ld_segments := hm_insert i
              (e\<lparr>sg_state := Reclaiming uncertain, sg_attempted := False\<rparr>) (ld_segments l)\<rparr>)"

definition leave :: "uuid \<Rightarrow> tenant \<Rightarrow> segment_ledger \<Rightarrow> segment_ledger" where
  "leave i t l =
     (case hm_get (ld_tenants l) t of
        None \<Rightarrow> l
      | Some st \<Rightarrow>
          (let segments = te_segments st - {i};
               above = is_above (te_cursor st) i;
               behind = (if above then te_behind st - 1 else te_behind st);
               total = (if above then ld_behind_total l - 1 else ld_behind_total l)
           in if segments = {}
              then l\<lparr>ld_behind_total := total - behind, ld_tenants := hm_remove t (ld_tenants l)\<rparr>
              else l\<lparr>ld_behind_total := total,
                     ld_tenants := hm_insert t (st\<lparr>te_segments := segments, te_behind := behind\<rparr>)
                       (ld_tenants l)\<rparr>))"

definition ledger_remove :: "uuid \<Rightarrow> segment_ledger \<Rightarrow> segment_ledger \<times> nat" where
  "ledger_remove i l =
     (case hm_get (ld_segments l) i of
        None \<Rightarrow> (l, 0)
      | Some e \<Rightarrow>
          (let l = l\<lparr>ld_segments := hm_remove i (ld_segments l),
                     ld_reclaiming := (if is_reclaiming (sg_state e) then ld_reclaiming l - {i}
                                       else ld_reclaiming l),
                     ld_held_bytes := (if sg_pending e \<noteq> {} then ld_held_bytes l - sg_bytes e
                                       else ld_held_bytes l),
                     ld_held_segments := (if sg_pending e \<noteq> {} then ld_held_segments l - 1
                                          else ld_held_segments l),
                     ld_unpinned := ld_unpinned l - {i}\<rparr>
           in (fold (leave i) (map fst (sg_members e)) l, sg_bytes e)))"

section \<open>Applying horizons\<close>

definition rewind :: "tenant \<Rightarrow> segment_ledger \<Rightarrow> segment_ledger" where
  "rewind t l =
     (case hm_get (ld_tenants l) t of
        None \<Rightarrow> l
      | Some st \<Rightarrow>
          (let l = l\<lparr>ld_tenants := hm_insert t
                       (st\<lparr>te_cursor := None, te_behind := card (te_segments st)\<rparr>) (ld_tenants l),
                     ld_behind_total := ld_behind_total l - te_behind st + card (te_segments st)\<rparr>
           in fold (\<lambda>i l. let l = withdraw i (fst (pin t i l)) in l\<lparr>ld_unpinned := ld_unpinned l - {i}\<rparr>)
                (sorted_list_of_set (te_segments st)) l))"

definition regressed :: "marks \<Rightarrow> tenant \<times> tenant_entry \<Rightarrow> bool" where
  "regressed ms ts =
     (case te_horizon (snd ts) of
        None \<Rightarrow> False
      | Some held \<Rightarrow> (case mark_of ms (fst ts) of None \<Rightarrow> True | Some n \<Rightarrow> n < held))"

definition receive :: "marks \<Rightarrow> segment_ledger \<Rightarrow> segment_ledger" where
  "receive ms l =
     (let rewound = map fst (filter (regressed ms) (ld_tenants l));
          l = fold rewind rewound l
      in l\<lparr>ld_tenants := map (\<lambda>(t, st). (t, st\<lparr>te_horizon := mark_of ms t\<rparr>)) (ld_tenants l)\<rparr>)"

definition next_covered :: "segment_ledger \<Rightarrow> tenant \<Rightarrow> uuid option" where
  "next_covered l t =
     (case hm_get (ld_tenants l) t of
        None \<Rightarrow> None
      | Some st \<Rightarrow>
          (case (te_horizon st, first_above (te_cursor st) (te_segments st)) of
             (Some horizon, Some next) \<Rightarrow>
               (case hm_get (ld_segments l) next of
                  None \<Rightarrow> None
                | Some e \<Rightarrow>
                    (case hm_get (sg_members e) t of
                       None \<Rightarrow> None
                     | Some sp \<Rightarrow> (if sp_last sp \<le> horizon then Some next else None)))
           | _ \<Rightarrow> None))"

definition apply_to :: "tenant \<Rightarrow> uuid \<Rightarrow> segment_ledger \<Rightarrow> segment_ledger" where
  "apply_to t i l =
     (let l = unpin t i l in
      case hm_get (ld_tenants l) t of
        None \<Rightarrow> l
      | Some st \<Rightarrow>
          l\<lparr>ld_tenants := hm_insert t (st\<lparr>te_cursor := Some i, te_behind := te_behind st - 1\<rparr>) (ld_tenants l),
            ld_behind_total := ld_behind_total l - 1\<rparr>)"

definition ledger_step :: "tenant \<Rightarrow> segment_ledger \<Rightarrow> segment_ledger \<times> bool" where
  "ledger_step t l =
     (case next_covered l t of None \<Rightarrow> (l, False) | Some i \<Rightarrow> (apply_to t i l, True))"

definition any_behind :: "segment_ledger \<Rightarrow> bool" where
  "any_behind l \<longleftrightarrow> ld_behind_total l > 0"

function walk_loop :: "nat \<Rightarrow> tenant list \<Rightarrow> segment_ledger \<Rightarrow> segment_ledger \<times> bool" where
  "walk_loop 0 active l = (l, any_behind l)"
| "walk_loop (Suc left) [] l = (l, False)"
| "walk_loop (Suc left) (t # active) l =
     (case ledger_step t l of
        (l, True) \<Rightarrow> walk_loop left (active @ [t]) l
      | (l, False) \<Rightarrow> walk_loop (Suc left) active l)"
  by pat_completeness auto
termination by (relation "measures [\<lambda>(left, active, l). left, \<lambda>(left, active, l). length active]") auto

definition walk :: "nat \<Rightarrow> segment_ledger \<Rightarrow> segment_ledger \<times> bool" where
  "walk budget l = walk_loop budget (map fst (filter (\<lambda>(_, st). te_behind st > 0) (ld_tenants l))) l"

definition min_opt :: "wal_offset option \<Rightarrow> wal_offset option \<Rightarrow> wal_offset option" where
  "min_opt a b = (case (a, b) of (None, _) \<Rightarrow> b | (_, None) \<Rightarrow> a | (Some x, Some y) \<Rightarrow> Some (min x y))"

definition derive_floor :: "segment_ledger \<Rightarrow> retain_floor" where
  "derive_floor l =
     (let mark = (\<lambda>(t, st). case te_horizon st of Some h \<Rightarrow> Some h | None \<Rightarrow> oldest_frame l t);
          pinned = length (filter (\<lambda>(_, st). te_horizon st = None) (ld_tenants l))
      in case foldl min_opt None (map mark (ld_tenants l)) of
           None \<Rightarrow>
             (case ld_segments l of
                [] \<Rightarrow> Floor_Unknown
              | _ \<Rightarrow> Floor_Min (Max (set (map (\<lambda>(_, e). sg_highest e) (ld_segments l)))))
         | Some p \<Rightarrow> (if pinned = 0 then Floor_Min p else Floor_Pinned p pinned))"

definition ledger_apply :: "snapshot_horizons \<Rightarrow> nat \<Rightarrow> segment_ledger \<Rightarrow> segment_ledger \<times> bool" where
  "ledger_apply horizons budget l =
     (case horizons of
        NoConsumer \<Rightarrow> (l\<lparr>ld_consumer := False, ld_floor := Floor_None\<rparr>, False)
      | Known ms \<Rightarrow>
          (let l = receive ms (l\<lparr>ld_consumer := True\<rparr>);
               (l, capped) = walk budget l
           in (l\<lparr>ld_floor := derive_floor l\<rparr>, capped)))"

section \<open>Planning a pass\<close>

record planned_rows =
  pr_durable :: "uuid set"
  pr_free :: nat

definition planned_rows_new :: "uuid set \<Rightarrow> nat \<Rightarrow> nat \<Rightarrow> planned_rows" where
  "planned_rows_new durable occupied capacity =
     \<lparr>pr_durable = durable, pr_free = capacity - max occupied (card durable)\<rparr>"

definition affords :: "planned_rows \<Rightarrow> uuid \<Rightarrow> bool" where
  "affords rows i \<longleftrightarrow> pr_free rows > 0 \<or> i \<in> pr_durable rows"

definition spend :: "uuid \<Rightarrow> planned_rows \<Rightarrow> planned_rows" where
  "spend i rows = (if i \<in> pr_durable rows then rows else rows\<lparr>pr_free := pr_free rows - 1\<rparr>)"

record pop_bound =
  pb_checkpoint :: wal_offset
  pb_current :: uuid
  pb_tenant_aware :: bool
  pb_rows :: planned_rows

datatype admit = Admit_Reclaiming | Admit_Rowed | Admit_Eligible

record popped =
  pp_path :: bytes
  pp_segment :: uuid
  pp_uncertain :: bool
  pp_last_offsets :: "(tenant \<times> wal_offset) list"

definition covered_by :: "pop_bound \<Rightarrow> segment_ledger \<Rightarrow> uuid \<Rightarrow> bool" where
  "covered_by b l i =
     (case hm_get (ld_segments l) i of Some e \<Rightarrow> sg_highest e \<le> pb_checkpoint b | None \<Rightarrow> False)"

definition unclaimed :: "pop_bound \<Rightarrow> segment_ledger \<Rightarrow> uuid \<Rightarrow> bool" where
  "unclaimed b l i = (if pb_tenant_aware b then i \<in> ld_unpinned l else i \<notin> ld_reclaiming l)"

fun candidates :: "pop_bound \<Rightarrow> nat \<Rightarrow> segment_ledger \<Rightarrow> admit \<Rightarrow> uuid list" where
  "candidates b budget l Admit_Reclaiming = sorted_list_of_set (ld_reclaiming l)"
| "candidates b budget l Admit_Rowed =
     filter (\<lambda>i. i \<noteq> pb_current b \<and> covered_by b l i \<and> unclaimed b l i)
       (sorted_list_of_set (pr_durable (pb_rows b)))"
| "candidates b budget l Admit_Eligible =
     take (budget + 1)
       (filter (\<lambda>i. i \<noteq> pb_current b \<and> (pb_tenant_aware b \<or> unclaimed b l i))
         (takeWhile (covered_by b l)
           (if pb_tenant_aware b then sorted_list_of_set (ld_unpinned l)
            else sort (map fst (ld_segments l)))))"

definition admits :: "pop_bound \<Rightarrow> segment_ledger \<Rightarrow> admit \<Rightarrow> uuid \<Rightarrow> bool" where
  "admits b l ad i =
     (case hm_get (ld_segments l) i of
        None \<Rightarrow> False
      | Some e \<Rightarrow> (ad = Admit_Reclaiming \<or> sg_state e = Eligible \<and> sg_highest e \<le> pb_checkpoint b))"

definition take_segment :: "uuid \<Rightarrow> uuid \<Rightarrow> segment_ledger \<Rightarrow> segment_ledger \<times> popped option" where
  "take_segment i current l =
     (if i = current then (l, None)
      else (case hm_get (ld_segments l) i of
              None \<Rightarrow> (l, None)
            | Some e \<Rightarrow>
                (let uncertain = (sg_attempted e \<or> sg_state e = Reclaiming True)
                 in (l\<lparr>ld_reclaiming := (if sg_state e = Eligible then insert i (ld_reclaiming l)
                                        else ld_reclaiming l),
                       ld_segments := hm_insert i
                         (e\<lparr>sg_state := Reclaiming uncertain, sg_attempted := True\<rparr>) (ld_segments l),
                       ld_unpinned := ld_unpinned l - {i}\<rparr>,
                     Some \<lparr>pp_path = sg_path e, pp_segment = i, pp_uncertain = uncertain,
                           pp_last_offsets =
                             sort_key fst (map (\<lambda>(t, sp). (t, sp_last sp)) (sg_members e))\<rparr>))))"

fun drain_loop ::
  "pop_bound \<Rightarrow> nat \<Rightarrow> admit \<Rightarrow> uuid list \<Rightarrow> bool \<Rightarrow> popped list \<times> planned_rows \<times> segment_ledger
     \<Rightarrow> (popped list \<times> planned_rows \<times> segment_ledger) \<times> bool" where
  "drain_loop b budget ad [] refused acc = (acc, refused)"
| "drain_loop b budget ad (i # is) refused (out, rows, l) =
     (if length out \<ge> budget then ((out, rows, l), True)
      else if \<not> admits b l ad i then drain_loop b budget ad is refused (out, rows, l)
      else if \<not> affords rows i then drain_loop b budget ad is True (out, rows, l)
      else (case take_segment i (pb_current b) l of
              (l, None) \<Rightarrow> drain_loop b budget ad is refused (out, rows, l)
            | (l, Some p) \<Rightarrow> drain_loop b budget ad is refused (out @ [p], spend i rows, l)))"

definition drain ::
  "pop_bound \<Rightarrow> nat \<Rightarrow> admit \<Rightarrow> popped list \<times> planned_rows \<times> segment_ledger
     \<Rightarrow> (popped list \<times> planned_rows \<times> segment_ledger) \<times> bool" where
  "drain b budget ad acc =
     drain_loop b budget ad (candidates b budget (snd (snd acc)) ad) False acc"

definition pop :: "pop_bound \<Rightarrow> nat \<Rightarrow> segment_ledger \<Rightarrow> segment_ledger \<times> popped list \<times> bool" where
  "pop b budget l =
     (if \<not> ld_describes_root l then (l, [], False)
      else (let acc = ([], pb_rows b, l);
                (acc, c1) = drain b budget Admit_Reclaiming acc;
                (acc, c2) = drain b budget Admit_Rowed acc;
                (acc, c3) = drain b budget Admit_Eligible acc
            in (snd (snd acc), fst acc, c1 \<or> c2 \<or> c3)))"

section \<open>Views\<close>

abbreviation segs :: "segment_ledger \<Rightarrow> uuid \<Rightarrow> seg_entry option" where
  "segs l \<equiv> map_of (ld_segments l)"

abbreviation tens :: "segment_ledger \<Rightarrow> tenant \<Rightarrow> tenant_entry option" where
  "tens l \<equiv> map_of (ld_tenants l)"

lemmas map_upd = update_conv' delete_conv'

lemma first_above_Some:
  assumes "finite S" and "first_above c S = Some i"
  shows "i \<in> S" and "is_above c i" and "\<And>j. j \<in> S \<Longrightarrow> is_above c j \<Longrightarrow> i \<le> j"
proof -
  let ?A = "{x \<in> S. is_above c x}"
  have fin: "finite ?A" using assms(1) by simp
  obtain xs where xs: "sorted_list_of_set ?A = i # xs"
    using assms(2) by (auto simp: first_above_def split: list.splits)
  have "set (i # xs) = ?A" "sorted (i # xs)"
    using fin by (simp_all flip: xs)
  then show "i \<in> S" "is_above c i" "\<And>j. j \<in> S \<Longrightarrow> is_above c j \<Longrightarrow> i \<le> j" by auto
qed

lemma first_above_None:
  assumes "finite S"
  shows "first_above c S = None \<longleftrightarrow> (\<forall>i \<in> S. \<not> is_above c i)"
proof -
  have "first_above c S = None \<longleftrightarrow> sorted_list_of_set {x \<in> S. is_above c x} = []"
    by (simp add: first_above_def split: list.split)
  with assms show ?thesis by auto
qed

lemma sorted_le_last: "sorted xs \<Longrightarrow> x \<in> set xs \<Longrightarrow> x \<le> last xs"
  by (induction xs) (auto split: if_splits)

lemma last_below_Some:
  assumes "finite S" and "last_below i S = Some c"
  shows "c \<in> S" and "c < i" and "\<And>j. j \<in> S \<Longrightarrow> j < i \<Longrightarrow> j \<le> c"
proof -
  let ?A = "{x \<in> S. x < i}"
  let ?xs = "sorted_list_of_set ?A"
  have fin: "finite ?A" using assms(1) by simp
  have ne: "?xs \<noteq> []" and c: "c = last ?xs"
    using assms(2) by (auto simp: last_below_def Let_def split: if_splits)
  have "c \<in> ?A" using last_in_set [OF ne] fin c by simp
  then show "c \<in> S" "c < i" by auto
  fix j assume "j \<in> S" "j < i"
  then have "j \<in> set ?xs" using fin by simp
  then show "j \<le> c" using c sorted_le_last [OF sorted_sorted_list_of_set [of ?A]] by simp
qed

lemma last_below_None: "finite S \<Longrightarrow> last_below i S = None \<longleftrightarrow> (\<forall>j \<in> S. \<not> j < i)"
  by (auto simp: last_below_def Let_def)

section \<open>The invariant\<close>

text \<open>The two set indexes agree with the entries they index.\<close>

definition index_ok :: "segment_ledger \<Rightarrow> bool" where
  "index_ok l \<longleftrightarrow>
     ld_unpinned l = {i. \<exists>e. segs l i = Some e \<and> sg_state e = Eligible \<and> sg_pending e = {}}
     \<and> ld_reclaiming l = {i. \<exists>e. segs l i = Some e \<and> is_reclaiming (sg_state e)}"

text \<open>A popped segment is closed, held back by nobody and at or below the checkpoint.\<close>

definition popped_ok :: "uuid \<Rightarrow> wal_offset option \<Rightarrow> segment_ledger \<Rightarrow> bool" where
  "popped_ok cur ck l \<longleftrightarrow>
     (\<forall>i e. segs l i = Some e \<longrightarrow> is_reclaiming (sg_state e) \<longrightarrow>
        sg_pending e = {} \<and> i \<noteq> cur \<and> (\<exists>k. ck = Some k \<and> sg_highest e \<le> k))"

text \<open>A tenant holds a segment back exactly while its cursor is below it, and its horizon covers
  whatever it no longer holds back.\<close>

definition member_ok :: "(tenant \<Rightarrow> tenant_entry option) \<Rightarrow> uuid \<Rightarrow> seg_entry \<Rightarrow> tenant \<Rightarrow> span \<Rightarrow> bool" where
  "member_ok T i e t sp \<longleftrightarrow>
     (\<exists>st. T t = Some st \<and> i \<in> te_segments st
        \<and> (t \<in> sg_pending e \<longleftrightarrow> is_above (te_cursor st) i)
        \<and> (t \<notin> sg_pending e \<longrightarrow> (\<exists>h. te_horizon st = Some h \<and> sp_last sp \<le> h)))"

definition members_ok :: "segment_ledger \<Rightarrow> bool" where
  "members_ok l \<longleftrightarrow>
     (\<forall>i e t sp. segs l i = Some e \<longrightarrow> map_of (sg_members e) t = Some sp \<longrightarrow> member_ok (tens l) i e t sp)"

definition pending_ok :: "segment_ledger \<Rightarrow> bool" where
  "pending_ok l \<longleftrightarrow>
     (\<forall>i e. segs l i = Some e \<longrightarrow>
        hm_wf (sg_members e) \<and> sg_pending e \<subseteq> fst ` set (sg_members e))"

definition tenants_ok :: "marks \<Rightarrow> uuid \<Rightarrow> segment_ledger \<Rightarrow> bool" where
  "tenants_ok ms cur l \<longleftrightarrow>
     (\<forall>t st. tens l t = Some st \<longrightarrow>
        finite (te_segments st) \<and> te_segments st \<noteq> {}
        \<and> (\<forall>i \<in> te_segments st. \<exists>e sp. segs l i = Some e \<and> map_of (sg_members e) t = Some sp)
        \<and> (te_horizon st = None \<or> te_horizon st = mark_of ms t)
        \<and> (\<forall>c. te_cursor st = Some c \<longrightarrow> c \<le> cur \<and> (c = cur \<longrightarrow> c \<in> te_segments st)))"

text \<open>Entries say of each segment what its frames say: the highest offset, and each tenant's last.\<close>

definition top_of :: "wal_offset set \<Rightarrow> wal_offset \<Rightarrow> bool" where
  "top_of A p \<longleftrightarrow> p \<in> A \<and> (\<forall>q \<in> A. q \<le> p)"

definition frames_in :: "frame_at list \<Rightarrow> uuid \<Rightarrow> wal_offset set" where
  "frames_in seen i = {fa_offset f | f. f \<in> set seen \<and> wo_segment (fa_offset f) = i}"

definition tenant_frames_in :: "frame_at list \<Rightarrow> uuid \<Rightarrow> tenant \<Rightarrow> wal_offset set" where
  "tenant_frames_in seen i t =
     {fa_offset f | f. f \<in> set seen \<and> wo_segment (fa_offset f) = i \<and> fa_tenant f = Some t}"

definition last_ok :: "wal_offset set \<Rightarrow> span option \<Rightarrow> bool" where
  "last_ok A m = (case m of None \<Rightarrow> A = {} | Some sp \<Rightarrow> top_of A (sp_last sp))"

definition seen_ok :: "frame_at list \<Rightarrow> uuid \<Rightarrow> segment_ledger \<Rightarrow> bool" where
  "seen_ok seen cur l \<longleftrightarrow>
     (\<forall>f \<in> set seen. wo_segment (fa_offset f) \<le> cur)
     \<and> (segs l cur = None \<longrightarrow> frames_in seen cur = {})
     \<and> (\<forall>i e. segs l i = Some e \<longrightarrow>
          i \<le> cur \<and> top_of (frames_in seen i) (sg_highest e)
          \<and> (\<forall>t. last_ok (tenant_frames_in seen i t) (map_of (sg_members e) t)))"

definition ledger_inv ::
  "marks \<Rightarrow> wal_offset option \<Rightarrow> uuid \<Rightarrow> frame_at list \<Rightarrow> segment_ledger \<Rightarrow> bool" where
  "ledger_inv ms ck cur seen l \<longleftrightarrow>
     index_ok l \<and> popped_ok cur ck l \<and> members_ok l \<and> pending_ok l \<and> tenants_ok ms cur l
     \<and> seen_ok seen cur l"

section \<open>Observing keeps the invariant\<close>

lemma frames_in_snoc:
  "frames_in (seen @ [f]) i
     = (if wo_segment (fa_offset f) = i then insert (fa_offset f) (frames_in seen i) else frames_in seen i)"
  by (auto simp: frames_in_def)

lemma tenant_frames_in_snoc:
  "tenant_frames_in (seen @ [f]) i t
     = (if wo_segment (fa_offset f) = i \<and> fa_tenant f = Some t
        then insert (fa_offset f) (tenant_frames_in seen i t) else tenant_frames_in seen i t)"
  by (auto simp: tenant_frames_in_def)

lemma top_of_insert: "top_of A p \<Longrightarrow> top_of (insert q A) (max p q)"
  by (auto simp: top_of_def max_def)

lemma top_of_singleton [simp]: "top_of {p} q \<longleftrightarrow> q = p"
  by (auto simp: top_of_def)

lemma not_reclaiming [simp]: "\<not> is_reclaiming s \<longleftrightarrow> s = Eligible"
  by (cases s) auto

definition fresh_entry :: "frame_at \<Rightarrow> seg_entry" where
  "fresh_entry fa =
     \<lparr>sg_path = fa_path fa, sg_highest = fa_offset fa, sg_bytes = 0, sg_members = [],
      sg_pending = {}, sg_state = Eligible, sg_attempted = False\<rparr>"

definition entry_at :: "segment_ledger \<Rightarrow> frame_at \<Rightarrow> seg_entry" where
  "entry_at l fa = (case segs l (wo_segment (fa_offset fa)) of Some e \<Rightarrow> e | None \<Rightarrow> fresh_entry fa)"

lemma record_frame_view:
  shows "segs (record_frame fa l) = (segs l)(wo_segment (fa_offset fa) \<mapsto>
           (entry_at l fa)\<lparr>sg_bytes := sg_bytes (entry_at l fa) + fa_bytes fa,
                           sg_highest := max (sg_highest (entry_at l fa)) (fa_offset fa)\<rparr>)"
    and "tens (record_frame fa l) = tens l"
    and "ld_reclaiming (record_frame fa l) = ld_reclaiming l"
    and "ld_unpinned (record_frame fa l)
         = (if sg_state (entry_at l fa) = Eligible \<and> sg_pending (entry_at l fa) = {}
            then insert (wo_segment (fa_offset fa)) (ld_unpinned l) else ld_unpinned l)"
  by (simp_all add: record_frame_def entry_at_def fresh_entry_def Let_def map_upd split: option.split) auto

lemma entry_at_cases:
  assumes "segs l (wo_segment (fa_offset fa)) = None \<Longrightarrow> P (fresh_entry fa)"
    and "\<And>e. segs l (wo_segment (fa_offset fa)) = Some e \<Longrightarrow> P e"
  shows "P (entry_at l fa)"
  using assms by (simp add: entry_at_def split: option.split)

lemma current_eligible:
  "popped_ok cur ck l \<Longrightarrow> segs l cur = Some e \<Longrightarrow> sg_state e = Eligible"
  by (metis not_reclaiming popped_ok_def)

lemma record_frame_inv:
  assumes inv: "ledger_inv ms ck cur seen l"
    and at_cur: "wo_segment (fa_offset fa) = cur" and none: "fa_tenant fa = None"
  shows "ledger_inv ms ck cur (seen @ [fa]) (record_frame fa l)"
proof -
  note v = record_frame_view [of fa l, unfolded at_cur]
  from inv have idx: "index_ok l" and pop: "popped_ok cur ck l" and mem: "members_ok l"
    and pen: "pending_ok l" and ten: "tenants_ok ms cur l" and seen: "seen_ok seen cur l"
    by (simp_all add: ledger_inv_def)
  let ?e = "entry_at l fa"
  have st: "sg_state ?e = Eligible"
    by (rule entry_at_cases) (use at_cur current_eligible [OF pop] in \<open>auto simp: fresh_entry_def\<close>)
  have new: "segs l cur = None \<and> ?e = fresh_entry fa \<or> segs l cur = Some ?e"
    by (auto simp: entry_at_def at_cur split: option.split)
  have "index_ok (record_frame fa l)"
    using idx new st by (auto simp: index_ok_def v fresh_entry_def)
  moreover have "popped_ok cur ck (record_frame fa l)"
    using pop st by (auto simp: popped_ok_def v)
  moreover have "members_ok (record_frame fa l)"
    using mem new by (auto simp: members_ok_def member_ok_def v fresh_entry_def)
  moreover have "pending_ok (record_frame fa l)"
    using pen new by (auto simp: pending_ok_def v fresh_entry_def)
  moreover have "tenants_ok ms cur (record_frame fa l)"
    using ten new by (fastforce simp: tenants_ok_def v fresh_entry_def)
  moreover have "seen_ok (seen @ [fa]) cur (record_frame fa l)"
  proof -
    have hi: "top_of (insert (fa_offset fa) (frames_in seen cur)) (max (sg_highest ?e) (fa_offset fa))"
      using new
    proof
      assume "segs l cur = None \<and> ?e = fresh_entry fa"
      then show ?thesis using seen by (simp add: seen_ok_def fresh_entry_def)
    next
      assume "segs l cur = Some ?e"
      then show ?thesis using seen by (intro top_of_insert) (simp add: seen_ok_def)
    qed
    have mb: "last_ok (tenant_frames_in seen cur t) (map_of (sg_members ?e) t)" for t
      using new
    proof
      assume n: "segs l cur = None \<and> ?e = fresh_entry fa"
      then have "frames_in seen cur = {}" using seen by (simp add: seen_ok_def)
      then have "tenant_frames_in seen cur t = {}" by (auto simp: frames_in_def tenant_frames_in_def)
      then show ?thesis using n by (simp add: fresh_entry_def last_ok_def)
    next
      assume "segs l cur = Some ?e"
      then show ?thesis using seen by (simp add: seen_ok_def)
    qed
    show ?thesis
      using seen hi mb at_cur none
      by (simp add: seen_ok_def v frames_in_snoc tenant_frames_in_snoc)
  qed
  ultimately show ?thesis by (simp add: ledger_inv_def)
qed

lemma ledger_invD:
  assumes "ledger_inv ms ck cur seen l"
  shows "index_ok l" "popped_ok cur ck l" "members_ok l" "pending_ok l" "tenants_ok ms cur l"
    "seen_ok seen cur l"
  using assms by (simp_all add: ledger_inv_def)

lemma memberD:
  assumes "members_ok l" and "segs l i = Some e" and "map_of (sg_members e) t = Some sp"
  obtains st where "tens l t = Some st" "i \<in> te_segments st"
    "t \<in> sg_pending e \<longleftrightarrow> is_above (te_cursor st) i"
    "t \<notin> sg_pending e \<Longrightarrow> \<exists>h. te_horizon st = Some h \<and> sp_last sp \<le> h"
  using assms unfolding members_ok_def member_ok_def by blast

lemma tenantD:
  assumes "tenants_ok ms cur l" and "tens l t = Some st"
  shows "finite (te_segments st)" "te_segments st \<noteq> {}"
    "\<And>i. i \<in> te_segments st \<Longrightarrow> \<exists>e sp. segs l i = Some e \<and> map_of (sg_members e) t = Some sp"
    "te_horizon st = None \<or> te_horizon st = mark_of ms t"
    "\<And>c. te_cursor st = Some c \<Longrightarrow> c \<le> cur \<and> (c = cur \<longrightarrow> c \<in> te_segments st)"
  using assms by (auto simp: tenants_ok_def)

text \<open>The ghost frame of the step just recorded, seen first without its tenant and then with it.\<close>

lemma seen_ok_member:
  assumes "seen_ok (seen @ [fa\<lparr>fa_tenant := None\<rparr>]) cur l"
    and "wo_segment (fa_offset fa) = cur" and "fa_tenant fa = Some t"
    and "segs l cur = Some e" and "segs l' = (segs l)(cur \<mapsto> e')"
    and "sg_highest e' = sg_highest e"
    and "\<And>u. u \<noteq> t \<Longrightarrow> map_of (sg_members e') u = map_of (sg_members e) u"
    and "last_ok (insert (fa_offset fa) (tenant_frames_in seen cur t)) (map_of (sg_members e') t)"
  shows "seen_ok (seen @ [fa]) cur l'"
proof -
  have "last_ok (tenant_frames_in (seen @ [fa]) cur u) (map_of (sg_members e') u)" for u
    using assms by (cases "u = t") (auto simp: seen_ok_def tenant_frames_in_snoc)
  moreover have "last_ok (tenant_frames_in (seen @ [fa]) i u) (map_of (sg_members d) u)"
    if "segs l i = Some d" "i \<noteq> cur" for i d u
    using assms(1,2) that by (simp add: seen_ok_def tenant_frames_in_snoc)
  moreover have "frames_in (seen @ [fa\<lparr>fa_tenant := None\<rparr>]) = frames_in (seen @ [fa])"
    by (simp add: frames_in_snoc fun_eq_iff)
  ultimately show ?thesis
    using assms(1,2,4-6) by (simp add: seen_ok_def)
qed

lemma extend_repin_inv:
  assumes inv: "ledger_inv ms ck cur (seen @ [fa\<lparr>fa_tenant := None\<rparr>]) l"
    and at_cur: "wo_segment (fa_offset fa) = cur" and ten: "fa_tenant fa = Some t"
    and e: "segs l cur = Some e" and sp: "map_of (sg_members e) t = Some sp"
  shows "ledger_inv ms ck cur (seen @ [fa]) (repin t cur (fst (extend_span t (fa_offset fa) l)))"
    (is "ledger_inv _ _ _ _ ?l'")
proof -
  note I = ledger_invD [OF inv]
  define sp' where "sp' = sp\<lparr>sp_last := max (sp_last sp) (fa_offset fa)\<rparr>"
  define e2 where "e2 = e\<lparr>sg_members := hm_insert t sp' (sg_members e)\<rparr>"
  define l2 where "l2 = fst (extend_span t (fa_offset fa) l)"
  have l2: "l2 = l\<lparr>ld_segments := hm_insert cur e2 (ld_segments l)\<rparr>"
    by (simp add: l2_def extend_span_def at_cur e sp e2_def sp'_def)
  have m2: "map_of (sg_members e2) = (map_of (sg_members e))(t \<mapsto> sp')"
    by (simp add: e2_def map_upd)
  have el: "sg_state e = Eligible" using current_eligible [OF I(2) e] .
  obtain st where st: "tens l t = Some st" "cur \<in> te_segments st"
    "t \<in> sg_pending e \<longleftrightarrow> is_above (te_cursor st) cur"
    by (rule memberD [OF I(3) e sp]) (rule that)
  have top: "top_of (tenant_frames_in seen cur t) (sp_last sp)"
  proof -
    have "last_ok (tenant_frames_in (seen @ [fa\<lparr>fa_tenant := None\<rparr>]) cur t) (Some sp)"
      using I(6) e sp by (metis seen_ok_def)
    then show ?thesis by (simp add: last_ok_def tenant_frames_in_snoc)
  qed
  have lo: "last_ok (insert (fa_offset fa) (tenant_frames_in seen cur t)) (Some sp')"
    using top_of_insert [OF top] by (simp add: last_ok_def sp'_def)
  define covered where "covered = (\<exists>h. te_horizon st = Some h \<and> sp_last sp' \<le> h)"
  have rp: "?l' = (if covered \<or> t \<in> sg_pending e then l2
      else l2\<lparr>ld_segments := hm_insert cur (e2\<lparr>sg_pending := insert t (sg_pending e)\<rparr>) (ld_segments l2),
              ld_held_bytes := (if sg_pending e = {} then ld_held_bytes l2 + sg_bytes e else ld_held_bytes l2),
              ld_held_segments := (if sg_pending e = {} then ld_held_segments l2 + 1 else ld_held_segments l2),
              ld_unpinned := ld_unpinned l2 - {cur},
              ld_tenants := hm_insert t (st\<lparr>te_cursor := last_below cur (te_segments st),
                                           te_behind := te_behind st + 1\<rparr>) (ld_tenants l2),
              ld_behind_total := ld_behind_total l2 + 1\<rparr>)"
    unfolding l2_def [symmetric] using st
    by (auto simp: repin_def pin_def l2 map_upd m2 covered_def e2_def split: option.splits)
  show ?thesis
  proof (cases "covered \<or> t \<in> sg_pending e")
    case True
    have s': "segs ?l' = (segs l)(cur \<mapsto> e2)" and t': "tens ?l' = tens l"
      and u': "ld_unpinned ?l' = ld_unpinned l" "ld_reclaiming ?l' = ld_reclaiming l"
      using True by (simp_all add: rp l2 map_upd)
    have "index_ok ?l'" using I(1) e by (auto simp: index_ok_def s' u' e2_def)
    moreover have "popped_ok cur ck ?l'" using I(2) e el by (auto simp: popped_ok_def s' e2_def)
    moreover have "members_ok ?l'"
    proof -
      have "member_ok (tens l) cur e2 u d" if "map_of (sg_members e2) u = Some d" for u d
      proof (cases "u = t")
        case False
        with that have "map_of (sg_members e) u = Some d" by (simp add: m2)
        with I(3) e have "member_ok (tens l) cur e u d" by (simp add: members_ok_def)
        then show ?thesis by (simp add: member_ok_def e2_def)
      next
        case u: True
        with that have "d = sp'" by (simp add: m2)
        with True st u show ?thesis by (auto simp: member_ok_def e2_def covered_def)
      qed
      then show ?thesis using I(3) by (simp add: members_ok_def s' t')
    qed
    moreover have "pending_ok ?l'" using I(4) e sp
      by (auto simp: pending_ok_def s' e2_def dom_map_of_conv_image_fst [symmetric] map_upd)
    moreover have "tenants_ok ms cur ?l'"
      using I(5) e by (fastforce simp: tenants_ok_def s' t' m2)
    moreover have "seen_ok (seen @ [fa]) cur ?l'"
      by (rule seen_ok_member [OF I(6) at_cur ten e s']) (use lo in \<open>simp_all add: e2_def map_upd\<close>)
    ultimately show ?thesis by (simp add: ledger_inv_def)
  next
    case False
    define e3 where "e3 = e2\<lparr>sg_pending := insert t (sg_pending e)\<rparr>"
    define st' where "st' = st\<lparr>te_cursor := last_below cur (te_segments st), te_behind := te_behind st + 1\<rparr>"
    have s': "segs ?l' = (segs l)(cur \<mapsto> e3)" and t': "tens ?l' = (tens l)(t \<mapsto> st')"
      and u': "ld_unpinned ?l' = ld_unpinned l - {cur}" "ld_reclaiming ?l' = ld_reclaiming l"
      using False by (simp_all add: rp l2 map_upd e3_def st'_def)
    have m3: "map_of (sg_members e3) = (map_of (sg_members e))(t \<mapsto> sp')" by (simp add: e3_def m2)
    have "\<not> is_above (te_cursor st) cur" using False st by simp
    then have cc: "te_cursor st = Some cur"
      using tenantD(5) [OF I(5) st(1)] by (auto simp: is_above_def split: option.splits)
    have fin: "finite (te_segments st)" using tenantD(1) [OF I(5) st(1)] .
    have up: "j \<le> cur" if "segs l j = Some d" for j d using I(6) that by (auto simp: seen_ok_def)
    have below: "\<not> is_above (last_below cur (te_segments st)) j" if "j \<in> te_segments st" "j \<noteq> cur" for j
    proof -
      have "j < cur" using tenantD(3) [OF I(5) st(1) that(1)] up that(2) by fastforce
      with that last_below_Some [OF fin] last_below_None [OF fin, of cur] show ?thesis
        by (cases "last_below cur (te_segments st)") (auto simp: is_above_def not_less)
    qed
    have above: "is_above (last_below cur (te_segments st)) cur"
      using last_below_Some(2) [OF fin] by (auto simp: is_above_def split: option.split)
    have "index_ok ?l'" using I(1) e el by (auto simp: index_ok_def s' u' e3_def e2_def)
    moreover have "popped_ok cur ck ?l'" using I(2) e el by (auto simp: popped_ok_def s' e3_def e2_def)
    moreover have "members_ok ?l'"
    proof -
      have "member_ok (tens ?l') i d u w"
        if d: "segs ?l' i = Some d" and w: "map_of (sg_members d) u = Some w" for i d u w
      proof (cases "i = cur")
        case True
        with d have [simp]: "d = e3" by (simp add: s')
        show ?thesis
        proof (cases "u = t")
          case u: True
          then show ?thesis using st above True by (simp add: member_ok_def t' st'_def e3_def)
        next
          case False
          with w have "map_of (sg_members e) u = Some w" by (simp add: m3)
          with I(3) e have "member_ok (tens l) cur e u w" by (simp add: members_ok_def)
          with True False show ?thesis by (simp add: member_ok_def t' e3_def e2_def)
        qed
      next
        case i: False
        with d have d': "segs l i = Some d" by (simp add: s')
        show ?thesis
        proof (cases "u = t")
          case False
          then show ?thesis using w d' I(3) by (simp add: members_ok_def member_ok_def t')
        next
          case u: True
          obtain st2 where "tens l t = Some st2" "i \<in> te_segments st2"
            "t \<in> sg_pending d \<longleftrightarrow> is_above (te_cursor st2) i"
            "t \<notin> sg_pending d \<Longrightarrow> \<exists>h. te_horizon st2 = Some h \<and> sp_last w \<le> h"
            by (rule memberD [OF I(3) d' w [unfolded u]]) (rule that)
          with st cc up [OF d'] below [of i] i u show ?thesis
            by (auto simp: member_ok_def t' st'_def is_above_def)
        qed
      qed
      then show ?thesis by (simp add: members_ok_def)
    qed
    moreover have "pending_ok ?l'" using I(4) e sp
      by (auto simp: pending_ok_def s' e3_def e2_def dom_map_of_conv_image_fst [symmetric] map_upd)
    moreover have "tenants_ok ms cur ?l'"
      unfolding tenants_ok_def
    proof (intro allI impI)
      fix u su assume su: "tens ?l' u = Some su"
      have seg: "\<exists>d w. segs ?l' i = Some d \<and> map_of (sg_members d) u = Some w"
        if "segs l i = Some d" "map_of (sg_members d) u = Some w" for i d w
        using that e by (cases "i = cur"; cases "u = t") (auto simp: s' m3)
      obtain so where so: "tens l u = Some so" "te_segments su = te_segments so"
        "te_horizon su = te_horizon so"
        using su st by (cases "u = t") (auto simp: t' st'_def)
      have cu: "c \<le> cur \<and> (c = cur \<longrightarrow> c \<in> te_segments su)" if "te_cursor su = Some c" for c
        using that su tenantD(5) [OF I(5), of u] last_below_Some [OF fin]
        by (cases "u = t") (auto simp: t' st'_def st less_imp_le)
      show "finite (te_segments su) \<and> te_segments su \<noteq> {}
        \<and> (\<forall>i \<in> te_segments su. \<exists>e sp. segs ?l' i = Some e \<and> map_of (sg_members e) u = Some sp)
        \<and> (te_horizon su = None \<or> te_horizon su = mark_of ms u)
        \<and> (\<forall>c. te_cursor su = Some c \<longrightarrow> c \<le> cur \<and> (c = cur \<longrightarrow> c \<in> te_segments su))"
        using tenantD [OF I(5) so(1)] so seg cu by metis
    qed
    moreover have "seen_ok (seen @ [fa]) cur ?l'"
      by (rule seen_ok_member [OF I(6) at_cur ten e s']) (use lo in \<open>simp_all add: e3_def e2_def map_upd\<close>)
    ultimately show ?thesis by (simp add: ledger_inv_def)
  qed
qed

lemma join_inv:
  assumes inv: "ledger_inv ms ck cur (seen @ [fa\<lparr>fa_tenant := None\<rparr>]) l"
    and at_cur: "wo_segment (fa_offset fa) = cur" and ten: "fa_tenant fa = Some t"
    and e: "segs l cur = Some e" and sp: "map_of (sg_members e) t = None"
  shows "ledger_inv ms ck cur (seen @ [fa]) (join_segment t (fa_offset fa) l)"
    (is "ledger_inv _ _ _ _ ?l'")
proof -
  note I = ledger_invD [OF inv]
  define new where "new = \<lparr>sp_first = fa_offset fa, sp_last = fa_offset fa\<rparr>"
  define e2 where "e2 = e\<lparr>sg_members := hm_insert t new (sg_members e), sg_pending := insert t (sg_pending e)\<rparr>"
  define st where "st = (case tens l t of Some st \<Rightarrow> st | None \<Rightarrow> tenant_default)"
  define st' where "st' = st\<lparr>te_segments := insert cur (te_segments st),
     te_behind := te_behind st + (if cur \<notin> te_segments st \<and> is_above (te_cursor st) cur then 1 else 0)\<rparr>"
  have el: "sg_state e = Eligible" using current_eligible [OF I(2) e] .
  have np: "t \<notin> sg_pending e"
  proof
    assume "t \<in> sg_pending e"
    then have "t \<in> fst ` set (sg_members e)" using I(4) e by (auto simp: pending_ok_def)
    then show False using sp by (simp add: map_of_eq_None_iff)
  qed
  have s': "segs ?l' = (segs l)(cur \<mapsto> e2)" and t': "tens ?l' = (tens l)(t \<mapsto> st')"
    and u': "ld_unpinned ?l' = ld_unpinned l - {cur}" "ld_reclaiming ?l' = ld_reclaiming l"
    using np e
    by (simp_all add: join_segment_def pin_def at_cur Let_def map_upd e2_def new_def st_def st'_def)
  have m2: "map_of (sg_members e2) = (map_of (sg_members e))(t \<mapsto> new)" by (simp add: e2_def map_upd)
  have old: "tens l t = Some st \<or> tens l t = None \<and> st = tenant_default"
    by (auto simp: st_def split: option.split)
  have out: "cur \<notin> te_segments st"
    using old tenantD(3) [OF I(5), of t st cur] e sp by (auto simp: tenant_default_def)
  have above: "is_above (te_cursor st) cur"
    using old tenantD(5) [OF I(5), of t st] out
    by (auto simp: is_above_def tenant_default_def split: option.split)
  have "index_ok ?l'" using I(1) e el by (auto simp: index_ok_def s' u' e2_def)
  moreover have "popped_ok cur ck ?l'" using I(2) e el by (auto simp: popped_ok_def s' e2_def)
  moreover have "members_ok ?l'"
  proof -
    have "member_ok (tens ?l') i d u w"
      if d: "segs ?l' i = Some d" and w: "map_of (sg_members d) u = Some w" for i d u w
    proof (cases "u = t")
      case False
      show ?thesis
      proof (cases "i = cur")
        case True
        with d have de: "d = e2" by (simp add: s')
        with w False have "map_of (sg_members e) u = Some w" by (simp add: m2)
        with I(3) e have "member_ok (tens l) cur e u w" by (simp add: members_ok_def)
        with True False show ?thesis by (simp add: de member_ok_def t' e2_def)
      next
        case i: False
        with d w I(3) have "member_ok (tens l) i d u w" by (simp add: s' members_ok_def)
        with False show ?thesis by (simp add: member_ok_def t')
      qed
    next
      case u: True
      show ?thesis
      proof (cases "i = cur")
        case True
        then show ?thesis using d u above by (auto simp: s' member_ok_def t' st'_def e2_def)
      next
        case False
        with d have d': "segs l i = Some d" by (simp add: s')
        have "member_ok (tens l) i d t w" using I(3) d' w u by (simp add: members_ok_def)
        then show ?thesis using u old by (auto simp: member_ok_def t' st'_def)
      qed
    qed
    then show ?thesis by (simp add: members_ok_def)
  qed
  moreover have "pending_ok ?l'" using I(4) e
    by (auto simp: pending_ok_def s' e2_def dom_map_of_conv_image_fst [symmetric] map_upd)
  moreover have "tenants_ok ms cur ?l'"
    unfolding tenants_ok_def
  proof (intro allI impI)
    fix u su assume su: "tens ?l' u = Some su"
    have seg: "\<exists>d w. segs ?l' i = Some d \<and> map_of (sg_members d) u = Some w"
      if "segs l i = Some d" "map_of (sg_members d) u = Some w" for i d w
      using that e by (cases "i = cur"; cases "u = t") (auto simp: s' m2)
    have new_seg: "\<exists>d w. segs ?l' cur = Some d \<and> map_of (sg_members d) t = Some w"
      by (simp add: s' m2)
    show "finite (te_segments su) \<and> te_segments su \<noteq> {}
      \<and> (\<forall>i \<in> te_segments su. \<exists>e sp. segs ?l' i = Some e \<and> map_of (sg_members e) u = Some sp)
      \<and> (te_horizon su = None \<or> te_horizon su = mark_of ms u)
      \<and> (\<forall>c. te_cursor su = Some c \<longrightarrow> c \<le> cur \<and> (c = cur \<longrightarrow> c \<in> te_segments su))"
    proof (cases "u = t")
      case False
      then have "tens l u = Some su" using su by (simp add: t')
      from tenantD [OF I(5) this] seg show ?thesis by metis
    next
      case True
      then have [simp]: "su = st'" using su by (simp add: t')
      show ?thesis using old
      proof
        assume o: "tens l t = Some st"
        have "\<exists>d w. segs ?l' i = Some d \<and> map_of (sg_members d) t = Some w" if "i \<in> te_segments st'" for i
          using that new_seg tenantD(3) [OF I(5) o, of i] seg [of i] True
          by (cases "i = cur") (auto simp: st'_def)
        with tenantD(1,4,5) [OF I(5) o] True show ?thesis by (auto simp: st'_def)
      next
        assume "tens l t = None \<and> st = tenant_default"
        then show ?thesis using new_seg True by (simp add: st'_def tenant_default_def)
      qed
    qed
  qed
  moreover have "seen_ok (seen @ [fa]) cur ?l'"
  proof (rule seen_ok_member [OF I(6) at_cur ten e s'])
    have "last_ok (tenant_frames_in (seen @ [fa\<lparr>fa_tenant := None\<rparr>]) cur t) None"
      using I(6) e sp by (metis seen_ok_def)
    then have "tenant_frames_in seen cur t = {}" by (simp add: last_ok_def tenant_frames_in_snoc)
    then show "last_ok (insert (fa_offset fa) (tenant_frames_in seen cur t)) (map_of (sg_members e2) t)"
      by (simp add: m2 last_ok_def new_def)
  qed (simp_all add: e2_def map_upd)
  ultimately show ?thesis by (simp add: ledger_inv_def)
qed

lemma observe_inv:
  assumes inv: "ledger_inv ms ck cur seen l" and at_cur: "wo_segment (fa_offset fa) = cur"
  shows "ledger_inv ms ck cur (seen @ [fa]) (observe fa l)"
proof (cases "fa_tenant fa")
  case None
  with record_frame_inv [OF inv at_cur] show ?thesis by (simp add: observe_def)
next
  case (Some t)
  define l1 where "l1 = record_frame fa l"
  have same: "l1 = record_frame (fa\<lparr>fa_tenant := None\<rparr>) l" by (simp add: l1_def record_frame_def cong: option.case_cong if_cong)
  have i1: "ledger_inv ms ck cur (seen @ [fa\<lparr>fa_tenant := None\<rparr>]) l1"
    unfolding same by (rule record_frame_inv [OF inv]) (simp_all add: at_cur)
  obtain e where e: "segs l1 cur = Some e"
    using record_frame_view(1) [of fa l] by (simp add: l1_def at_cur)
  show ?thesis
  proof (cases "map_of (sg_members e) t")
    case None
    have "observe fa l = join_segment t (fa_offset fa) l1"
      by (simp add: observe_def Some l1_def [symmetric] extend_span_def at_cur e None)
    with join_inv [OF i1 at_cur Some e None] show ?thesis by simp
  next
    case sp: (Some sp)
    have "observe fa l = repin t cur (fst (extend_span t (fa_offset fa) l1))"
      by (simp add: observe_def Some l1_def [symmetric] extend_span_def at_cur e sp)
    with extend_repin_inv [OF i1 at_cur Some e sp] show ?thesis by simp
  qed
qed

section \<open>Settling keeps the invariant\<close>

lemma state_change_inv:
  assumes inv: "ledger_inv ms ck cur seen l" and e: "segs l i = Some e"
    and s': "segs l' = (segs l)(i \<mapsto> e')" and t': "tens l' = tens l"
    and same: "sg_highest e' = sg_highest e" "sg_members e' = sg_members e" "sg_pending e' = sg_pending e"
    and idx: "index_ok l'" and pop: "popped_ok cur ck' l'"
  shows "ledger_inv ms ck' cur seen l'"
proof -
  note I = ledger_invD [OF inv]
  have old: "\<exists>d'. segs l j = Some d' \<and> sg_highest d = sg_highest d' \<and> sg_members d = sg_members d'
      \<and> sg_pending d = sg_pending d'" if "segs l' j = Some d" for j d
    using that e same by (cases "j = i") (auto simp: s')
  have "members_ok l'" unfolding members_ok_def
  proof (intro allI impI)
    fix j d t sp assume "segs l' j = Some d" "map_of (sg_members d) t = Some sp"
    with old [of j d] I(3) show "member_ok (tens l') j d t sp"
      by (auto simp: members_ok_def member_ok_def t')
  qed
  moreover have "pending_ok l'" unfolding pending_ok_def using old I(4)
    by (metis pending_ok_def)
  moreover have "tenants_ok ms cur l'"
    using I(5) e same by (fastforce simp: tenants_ok_def s' t')
  moreover have "seen_ok seen cur l'"
    using I(6) e same by (auto simp: seen_ok_def s')
  ultimately show ?thesis using idx pop by (simp add: ledger_inv_def)
qed

lemma restore_inv:
  assumes inv: "ledger_inv ms ck cur seen l" and i: "i \<in> ld_reclaiming l"
  shows "ledger_inv ms ck cur seen (restore i l)"
proof -
  note I = ledger_invD [OF inv]
  obtain e where e: "segs l i = Some e" "is_reclaiming (sg_state e)"
    using I(1) i by (auto simp: index_ok_def)
  have p: "sg_pending e = {}" using I(2) e by (auto simp: popped_ok_def)
  show ?thesis
  proof (rule state_change_inv [OF inv e(1)])
    show "segs (restore i l) = (segs l)(i \<mapsto> e\<lparr>sg_state := Eligible,
        sg_attempted := (case sg_state e of Reclaiming uncertain \<Rightarrow> uncertain | Eligible \<Rightarrow> False)\<rparr>)"
      by (simp add: restore_def e Let_def map_upd)
    show "index_ok (restore i l)"
      using I(1) e p by (auto simp: index_ok_def restore_def Let_def map_upd)
    show "popped_ok cur ck (restore i l)"
      using I(2) e by (auto simp: popped_ok_def restore_def Let_def map_upd)
  qed (simp_all add: restore_def e Let_def)
qed

lemma hold_inv:
  assumes inv: "ledger_inv ms ck cur seen l" and i: "i \<in> ld_reclaiming l"
  shows "ledger_inv ms ck cur seen (hold i u l)"
proof -
  note I = ledger_invD [OF inv]
  obtain e where e: "segs l i = Some e" "is_reclaiming (sg_state e)"
    using I(1) i by (auto simp: index_ok_def)
  show ?thesis
  proof (rule state_change_inv [OF inv e(1)])
    show "segs (hold i u l) = (segs l)(i \<mapsto> e\<lparr>sg_state := Reclaiming u, sg_attempted := False\<rparr>)"
      by (simp add: hold_def e map_upd)
    show "index_ok (hold i u l)"
      using I(1) e by (auto simp: index_ok_def hold_def map_upd)
    show "popped_ok cur ck (hold i u l)"
      using I(2) e by (auto simp: popped_ok_def hold_def map_upd)
  qed (simp_all add: hold_def e)
qed

definition left_by :: "uuid \<Rightarrow> tenant_entry \<Rightarrow> tenant_entry option" where
  "left_by i st =
     (if te_segments st - {i} = {} then None
      else Some (st\<lparr>te_segments := te_segments st - {i},
                   te_behind := (if is_above (te_cursor st) i then te_behind st - 1 else te_behind st)\<rparr>))"

lemma leave_view:
  "segs (leave i t l) = segs l" "ld_unpinned (leave i t l) = ld_unpinned l"
  "ld_reclaiming (leave i t l) = ld_reclaiming l"
  "tens (leave i t l) = (tens l)(t := Option.bind (tens l t) (left_by i))"
  by (auto simp: leave_def left_by_def Let_def map_upd fun_eq_iff split: option.split)

lemma leave_fold_view:
  assumes "distinct ts"
  shows "segs (fold (leave i) ts l) = segs l" "ld_unpinned (fold (leave i) ts l) = ld_unpinned l"
    "ld_reclaiming (fold (leave i) ts l) = ld_reclaiming l"
    "tens (fold (leave i) ts l) u
       = (if u \<in> set ts then Option.bind (tens l u) (left_by i) else tens l u)"
  using assms by (induction ts arbitrary: l) (auto simp: leave_view)

lemma remove_inv:
  assumes inv: "ledger_inv ms ck cur seen l" and i: "i \<in> ld_reclaiming l"
  shows "ledger_inv ms ck cur seen (fst (ledger_remove i l))" (is "ledger_inv _ _ _ _ ?l'")
proof -
  note I = ledger_invD [OF inv]
  obtain e where e: "segs l i = Some e" "is_reclaiming (sg_state e)"
    using I(1) i by (auto simp: index_ok_def)
  have ic: "i \<noteq> cur" using I(2) e by (auto simp: popped_ok_def)
  have wf: "distinct (map fst (sg_members e))" using I(4) e by (auto simp: pending_ok_def hm_wf_def)
  note v = leave_fold_view [OF wf, of i]
  have s': "segs ?l' = (segs l)(i := None)" and u': "ld_unpinned ?l' = ld_unpinned l - {i}"
    "ld_reclaiming ?l' = ld_reclaiming l - {i}"
    and t': "tens ?l' u = (if map_of (sg_members e) u \<noteq> None then Option.bind (tens l u) (left_by i) else tens l u)" for u
    using e by (simp_all add: ledger_remove_def Let_def v map_upd map_of_eq_None_iff)
  have keep: "\<exists>st'. tens ?l' t = Some st' \<and> j \<in> te_segments st' \<and> te_cursor st' = te_cursor st
      \<and> te_horizon st' = te_horizon st"
    if "tens l t = Some st" "j \<in> te_segments st" "j \<noteq> i" for t st j
    using that by (auto simp: t' left_by_def)
  have "index_ok ?l'" using I(1) by (auto simp: index_ok_def s' u')
  moreover have "popped_ok cur ck ?l'" using I(2) by (auto simp: popped_ok_def s')
  moreover have "members_ok ?l'" unfolding members_ok_def
  proof (intro allI impI)
    fix j d t sp assume d: "segs ?l' j = Some d" and sp: "map_of (sg_members d) t = Some sp"
    then have j: "j \<noteq> i" and d': "segs l j = Some d" by (auto simp: s' split: if_splits)
    obtain st where "tens l t = Some st" "j \<in> te_segments st"
      "t \<in> sg_pending d \<longleftrightarrow> is_above (te_cursor st) j"
      "t \<notin> sg_pending d \<Longrightarrow> \<exists>h. te_horizon st = Some h \<and> sp_last sp \<le> h"
      by (rule memberD [OF I(3) d' sp]) (rule that)
    with keep [of t st j] j show "member_ok (tens ?l') j d t sp" by (auto simp: member_ok_def)
  qed
  moreover have "pending_ok ?l'" using I(4) by (simp add: pending_ok_def s')
  moreover have "tenants_ok ms cur ?l'" unfolding tenants_ok_def
  proof (intro allI impI)
    fix u su assume su: "tens ?l' u = Some su"
    obtain so where so: "tens l u = Some so"
      using su by (cases "tens l u") (auto simp: t' split: if_splits)
    have seg: "te_segments su \<subseteq> te_segments so" "te_horizon su = te_horizon so" "te_cursor su = te_cursor so"
      "te_segments so - te_segments su \<subseteq> {i}" "i \<notin> te_segments su" "te_segments su \<noteq> {}"
      using su so tenantD(2) [OF I(5) so] tenantD(3) [OF I(5) so, of i] e(1)
      by (auto simp: t' left_by_def split: if_splits)
    show "finite (te_segments su) \<and> te_segments su \<noteq> {}
      \<and> (\<forall>j \<in> te_segments su. \<exists>e sp. segs ?l' j = Some e \<and> map_of (sg_members e) u = Some sp)
      \<and> (te_horizon su = None \<or> te_horizon su = mark_of ms u)
      \<and> (\<forall>c. te_cursor su = Some c \<longrightarrow> c \<le> cur \<and> (c = cur \<longrightarrow> c \<in> te_segments su))"
    proof (intro conjI)
      show "finite (te_segments su)" using tenantD(1) [OF I(5) so] seg(1) finite_subset by blast
      show "\<forall>j \<in> te_segments su. \<exists>e sp. segs ?l' j = Some e \<and> map_of (sg_members e) u = Some sp"
        using tenantD(3) [OF I(5) so] seg(1,5) by (auto simp: s')
      show "\<forall>c. te_cursor su = Some c \<longrightarrow> c \<le> cur \<and> (c = cur \<longrightarrow> c \<in> te_segments su)"
        using tenantD(5) [OF I(5) so] seg(3,4) ic by auto
    qed (use seg tenantD(4) [OF I(5) so] in auto)
  qed
  moreover have "seen_ok seen cur ?l'" using I(6) ic by (simp add: seen_ok_def s')
  ultimately show ?thesis by (simp add: ledger_inv_def)
qed

section \<open>Passes keep the invariant\<close>

definition pull :: "tenant \<Rightarrow> seg_entry \<Rightarrow> seg_entry" where
  "pull t e =
     e\<lparr>sg_pending := insert t (sg_pending e), sg_state := Eligible,
       sg_attempted := (case sg_state e of Reclaiming u \<Rightarrow> sg_attempted e \<or> u | Eligible \<Rightarrow> sg_attempted e)\<rparr>"

definition rewind_one :: "tenant \<Rightarrow> uuid \<Rightarrow> segment_ledger \<Rightarrow> segment_ledger" where
  "rewind_one t i l = (let l = withdraw i (fst (pin t i l)) in l\<lparr>ld_unpinned := ld_unpinned l - {i}\<rparr>)"

lemma pull_simps [simp]:
  "sg_highest (pull t e) = sg_highest e" "sg_members (pull t e) = sg_members e"
  "sg_bytes (pull t e) = sg_bytes e"
  "sg_pending (pull t e) = insert t (sg_pending e)" "sg_state (pull t e) = Eligible"
  by (simp_all add: pull_def)

lemma rewind_one_view:
  "segs (rewind_one t i l) = (segs l)(i := map_option (pull t) (segs l i))"
  "tens (rewind_one t i l) = tens l"
  "ld_unpinned (rewind_one t i l) = ld_unpinned l - {i}"
  "ld_reclaiming (rewind_one t i l)
     = (if \<exists>e. segs l i = Some e \<and> is_reclaiming (sg_state e) then ld_reclaiming l - {i} else ld_reclaiming l)"
proof -
  have "segs (rewind_one t i l) = (segs l)(i := map_option (pull t) (segs l i))
    \<and> tens (rewind_one t i l) = tens l \<and> ld_unpinned (rewind_one t i l) = ld_unpinned l - {i}
    \<and> ld_reclaiming (rewind_one t i l)
        = (if \<exists>e. segs l i = Some e \<and> is_reclaiming (sg_state e) then ld_reclaiming l - {i} else ld_reclaiming l)"
  proof (cases "segs l i")
    case None
    then show ?thesis by (simp add: rewind_one_def pin_def withdraw_def fun_upd_idem)
  next
    case (Some e)
    then show ?thesis
      by (cases e; cases "sg_state e"; cases "t \<in> sg_pending e")
        (simp_all add: rewind_one_def pin_def withdraw_def pull_def map_upd insert_absorb Let_def
          fun_upd_idem)
  qed
  then show "segs (rewind_one t i l) = (segs l)(i := map_option (pull t) (segs l i))"
    "tens (rewind_one t i l) = tens l" "ld_unpinned (rewind_one t i l) = ld_unpinned l - {i}"
    "ld_reclaiming (rewind_one t i l)
     = (if \<exists>e. segs l i = Some e \<and> is_reclaiming (sg_state e) then ld_reclaiming l - {i} else ld_reclaiming l)"
    by blast+
qed

lemma rewind_fold_segs:
  "distinct is \<Longrightarrow>
   segs (fold (rewind_one t) is l) j = (if j \<in> set is then map_option (pull t) (segs l j) else segs l j)"
  by (induction "is" arbitrary: l) (auto simp: rewind_one_view split: if_splits)

lemma rewind_fold_tens: "tens (fold (rewind_one t) is l) = tens l"
  by (induction "is" arbitrary: l) (auto simp: rewind_one_view)

lemma rewind_fold_sets:
  "index_ok l \<Longrightarrow> index_ok (fold (rewind_one t) is l)"
  "popped_ok cur ck l \<Longrightarrow> popped_ok cur ck (fold (rewind_one t) is l)"
proof (induction "is" arbitrary: l)
  case (Cons i "is")
  {
    case 1
    have "index_ok (rewind_one t i l)"
      using 1 by (auto simp: index_ok_def rewind_one_view split: if_splits)
    then show ?case using Cons.IH(1) by simp
  next
    case 2
    have "popped_ok cur ck (rewind_one t i l)"
      using 2 by (auto simp: popped_ok_def rewind_one_view split: if_splits)
    then show ?case using Cons.IH(2) by simp
  }
qed simp_all

lemma rewind_view:
  assumes "tens l t = Some st" and "finite (te_segments st)"
  shows "segs (rewind t l) j = (if j \<in> te_segments st then map_option (pull t) (segs l j) else segs l j)"
    and "tens (rewind t l) = (tens l)(t \<mapsto> st\<lparr>te_cursor := None, te_behind := card (te_segments st)\<rparr>)"
    and "index_ok l \<Longrightarrow> index_ok (rewind t l)"
    and "popped_ok cur ck l \<Longrightarrow> popped_ok cur ck (rewind t l)"
proof -
  define l1 where "l1 = l\<lparr>ld_tenants := hm_insert t
      (st\<lparr>te_cursor := None, te_behind := card (te_segments st)\<rparr>) (ld_tenants l),
    ld_behind_total := ld_behind_total l - te_behind st + card (te_segments st)\<rparr>"
  have r: "rewind t l = fold (rewind_one t) (sorted_list_of_set (te_segments st)) l1"
    by (simp add: rewind_def assms(1) l1_def rewind_one_def [abs_def] Let_def)
  have "segs (rewind t l) j = (if j \<in> te_segments st then map_option (pull t) (segs l1 j) else segs l1 j)"
    unfolding r using rewind_fold_segs [of "sorted_list_of_set (te_segments st)" t l1 j] assms(2) by simp
  then show "segs (rewind t l) j = (if j \<in> te_segments st then map_option (pull t) (segs l j) else segs l j)"
    by (simp add: l1_def)
  show "tens (rewind t l) = (tens l)(t \<mapsto> st\<lparr>te_cursor := None, te_behind := card (te_segments st)\<rparr>)"
    by (simp add: r rewind_fold_tens l1_def map_upd)
  show "index_ok (rewind t l)" if "index_ok l"
    unfolding r by (rule rewind_fold_sets) (use that in \<open>simp add: l1_def index_ok_def\<close>)
  show "popped_ok cur ck (rewind t l)" if "popped_ok cur ck l"
    unfolding r by (rule rewind_fold_sets) (use that in \<open>simp add: l1_def popped_ok_def\<close>)
qed

lemma rewind_inv:
  assumes inv: "ledger_inv ms ck cur seen l"
  shows "ledger_inv ms ck cur seen (rewind t l)"
proof (cases "tens l t")
  case None
  then show ?thesis using inv by (simp add: rewind_def)
next
  case (Some st)
  note I = ledger_invD [OF inv]
  have fin: "finite (te_segments st)" using tenantD(1) [OF I(5) Some] .
  note v = rewind_view [OF Some fin]
  have old: "\<exists>d'. segs l j = Some d' \<and> sg_highest d = sg_highest d' \<and> sg_members d = sg_members d'
      \<and> (if j \<in> te_segments st then sg_pending d = insert t (sg_pending d') else sg_pending d = sg_pending d')"
    if "segs (rewind t l) j = Some d" for j d
    using that by (auto simp: v split: if_splits)
  have "members_ok (rewind t l)" unfolding members_ok_def
  proof (intro allI impI)
    fix j d u sp assume d: "segs (rewind t l) j = Some d" and sp: "map_of (sg_members d) u = Some sp"
    from old [OF d] obtain d' where d': "segs l j = Some d'" "sg_members d = sg_members d'"
      "if j \<in> te_segments st then sg_pending d = insert t (sg_pending d') else sg_pending d = sg_pending d'"
      by blast
    with I(3) sp have m: "member_ok (tens l) j d' u sp" by (simp add: members_ok_def)
    show "member_ok (tens (rewind t l)) j d u sp"
    proof (cases "u = t")
      case True
      with m Some d' show ?thesis by (auto simp: member_ok_def v is_above_def)
    next
      case False
      with m d' show ?thesis by (auto simp: member_ok_def v split: if_splits)
    qed
  qed
  moreover have "pending_ok (rewind t l)" unfolding pending_ok_def
  proof (intro allI impI)
    fix j d assume d: "segs (rewind t l) j = Some d"
    from old [OF d] obtain d' where d': "segs l j = Some d'" "sg_members d = sg_members d'"
      "if j \<in> te_segments st then sg_pending d = insert t (sg_pending d') else sg_pending d = sg_pending d'"
      by blast
    have "t \<in> fst ` set (sg_members d')" if "j \<in> te_segments st"
      using tenantD(3) [OF I(5) Some that] d'(1) by (force dest: map_of_SomeD)
    with I(4) d' show "hm_wf (sg_members d) \<and> sg_pending d \<subseteq> fst ` set (sg_members d)"
      by (auto simp: pending_ok_def split: if_splits)
  qed
  moreover have "tenants_ok ms cur (rewind t l)" unfolding tenants_ok_def
  proof (intro allI impI)
    fix u su assume su: "tens (rewind t l) u = Some su"
    obtain so where so: "tens l u = Some so" "te_segments su = te_segments so"
      "te_horizon su = te_horizon so" "te_cursor su = None \<or> te_cursor su = te_cursor so"
      using su Some by (cases "u = t") (auto simp: v)
    have "\<exists>e sp. segs (rewind t l) i = Some e \<and> map_of (sg_members e) u = Some sp"
      if "i \<in> te_segments so" for i
      using tenantD(3) [OF I(5) so(1) that] by (auto simp: v)
    with tenantD(1,2,4,5) [OF I(5) so(1)] so
    show "finite (te_segments su) \<and> te_segments su \<noteq> {}
      \<and> (\<forall>j \<in> te_segments su. \<exists>e sp. segs (rewind t l) j = Some e \<and> map_of (sg_members e) u = Some sp)
      \<and> (te_horizon su = None \<or> te_horizon su = mark_of ms u)
      \<and> (\<forall>c. te_cursor su = Some c \<longrightarrow> c \<le> cur \<and> (c = cur \<longrightarrow> c \<in> te_segments su))"
      by auto
  qed
  moreover have "seen_ok seen cur (rewind t l)"
  proof -
    have "segs (rewind t l) j = None \<longleftrightarrow> segs l j = None" for j by (auto simp: v)
    moreover have "i \<le> cur \<and> top_of (frames_in seen i) (sg_highest d)
        \<and> (\<forall>u. last_ok (tenant_frames_in seen i u) (map_of (sg_members d) u))"
      if d: "segs (rewind t l) i = Some d" for i d
    proof -
      obtain d' where "segs l i = Some d'" "sg_highest d = sg_highest d'" "sg_members d = sg_members d'"
        using old [OF d] by blast
      with I(6) show ?thesis by (simp add: seen_ok_def)
    qed
    ultimately show ?thesis using I(6) by (simp add: seen_ok_def)
  qed
  ultimately show ?thesis using v(3,4) I(1,2) by (simp add: ledger_inv_def)
qed

lemma rewind_tens:
  assumes "ledger_inv ms ck cur seen l"
  shows "tens (rewind t l) u = (case tens l u of None \<Rightarrow> None
      | Some st \<Rightarrow> Some (if u = t then st\<lparr>te_cursor := None, te_behind := card (te_segments st)\<rparr> else st))"
proof (cases "tens l t")
  case None
  then show ?thesis by (auto simp: rewind_def split: option.split)
next
  case (Some st)
  then show ?thesis
    using rewind_view(2) [OF Some tenantD(1) [OF ledger_invD(5) [OF assms] Some]]
    by (auto split: option.split)
qed

lemma rewind_fold_inv:
  assumes "ledger_inv ms ck cur seen l"
  shows "ledger_inv ms ck cur seen (fold rewind ts l)"
    and "tens (fold rewind ts l) u = (case tens l u of None \<Rightarrow> None
      | Some st \<Rightarrow> Some (if u \<in> set ts then st\<lparr>te_cursor := None, te_behind := card (te_segments st)\<rparr> else st))"
  using assms
proof (induction ts arbitrary: l)
  case (Cons t ts)
  {
    case 1
    then show ?case using Cons.IH(1) [OF rewind_inv] by simp
  next
    case 2
    then show ?case using Cons.IH(2) [OF rewind_inv [OF 2, of t]] rewind_tens [OF 2, of t u]
      by (auto split: option.split)
  }
qed (auto split: option.split)

lemma map_of_map_val: "map_of (map (\<lambda>(k, v). (k, f k v)) xs) k = map_option (f k) (map_of xs k)"
  by (induction xs) auto

lemma receive_tens:
  assumes "ledger_inv ms ck cur seen l"
  shows "tens (receive ms' l) t = (case tens l t of None \<Rightarrow> None
     | Some st \<Rightarrow> Some ((if t \<in> set (map fst (filter (regressed ms') (ld_tenants l)))
          then st\<lparr>te_cursor := None, te_behind := card (te_segments st)\<rparr> else st)\<lparr>te_horizon := mark_of ms' t\<rparr>))"
  by (simp add: receive_def Let_def map_of_map_val rewind_fold_inv(2) [OF assms] split: option.split)

lemma receive_inv:
  assumes inv: "ledger_inv ms ck cur seen l"
  shows "ledger_inv ms' ck cur seen (receive ms' l)"
proof -
  define l1 where "l1 = fold rewind (map fst (filter (regressed ms') (ld_tenants l))) l"
  have i1: "ledger_inv ms ck cur seen l1" unfolding l1_def by (rule rewind_fold_inv(1) [OF inv])
  note I = ledger_invD [OF i1]
  have s: "segs (receive ms' l) = segs l1" "ld_unpinned (receive ms' l) = ld_unpinned l1"
    "ld_reclaiming (receive ms' l) = ld_reclaiming l1"
    and t: "tens (receive ms' l) t = map_option (\<lambda>st. st\<lparr>te_horizon := mark_of ms' t\<rparr>) (tens l1 t)" for t
    by (simp_all add: receive_def Let_def map_of_map_val l1_def)
  have keeps: "\<exists>n. mark_of ms' t = Some n \<and> h \<le> n"
    if st: "tens l1 t = Some st" "te_horizon st = Some h" and nn: "te_cursor st \<noteq> None" for t st h
  proof -
    obtain st0 where st0: "tens l t = Some st0" "te_horizon st0 = Some h"
      "t \<notin> set (map fst (filter (regressed ms') (ld_tenants l)))"
      using st nn rewind_fold_inv(2) [OF inv, of "map fst (filter (regressed ms') (ld_tenants l))" t]
      by (auto simp: l1_def split: option.splits if_splits)
    have "\<not> regressed ms' (t, st0)"
    proof
      assume "regressed ms' (t, st0)"
      then have "t \<in> fst ` set (filter (regressed ms') (ld_tenants l))"
        using map_of_SomeD [OF st0(1)] by force
      with st0(3) show False by simp
    qed
    with st0(2) show ?thesis by (auto simp: regressed_def not_less split: option.splits)
  qed
  have "members_ok (receive ms' l)" unfolding members_ok_def
  proof (intro allI impI)
    fix i e t sp assume e: "segs (receive ms' l) i = Some e" and sp: "map_of (sg_members e) t = Some sp"
    obtain st where st: "tens l1 t = Some st" "i \<in> te_segments st"
      "t \<in> sg_pending e \<longleftrightarrow> is_above (te_cursor st) i"
      "t \<notin> sg_pending e \<Longrightarrow> \<exists>h. te_horizon st = Some h \<and> sp_last sp \<le> h"
      by (rule memberD [OF I(3) e [unfolded s(1)] sp]) (rule that)
    have "\<exists>n. mark_of ms' t = Some n \<and> sp_last sp \<le> n" if np: "t \<notin> sg_pending e"
    proof -
      obtain h where h: "te_horizon st = Some h" "sp_last sp \<le> h" using st(4) [OF np] by blast
      have "te_cursor st \<noteq> None" using st(3) np by (auto simp: is_above_def split: option.splits)
      from keeps [OF st(1) h(1) this] h(2) show ?thesis by (meson order_trans)
    qed
    with st show "member_ok (tens (receive ms' l)) i e t sp" by (auto simp: member_ok_def t)
  qed
  moreover have "tenants_ok ms' cur (receive ms' l)" unfolding tenants_ok_def
  proof (intro allI impI)
    fix u su assume su: "tens (receive ms' l) u = Some su"
    then obtain so where so: "tens l1 u = Some so" "su = so\<lparr>te_horizon := mark_of ms' u\<rparr>"
      by (auto simp: t)
    with tenantD [OF I(5) so(1)]
    show "finite (te_segments su) \<and> te_segments su \<noteq> {}
      \<and> (\<forall>j \<in> te_segments su. \<exists>e sp. segs (receive ms' l) j = Some e \<and> map_of (sg_members e) u = Some sp)
      \<and> (te_horizon su = None \<or> te_horizon su = mark_of ms' u)
      \<and> (\<forall>c. te_cursor su = Some c \<longrightarrow> c \<le> cur \<and> (c = cur \<longrightarrow> c \<in> te_segments su))"
      by (simp add: s)
  qed
  ultimately show ?thesis
    using I by (simp add: ledger_inv_def index_ok_def popped_ok_def pending_ok_def seen_ok_def s)
qed

lemma next_coveredD:
  assumes "tenants_ok ms cur l" and "next_covered l t = Some i"
  obtains st h e sp where "tens l t = Some st" "te_horizon st = Some h" "i \<in> te_segments st"
    "is_above (te_cursor st) i" "\<And>j. j \<in> te_segments st \<Longrightarrow> is_above (te_cursor st) j \<Longrightarrow> i \<le> j"
    "segs l i = Some e" "map_of (sg_members e) t = Some sp" "sp_last sp \<le> h"
proof -
  obtain st h e sp where *: "tens l t = Some st" "te_horizon st = Some h"
    "first_above (te_cursor st) (te_segments st) = Some i"
    "segs l i = Some e" "map_of (sg_members e) t = Some sp" "sp_last sp \<le> h"
    using assms(2) by (auto simp: next_covered_def split: option.splits if_splits)
  from first_above_Some [OF tenantD(1) [OF assms(1) *(1)] *(3)] * show thesis by (intro that) auto
qed

lemma apply_to_view:
  assumes "segs l i = Some e" and "tens l t = Some st"
  shows "segs (apply_to t i l) = (segs l)(i \<mapsto> e\<lparr>sg_pending := sg_pending e - {t}\<rparr>)"
    and "tens (apply_to t i l) = (tens l)(t \<mapsto> st\<lparr>te_cursor := Some i, te_behind := te_behind st - 1\<rparr>)"
    and "ld_reclaiming (apply_to t i l) = ld_reclaiming l"
    and "ld_unpinned (apply_to t i l)
         = (if t \<in> sg_pending e \<and> sg_pending e - {t} = {} \<and> sg_state e = Eligible
            then insert i (ld_unpinned l) else ld_unpinned l)"
  using assms by (simp_all add: apply_to_def unpin_def Let_def map_upd)

lemma apply_to_inv:
  assumes inv: "ledger_inv ms ck cur seen l" and nc: "next_covered l t = Some i"
  shows "ledger_inv ms ck cur seen (apply_to t i l)" (is "ledger_inv _ _ _ _ ?l'")
proof -
  note I = ledger_invD [OF inv]
  obtain st h e sp where st: "tens l t = Some st" "te_horizon st = Some h" "i \<in> te_segments st"
    "is_above (te_cursor st) i" "\<And>j. j \<in> te_segments st \<Longrightarrow> is_above (te_cursor st) j \<Longrightarrow> i \<le> j"
    and e: "segs l i = Some e" and sp: "map_of (sg_members e) t = Some sp" "sp_last sp \<le> h"
    by (rule next_coveredD [OF I(5) nc]) (rule that)
  note v = apply_to_view [OF e st(1)]
  have "index_ok ?l'" using I(1) e by (auto simp: index_ok_def v)
  moreover have "popped_ok cur ck ?l'" using I(2) e by (auto simp: popped_ok_def v)
  moreover have "members_ok ?l'" unfolding members_ok_def
  proof (intro allI impI)
    fix j d u w assume d: "segs ?l' j = Some d" and w: "map_of (sg_members d) u = Some w"
    obtain d' where d': "segs l j = Some d'" "sg_members d = sg_members d'"
      "sg_pending d = (if j = i then sg_pending d' - {t} else sg_pending d')"
      using d e by (auto simp: v split: if_splits)
    obtain so where so: "tens l u = Some so" "j \<in> te_segments so"
      "u \<in> sg_pending d' \<longleftrightarrow> is_above (te_cursor so) j"
      "u \<notin> sg_pending d' \<Longrightarrow> \<exists>h. te_horizon so = Some h \<and> sp_last w \<le> h"
      by (rule memberD [OF I(3) d'(1) w [unfolded d'(2)]]) (rule that)
    show "member_ok (tens ?l') j d u w"
    proof (cases "u = t")
      case False
      then show ?thesis using so d'(3) by (auto simp: member_ok_def v)
    next
      case True
      have "is_above (Some i) j \<longleftrightarrow> is_above (te_cursor st) j \<and> j \<noteq> i"
        using st(4) st(5) [of j] so(1,2) st(1) True
        by (auto simp: is_above_def split: option.splits)
      then show ?thesis using so st d' sp e w True by (auto simp: member_ok_def v)
    qed
  qed
  moreover have "pending_ok ?l'" using I(4) e by (auto simp: pending_ok_def v)
  moreover have "tenants_ok ms cur ?l'" unfolding tenants_ok_def
  proof (intro allI impI)
    fix u su assume su: "tens ?l' u = Some su"
    obtain so where so: "tens l u = Some so" "te_segments su = te_segments so"
      "te_horizon su = te_horizon so" "te_cursor su = te_cursor so \<or> u = t \<and> te_cursor su = Some i"
      using su st by (cases "u = t") (auto simp: v)
    have "i \<le> cur" using I(6) e by (auto simp: seen_ok_def)
    moreover have "\<exists>e sp. segs ?l' j = Some e \<and> map_of (sg_members e) u = Some sp"
      if "j \<in> te_segments so" for j
      using tenantD(3) [OF I(5) so(1) that] e by (auto simp: v)
    ultimately show "finite (te_segments su) \<and> te_segments su \<noteq> {}
      \<and> (\<forall>j \<in> te_segments su. \<exists>e sp. segs ?l' j = Some e \<and> map_of (sg_members e) u = Some sp)
      \<and> (te_horizon su = None \<or> te_horizon su = mark_of ms u)
      \<and> (\<forall>c. te_cursor su = Some c \<longrightarrow> c \<le> cur \<and> (c = cur \<longrightarrow> c \<in> te_segments su))"
      using tenantD(1,2,4,5) [OF I(5) so(1)] so st by auto
  qed
  moreover have "seen_ok seen cur ?l'" using I(6) e by (auto simp: seen_ok_def v)
  ultimately show ?thesis by (simp add: ledger_inv_def)
qed

lemma walk_loop_inv:
  "ledger_inv ms ck cur seen l \<Longrightarrow> ledger_inv ms ck cur seen (fst (walk_loop left active l))"
proof (induction left active l rule: walk_loop.induct)
  case (3 left t active l)
  show ?case
  proof (cases "next_covered l t")
    case None
    then have s: "ledger_step t l = (l, False)" by (simp add: ledger_step_def)
    show ?thesis using "3.IH"(2) [OF s [symmetric]] "3.prems" by (simp add: s)
  next
    case (Some i)
    then have s: "ledger_step t l = (apply_to t i l, True)" by (simp add: ledger_step_def)
    show ?thesis using "3.IH"(1) [OF s [symmetric]] apply_to_inv [OF "3.prems" Some] by (simp add: s)
  qed
qed simp_all

lemma inv_other_fields [simp]:
  "ledger_inv ms ck cur seen (l\<lparr>ld_consumer := b\<rparr>) = ledger_inv ms ck cur seen l"
  "ledger_inv ms ck cur seen (l\<lparr>ld_floor := fl\<rparr>) = ledger_inv ms ck cur seen l"
  by (simp_all add: ledger_inv_def index_ok_def popped_ok_def members_ok_def pending_ok_def
      tenants_ok_def seen_ok_def)

lemma apply_known_inv:
  assumes "ledger_inv ms ck cur seen l"
  shows "ledger_inv ms' ck cur seen (fst (ledger_apply (Known ms') budget l))"
  using walk_loop_inv [OF receive_inv, of ms ck cur seen "l\<lparr>ld_consumer := True\<rparr>" ms'] assms
  by (simp add: ledger_apply_def walk_def Let_def case_prod_beta)

end
