(* ===== verification/Ledger_Pass.thy ===== *)
theory Ledger_Pass
  imports Segment_Ledger
begin

text \<open>
  Reclamation passes over the retention ledger: what \<open>SegmentLedger::pop\<close> plans, against the
  frames the ledger was told of. A run of the ledger is any sequence of appends into the current
  segment, rotations, tenant-aware passes and settlements of popped segments, as \<open>Wal::append\<close>,
  \<open>Wal::rotate_now\<close>, \<open>Wal::housekeeping_prepare\<close> and \<open>Wal::housekeeping_commit\<close> drive it.
\<close>

section \<open>Runs\<close>

record ledger_world =
  lw_ledger :: segment_ledger
  lw_current :: uuid
  lw_checkpoint :: "wal_offset option"
  lw_marks :: marks
  lw_seen :: "frame_at list"

datatype ledger_op =
  Op_Frame frame_at
| Op_Rotate uuid
| Op_Pass marks nat wal_offset "uuid list" nat nat nat
| Op_Restore uuid
| Op_Hold uuid bool
| Op_Removed uuid

datatype skip_reason = NoCheckpoint | MigrationWindow | Refused

datatype pass_outcome = Planned | Skipped skip_reason

definition pop_segments ::
  "wal_offset option \<Rightarrow> bool \<Rightarrow> uuid \<Rightarrow> planned_rows \<Rightarrow> snapshot_horizons \<Rightarrow> nat \<Rightarrow> segment_ledger
     \<Rightarrow> segment_ledger \<times> popped list \<times> bool \<times> pass_outcome" where
  "pop_segments checkpoint settled current rows horizons budget l =
     (case checkpoint of
        None \<Rightarrow> (l, [], False, Skipped NoCheckpoint)
      | Some ck \<Rightarrow>
          (if \<not> settled then (l, [], False, Skipped MigrationWindow)
           else (let (l, popped, capped) =
                   pop \<lparr>pb_checkpoint = ck, pb_current = current,
                        pb_tenant_aware = (horizons \<noteq> NoConsumer), pb_rows = rows\<rparr> budget l
                 in (l, popped, capped, Planned))))"

text \<open>The ledger half of a pass that has a settled checkpoint and horizons to apply.\<close>

definition ledger_pass ::
  "marks \<Rightarrow> nat \<Rightarrow> wal_offset \<Rightarrow> planned_rows \<Rightarrow> nat \<Rightarrow> uuid \<Rightarrow> segment_ledger
     \<Rightarrow> segment_ledger \<times> popped list \<times> bool" where
  "ledger_pass ms walks ck rows pops current l =
     (let (l, horizons_capped) = ledger_apply (Known ms) walks l;
          (l, popped, pops_capped, _) = pop_segments (Some ck) True current rows (Known ms) pops l
      in (l, popped, horizons_capped \<or> pops_capped))"

fun ledger_exec :: "ledger_op \<Rightarrow> ledger_world \<Rightarrow> ledger_world" where
  "ledger_exec (Op_Frame fa) w =
     w\<lparr>lw_ledger := observe fa (lw_ledger w), lw_seen := lw_seen w @ [fa]\<rparr>"
| "ledger_exec (Op_Rotate u) w = w\<lparr>lw_current := u\<rparr>"
| "ledger_exec (Op_Pass ms walks ck durable occupied capacity pops) w =
     w\<lparr>lw_ledger := fst (ledger_pass ms walks ck (planned_rows_new (set durable) occupied capacity) pops
                          (lw_current w) (lw_ledger w)),
       lw_checkpoint := Some ck, lw_marks := ms\<rparr>"
| "ledger_exec (Op_Restore i) w = w\<lparr>lw_ledger := restore i (lw_ledger w)\<rparr>"
| "ledger_exec (Op_Hold i u) w = w\<lparr>lw_ledger := hold i u (lw_ledger w)\<rparr>"
| "ledger_exec (Op_Removed i) w = w\<lparr>lw_ledger := fst (ledger_remove i (lw_ledger w))\<rparr>"

text \<open>What the write-ahead log keeps to: frames land in the current segment, a rotation mints a
  later id, the checkpoint does not go back, and only popped segments are settled.\<close>

fun ledger_legal :: "ledger_op \<Rightarrow> ledger_world \<Rightarrow> bool" where
  "ledger_legal (Op_Frame fa) w \<longleftrightarrow> wo_segment (fa_offset fa) = lw_current w"
| "ledger_legal (Op_Rotate u) w \<longleftrightarrow> lw_current w < u"
| "ledger_legal (Op_Pass ms walks ck durable occupied capacity pops) w \<longleftrightarrow>
     (case lw_checkpoint w of None \<Rightarrow> True | Some k \<Rightarrow> k \<le> ck)"
| "ledger_legal (Op_Restore i) w \<longleftrightarrow> i \<in> ld_reclaiming (lw_ledger w)"
| "ledger_legal (Op_Hold i u) w \<longleftrightarrow> i \<in> ld_reclaiming (lw_ledger w)"
| "ledger_legal (Op_Removed i) w \<longleftrightarrow> i \<in> ld_reclaiming (lw_ledger w)"

fun ledger_run :: "ledger_op list \<Rightarrow> ledger_world \<Rightarrow> ledger_world option" where
  "ledger_run [] w = Some w"
| "ledger_run (p # ps) w = (if ledger_legal p w then ledger_run ps (ledger_exec p w) else None)"

definition ledger_start :: "uuid \<Rightarrow> ledger_world" where
  "ledger_start u =
     \<lparr>lw_ledger = describe_root ledger_default, lw_current = u, lw_checkpoint = None,
      lw_marks = [], lw_seen = []\<rparr>"

text \<open>The retention rule, over the frames themselves: a surviving closed segment all of whose frames
  are at or below the checkpoint and at or below the restorable horizon of their tenant.\<close>

definition reclaimable :: "ledger_world \<Rightarrow> marks \<Rightarrow> wal_offset \<Rightarrow> uuid \<Rightarrow> bool" where
  "reclaimable w ms ck i \<longleftrightarrow>
     i \<noteq> lw_current w \<and> segs (lw_ledger w) i \<noteq> None
     \<and> (\<forall>f \<in> set (lw_seen w). wo_segment (fa_offset f) = i \<longrightarrow>
          fa_offset f \<le> ck
          \<and> (case fa_tenant f of
               None \<Rightarrow> True
             | Some t \<Rightarrow> (case mark_of ms t of None \<Rightarrow> False | Some h \<Rightarrow> fa_offset f \<le> h)))"

section \<open>Popping keeps the invariant\<close>

lemma ledger_pass_pops:
  "ledger_pass ms walks ck rows pops current l =
     (let (l, walk_capped) = ledger_apply (Known ms) walks l;
          (l, popped, pop_capped) =
            pop \<lparr>pb_checkpoint = ck, pb_current = current, pb_tenant_aware = True, pb_rows = rows\<rparr> pops l
      in (l, popped, walk_capped \<or> pop_capped))"
  by (simp add: ledger_pass_def pop_segments_def Let_def case_prod_beta)

lemma take_segment_view:
  assumes "segs l i = Some e" and "i \<noteq> cur"
  defines "e' \<equiv> e\<lparr>sg_state := Reclaiming (sg_attempted e \<or> sg_state e = Reclaiming True), sg_attempted := True\<rparr>"
  shows "segs (fst (take_segment i cur l)) = (segs l)(i \<mapsto> e')"
    and "tens (fst (take_segment i cur l)) = tens l"
    and "ld_unpinned (fst (take_segment i cur l)) = ld_unpinned l - {i}"
    and "ld_reclaiming (fst (take_segment i cur l))
         = (if sg_state e = Eligible then insert i (ld_reclaiming l) else ld_reclaiming l)"
    and "\<exists>p. snd (take_segment i cur l) = Some p \<and> pp_segment p = i"
    and "ld_describes_root (fst (take_segment i cur l)) = ld_describes_root l"
  using assms by (simp_all add: take_segment_def Let_def map_upd)

lemma take_segment_current: "take_segment cur cur l = (l, None)"
  by (simp add: take_segment_def)

lemma take_segment_inv:
  assumes inv: "ledger_inv ms (Some ck) cur seen l" and e: "segs l i = Some e" and i: "i \<noteq> cur"
    and p: "sg_pending e = {}" and hi: "sg_highest e \<le> ck"
  shows "ledger_inv ms (Some ck) cur seen (fst (take_segment i cur l))"
proof -
  note I = ledger_invD [OF inv]
  note v = take_segment_view [OF e i]
  show ?thesis
  proof (rule state_change_inv [OF inv e v(1,2)])
    show "index_ok (fst (take_segment i cur l))"
      using I(1) e by (cases "sg_state e") (auto simp: index_ok_def v)
    show "popped_ok cur (Some ck) (fst (take_segment i cur l))"
      using I(2) p hi i by (auto simp: popped_ok_def v)
  qed simp_all
qed

text \<open>What a drain may walk over: entries nobody holds back, already popped ones when it re-plans.\<close>

definition drainable :: "admit \<Rightarrow> segment_ledger \<Rightarrow> uuid \<Rightarrow> bool" where
  "drainable ad l i \<longleftrightarrow>
     (\<forall>e. segs l i = Some e \<longrightarrow>
        sg_pending e = {} \<and> (ad = Admit_Reclaiming \<longrightarrow> is_reclaiming (sg_state e)))"

definition planned_ok :: "segment_ledger \<Rightarrow> popped list \<Rightarrow> bool" where
  "planned_ok l out \<longleftrightarrow> pp_segment ` set out \<subseteq> ld_reclaiming l"

lemma drain_loop_inv:
  assumes "ledger_inv ms (Some (pb_checkpoint b)) (pb_current b) seen l"
    and "\<forall>i \<in> set is. drainable ad l i" and "planned_ok l out"
  shows "ledger_inv ms (Some (pb_checkpoint b)) (pb_current b) seen
           (snd (snd (fst (drain_loop b budget ad is refused (out, rows, l)))))
         \<and> planned_ok (snd (snd (fst (drain_loop b budget ad is refused (out, rows, l)))))
             (fst (fst (drain_loop b budget ad is refused (out, rows, l))))"
  using assms
proof (induction "is" arbitrary: refused out rows l)
  case (Cons i "is")
  consider "length out \<ge> budget \<or> \<not> admits b l ad i \<or> \<not> affords rows i \<or> i = pb_current b"
    | "length out < budget" "admits b l ad i" "affords rows i" "i \<noteq> pb_current b"
    by linarith
  then show ?case
  proof cases
    case 1
    then show ?thesis using Cons.IH Cons.prems by (auto simp: take_segment_current)
  next
    case 2
    then obtain e where e: "segs l i = Some e" by (auto simp: admits_def split: option.splits)
    have p: "sg_pending e = {}" using Cons.prems(2) e by (simp add: drainable_def)
    have hi: "sg_highest e \<le> pb_checkpoint b"
    proof (cases "ad = Admit_Reclaiming")
      case True
      then have "is_reclaiming (sg_state e)" using Cons.prems(2) e by (simp add: drainable_def)
      then show ?thesis using ledger_invD(2) [OF Cons.prems(1)] e by (auto simp: popped_ok_def)
    next
      case False
      then show ?thesis using 2(2) e by (simp add: admits_def)
    qed
    define l1 where "l1 = fst (take_segment i (pb_current b) l)"
    note v = take_segment_view [OF e 2(4)]
    obtain q where q: "take_segment i (pb_current b) l = (l1, Some q)" "pp_segment q = i"
      using v(5) by (metis l1_def prod.collapse)
    have i1: "ledger_inv ms (Some (pb_checkpoint b)) (pb_current b) seen l1"
      unfolding l1_def by (rule take_segment_inv [OF Cons.prems(1) e 2(4) p hi])
    have d1: "\<forall>j \<in> set is. drainable ad l1 j"
      using Cons.prems(2) e by (auto simp: drainable_def l1_def v)
    have r1: "i \<in> ld_reclaiming l1" "ld_reclaiming l \<subseteq> ld_reclaiming l1"
      using ledger_invD(1) [OF Cons.prems(1)] e by (cases "sg_state e", auto simp: l1_def v index_ok_def)
    have "planned_ok l1 (out @ [q])" using Cons.prems(3) r1 q(2) by (auto simp: planned_ok_def)
    from Cons.IH [OF i1 d1 this] 2 show ?thesis by (simp add: q(1))
  qed
qed simp

lemma index_finite: "index_ok l \<Longrightarrow> finite (ld_unpinned l) \<and> finite (ld_reclaiming l)"
  by (auto simp: index_ok_def intro!: finite_subset [OF _ finite_dom_map_of [of "ld_segments l"]])

lemma candidates_drainable:
  assumes inv: "ledger_inv ms ck cur seen l" and aware: "pb_tenant_aware b"
    and fin: "finite (pr_durable (pb_rows b))"
  shows "\<forall>i \<in> set (candidates b budget l ad). drainable ad l i"
proof -
  note I = ledger_invD [OF inv]
  have fu: "finite (ld_unpinned l)" and fr: "finite (ld_reclaiming l)"
    using index_finite [OF I(1)] by simp_all
  have u: "drainable ad l i" if "i \<in> ld_unpinned l" "ad \<noteq> Admit_Reclaiming" for i ad
    using I(1) that by (auto simp: drainable_def index_ok_def)
  have r: "drainable ad l i" if "i \<in> ld_reclaiming l" for i ad
    using I(1,2) that by (auto simp: drainable_def index_ok_def popped_ok_def)
  show ?thesis
    using u r fu fr fin aware
    by (cases ad) (auto simp: unclaimed_def dest!: in_set_takeD set_takeWhileD)
qed

lemma drain_inv:
  assumes "ledger_inv ms (Some (pb_checkpoint b)) (pb_current b) seen l" and "planned_ok l out"
    and "pb_tenant_aware b" and "finite (pr_durable (pb_rows b))"
    and "drain b budget ad (out, rows, l) = ((out', rows', l'), c)"
  shows "ledger_inv ms (Some (pb_checkpoint b)) (pb_current b) seen l' \<and> planned_ok l' out'"
  using drain_loop_inv [OF assms(1) candidates_drainable [OF assms(1,3,4)] assms(2)] assms(5)
  by (simp add: drain_def) (metis fst_conv snd_conv)

lemma pop_cases:
  assumes "pop b budget l = (l', out, c)" and "ld_describes_root l"
  obtains o1 r1 l1 c1 o2 r2 l2 c2 r3 c3
  where "drain b budget Admit_Reclaiming ([], pb_rows b, l) = ((o1, r1, l1), c1)"
    "drain b budget Admit_Rowed (o1, r1, l1) = ((o2, r2, l2), c2)"
    "drain b budget Admit_Eligible (o2, r2, l2) = ((out, r3, l'), c3)" "c = (c1 \<or> c2 \<or> c3)"
proof -
  obtain o1 r1 l1 c1 where d1: "drain b budget Admit_Reclaiming ([], pb_rows b, l) = ((o1, r1, l1), c1)"
    by (metis prod_cases3 surj_pair)
  obtain o2 r2 l2 c2 where d2: "drain b budget Admit_Rowed (o1, r1, l1) = ((o2, r2, l2), c2)"
    by (metis prod_cases3 surj_pair)
  obtain o3 r3 l3 c3 where d3: "drain b budget Admit_Eligible (o2, r2, l2) = ((o3, r3, l3), c3)"
    by (metis prod_cases3 surj_pair)
  show thesis using that [OF d1 d2] assms d3 by (simp add: pop_def d1 d2)
qed

lemma pop_inv:
  assumes inv: "ledger_inv ms (Some (pb_checkpoint b)) (pb_current b) seen l"
    and b: "pb_tenant_aware b" "finite (pr_durable (pb_rows b))"
    and res: "pop b budget l = (l', out, c)"
  shows "ledger_inv ms (Some (pb_checkpoint b)) (pb_current b) seen l' \<and> planned_ok l' out"
proof (cases "ld_describes_root l")
  case False
  then show ?thesis using inv res by (simp add: pop_def planned_ok_def)
next
  case True
  have p0: "planned_ok l []" by (simp add: planned_ok_def)
  show ?thesis
  proof (rule pop_cases [OF res True])
    fix o1 r1 l1 c1 o2 r2 l2 c2 r3 c3
    assume d1: "drain b budget Admit_Reclaiming ([], pb_rows b, l) = ((o1, r1, l1), c1)"
      and d2: "drain b budget Admit_Rowed (o1, r1, l1) = ((o2, r2, l2), c2)"
      and d3: "drain b budget Admit_Eligible (o2, r2, l2) = ((out, r3, l'), c3)"
    have "ledger_inv ms (Some (pb_checkpoint b)) (pb_current b) seen l1" "planned_ok l1 o1"
      using drain_inv [OF inv p0 b d1] by simp_all
    from drain_inv [OF this b d2] have "ledger_inv ms (Some (pb_checkpoint b)) (pb_current b) seen l2"
      "planned_ok l2 o2" by simp_all
    from drain_inv [OF this b d3] show ?thesis .
  qed
qed

section \<open>Runs keep the invariant\<close>

definition world_inv :: "ledger_world \<Rightarrow> bool" where
  "world_inv w \<longleftrightarrow>
     ledger_inv (lw_marks w) (lw_checkpoint w) (lw_current w) (lw_seen w) (lw_ledger w)"

lemma checkpoint_mono:
  assumes "ledger_inv ms k cur seen l" and "case k of None \<Rightarrow> True | Some k \<Rightarrow> k \<le> ck"
  shows "ledger_inv ms (Some ck) cur seen l"
proof -
  have "popped_ok cur (Some ck) l"
    using ledger_invD(2) [OF assms(1)] assms(2) unfolding popped_ok_def
    by (cases k) (auto intro: order_trans)
  then show ?thesis using assms(1) by (simp add: ledger_inv_def)
qed

lemma rotate_inv:
  assumes inv: "ledger_inv ms ck cur seen l" and u: "cur < u"
  shows "ledger_inv ms ck u seen l"
proof -
  note I = ledger_invD [OF inv]
  have le: "i \<le> cur" if "segs l i = Some e" for i e using I(6) that by (auto simp: seen_ok_def)
  have lt: "i < u" if "segs l i = Some e" for i e using le [OF that] u by (rule le_less_trans)
  then have "popped_ok u ck l" using I(2) unfolding popped_ok_def by (metis less_irrefl)
  moreover have "c \<le> u \<and> (c = u \<longrightarrow> c \<in> te_segments st)" if "tens l t = Some st" "te_cursor st = Some c" for t st c
    using tenantD(5) [OF I(5) that] u by auto
  then have "tenants_ok ms u l" using tenantD(1-4) [OF I(5)] unfolding tenants_ok_def by blast
  moreover have "seen_ok seen u l"
  proof -
    have f: "wo_segment (fa_offset f) < u" if "f \<in> set seen" for f
      using I(6) that u by (auto simp: seen_ok_def intro: le_less_trans)
    then have "frames_in seen u = {}" by (auto simp: frames_in_def)
    then show ?thesis using I(6) f lt by (auto simp: seen_ok_def less_imp_le)
  qed
  ultimately show ?thesis using I by (simp add: ledger_inv_def)
qed

lemma ledger_pass_inv:
  assumes "ledger_inv ms k cur seen l" and "case k of None \<Rightarrow> True | Some k \<Rightarrow> k \<le> ck"
    and "finite (pr_durable rows)" and "ledger_pass ms' walks ck rows pops cur l = (l', out, capped)"
  shows "ledger_inv ms' (Some ck) cur seen l' \<and> planned_ok l' out"
proof -
  let ?b = "\<lparr>pb_checkpoint = ck, pb_current = cur, pb_tenant_aware = True, pb_rows = rows\<rparr>"
  obtain l1 c1 where a: "ledger_apply (Known ms') walks l = (l1, c1)" by fastforce
  then have i1: "ledger_inv ms' (Some ck) cur seen l1"
    using apply_known_inv [OF checkpoint_mono [OF assms(1,2)], of ms' walks] by simp
  obtain c2 where p: "pop ?b pops l1 = (l', out, c2)"
    using assms(4) by (auto simp: ledger_pass_pops a split: prod.splits)
  show ?thesis using pop_inv [of ms' ?b seen l1 pops l' out c2] i1 assms(3) p by simp
qed

lemma ledger_exec_inv: "world_inv w \<Longrightarrow> ledger_legal p w \<Longrightarrow> world_inv (ledger_exec p w)"
proof (induction p w rule: ledger_exec.induct)
  case (3 ms walks ck durable occupied capacity pops w)
  obtain l' out c where r: "ledger_pass ms walks ck (planned_rows_new (set durable) occupied capacity) pops
      (lw_current w) (lw_ledger w) = (l', out, c)"
    by (metis prod_cases3)
  have "finite (pr_durable (planned_rows_new (set durable) occupied capacity))"
    by (simp add: planned_rows_new_def)
  from ledger_pass_inv [OF _ _ this r] 3 show ?case by (simp add: world_inv_def r)
qed (simp_all add: world_inv_def observe_inv rotate_inv restore_inv hold_inv remove_inv)

lemma ledger_start_inv: "world_inv (ledger_start u)"
  by (simp add: world_inv_def ledger_start_def ledger_inv_def index_ok_def popped_ok_def members_ok_def
      pending_ok_def tenants_ok_def seen_ok_def frames_in_def describe_root_def ledger_default_def)

lemma ledger_run_inv: "ledger_run ps w = Some w' \<Longrightarrow> world_inv w \<Longrightarrow> world_inv w'"
  by (induction ps w rule: ledger_run.induct) (auto simp: ledger_exec_inv split: if_splits)

section \<open>Surviving segments\<close>

lemma rewind_dom:
  assumes "ledger_inv ms ck cur seen l"
  shows "segs (rewind t l) i = None \<longleftrightarrow> segs l i = None"
proof (cases "tens l t")
  case None
  then show ?thesis by (simp add: rewind_def)
next
  case (Some st)
  from rewind_view(1) [OF Some tenantD(1) [OF ledger_invD(5) [OF assms] Some]] show ?thesis by simp
qed

lemma rewind_fold_dom:
  "ledger_inv ms ck cur seen l \<Longrightarrow> segs (fold rewind ts l) i = None \<longleftrightarrow> segs l i = None"
  by (induction ts arbitrary: l) (auto simp: rewind_dom rewind_inv)

lemma walk_loop_dom:
  "ledger_inv ms ck cur seen l \<Longrightarrow> segs (fst (walk_loop left active l)) i = None \<longleftrightarrow> segs l i = None"
proof (induction left active l rule: walk_loop.induct)
  case (3 left t active l)
  show ?case
  proof (cases "next_covered l t")
    case None
    then have s: "ledger_step t l = (l, False)" by (simp add: ledger_step_def)
    show ?thesis using "3.IH"(2) [OF s [symmetric]] "3.prems" by (simp add: s)
  next
    case (Some j)
    then have s: "ledger_step t l = (apply_to t j l, True)" by (simp add: ledger_step_def)
    obtain st e where "tens l t = Some st" "segs l j = Some e"
      by (rule next_coveredD [OF ledger_invD(5) [OF "3.prems"] Some])
    then have "segs (apply_to t j l) i = None \<longleftrightarrow> segs l i = None" by (simp add: apply_to_view)
    then show ?thesis
      using "3.IH"(1) [OF s [symmetric]] apply_to_inv [OF "3.prems" Some] by (simp add: s)
  qed
qed simp_all

lemma apply_known_dom:
  assumes "ledger_inv ms ck cur seen l"
  shows "segs (fst (ledger_apply (Known ms') walks l)) i = None \<longleftrightarrow> segs l i = None"
proof -
  have i1: "ledger_inv ms ck cur seen (l\<lparr>ld_consumer := True\<rparr>)" using assms by simp
  have "segs (receive ms' (l\<lparr>ld_consumer := True\<rparr>)) i = None \<longleftrightarrow> segs l i = None"
    using rewind_fold_dom [OF i1] by (simp add: receive_def Let_def)
  then show ?thesis
    using walk_loop_dom [OF receive_inv [OF i1, of ms']] by (simp add: ledger_apply_def walk_def Let_def case_prod_beta)
qed

lemma drain_loop_dom:
  "segs (snd (snd (fst (drain_loop b budget ad is refused (out, rows, l))))) i = None \<longleftrightarrow> segs l i = None"
proof (induction "is" arbitrary: refused out rows l)
  case (Cons j "is")
  obtain l1 q where t: "take_segment j (pb_current b) l = (l1, q)" by fastforce
  then have "segs l1 i = None \<longleftrightarrow> segs l i = None"
    by (auto simp: take_segment_def Let_def map_upd split: option.splits if_splits)
  with t show ?case using Cons.IH by (cases q) simp_all
qed simp

lemma drain_dom:
  "drain b budget ad (out, rows, l) = ((out', rows', l'), c) \<Longrightarrow> segs l' i = None \<longleftrightarrow> segs l i = None"
  using drain_loop_dom [of b budget ad _ False out rows l i] by (simp add: drain_def) (metis fst_conv snd_conv)

lemma pop_dom:
  assumes "pop b budget l = (l', out, c)"
  shows "segs l' i = None \<longleftrightarrow> segs l i = None"
proof (cases "ld_describes_root l")
  case True
  then show ?thesis by (rule pop_cases [OF assms]) (simp add: drain_dom)
qed (use assms in \<open>simp add: pop_def\<close>)

lemma ledger_pass_dom:
  assumes "ledger_inv ms k cur seen l" and "ledger_pass ms' walks ck rows pops cur l = (l', out, c)"
  shows "segs l' i = None \<longleftrightarrow> segs l i = None"
proof -
  obtain l1 c1 where a: "ledger_apply (Known ms') walks l = (l1, c1)" by fastforce
  obtain c2 where "pop \<lparr>pb_checkpoint = ck, pb_current = cur, pb_tenant_aware = True, pb_rows = rows\<rparr> pops l1
      = (l', out, c2)"
    using assms(2) by (auto simp: ledger_pass_pops a split: prod.splits)
  from pop_dom [OF this] apply_known_dom [OF assms(1), of ms' walks] a show ?thesis by simp
qed

text \<open>An entry nobody holds back is covered, frame by frame.\<close>

lemma free_segment_covered:
  assumes inv: "ledger_inv ms ck cur seen l" and e: "segs l i = Some e" and p: "sg_pending e = {}"
    and f: "f \<in> set seen" "wo_segment (fa_offset f) = i"
  shows "fa_offset f \<le> sg_highest e"
    and "fa_tenant f = Some t \<Longrightarrow> \<exists>h. mark_of ms t = Some h \<and> fa_offset f \<le> h"
proof -
  note I = ledger_invD [OF inv]
  have "fa_offset f \<in> frames_in seen i" using f by (auto simp: frames_in_def)
  then show "fa_offset f \<le> sg_highest e" using I(6) e by (auto simp: seen_ok_def top_of_def)
  assume t: "fa_tenant f = Some t"
  have m: "fa_offset f \<in> tenant_frames_in seen i t" using f t by (auto simp: tenant_frames_in_def)
  have "last_ok (tenant_frames_in seen i t) (map_of (sg_members e) t)"
    using I(6) e by (simp add: seen_ok_def)
  with m obtain sp where sp: "map_of (sg_members e) t = Some sp" "fa_offset f \<le> sp_last sp"
    by (auto simp: last_ok_def top_of_def split: option.splits)
  obtain st h where "tens l t = Some st" "te_horizon st = Some h" "sp_last sp \<le> h"
    by (rule memberD [OF I(3) e sp(1)]) (use p in auto)
  with tenantD(4) [OF I(5)] sp(2) show "\<exists>h. mark_of ms t = Some h \<and> fa_offset f \<le> h"
    by (metis option.distinct(1) order_trans)
qed

lemma popped_reclaimable:
  assumes inv: "world_inv w" and fin: "finite (pr_durable rows)"
    and legal: "case lw_checkpoint w of None \<Rightarrow> True | Some k \<Rightarrow> k \<le> ck"
    and res: "ledger_pass ms walks ck rows pops (lw_current w) (lw_ledger w) = (l', out, c)"
    and p: "p \<in> set out"
  shows "reclaimable w ms ck (pp_segment p)"
proof -
  let ?i = "pp_segment p"
  have i0: "ledger_inv (lw_marks w) (lw_checkpoint w) (lw_current w) (lw_seen w) (lw_ledger w)"
    using inv by (simp add: world_inv_def)
  have i1: "ledger_inv ms (Some ck) (lw_current w) (lw_seen w) l'" and "planned_ok l' out"
    using ledger_pass_inv [OF i0 legal fin res] by simp_all
  then have "?i \<in> ld_reclaiming l'" using p by (auto simp: planned_ok_def)
  then obtain e where e: "segs l' ?i = Some e" "is_reclaiming (sg_state e)"
    using ledger_invD(1) [OF i1] by (auto simp: index_ok_def)
  then have q: "sg_pending e = {}" "?i \<noteq> lw_current w" "sg_highest e \<le> ck"
    using ledger_invD(2) [OF i1] by (auto simp: popped_ok_def)
  have "segs (lw_ledger w) ?i \<noteq> None" using ledger_pass_dom [OF i0 res, of ?i] e(1) by simp
  moreover have "fa_offset f \<le> ck \<and>
      (case fa_tenant f of None \<Rightarrow> True
       | Some t \<Rightarrow> (case mark_of ms t of None \<Rightarrow> False | Some h \<Rightarrow> fa_offset f \<le> h))"
    if "f \<in> set (lw_seen w)" "wo_segment (fa_offset f) = ?i" for f
    using free_segment_covered [OF i1 e(1) q(1) that] q(3) by (auto split: option.split)
  ultimately show ?thesis using q(2) by (simp add: reclaimable_def)
qed

end
