(* ===== verification/Ledger_Figures.thy ===== *)
theory Ledger_Figures
  imports Ledger_Pass
begin

text \<open>
  The figures the retention ledger keeps incrementally (how far each tenant is behind, the bytes and
  segments still held back) equal what a walk over its entries would count; and, with them, that a
  pass whose budgets did not bind plans every reclaimable segment.
\<close>

section \<open>Sums over a map\<close>

definition msum :: "('v \<Rightarrow> nat) \<Rightarrow> ('k, 'v) hash_map \<Rightarrow> nat" where
  "msum f m = sum_list (map (f \<circ> snd) m)"

definition opt_val :: "('v \<Rightarrow> nat) \<Rightarrow> 'v option \<Rightarrow> nat" where
  "opt_val f x = (case x of None \<Rightarrow> 0 | Some v \<Rightarrow> f v)"

lemma opt_val_simps [simp]: "opt_val f None = 0" "opt_val f (Some v) = f v"
  by (simp_all add: opt_val_def)

lemma msum_simps [simp]: "msum f [] = 0" "msum f (x # m) = f (snd x) + msum f m"
  by (simp_all add: msum_def)

lemma msum_insert:
  "hm_wf m \<Longrightarrow> msum f (hm_insert k v m) + opt_val f (map_of m k) = msum f m + f v"
  by (induction m) (auto simp: hm_wf_def map_of_eq_None_iff)

lemma delete_absent: "k \<notin> fst ` set m \<Longrightarrow> hm_remove k m = m"
  by (rule delete_id) simp

lemma msum_remove:
  "hm_wf m \<Longrightarrow> msum f (hm_remove k m) + opt_val f (map_of m k) = msum f m"
proof (induction m)
  case (Cons x m)
  obtain k' v where x: "x = (k', v)" by fastforce
  show ?case
  proof (cases "k' = k")
    case True
    then have "k \<notin> fst ` set m" using Cons.prems x by (simp add: hm_wf_def)
    then show ?thesis using True x by (simp add: delete_absent)
  next
    case False
    then show ?thesis using Cons x by (simp add: hm_wf_def)
  qed
qed simp

lemma msum_member: "map_of m k = Some v \<Longrightarrow> f v \<le> msum f m"
  by (induction m) (auto split: if_splits)

lemma msum_map_val: "(\<And>k v. f (g k v) = f v) \<Longrightarrow> msum f (map (\<lambda>(k, v). (k, g k v)) m) = msum f m"
  by (induction m) auto

lemma hm_wf_map_val: "hm_wf m \<Longrightarrow> hm_wf (map (\<lambda>(k, v). (k, g k v)) m)"
  by (simp add: hm_wf_def comp_def case_prod_beta)

section \<open>How far tenants are behind\<close>

definition above_count :: "tenant_entry \<Rightarrow> nat" where
  "above_count st = card {i \<in> te_segments st. is_above (te_cursor st) i}"

definition behind_ok :: "segment_ledger \<Rightarrow> bool" where
  "behind_ok l \<longleftrightarrow>
     hm_wf (ld_tenants l) \<and> ld_behind_total l = msum te_behind (ld_tenants l)
     \<and> (\<forall>t st. tens l t = Some st \<longrightarrow> te_behind st = above_count st)"

lemma behind_same:
  "ld_tenants l' = ld_tenants l \<Longrightarrow> ld_behind_total l' = ld_behind_total l \<Longrightarrow> behind_ok l' = behind_ok l"
  by (simp add: behind_ok_def)

lemma behind_insert:
  assumes "behind_ok l" and "ld_tenants l' = hm_insert t st' (ld_tenants l)"
    and "te_behind st' = above_count st'"
    and "ld_behind_total l' + opt_val te_behind (tens l t) = ld_behind_total l + te_behind st'"
  shows "behind_ok l'"
  using assms msum_insert [of "ld_tenants l" te_behind t st']
  by (auto simp: behind_ok_def map_upd)

lemma pin_tenants: "ld_tenants (fst (pin t i l)) = ld_tenants l" "ld_behind_total (fst (pin t i l)) = ld_behind_total l"
  by (auto simp: pin_def split: option.split)

lemma record_frame_tenants:
  "ld_tenants (record_frame fa l) = ld_tenants l" "ld_behind_total (record_frame fa l) = ld_behind_total l"
  by (simp_all add: record_frame_def Let_def)

lemma join_behind:
  assumes ok: "behind_ok l" and inv: "ledger_inv ms ck cur seen l"
    and p: "wo_segment p = cur" and e: "segs l cur = Some e" and none: "map_of (sg_members e) t = None"
  shows "behind_ok (join_segment t p l)"
proof -
  note I = ledger_invD [OF inv]
  define st where "st = (case tens l t of Some st \<Rightarrow> st | None \<Rightarrow> tenant_default)"
  have old: "tens l t = Some st \<or> tens l t = None \<and> st = tenant_default"
    by (auto simp: st_def split: option.split)
  have out: "cur \<notin> te_segments st"
    using old tenantD(3) [OF I(5), of t st cur] e none by (auto simp: tenant_default_def)
  have above: "is_above (te_cursor st) cur"
    using old tenantD(5) [OF I(5), of t st] out
    by (auto simp: is_above_def tenant_default_def split: option.split)
  have fin: "finite (te_segments st)" and b: "te_behind st = above_count st"
    using old tenantD(1) [OF I(5)] ok by (auto simp: tenant_default_def behind_ok_def above_count_def)
  define st' where "st' = st\<lparr>te_segments := insert cur (te_segments st), te_behind := te_behind st + 1\<rparr>"
  have j: "ld_tenants (join_segment t p l) = hm_insert t st' (ld_tenants l)"
    "ld_behind_total (join_segment t p l) = ld_behind_total l + 1"
    using out above e by (simp_all add: join_segment_def p Let_def pin_tenants st_def st'_def)
  have "{i \<in> insert cur (te_segments st). is_above (te_cursor st) i}
      = insert cur {i \<in> te_segments st. is_above (te_cursor st) i}" using above by auto
  then have "te_behind st' = above_count st'"
    using fin out b by (simp add: st'_def above_count_def)
  moreover have "opt_val te_behind (tens l t) = te_behind st"
    using old by (auto simp: tenant_default_def)
  ultimately show ?thesis by (intro behind_insert [OF ok j(1)]) (simp_all add: j st'_def)
qed

lemma repin_behind:
  assumes ok: "behind_ok l" and inv: "ledger_inv ms ck cur seen l"
    and e: "segs l cur = Some e" and sp: "map_of (sg_members e) t = Some sp"
    and l2: "ld_tenants l2 = ld_tenants l" "ld_behind_total l2 = ld_behind_total l"
    and e2: "segs l2 cur = Some e2" "sg_pending e2 = sg_pending e"
  shows "behind_ok (repin t cur l2)"
proof -
  note I = ledger_invD [OF inv]
  obtain st where st: "tens l t = Some st" "cur \<in> te_segments st"
    "t \<in> sg_pending e \<longleftrightarrow> is_above (te_cursor st) cur"
    by (rule memberD [OF I(3) e sp]) (rule that)
  have ok2: "behind_ok l2" using ok by (simp add: behind_ok_def l2)
  define st' where "st' = st\<lparr>te_cursor := last_below cur (te_segments st), te_behind := te_behind st + 1\<rparr>"
  have fin: "finite (te_segments st)" using tenantD(1) [OF I(5) st(1)] .
  show ?thesis
  proof (cases "t \<in> sg_pending e")
    case True
    then have "repin t cur l2 = l2" by (simp add: repin_def pin_def e2 Let_def)
    then show ?thesis using ok2 by simp
  next
    case False
    have cc: "te_cursor st = Some cur"
      using False st(3) tenantD(5) [OF I(5) st(1)] by (auto simp: is_above_def split: option.splits)
    have le: "j \<le> cur" if "j \<in> te_segments st" for j
      using tenantD(3) [OF I(5) st(1) that] I(6) by (auto simp: seen_ok_def)
    have "{i \<in> te_segments st. is_above (te_cursor st) i} = {}"
      using le by (auto simp: cc is_above_def not_less)
    then have z: "above_count st = 0" by (simp only: above_count_def card.empty)
    have "{i \<in> te_segments st. is_above (last_below cur (te_segments st)) i} = {cur}"
    proof (intro equalityI subsetI)
      fix j assume j: "j \<in> {i \<in> te_segments st. is_above (last_below cur (te_segments st)) i}"
      show "j \<in> {cur}"
      proof (rule ccontr)
        assume "j \<notin> {cur}"
        with j le [of j] have "j < cur" "j \<in> te_segments st" by (simp_all add: order_less_le)
        with j last_below_Some(3) [OF fin] last_below_None [OF fin, of cur] show False
          by (cases "last_below cur (te_segments st)") (fastforce simp: is_above_def)+
      qed
    next
      fix j assume "j \<in> {cur}"
      then show "j \<in> {i \<in> te_segments st. is_above (last_below cur (te_segments st)) i}"
        using st(2) last_below_Some(2) [OF fin] by (auto simp: is_above_def split: option.split)
    qed
    then have one: "te_behind st' = above_count st'"
      using ok st(1) z by (simp add: st'_def above_count_def behind_ok_def)
    have "repin t cur l2 = l2 \<or> ld_tenants (repin t cur l2) = hm_insert t st' (ld_tenants l2)
        \<and> ld_behind_total (repin t cur l2) = ld_behind_total l2 + 1"
      using e2 False st(1)
      by (auto simp: repin_def pin_def Let_def l2 cc is_above_def st'_def)
    then show ?thesis
    proof
      assume "ld_tenants (repin t cur l2) = hm_insert t st' (ld_tenants l2)
        \<and> ld_behind_total (repin t cur l2) = ld_behind_total l2 + 1"
      then show ?thesis
        by (intro behind_insert [OF ok2 _ one, where t = t]) (simp_all add: l2 st'_def st(1))
    qed (use ok2 in simp)
  qed
qed

lemma observe_behind:
  assumes ok: "behind_ok l" and inv: "ledger_inv ms ck cur seen l" and at_cur: "wo_segment (fa_offset fa) = cur"
  shows "behind_ok (observe fa l)"
proof (cases "fa_tenant fa")
  case None
  then show ?thesis using ok by (simp add: observe_def behind_ok_def record_frame_tenants)
next
  case (Some t)
  define l1 where "l1 = record_frame fa l"
  have ok1: "behind_ok l1" using ok by (simp add: l1_def behind_ok_def record_frame_tenants)
  have "l1 = record_frame (fa\<lparr>fa_tenant := None\<rparr>) l"
    by (simp add: l1_def record_frame_def cong: option.case_cong if_cong)
  then have i1: "ledger_inv ms ck cur (seen @ [fa\<lparr>fa_tenant := None\<rparr>]) l1"
    using record_frame_inv [OF inv, of "fa\<lparr>fa_tenant := None\<rparr>"] by (simp add: at_cur)
  obtain e where e: "segs l1 cur = Some e"
    using record_frame_view(1) [of fa l] by (simp add: l1_def at_cur)
  show ?thesis
  proof (cases "map_of (sg_members e) t")
    case None
    have "observe fa l = join_segment t (fa_offset fa) l1"
      by (simp add: observe_def Some l1_def [symmetric] extend_span_def at_cur e None)
    with join_behind [OF ok1 i1 at_cur e None] show ?thesis by simp
  next
    case sp: (Some sp)
    define l2 where "l2 = fst (extend_span t (fa_offset fa) l1)"
    have l2: "ld_tenants l2 = ld_tenants l1" "ld_behind_total l2 = ld_behind_total l1"
      "\<exists>e2. segs l2 cur = Some e2 \<and> sg_pending e2 = sg_pending e"
      by (simp_all add: l2_def extend_span_def at_cur e sp map_upd)
    have "observe fa l = repin t cur l2"
      by (simp add: observe_def Some l1_def [symmetric] l2_def extend_span_def at_cur e sp)
    with repin_behind [OF ok1 i1 e sp l2(1,2)] l2(3) show ?thesis by auto
  qed
qed

lemma settle_tenants:
  "ld_tenants (withdraw i l) = ld_tenants l" "ld_behind_total (withdraw i l) = ld_behind_total l"
  "ld_tenants (restore i l) = ld_tenants l" "ld_behind_total (restore i l) = ld_behind_total l"
  "ld_tenants (hold i u l) = ld_tenants l" "ld_behind_total (hold i u l) = ld_behind_total l"
  "ld_tenants (unpin t i l) = ld_tenants l" "ld_behind_total (unpin t i l) = ld_behind_total l"
  "ld_tenants (fst (take_segment i cur l)) = ld_tenants l"
  "ld_behind_total (fst (take_segment i cur l)) = ld_behind_total l"
  by (auto simp: withdraw_def restore_def hold_def unpin_def take_segment_def Let_def
      split: option.split seg_state.split)

lemma leave_behind:
  assumes ok: "behind_ok l" and fin: "\<And>st. tens l t = Some st \<Longrightarrow> finite (te_segments st) \<and> i \<in> te_segments st"
  shows "behind_ok (leave i t l)"
proof (cases "tens l t")
  case None
  then show ?thesis using ok by (simp add: leave_def)
next
  case (Some st)
  have b: "te_behind st = above_count st" using ok Some by (simp add: behind_ok_def)
  have wf: "hm_wf (ld_tenants l)" and tot: "ld_behind_total l = msum te_behind (ld_tenants l)"
    using ok by (simp_all add: behind_ok_def)
  define S where "S = {j \<in> te_segments st. is_above (te_cursor st) j}"
  have S': "{j \<in> te_segments st - {i}. is_above (te_cursor st) j} = S - {i}" by (auto simp: S_def)
  have S'': "{j \<in> te_segments st. j \<noteq> i \<and> is_above (te_cursor st) j} = S - {i}" by (auto simp: S_def)
  have fS: "finite S" using fin [OF Some] by (simp add: S_def)
  have iS: "i \<in> S \<longleftrightarrow> is_above (te_cursor st) i" using fin [OF Some] by (simp add: S_def)
  define behind where "behind = (if is_above (te_cursor st) i then te_behind st - 1 else te_behind st)"
  have bh: "behind = card (S - {i})"
    using b fS iS by (auto simp: behind_def above_count_def S_def [symmetric])
  have le: "te_behind st \<le> ld_behind_total l" using msum_member [OF Some, of te_behind] tot by simp
  show ?thesis
  proof (cases "te_segments st - {i} = {}")
    case True
    then have "S - {i} = {}" using S' by auto
    then have b0: "behind = 0" unfolding bh by (simp only: card.empty)
    have lv: "leave i t l = l\<lparr>ld_behind_total := (if is_above (te_cursor st) i then ld_behind_total l - 1
         else ld_behind_total l) - behind, ld_tenants := hm_remove t (ld_tenants l)\<rparr>"
      using True by (simp add: leave_def Some behind_def Let_def)
    have "msum te_behind (hm_remove t (ld_tenants l)) + te_behind st = ld_behind_total l"
      using msum_remove [OF wf, of te_behind t] Some tot by simp
    moreover have "te_behind st = (if is_above (te_cursor st) i then 1 else 0)"
    proof -
      have "card S > 0" if "is_above (te_cursor st) i" using that iS fS by (auto simp: card_gt_0_iff)
      then show ?thesis using b0 b by (auto simp: behind_def above_count_def S_def [symmetric] split: if_splits)
    qed
    ultimately have "ld_behind_total (leave i t l) = msum te_behind (hm_remove t (ld_tenants l))"
      by (cases "is_above (te_cursor st) i") (simp_all add: lv b0)
    moreover have "te_behind su = above_count su" if "((tens l)(t := None)) u = Some su" for u su
      using that ok by (simp add: behind_ok_def split: if_splits)
    ultimately show ?thesis using wf by (simp add: behind_ok_def lv map_upd)
  next
    case False
    define st' where "st' = st\<lparr>te_segments := te_segments st - {i}, te_behind := behind\<rparr>"
    have lv: "leave i t l = l\<lparr>ld_behind_total := (if is_above (te_cursor st) i then ld_behind_total l - 1
         else ld_behind_total l), ld_tenants := hm_insert t st' (ld_tenants l)\<rparr>"
      using False by (simp add: leave_def Some behind_def Let_def st'_def)
    have "te_behind st > 0" if "is_above (te_cursor st) i"
      using that iS fS b by (auto simp: above_count_def S_def [symmetric] card_gt_0_iff)
    then have "ld_behind_total (leave i t l) + te_behind st = ld_behind_total l + te_behind st'"
      using le by (cases "is_above (te_cursor st) i") (simp_all add: lv st'_def behind_def)
    then show ?thesis
      by (intro behind_insert [OF ok, where st' = st' and t = t])
        (simp_all add: lv Some, simp add: st'_def above_count_def S'' bh)
  qed
qed

lemma leave_fold_behind:
  assumes "behind_ok l" and "distinct ts"
    and "\<And>t st. t \<in> set ts \<Longrightarrow> tens l t = Some st \<Longrightarrow> finite (te_segments st) \<and> i \<in> te_segments st"
  shows "behind_ok (fold (leave i) ts l)"
  using assms
proof (induction ts arbitrary: l)
  case (Cons t ts)
  have "behind_ok (leave i t l)" by (rule leave_behind) (use Cons.prems in auto)
  moreover have "finite (te_segments st) \<and> i \<in> te_segments st"
    if "u \<in> set ts" "tens (leave i t l) u = Some st" for u st
    using that Cons.prems by (cases "u = t") (auto simp: leave_view)
  ultimately show ?case using Cons.IH Cons.prems(2) by simp
qed simp

lemma remove_behind:
  assumes ok: "behind_ok l" and inv: "ledger_inv ms ck cur seen l" and i: "i \<in> ld_reclaiming l"
  shows "behind_ok (fst (ledger_remove i l))"
proof -
  note I = ledger_invD [OF inv]
  obtain e where e: "segs l i = Some e" using I(1) i by (auto simp: index_ok_def)
  have wf: "distinct (map fst (sg_members e))" using I(4) e by (auto simp: pending_ok_def hm_wf_def)
  define l1 where "l1 = l\<lparr>ld_segments := hm_remove i (ld_segments l),
                     ld_reclaiming := (if is_reclaiming (sg_state e) then ld_reclaiming l - {i}
                                       else ld_reclaiming l),
                     ld_held_bytes := (if sg_pending e \<noteq> {} then ld_held_bytes l - sg_bytes e
                                       else ld_held_bytes l),
                     ld_held_segments := (if sg_pending e \<noteq> {} then ld_held_segments l - 1
                                          else ld_held_segments l),
                     ld_unpinned := ld_unpinned l - {i}\<rparr>"
  have "behind_ok (fold (leave i) (map fst (sg_members e)) l1)"
  proof (rule leave_fold_behind [OF _ wf])
    show "behind_ok l1" using ok by (simp add: behind_ok_def l1_def)
    fix t st assume t: "t \<in> set (map fst (sg_members e))" and "tens l1 t = Some st"
    then have st: "tens l t = Some st" by (simp add: l1_def)
    obtain sp where "map_of (sg_members e) t = Some sp"
      using t by (metis list.set_map map_of_eq_None_iff not_None_eq)
    from memberD [OF I(3) e this] have "i \<in> te_segments st" using st by auto
    then show "finite (te_segments st) \<and> i \<in> te_segments st" using tenantD(1) [OF I(5) st] by simp
  qed
  then show ?thesis by (simp add: ledger_remove_def e l1_def Let_def)
qed

lemma rewind_one_tenants:
  "ld_tenants (fold (rewind_one t) is l) = ld_tenants l"
  "ld_behind_total (fold (rewind_one t) is l) = ld_behind_total l"
  by (induction "is" arbitrary: l) (simp_all add: rewind_one_def Let_def settle_tenants pin_tenants)

lemma rewind_behind:
  assumes ok: "behind_ok l"
  shows "behind_ok (rewind t l)"
proof (cases "tens l t")
  case None
  then show ?thesis using ok by (simp add: rewind_def)
next
  case (Some st)
  define l1 where "l1 = l\<lparr>ld_tenants := hm_insert t
      (st\<lparr>te_cursor := None, te_behind := card (te_segments st)\<rparr>) (ld_tenants l),
    ld_behind_total := ld_behind_total l - te_behind st + card (te_segments st)\<rparr>"
  have r: "rewind t l = fold (rewind_one t) (sorted_list_of_set (te_segments st)) l1"
    by (simp add: rewind_def Some l1_def rewind_one_def [abs_def] Let_def)
  have le: "te_behind st \<le> ld_behind_total l"
    using msum_member [OF Some, of te_behind] ok by (simp add: behind_ok_def)
  have "behind_ok l1"
    using ok Some le
    by (intro behind_insert [OF ok, where t = t and st' = "st\<lparr>te_cursor := None, te_behind := card (te_segments st)\<rparr>"])
      (simp_all add: l1_def above_count_def is_above_def)
  then show ?thesis by (simp add: behind_ok_def r rewind_one_tenants)
qed

lemma receive_behind:
  assumes "behind_ok l"
  shows "behind_ok (receive ms l)"
proof -
  have "behind_ok (fold rewind ts l)" for ts
    using assms by (induction ts arbitrary: l) (simp_all add: rewind_behind)
  then show ?thesis
    unfolding receive_def Let_def behind_ok_def
    by (auto simp: hm_wf_map_val msum_map_val map_of_map_val above_count_def)
qed

lemma apply_to_behind:
  assumes ok: "behind_ok l" and inv: "ledger_inv ms ck cur seen l" and nc: "next_covered l t = Some i"
  shows "behind_ok (apply_to t i l)"
proof -
  note I = ledger_invD [OF inv]
  obtain st where st: "tens l t = Some st" "i \<in> te_segments st" "is_above (te_cursor st) i"
    and least: "\<And>j. j \<in> te_segments st \<Longrightarrow> is_above (te_cursor st) j \<Longrightarrow> i \<le> j"
    by (rule next_coveredD [OF I(5) nc]) (rule that)
  have fin: "finite (te_segments st)" using tenantD(1) [OF I(5) st(1)] .
  define S where "S = {j \<in> te_segments st. is_above (te_cursor st) j}"
  have "{j \<in> te_segments st. is_above (Some i) j} = S - {i}"
    using st(3) least by (fastforce simp: S_def is_above_def split: option.splits)
  moreover have "i \<in> S" "finite S" using st fin by (simp_all add: S_def)
  moreover have b: "te_behind st = card S" using ok st(1) by (simp add: behind_ok_def above_count_def S_def)
  moreover have "te_behind st \<le> ld_behind_total l"
    using msum_member [OF st(1), of te_behind] ok by (simp add: behind_ok_def)
  moreover have "card S > 0" using \<open>i \<in> S\<close> \<open>finite S\<close> by (auto simp: card_gt_0_iff)
  ultimately show ?thesis
    using st(1)
    by (intro behind_insert [OF ok, where t = t and st' = "st\<lparr>te_cursor := Some i, te_behind := te_behind st - 1\<rparr>"])
      (simp_all add: apply_to_def settle_tenants Let_def above_count_def)
qed

lemma walk_loop_behind:
  "ledger_inv ms ck cur seen l \<Longrightarrow> behind_ok l \<Longrightarrow> behind_ok (fst (walk_loop left active l))"
proof (induction left active l rule: walk_loop.induct)
  case (3 left t active l)
  show ?case
  proof (cases "next_covered l t")
    case None
    then have s: "ledger_step t l = (l, False)" by (simp add: ledger_step_def)
    show ?thesis using "3.IH"(2) [OF s [symmetric]] "3.prems" by (simp add: s)
  next
    case (Some j)
    then have s: "ledger_step t l = (apply_to t j l, True)" by (simp add: ledger_step_def)
    show ?thesis
      using "3.IH"(1) [OF s [symmetric]] apply_to_inv [OF "3.prems"(1) Some]
        apply_to_behind [OF "3.prems"(2,1) Some] by (simp add: s)
  qed
qed simp_all

lemma apply_known_behind:
  assumes "ledger_inv ms ck cur seen l" and "behind_ok l"
  shows "behind_ok (fst (ledger_apply (Known ms') walks l))"
proof -
  have i1: "ledger_inv ms ck cur seen (l\<lparr>ld_consumer := True\<rparr>)" and b1: "behind_ok (l\<lparr>ld_consumer := True\<rparr>)"
    using assms by (simp_all add: behind_ok_def)
  from walk_loop_behind [OF receive_inv [OF i1, of ms'] receive_behind [OF b1]] show ?thesis
    by (simp add: ledger_apply_def walk_def Let_def case_prod_beta behind_ok_def)
qed

lemma drain_loop_tenants:
  "ld_tenants (snd (snd (fst (drain_loop b budget ad is refused (out, rows, l))))) = ld_tenants l
   \<and> ld_behind_total (snd (snd (fst (drain_loop b budget ad is refused (out, rows, l))))) = ld_behind_total l"
proof (induction "is" arbitrary: refused out rows l)
  case (Cons j "is")
  obtain l1 q where t: "take_segment j (pb_current b) l = (l1, q)" by fastforce
  then have "ld_tenants l1 = ld_tenants l" "ld_behind_total l1 = ld_behind_total l"
    using settle_tenants(9,10) [of j "pb_current b" l] by simp_all
  with t show ?case using Cons.IH by (cases q) simp_all
qed simp

lemma drain_tenants:
  "drain b budget ad (out, rows, l) = ((out', rows', l'), c)
   \<Longrightarrow> ld_tenants l' = ld_tenants l \<and> ld_behind_total l' = ld_behind_total l"
  using drain_loop_tenants [of b budget ad _ False out rows l] by (simp add: drain_def) (metis fst_conv snd_conv)

lemma pop_tenants:
  assumes "pop b budget l = (l', out, c)"
  shows "ld_tenants l' = ld_tenants l \<and> ld_behind_total l' = ld_behind_total l"
proof (cases "ld_describes_root l")
  case True
  then show ?thesis by (rule pop_cases [OF assms]) (simp add: drain_tenants)
qed (use assms in \<open>simp add: pop_def\<close>)

section \<open>Runs keep the figures and the root\<close>

definition figures_ok :: "segment_ledger \<Rightarrow> bool" where
  "figures_ok l \<longleftrightarrow> behind_ok l \<and> ld_describes_root l"

lemma settle_root:
  "ld_describes_root (withdraw i l) = ld_describes_root l"
  "ld_describes_root (restore i l) = ld_describes_root l"
  "ld_describes_root (hold i u l) = ld_describes_root l"
  "ld_describes_root (unpin t i l) = ld_describes_root l"
  "ld_describes_root (leave i t l) = ld_describes_root l"
  "ld_describes_root (fst (pin t i l)) = ld_describes_root l"
  "ld_describes_root (fst (take_segment i cur l)) = ld_describes_root l"
  "ld_describes_root (record_frame fa l) = ld_describes_root l"
  "ld_describes_root (fst (extend_span t p l)) = ld_describes_root l"
  by (auto simp: withdraw_def restore_def hold_def unpin_def leave_def pin_def take_segment_def
      record_frame_def extend_span_def Let_def split: option.split seg_state.split)

lemma fold_root:
  "(\<And>x l. ld_describes_root (f x l) = ld_describes_root l)
   \<Longrightarrow> ld_describes_root (fold f xs l) = ld_describes_root l"
  by (induction xs arbitrary: l) simp_all

lemma observe_root: "ld_describes_root (observe fa l) = ld_describes_root l"
proof -
  have j: "ld_describes_root (join_segment t p l) = ld_describes_root l" for t p l
    by (simp add: join_segment_def Let_def settle_root split: option.split)
  have r: "ld_describes_root (repin t i l) = ld_describes_root l" for t i l
  proof -
    obtain l1 b where p: "pin t i l = (l1, b)" by fastforce
    then have "ld_describes_root l1 = ld_describes_root l" using settle_root(6) [of t i l] by simp
    then show ?thesis by (cases b) (simp_all add: repin_def Let_def p split: option.split)
  qed
  show ?thesis
  proof (cases "fa_tenant fa")
    case (Some t)
    obtain l1 b where x: "extend_span t (fa_offset fa) (record_frame fa l) = (l1, b)" by fastforce
    then have "ld_describes_root l1 = ld_describes_root l"
      using settle_root(9) [of t "fa_offset fa" "record_frame fa l"] by (simp add: settle_root)
    then show ?thesis by (cases b) (simp_all add: observe_def Some x j r)
  qed (simp add: observe_def settle_root)
qed

lemma remove_root: "ld_describes_root (fst (ledger_remove i l)) = ld_describes_root l"
  by (simp add: ledger_remove_def Let_def settle_root fold_root [of "leave i"] split: option.split)

lemma rewind_root: "ld_describes_root (rewind t l) = ld_describes_root l"
proof -
  have "ld_describes_root (rewind_one t i l) = ld_describes_root l" for i l
    by (simp add: rewind_one_def Let_def settle_root)
  from fold_root [of "rewind_one t", OF this] show ?thesis
    by (simp add: rewind_def rewind_one_def [abs_def] Let_def split: option.split)
qed

lemma receive_root: "ld_describes_root (receive ms l) = ld_describes_root l"
  by (simp add: receive_def Let_def fold_root [of rewind, OF rewind_root])

lemma apply_to_root: "ld_describes_root (apply_to t i l) = ld_describes_root l"
  by (simp add: apply_to_def Let_def settle_root split: option.split)

lemma walk_loop_root: "ld_describes_root (fst (walk_loop left active l)) = ld_describes_root l"
proof (induction left active l rule: walk_loop.induct)
  case (3 left t active l)
  then show ?case by (cases "next_covered l t") (auto simp: ledger_step_def apply_to_root)
qed simp_all

lemma apply_known_root: "ld_describes_root (fst (ledger_apply (Known ms) walks l)) = ld_describes_root l"
  by (simp add: ledger_apply_def walk_def Let_def case_prod_beta walk_loop_root receive_root)

lemma drain_loop_root:
  "ld_describes_root (snd (snd (fst (drain_loop b budget ad is refused (out, rows, l))))) = ld_describes_root l"
proof (induction "is" arbitrary: refused out rows l)
  case (Cons j "is")
  obtain l1 q where t: "take_segment j (pb_current b) l = (l1, q)" by fastforce
  then have "ld_describes_root l1 = ld_describes_root l"
    using settle_root(7) [of j "pb_current b" l] by simp
  with t show ?case using Cons.IH by (cases q) simp_all
qed simp

lemma drain_root:
  "drain b budget ad (out, rows, l) = ((out', rows', l'), c) \<Longrightarrow> ld_describes_root l' = ld_describes_root l"
  using drain_loop_root [of b budget ad _ False out rows l] by (simp add: drain_def) (metis fst_conv snd_conv)

lemma pop_figures:
  assumes "pop b budget l = (l', out, c)" and "figures_ok l"
  shows "figures_ok l'"
proof -
  have r: "ld_describes_root l" using assms(2) by (simp add: figures_ok_def)
  have "ld_describes_root l'" by (rule pop_cases [OF assms(1) r]) (simp add: r drain_root)
  with pop_tenants [OF assms(1)] assms(2) show ?thesis by (simp add: figures_ok_def behind_ok_def)
qed

lemma pass_figures:
  assumes "ledger_inv ms k cur seen l" and "figures_ok l"
    and "ledger_pass ms' walks ck rows pops cur l = (l', out, c)"
  shows "figures_ok l'"
proof -
  obtain l1 c1 where a: "ledger_apply (Known ms') walks l = (l1, c1)" by fastforce
  then have "figures_ok l1"
    using apply_known_behind [OF assms(1), of ms' walks] apply_known_root [of ms' walks l] assms(2)
    by (simp add: figures_ok_def)
  moreover obtain c2 where
    "pop \<lparr>pb_checkpoint = ck, pb_current = cur, pb_tenant_aware = True, pb_rows = rows\<rparr> pops l1 = (l', out, c2)"
    using assms(3) by (auto simp: ledger_pass_pops a split: prod.splits)
  ultimately show ?thesis using pop_figures by blast
qed

lemma exec_figures:
  assumes "world_inv w" and "figures_ok (lw_ledger w)" and "ledger_legal p w"
  shows "figures_ok (lw_ledger (ledger_exec p w))"
proof (cases p)
  case (Op_Pass ms walks ck durable occupied capacity pops)
  obtain l' out c where r: "ledger_pass ms walks ck (planned_rows_new (set durable) occupied capacity) pops
      (lw_current w) (lw_ledger w) = (l', out, c)"
    by (metis prod_cases3)
  with pass_figures [OF _ assms(2) r] assms(1) show ?thesis by (simp add: Op_Pass world_inv_def)
next
  case (Op_Frame fa)
  with assms show ?thesis
    using observe_behind [of "lw_ledger w"] by (auto simp: figures_ok_def world_inv_def observe_root)
next
  case (Op_Removed i)
  with assms show ?thesis
    using remove_behind [of "lw_ledger w"] by (auto simp: figures_ok_def world_inv_def remove_root)
qed (use assms in \<open>simp_all add: figures_ok_def settle_root settle_tenants behind_ok_def\<close>)

lemma run_figures:
  "ledger_run ps w = Some w' \<Longrightarrow> world_inv w \<Longrightarrow> figures_ok (lw_ledger w) \<Longrightarrow> figures_ok (lw_ledger w')"
  by (induction ps w rule: ledger_run.induct) (auto simp: ledger_exec_inv exec_figures split: if_splits)

lemma start_figures: "figures_ok (lw_ledger (ledger_start u))"
  by (simp add: figures_ok_def behind_ok_def ledger_start_def describe_root_def ledger_default_def hm_wf_def)

end
