(* ===== verification/Ledger_Complete.thy ===== *)
theory Ledger_Complete
  imports Ledger_Figures
begin

text \<open>
  Reclamation is complete: a pass that reports that no budget bound it plans every segment the
  retention rule allows, and a pass with room for the whole ledger is never bound.
\<close>

section \<open>A walk that was not capped\<close>

lemma next_covered_other:
  assumes "segs l i = Some e" and "tens l t = Some st" and "u \<noteq> t"
  shows "next_covered (apply_to t i l) u = next_covered l u"
proof -
  note v = apply_to_view [OF assms(1,2)]
  have "tens (apply_to t i l) u = tens l u" using assms(3) by (simp add: v)
  moreover have "segs (apply_to t i l) j = None \<longleftrightarrow> segs l j = None"
    "segs (apply_to t i l) j = Some e1 \<Longrightarrow> \<exists>e2. segs l j = Some e2 \<and> sg_members e2 = sg_members e1" for j e1
    using assms(1) by (auto simp: v split: if_splits)
  ultimately show ?thesis unfolding next_covered_def by (fastforce split: option.split)
qed

lemma none_above:
  assumes inv: "ledger_inv ms ck cur seen l" and ok: "behind_ok l" and z: "\<And>st. tens l t = Some st \<Longrightarrow> te_behind st = 0"
  shows "next_covered l t = None"
proof (cases "next_covered l t")
  case (Some i)
  note I = ledger_invD [OF inv]
  obtain st where st: "tens l t = Some st" "i \<in> te_segments st" "is_above (te_cursor st) i"
    by (rule next_coveredD [OF I(5) Some]) (rule that)
  have "finite (te_segments st)" using tenantD(1) [OF I(5) st(1)] .
  then have "above_count st > 0" using st(2,3) by (auto simp: above_count_def card_gt_0_iff)
  then show ?thesis using z [OF st(1)] ok st(1) by (simp add: behind_ok_def)
qed

lemma walk_loop_uncapped:
  assumes "ledger_inv ms ck cur seen l" and "behind_ok l"
    and "\<And>t. next_covered l t \<noteq> None \<Longrightarrow> t \<in> set active"
    and "\<not> snd (walk_loop left active l)"
  shows "next_covered (fst (walk_loop left active l)) t = None"
  using assms
proof (induction left active l arbitrary: t rule: walk_loop.induct)
  case (1 active l)
  have "te_behind st = 0" if "tens l u = Some st" for u st
    using msum_member [OF that, of te_behind] 1 by (simp add: behind_ok_def any_behind_def)
  then show ?case using none_above [OF 1(1,2)] by simp
next
  case (2 left l)
  then show ?case by (cases "next_covered l t") auto
next
  case (3 left u active l)
  show ?case
  proof (cases "next_covered l u")
    case None
    then have s: "ledger_step u l = (l, False)" by (simp add: ledger_step_def)
    have "t \<in> set active" if "next_covered l t \<noteq> None" for t
      using "3.prems"(3) [OF that] that None by auto
    with "3.IH"(2) [OF s [symmetric]] "3.prems" show ?thesis by (simp add: s)
  next
    case (Some j)
    then have s: "ledger_step u l = (apply_to u j l, True)" by (simp add: ledger_step_def)
    note I = ledger_invD [OF "3.prems"(1)]
    obtain st e where e: "tens l u = Some st" "segs l j = Some e"
      by (rule next_coveredD [OF I(5) Some]) (rule that)
    have "t \<in> set (active @ [u])" if "next_covered (apply_to u j l) t \<noteq> None" for t
      using "3.prems"(3) [of t] that next_covered_other [OF e(2,1), of t] by (cases "t = u") auto
    with "3.IH"(1) [OF s [symmetric]] apply_to_inv [OF "3.prems"(1) Some]
      apply_to_behind [OF "3.prems"(2,1) Some] "3.prems"(4) show ?thesis by (simp add: s)
  qed
qed

lemma walk_uncapped:
  assumes "ledger_inv ms ck cur seen l" and ok: "behind_ok l" and "\<not> snd (walk budget l)"
  shows "next_covered (fst (walk budget l)) t = None"
proof -
  let ?active = "map fst (filter (\<lambda>(_, st). te_behind st > 0) (ld_tenants l))"
  have "u \<in> set ?active" if nc: "next_covered l u \<noteq> None" for u
  proof -
    obtain st where "tens l u = Some st" "te_behind st \<noteq> 0"
      using none_above [OF assms(1,2), of u] nc by blast
    then show ?thesis by (force dest: map_of_SomeD)
  qed
  from walk_loop_uncapped [OF assms(1,2) this, of budget] assms(3) show ?thesis by (simp add: walk_def)
qed

text \<open>The horizons a walk reads are the ones the pass received.\<close>

definition horizons_are :: "marks \<Rightarrow> segment_ledger \<Rightarrow> bool" where
  "horizons_are ms l \<longleftrightarrow> (\<forall>t st. tens l t = Some st \<longrightarrow> te_horizon st = mark_of ms t)"

lemma receive_horizons: "horizons_are ms (receive ms l)"
  by (auto simp: horizons_are_def receive_def Let_def map_of_map_val)

lemma walk_loop_horizons:
  "ledger_inv ms' ck cur seen l \<Longrightarrow> horizons_are ms l \<Longrightarrow> horizons_are ms (fst (walk_loop left active l))"
proof (induction left active l rule: walk_loop.induct)
  case (3 left t active l)
  show ?case
  proof (cases "next_covered l t")
    case None
    then have s: "ledger_step t l = (l, False)" by (simp add: ledger_step_def)
    show ?thesis using "3.IH"(2) [OF s [symmetric]] "3.prems" by (simp add: s)
  next
    case (Some j)
    then have s: "ledger_step t l = (apply_to t j l, True)" by (simp add: ledger_step_def)
    obtain st e where e: "tens l t = Some st" "segs l j = Some e"
      by (rule next_coveredD [OF ledger_invD(5) [OF "3.prems"(1)] Some]) (rule that)
    have "horizons_are ms (apply_to t j l)"
      using "3.prems"(2) e by (auto simp: horizons_are_def apply_to_view)
    then show ?thesis
      using "3.IH"(1) [OF s [symmetric]] apply_to_inv [OF "3.prems"(1) Some] by (simp add: s)
  qed
qed simp_all

lemma offset_segment_less: "wo_segment p < wo_segment q \<Longrightarrow> p < q"
  by (cases p; cases q) (simp add: less_wal_offset_def)

text \<open>Once no tenant can advance, a segment all of whose frames the marks cover is held by nobody.\<close>

lemma settled_free:
  assumes inv: "ledger_inv ms ck cur seen l" and hz: "horizons_are ms l"
    and nc: "\<And>t. next_covered l t = None" and e: "segs l i = Some e"
    and cov: "\<And>f t. f \<in> set seen \<Longrightarrow> wo_segment (fa_offset f) = i \<Longrightarrow> fa_tenant f = Some t
               \<Longrightarrow> \<exists>h. mark_of ms t = Some h \<and> fa_offset f \<le> h"
  shows "sg_pending e = {}"
proof (rule ccontr)
  assume "sg_pending e \<noteq> {}"
  note I = ledger_invD [OF inv]
  obtain t where t: "t \<in> sg_pending e" using \<open>sg_pending e \<noteq> {}\<close> by auto
  then obtain sp where sp: "map_of (sg_members e) t = Some sp"
    using I(4) e by (metis (no_types, lifting) map_of_eq_None_iff not_None_eq pending_ok_def subsetD)
  obtain st where st: "tens l t = Some st" "i \<in> te_segments st" "is_above (te_cursor st) i"
    by (rule memberD [OF I(3) e sp]) (use t in blast)
  have last: "\<exists>f \<in> set seen. fa_offset f = sp_last s \<and> wo_segment (fa_offset f) = j \<and> fa_tenant f = Some t"
    if "segs l j = Some d" "map_of (sg_members d) t = Some s" for j d s
  proof -
    have "last_ok (tenant_frames_in seen j t) (map_of (sg_members d) t)"
      using I(6) that(1) by (simp add: seen_ok_def)
    then have "sp_last s \<in> tenant_frames_in seen j t" using that(2) by (simp add: last_ok_def top_of_def)
    then show ?thesis by (auto simp: tenant_frames_in_def)
  qed
  obtain h where h: "mark_of ms t = Some h" "sp_last sp \<le> h" using last [OF e sp] cov by metis
  have th: "te_horizon st = Some h" using hz st(1) h(1) by (simp add: horizons_are_def)
  have fin: "finite (te_segments st)" using tenantD(1) [OF I(5) st(1)] .
  obtain j where j: "first_above (te_cursor st) (te_segments st) = Some j"
    using first_above_None [OF fin] st(2,3) by (metis not_None_eq)
  note fj = first_above_Some [OF fin j]
  obtain d s where d: "segs l j = Some d" "map_of (sg_members d) t = Some s"
    using tenantD(3) [OF I(5) st(1) fj(1)] by auto
  have gt: "\<not> sp_last s \<le> h"
    using nc [of t] by (simp add: next_covered_def st(1) th j d split: if_splits)
  have "j \<le> i" using fj(3) [OF st(2,3)] .
  moreover have "j \<noteq> i" using gt h(2) d sp e by auto
  ultimately have "wo_segment (sp_last s) < wo_segment (sp_last sp)"
    using last [OF d] last [OF e sp] by auto
  then show False using offset_segment_less h(2) gt by (meson less_imp_le order_trans)
qed

section \<open>A drain that was not capped\<close>

lemma take_segment_cases:
  obtains (skip) "take_segment j cur l = (l, None)" "j = cur \<or> segs l j = None"
    | (took) p l1 e where "take_segment j cur l = (l1, Some p)" "pp_segment p = j" "j \<noteq> cur" "segs l j = Some e"
        "\<And>i. i \<noteq> j \<Longrightarrow> segs l1 i = segs l i" "dom (segs l1) = dom (segs l)" "ld_unpinned l1 = ld_unpinned l - {j}"
proof (cases "j = cur \<or> segs l j = None")
  case True
  then show ?thesis by (intro skip) (auto simp: take_segment_def)
next
  case False
  then obtain e where e: "segs l j = Some e" "j \<noteq> cur" by auto
  note v = take_segment_view [OF e]
  obtain p where p: "snd (take_segment j cur l) = Some p" "pp_segment p = j" using v(5) by auto
  show ?thesis
    by (rule took [of "fst (take_segment j cur l)" p e]) (use e p in \<open>auto simp: v prod_eq_iff\<close>)
qed

lemma drain_loop_refused: "snd (drain_loop b budget ad is True acc)"
proof (induction "is" arbitrary: acc)
  case (Cons j "is")
  obtain out rows l where a: "acc = (out, rows, l)" by (metis prod_cases3)
  show ?case unfolding a
    by (rule take_segment_cases [of j "pb_current b" l]) (simp_all add: Cons.IH)
qed simp

lemma drain_loop_grows: "set out \<subseteq> set (fst (fst (drain_loop b budget ad is refused (out, rows, l))))"
proof (induction "is" arbitrary: refused out rows l)
  case (Cons j "is")
  show ?case
  proof (rule take_segment_cases [of j "pb_current b" l])
    fix p l1 assume t: "take_segment j (pb_current b) l = (l1, Some p)"
    show ?thesis using Cons.IH Cons.IH [of "out @ [p]" refused "spend j rows" l1] by (simp add: t)
  qed (use Cons.IH in simp_all)
qed simp

lemma admits_same: "segs l i = segs l' i \<Longrightarrow> admits b l ad i = admits b l' ad i"
  by (simp add: admits_def)

lemma drain_loop_complete:
  assumes "\<not> snd (drain_loop b budget ad is refused (out, rows, l))"
    and "i \<in> set is" and "admits b l ad i" and "i \<noteq> pb_current b"
  shows "i \<in> pp_segment ` set (fst (fst (drain_loop b budget ad is refused (out, rows, l))))"
  using assms
proof (induction "is" arbitrary: refused out rows l)
  case (Cons j "is")
  have nb: "length out < budget" using Cons.prems(1) by (auto simp: not_le [symmetric])
  show ?case
  proof (cases "admits b l ad j")
    case False
    then show ?thesis using Cons nb by (cases "i = j") simp_all
  next
    case ad: True
    have af: "affords rows j"
      using Cons.prems(1) nb ad drain_loop_refused [of b budget ad "is" "(out, rows, l)"]
      by (cases "affords rows j") simp_all
    show ?thesis
    proof (rule take_segment_cases [of j "pb_current b" l])
      assume "take_segment j (pb_current b) l = (l, None)" "j = pb_current b \<or> segs l j = None"
      moreover have "i \<noteq> j" using calculation(2) Cons.prems(3,4) by (auto simp: admits_def)
      ultimately show ?thesis using Cons nb ad af by simp
    next
      fix p l1 e
      assume t: "take_segment j (pb_current b) l = (l1, Some p)" "pp_segment p = j"
        and o: "\<And>i. i \<noteq> j \<Longrightarrow> segs l1 i = segs l i"
      show ?thesis
      proof (cases "i = j")
        case True
        have "p \<in> set (fst (fst (drain_loop b budget ad is refused (out @ [p], spend j rows, l1))))"
          using drain_loop_grows [of "out @ [p]" b budget ad "is" refused "spend j rows" l1] by simp
        then show ?thesis using nb ad af t True by auto
      next
        case False
        then have "admits b l1 ad i" using admits_same [of l1 i l] o Cons.prems(3) by simp
        with Cons.IH [of refused "out @ [p]" "spend j rows" l1] Cons.prems False nb ad af show ?thesis
          by (simp add: t)
      qed
    qed
  qed
qed simp

lemma drain_loop_keeps:
  assumes "i \<notin> pp_segment ` set (fst (fst (drain_loop b budget ad is refused (out, rows, l))))"
  shows "segs (snd (snd (fst (drain_loop b budget ad is refused (out, rows, l))))) i = segs l i
    \<and> (i \<in> ld_unpinned (snd (snd (fst (drain_loop b budget ad is refused (out, rows, l))))) \<longleftrightarrow> i \<in> ld_unpinned l)"
  using assms
proof (induction "is" arbitrary: refused out rows l)
  case (Cons j "is")
  show ?case
  proof (rule take_segment_cases [of j "pb_current b" l])
    fix p l1 e
    assume t: "take_segment j (pb_current b) l = (l1, Some p)" "pp_segment p = j"
      and o: "\<And>i. i \<noteq> j \<Longrightarrow> segs l1 i = segs l i" and u: "ld_unpinned l1 = ld_unpinned l - {j}"
    show ?thesis
    proof (cases "length out < budget \<and> admits b l ad j \<and> affords rows j")
      case True
      have "p \<in> set (fst (fst (drain_loop b budget ad is refused (out @ [p], spend j rows, l1))))"
        using drain_loop_grows [of "out @ [p]" b budget ad "is" refused "spend j rows" l1] by simp
      then have "i \<noteq> j" using Cons.prems True t by auto
      with Cons.IH [of refused "out @ [p]" "spend j rows" l1] Cons.prems True show ?thesis by (simp add: t o u)
    next
      case False
      then show ?thesis using Cons by (auto split: if_splits)
    qed
  qed (use Cons in \<open>auto split: if_splits\<close>)
qed simp

lemma drain_loop_length:
  assumes "\<not> snd (drain_loop b budget ad is refused (out, rows, l))" and "distinct is"
    and "\<forall>i \<in> set is. admits b l ad i \<and> i \<noteq> pb_current b"
  shows "length (fst (fst (drain_loop b budget ad is refused (out, rows, l)))) = length out + length is
    \<and> (is \<noteq> [] \<longrightarrow> length out + length is \<le> budget)"
  using assms
proof (induction "is" arbitrary: refused out rows l)
  case (Cons j "is")
  have nb: "length out < budget" using Cons.prems(1) by (auto simp: not_le [symmetric])
  have ad: "admits b l ad j" "j \<noteq> pb_current b" using Cons.prems(3) by simp_all
  have af: "affords rows j"
    using Cons.prems(1) nb ad drain_loop_refused [of b budget ad "is" "(out, rows, l)"]
    by (cases "affords rows j") simp_all
  show ?case
  proof (rule take_segment_cases [of j "pb_current b" l])
    assume "j = pb_current b \<or> segs l j = None"
    then show ?thesis using ad by (simp add: admits_def)
  next
    fix p l1 e
    assume t: "take_segment j (pb_current b) l = (l1, Some p)" and o: "\<And>i. i \<noteq> j \<Longrightarrow> segs l1 i = segs l i"
    have "admits b l1 ad i = admits b l ad i" if "i \<in> set is" for i
      using Cons.prems(2) that by (intro admits_same o) auto
    then have "\<forall>i \<in> set is. admits b l1 ad i \<and> i \<noteq> pb_current b" using Cons.prems(3) by simp
    moreover have d: "drain_loop b budget ad (j # is) refused (out, rows, l)
        = drain_loop b budget ad is refused (out @ [p], spend j rows, l1)"
      using nb ad af by (simp add: t)
    ultimately have "length (fst (fst (drain_loop b budget ad (j # is) refused (out, rows, l))))
          = length (out @ [p]) + length is
        \<and> (is \<noteq> [] \<longrightarrow> length (out @ [p]) + length is \<le> budget)"
      using Cons.IH [of refused "out @ [p]" "spend j rows" l1] Cons.prems(1,2) unfolding d by simp
    then show ?thesis using nb by (cases "is = []") auto
  qed
qed simp

section \<open>A pass that was not capped\<close>

lemma drain_complete:
  assumes "drain b budget ad (out, rows, l) = ((out', rows', l'), False)"
    and "i \<in> set (candidates b budget l ad)" and "admits b l ad i" and "i \<noteq> pb_current b"
  shows "i \<in> pp_segment ` set out'"
  using drain_loop_complete [of b budget ad "candidates b budget l ad" False out rows l i] assms
  by (simp add: drain_def)

lemma drain_grows:
  "drain b budget ad (out, rows, l) = ((out', rows', l'), c) \<Longrightarrow> set out \<subseteq> set out'"
  using drain_loop_grows [of out b budget ad "candidates b budget l ad" False rows l] by (simp add: drain_def)

lemma drain_keeps:
  "drain b budget ad (out, rows, l) = ((out', rows', l'), c) \<Longrightarrow> i \<notin> pp_segment ` set out'
   \<Longrightarrow> segs l' i = segs l i \<and> (i \<in> ld_unpinned l' \<longleftrightarrow> i \<in> ld_unpinned l)"
  using drain_loop_keeps [of i b budget ad "candidates b budget l ad" False out rows l]
  by (simp add: drain_def)

lemma in_sorted_takeWhile:
  "sorted xs \<Longrightarrow> i \<in> set xs \<Longrightarrow> (\<And>j. j \<in> set xs \<Longrightarrow> j \<le> i \<Longrightarrow> P j) \<Longrightarrow> i \<in> set (takeWhile P xs)"
  for xs :: "'a :: linorder list"
  by (induction xs) auto

lemma highest_segment:
  assumes "ledger_inv ms ck cur seen l" and "segs l i = Some e"
  shows "wo_segment (sg_highest e) = i"
proof -
  have "sg_highest e \<in> frames_in seen i"
    using ledger_invD(6) [OF assms(1)] assms(2) by (simp add: seen_ok_def top_of_def)
  then show ?thesis by (auto simp: frames_in_def)
qed

lemma eligible_drained:
  assumes inv: "ledger_inv ms (Some (pb_checkpoint b)) (pb_current b) seen l"
    and aware: "pb_tenant_aware b" and d: "drain b budget Admit_Eligible (out, rows, l) = ((out', rows', l'), False)"
    and i: "i \<in> ld_unpinned l" "i \<noteq> pb_current b" "segs l i = Some e" "sg_highest e \<le> pb_checkpoint b"
  shows "i \<in> pp_segment ` set out'"
proof -
  note I = ledger_invD [OF inv]
  define xs where "xs = takeWhile (covered_by b l) (sorted_list_of_set (ld_unpinned l))"
  define ys where "ys = filter (\<lambda>i. i \<noteq> pb_current b) xs"
  have fin: "finite (ld_unpinned l)" using index_finite [OF I(1)] by simp
  have el: "\<exists>d. segs l j = Some d \<and> sg_state d = Eligible" if "j \<in> ld_unpinned l" for j
    using I(1) that by (auto simp: index_ok_def)
  have "covered_by b l j" if j: "j \<in> ld_unpinned l" "j \<le> i" for j
  proof -
    obtain d where d: "segs l j = Some d" using el [OF j(1)] by auto
    have "sg_highest d \<le> sg_highest e"
    proof (cases "j = i")
      case False
      with j(2) have "wo_segment (sg_highest d) < wo_segment (sg_highest e)"
        using highest_segment [OF inv] d i(3) by simp
      then show ?thesis by (simp add: offset_segment_less less_imp_le)
    qed (use d i(3) in simp)
    then show ?thesis using d i(4) by (simp add: covered_by_def)
  qed
  then have "i \<in> set xs" unfolding xs_def by (intro in_sorted_takeWhile) (use fin i(1) in auto)
  then have iy: "i \<in> set ys" using i(2) by (simp add: ys_def)
  have cand: "candidates b budget l Admit_Eligible = take (budget + 1) ys"
    using aware by (simp add: ys_def xs_def)
  have adm: "admits b l Admit_Eligible j \<and> j \<noteq> pb_current b" if "j \<in> set ys" for j
  proof -
    have "j \<in> ld_unpinned l" "covered_by b l j" "j \<noteq> pb_current b"
      using that fin by (auto simp: ys_def xs_def dest: set_takeWhileD)
    with el [of j] show ?thesis by (auto simp: admits_def covered_by_def)
  qed
  have dist: "distinct ys" by (simp add: ys_def xs_def)
  have nc: "\<not> snd (drain_loop b budget Admit_Eligible (take (budget + 1) ys) False (out, rows, l))"
    using d by (simp add: drain_def cand del: candidates.simps)
  have "take (budget + 1) ys \<noteq> []" using iy by (cases ys) simp_all
  then have "length out + length (take (budget + 1) ys) \<le> budget"
    using drain_loop_length [OF nc] dist adm by (meson distinct_take in_set_takeD)
  then have "take (budget + 1) ys = ys" by simp
  then show ?thesis using drain_complete [OF d] cand iy adm [OF iy] by simp
qed

lemma pop_complete:
  assumes inv: "ledger_inv ms (Some (pb_checkpoint b)) (pb_current b) seen l" and r: "ld_describes_root l"
    and b: "pb_tenant_aware b" "finite (pr_durable (pb_rows b))"
    and res: "pop b budget l = (l', out, False)"
    and e: "segs l i = Some e" "sg_pending e = {}" "sg_highest e \<le> pb_checkpoint b" "i \<noteq> pb_current b"
  shows "i \<in> pp_segment ` set out"
proof (rule pop_cases [OF res r])
  note I = ledger_invD [OF inv]
  fix o1 r1 l1 c1 o2 r2 l2 c2 r3 c3
  assume d1: "drain b budget Admit_Reclaiming ([], pb_rows b, l) = ((o1, r1, l1), c1)"
    and d2: "drain b budget Admit_Rowed (o1, r1, l1) = ((o2, r2, l2), c2)"
    and d3: "drain b budget Admit_Eligible (o2, r2, l2) = ((out, r3, l'), c3)"
    and c: "False = (c1 \<or> c2 \<or> c3)"
  have p0: "planned_ok l []" by (simp add: planned_ok_def)
  have i1: "ledger_inv ms (Some (pb_checkpoint b)) (pb_current b) seen l1" "planned_ok l1 o1"
    using drain_inv [OF inv p0 b d1] by simp_all
  then have i2: "ledger_inv ms (Some (pb_checkpoint b)) (pb_current b) seen l2"
    using drain_inv [OF _ _ b d2] by simp
  have sub: "set o1 \<subseteq> set o2" "set o2 \<subseteq> set out" using drain_grows [OF d2] drain_grows [OF d3] .
  show ?thesis
  proof (cases "i \<in> ld_reclaiming l")
    case True
    have "i \<in> pp_segment ` set o1"
      using drain_complete [of b budget Admit_Reclaiming "[]" "pb_rows b" l o1 r1 l1 i] d1 c True e index_finite [OF I(1)]
      by (simp add: admits_def)
    then show ?thesis using sub by blast
  next
    case False
    then have u: "i \<in> ld_unpinned l"
      using I(1) e(1,2) by (cases "sg_state e") (auto simp: index_ok_def)
    show ?thesis
    proof (rule ccontr)
      assume n: "i \<notin> pp_segment ` set out"
      then have "i \<notin> pp_segment ` set o1" "i \<notin> pp_segment ` set o2" using sub by auto
      then have "segs l2 i = Some e" "i \<in> ld_unpinned l2"
        using drain_keeps [OF d1, of i] drain_keeps [OF d2, of i] e(1) u by simp_all
      with eligible_drained [OF i2 b(1)] d3 c e n show False by simp
    qed
  qed
qed

lemma uncapped_complete:
  assumes inv: "world_inv w" and fg: "figures_ok (lw_ledger w)"
    and fin: "finite (pr_durable rows)"
    and legal: "case lw_checkpoint w of None \<Rightarrow> True | Some k \<Rightarrow> k \<le> ck"
    and res: "ledger_pass ms walks ck rows pops (lw_current w) (lw_ledger w) = (l', out, False)"
    and rc: "reclaimable w ms ck i"
  shows "i \<in> pp_segment ` set out"
proof -
  let ?cur = "lw_current w" and ?seen = "lw_seen w"
  let ?b = "\<lparr>pb_checkpoint = ck, pb_current = ?cur, pb_tenant_aware = True, pb_rows = rows\<rparr>"
  define l0 where "l0 = receive ms (lw_ledger w\<lparr>ld_consumer := True\<rparr>)"
  define l1 where "l1 = fst (ledger_apply (Known ms) walks (lw_ledger w))"
  have li: "ledger_inv (lw_marks w) (lw_checkpoint w) ?cur ?seen (lw_ledger w)"
    using inv by (simp add: world_inv_def)
  have lc: "ledger_inv (lw_marks w) (Some ck) ?cur ?seen (lw_ledger w)"
    using checkpoint_mono [OF li legal] .
  have i0: "ledger_inv ms (Some ck) ?cur ?seen l0" unfolding l0_def by (rule receive_inv) (use lc in simp)
  have i1: "ledger_inv ms (Some ck) ?cur ?seen l1" unfolding l1_def by (rule apply_known_inv [OF lc])
  have b0: "behind_ok l0"
    unfolding l0_def by (rule receive_behind) (use fg in \<open>simp add: figures_ok_def behind_ok_def\<close>)
  have l1: "l1 = fst (walk walks l0)\<lparr>ld_floor := derive_floor (fst (walk walks l0))\<rparr>"
    by (simp add: l1_def ledger_apply_def l0_def Let_def case_prod_beta)
  have wc: "\<not> snd (walk walks l0)" and pp: "pop ?b pops l1 = (l', out, False)"
    using res by (auto simp: ledger_pass_pops l1_def ledger_apply_def l0_def Let_def case_prod_beta prod_eq_iff)
  have "next_covered (l\<lparr>ld_floor := f\<rparr>) t = next_covered l t" for l f t
    by (simp add: next_covered_def cong: option.case_cong)
  then have nc: "next_covered l1 t = None" for t using walk_uncapped [OF i0 b0 wc, of t] by (simp add: l1)
  have "horizons_are ms l0" unfolding l0_def by (rule receive_horizons)
  from walk_loop_horizons [OF i0 this] have hz: "horizons_are ms l1"
    by (simp add: l1 walk_def horizons_are_def)
  have "segs l1 i \<noteq> None" using rc apply_known_dom [OF li, of ms walks i] by (simp add: reclaimable_def l1_def)
  then obtain e where e: "segs l1 i = Some e" by auto
  have cov: "\<exists>h. mark_of ms t = Some h \<and> fa_offset f \<le> h"
    if "f \<in> set ?seen" "wo_segment (fa_offset f) = i" "fa_tenant f = Some t" for f t
  proof -
    have "case mark_of ms t of None \<Rightarrow> False | Some h \<Rightarrow> fa_offset f \<le> h"
      using rc that unfolding reclaimable_def by fastforce
    then show ?thesis by (auto split: option.splits)
  qed
  have p: "sg_pending e = {}" by (rule settled_free [OF i1 hz nc e cov])
  have "sg_highest e \<in> frames_in ?seen i" using ledger_invD(6) [OF i1] e by (simp add: seen_ok_def top_of_def)
  then have "sg_highest e \<le> ck" using rc by (auto simp: frames_in_def reclaimable_def)
  moreover have "ld_describes_root l1"
    using apply_known_root [of ms walks "lw_ledger w"] fg by (simp add: l1_def figures_ok_def)
  ultimately show ?thesis using pop_complete [of ms ?b ?seen l1 pops l' out i e] i1 fin pp e p rc
    by (simp add: reclaimable_def)
qed

section \<open>A pass with room for the whole ledger\<close>

definition memberships :: "segment_ledger \<Rightarrow> nat" where
  "memberships l = msum (\<lambda>st. card (te_segments st)) (ld_tenants l)"

lemma behind_le_memberships:
  assumes "behind_ok l" and "tenants_ok ms cur l"
  shows "ld_behind_total l \<le> memberships l"
proof -
  have le: "te_behind (snd x) \<le> card (te_segments (snd x))" if "x \<in> set (ld_tenants l)" for x
  proof -
    have "tens l (fst x) = Some (snd x)" using assms(1) that by (simp add: behind_ok_def hm_wf_def)
    then have "te_behind (snd x) = above_count (snd x)" "finite (te_segments (snd x))"
      using assms(1) tenantD(1) [OF assms(2)] by (auto simp: behind_ok_def)
    then show ?thesis by (auto simp: above_count_def intro!: card_mono)
  qed
  have "(\<And>x. x \<in> set m \<Longrightarrow> f (snd x) \<le> g (snd x)) \<Longrightarrow> msum f m \<le> msum g m"
    for m :: "(tenant, tenant_entry) hash_map" and f g
    by (induction m) (auto intro: add_mono)
  from this [of "ld_tenants l" te_behind "\<lambda>st. card (te_segments st)"] le assms(1)
  show ?thesis by (simp add: memberships_def behind_ok_def)
qed

lemma rewind_memberships:
  assumes "hm_wf (ld_tenants l)"
  shows "memberships (rewind t l) = memberships l \<and> hm_wf (ld_tenants (rewind t l))"
proof (cases "tens l t")
  case None
  then show ?thesis using assms by (simp add: rewind_def)
next
  case (Some st)
  define st' where "st' = st\<lparr>te_cursor := None, te_behind := card (te_segments st)\<rparr>"
  have "rewind t l = fold (rewind_one t) (sorted_list_of_set (te_segments st))
      (l\<lparr>ld_tenants := hm_insert t st' (ld_tenants l),
         ld_behind_total := ld_behind_total l - te_behind st + card (te_segments st)\<rparr>)"
    by (simp add: rewind_def Some rewind_one_def [abs_def] Let_def st'_def)
  then have "ld_tenants (rewind t l) = hm_insert t st' (ld_tenants l)" by (simp add: rewind_one_tenants)
  moreover have "card (te_segments st') = card (te_segments st)" by (simp add: st'_def)
  ultimately show ?thesis
    using msum_insert [OF assms, of "\<lambda>st. card (te_segments st)" t st'] Some assms
    by (simp add: memberships_def hm_wf_def distinct_update)
qed

lemma receive_memberships:
  assumes "hm_wf (ld_tenants l)"
  shows "memberships (receive ms l) = memberships l"
proof -
  have "memberships (fold rewind ts l) = memberships l" for ts
    using assms by (induction ts arbitrary: l) (simp_all add: rewind_memberships)
  then show ?thesis by (simp add: receive_def Let_def memberships_def msum_map_val)
qed

lemma walk_loop_ample:
  "ledger_inv ms ck cur seen l \<Longrightarrow> ld_behind_total l \<le> left \<Longrightarrow> \<not> snd (walk_loop left active l)"
proof (induction left active l rule: walk_loop.induct)
  case (3 left t active l)
  show ?case
  proof (cases "next_covered l t")
    case None
    then have s: "ledger_step t l = (l, False)" by (simp add: ledger_step_def)
    show ?thesis using "3.IH"(2) [OF s [symmetric]] "3.prems" by (simp add: s)
  next
    case (Some j)
    then have s: "ledger_step t l = (apply_to t j l, True)" by (simp add: ledger_step_def)
    obtain st where "tens l t = Some st"
      by (rule next_coveredD [OF ledger_invD(5) [OF "3.prems"(1)] Some]) (rule that)
    then have "ld_behind_total (apply_to t j l) = ld_behind_total l - 1"
      by (simp add: apply_to_def Let_def settle_tenants)
    then show ?thesis
      using "3.IH"(1) [OF s [symmetric]] apply_to_inv [OF "3.prems"(1) Some] "3.prems"(2) by (simp add: s)
  qed
qed (simp_all add: any_behind_def)

text \<open>What a drain has left: ids it has not planned, a budget and rows for all of them.\<close>

definition roomy :: "nat \<Rightarrow> uuid list \<Rightarrow> popped list \<times> planned_rows \<times> segment_ledger \<Rightarrow> bool" where
  "roomy budget is acc =
     (case acc of (out, rows, l) \<Rightarrow>
        distinct (map pp_segment out @ is) \<and> set (map pp_segment out @ is) \<subseteq> dom (segs l)
        \<and> card (dom (segs l)) \<le> budget \<and> card (dom (segs l)) \<le> pr_free rows + length out)"

lemma roomy_head:
  assumes "roomy budget (j # is) (out, rows, l)"
  shows "length out < budget" and "0 < pr_free rows"
proof -
  let ?xs = "map pp_segment out @ j # is"
  have "card (set ?xs) \<le> card (dom (segs l))"
    using assms finite_dom_map_of [of "ld_segments l"] by (intro card_mono) (auto simp: roomy_def)
  moreover have "card (set ?xs) = length ?xs" using assms by (intro distinct_card) (simp add: roomy_def)
  ultimately have "length out + Suc (length is) \<le> card (dom (segs l))" by simp
  then show "length out < budget" "0 < pr_free rows" using assms by (auto simp: roomy_def)
qed

lemma roomy_skip: "roomy budget (j # is) acc \<Longrightarrow> roomy budget is acc"
  by (auto simp: roomy_def split: prod.splits)

lemma roomy_took:
  assumes "roomy budget (j # is) (out, rows, l)" and "pp_segment p = j" and "dom (segs l1) = dom (segs l)"
  shows "roomy budget is (out @ [p], spend j rows, l1)"
  using assms roomy_head [OF assms(1)] by (auto simp: roomy_def spend_def)

lemma drain_loop_roomy:
  "roomy budget is acc \<Longrightarrow>
   \<not> snd (drain_loop b budget ad is False acc) \<and> roomy budget [] (fst (drain_loop b budget ad is False acc))"
proof (induction "is" arbitrary: acc)
  case (Cons j "is")
  obtain out rows l where a: "acc = (out, rows, l)" by (metis prod_cases3)
  note h = roomy_head [OF Cons.prems [unfolded a]]
  note sk = Cons.IH [OF roomy_skip [OF Cons.prems [unfolded a]]]
  show ?case unfolding a
  proof (rule take_segment_cases [of j "pb_current b" l])
    fix p l1 e
    assume t: "take_segment j (pb_current b) l = (l1, Some p)" "pp_segment p = j" "dom (segs l1) = dom (segs l)"
    show "\<not> snd (drain_loop b budget ad (j # is) False (out, rows, l))
      \<and> roomy budget [] (fst (drain_loop b budget ad (j # is) False (out, rows, l)))"
      using h sk Cons.IH [OF roomy_took [OF Cons.prems [unfolded a] t(2,3)]] by (simp add: t(1) affords_def)
  qed (use h sk in \<open>simp_all add: affords_def\<close>)
qed simp

lemma candidates_index:
  assumes inv: "ledger_inv ms ck cur seen l" and "pb_tenant_aware b" and "finite (pr_durable (pb_rows b))"
  shows "distinct (candidates b budget l ad)"
    and "ad = Admit_Reclaiming \<Longrightarrow> set (candidates b budget l ad) \<subseteq> ld_reclaiming l"
    and "ad \<noteq> Admit_Reclaiming \<Longrightarrow> set (candidates b budget l ad) \<subseteq> ld_unpinned l"
  using index_finite [OF ledger_invD(1) [OF inv]] assms(2,3)
  by (cases ad; auto simp: unclaimed_def dest!: in_set_takeD set_takeWhileD intro!: distinct_take)+

lemma drain_roomy:
  assumes inv: "ledger_inv ms ck cur seen l" and b: "pb_tenant_aware b" "finite (pr_durable (pb_rows b))"
    and ok: "roomy budget [] (out, rows, l)" and pl: "planned_ok l out" and first: "ad = Admit_Reclaiming \<longrightarrow> out = []"
    and d: "drain b budget ad (out, rows, l) = (acc, c)"
  shows "\<not> c \<and> roomy budget [] acc"
proof -
  note I = ledger_invD [OF inv]
  note ci = candidates_index [OF inv b]
  have "set (candidates b budget l ad) \<subseteq> dom (segs l)"
    using ci(2,3) [where ad = ad and budget = budget] I(1) by (cases "ad = Admit_Reclaiming") (auto simp: index_ok_def)
  moreover have "pp_segment ` set out \<inter> set (candidates b budget l ad) = {}"
  proof (cases "ad = Admit_Reclaiming")
    case False
    have "ld_reclaiming l \<inter> ld_unpinned l = {}" using I(1) by (auto simp: index_ok_def)
    then show ?thesis using ci(3) [OF False, of budget] pl by (auto simp: planned_ok_def)
  qed (use first in simp)
  ultimately have "roomy budget (candidates b budget l ad) (out, rows, l)"
    using ok ci(1) by (simp add: roomy_def)
  from drain_loop_roomy [OF this] d show ?thesis by (simp add: drain_def) (metis fst_conv snd_conv)
qed

lemma pop_roomy:
  assumes inv: "ledger_inv ms (Some (pb_checkpoint b)) (pb_current b) seen l" and r: "ld_describes_root l"
    and b: "pb_tenant_aware b" "finite (pr_durable (pb_rows b))"
    and room: "card (dom (segs l)) \<le> budget" "card (dom (segs l)) \<le> pr_free (pb_rows b)"
    and res: "pop b budget l = (l', out, c)"
  shows "\<not> c"
proof (rule pop_cases [OF res r])
  fix o1 r1 l1 c1 o2 r2 l2 c2 r3 c3
  assume d1: "drain b budget Admit_Reclaiming ([], pb_rows b, l) = ((o1, r1, l1), c1)"
    and d2: "drain b budget Admit_Rowed (o1, r1, l1) = ((o2, r2, l2), c2)"
    and d3: "drain b budget Admit_Eligible (o2, r2, l2) = ((out, r3, l'), c3)"
    and c: "c = (c1 \<or> c2 \<or> c3)"
  have p0: "planned_ok l []" and r0: "roomy budget [] ([], pb_rows b, l)"
    using room by (simp_all add: planned_ok_def roomy_def)
  have i1: "ledger_inv ms (Some (pb_checkpoint b)) (pb_current b) seen l1" "planned_ok l1 o1"
    using drain_inv [OF inv p0 b d1] by simp_all
  have i2: "ledger_inv ms (Some (pb_checkpoint b)) (pb_current b) seen l2" "planned_ok l2 o2"
    using drain_inv [OF i1 b d2] by simp_all
  have s1: "\<not> c1 \<and> roomy budget [] (o1, r1, l1)" by (rule drain_roomy [OF inv b r0 p0 _ d1]) simp
  then have s2: "\<not> c2 \<and> roomy budget [] (o2, r2, l2)" by (intro drain_roomy [OF i1(1) b _ i1(2) _ d2]) simp_all
  then have "\<not> c3 \<and> roomy budget [] (out, r3, l')" by (intro drain_roomy [OF i2(1) b _ i2(2) _ d3]) simp_all
  with s1 s2 c show ?thesis by simp
qed

lemma ample_uncapped:
  assumes inv: "world_inv w" and fg: "figures_ok (lw_ledger w)"
    and fin: "finite (pr_durable rows)"
    and legal: "case lw_checkpoint w of None \<Rightarrow> True | Some k \<Rightarrow> k \<le> ck"
    and room: "memberships (lw_ledger w) \<le> walks" "length (ld_segments (lw_ledger w)) \<le> pops"
      "length (ld_segments (lw_ledger w)) \<le> pr_free rows"
    and res: "ledger_pass ms walks ck rows pops (lw_current w) (lw_ledger w) = (l', out, capped)"
  shows "\<not> capped"
proof -
  let ?cur = "lw_current w" and ?seen = "lw_seen w" and ?lc = "lw_ledger w\<lparr>ld_consumer := True\<rparr>"
  let ?b = "\<lparr>pb_checkpoint = ck, pb_current = ?cur, pb_tenant_aware = True, pb_rows = rows\<rparr>"
  define l0 where "l0 = receive ms ?lc"
  obtain l1 c1 where a: "ledger_apply (Known ms) walks (lw_ledger w) = (l1, c1)" by fastforce
  obtain c2 where p: "pop ?b pops l1 = (l', out, c2)" and c: "capped = (c1 \<or> c2)"
    using res by (auto simp: ledger_pass_pops a split: prod.splits)
  have li: "ledger_inv (lw_marks w) (lw_checkpoint w) ?cur ?seen (lw_ledger w)"
    using inv by (simp add: world_inv_def)
  have lc: "ledger_inv (lw_marks w) (Some ck) ?cur ?seen (lw_ledger w)"
    using checkpoint_mono [OF li legal] .
  have i0: "ledger_inv ms (Some ck) ?cur ?seen l0" unfolding l0_def by (rule receive_inv) (use lc in simp)
  have i1: "ledger_inv ms (Some ck) ?cur ?seen l1" using apply_known_inv [OF lc, of ms walks] a by simp
  have b: "behind_ok ?lc" using fg by (simp add: figures_ok_def behind_ok_def)
  have "ld_behind_total l0 \<le> memberships l0"
    using behind_le_memberships [OF _ ledger_invD(5) [OF i0]] receive_behind [OF b] by (simp add: l0_def)
  also have "memberships l0 = memberships (lw_ledger w)"
    using receive_memberships [of ?lc ms] b by (simp add: l0_def behind_ok_def memberships_def)
  finally have "\<not> snd (walk walks l0)"
    using walk_loop_ample [OF i0] room(1) by (simp add: walk_def)
  then have "\<not> c1" using a by (auto simp: ledger_apply_def l0_def [symmetric] Let_def split: prod.splits)
  moreover have "dom (segs l1) = dom (segs (lw_ledger w))"
    using apply_known_dom [OF li, of ms walks] a by (auto simp: dom_def)
  then have "card (dom (segs l1)) \<le> length (ld_segments (lw_ledger w))"
    by (simp add: dom_map_of_conv_image_fst card_length [of "map fst (ld_segments (lw_ledger w))", simplified])
  then have "\<not> c2"
    using pop_roomy [of ms ?b ?seen l1 pops l' out c2] i1 fin room p
      apply_known_root [of ms walks "lw_ledger w"] fg a by (simp add: figures_ok_def)
  ultimately show ?thesis using c by simp
qed

section \<open>Properties\<close>

text \<open>A run for the witnesses: two closed segments, the second holding a frame past the horizon of
  the second tenant; and a pass over it.\<close>

definition sample_ops :: "ledger_op list" where
  "sample_ops =
     [Op_Frame \<lparr>fa_offset = Wal_Offset ''a'' 64, fa_bytes = 40, fa_tenant = Some ''t'', fa_path = ''pa''\<rparr>,
      Op_Frame \<lparr>fa_offset = Wal_Offset ''a'' 128, fa_bytes = 40, fa_tenant = Some ''s'', fa_path = ''pa''\<rparr>,
      Op_Rotate ''b'',
      Op_Frame \<lparr>fa_offset = Wal_Offset ''b'' 64, fa_bytes = 40, fa_tenant = Some ''t'', fa_path = ''pb''\<rparr>,
      Op_Frame \<lparr>fa_offset = Wal_Offset ''b'' 128, fa_bytes = 40, fa_tenant = Some ''s'', fa_path = ''pb''\<rparr>,
      Op_Rotate ''c'']"

definition sample_world :: ledger_world where
  "sample_world = the (ledger_run sample_ops (ledger_start ''a''))"

definition sample_marks :: marks where
  "sample_marks = [(''t'', Restorable (Wal_Offset ''b'' 64)), (''s'', Restorable (Wal_Offset ''a'' 128))]"

definition sample_pass :: "nat \<Rightarrow> segment_ledger \<times> popped list \<times> bool" where
  "sample_pass walks =
     ledger_pass sample_marks walks (Wal_Offset ''b'' 200) (planned_rows_new (set []) 0 8) 8
       (lw_current sample_world) (lw_ledger sample_world)"

lemma sample_run: "ledger_run sample_ops (ledger_start ''a'') = Some sample_world"
proof -
  have "ledger_run sample_ops (ledger_start ''a'') \<noteq> None" by code_simp
  then show ?thesis by (auto simp: sample_world_def)
qed

lemma sample_legal: "ledger_legal (Op_Pass sample_marks walks (Wal_Offset ''b'' 200) [] 0 8 8) sample_world"
proof -
  have "lw_checkpoint sample_world = None" by code_simp
  then show ?thesis by simp
qed

lemma sample_planned:
  "map pp_segment (fst (snd (sample_pass 9))) = [''a'']" "\<not> snd (snd (sample_pass 9))"
  "map pp_segment (fst (snd (sample_pass 1))) = []" "snd (snd (sample_pass 1))"
  by code_simp+

lemma pass_exact:
  assumes "ledger_run ps (ledger_start u) = Some w"
    and "ledger_legal (Op_Pass ms walks ck durable occupied capacity pops) w"
    and "ledger_pass ms walks ck (planned_rows_new (set durable) occupied capacity) pops
           (lw_current w) (lw_ledger w) = (l', out, False)"
  shows "pp_segment ` set out = {i. reclaimable w ms ck i}"
proof -
  have inv: "world_inv w" using ledger_run_inv [OF assms(1) ledger_start_inv] .
  have fg: "figures_ok (lw_ledger w)" using run_figures [OF assms(1) ledger_start_inv start_figures] .
  have fin: "finite (pr_durable (planned_rows_new (set durable) occupied capacity))"
    by (simp add: planned_rows_new_def)
  have ck: "case lw_checkpoint w of None \<Rightarrow> True | Some k \<Rightarrow> k \<le> ck" using assms(2) by simp
  show ?thesis
    using popped_reclaimable [OF inv fin ck assms(3)] uncapped_complete [OF inv fg fin ck assms(3)] by auto
qed

lemma sample_pass_parts:
  "ledger_pass sample_marks walks (Wal_Offset ''b'' 200) (planned_rows_new (set []) 0 8) 8
     (lw_current sample_world) (lw_ledger sample_world)
   = (fst (sample_pass walks), fst (snd (sample_pass walks)), snd (snd (sample_pass walks)))"
  by (simp add: sample_pass_def)

text \<open>C8. Reclamation is safe: after any run of appends, rotations, passes and settlements, whatever the
  budgets and the published horizons, a pass plans only closed surviving segments all of whose frames
  lie at or below the checkpoint and at or below the restorable horizon of the tenant they belong to.\<close>

theorem pass_plans_only_reclaimable:
  assumes "ledger_run ps (ledger_start u) = Some w"
    and "ledger_legal (Op_Pass ms walks ck durable occupied capacity pops) w"
    and "ledger_pass ms walks ck (planned_rows_new (set durable) occupied capacity) pops
           (lw_current w) (lw_ledger w) = (l', out, capped)"
  shows "pp_segment ` set out \<subseteq> {i. reclaimable w ms ck i}"
  using popped_reclaimable [OF ledger_run_inv [OF assms(1) ledger_start_inv] _ _ assms(3)] assms(2)
  by (auto simp: planned_rows_new_def)

theorem pass_plans_only_reclaimable_witness:
  "map pp_segment (fst (snd (sample_pass 9))) = [''a'']
   \<and> reclaimable sample_world sample_marks (Wal_Offset ''b'' 200) ''a''"
  using pass_plans_only_reclaimable [OF sample_run sample_legal [of 9] sample_pass_parts [of 9]]
    sample_planned(1)
  by (metis (no_types, lifting) image_set list.set_intros(1) mem_Collect_eq subsetD)

text \<open>C9. A pass that does not report being capped is complete: whatever the run before it, it plans
  exactly the segments the retention rule allows, so nothing reclaimable is left for a later pass.\<close>

theorem uncapped_pass_complete:
  assumes "ledger_run ps (ledger_start u) = Some w"
    and "ledger_legal (Op_Pass ms walks ck durable occupied capacity pops) w"
    and "ledger_pass ms walks ck (planned_rows_new (set durable) occupied capacity) pops
           (lw_current w) (lw_ledger w) = (l', out, False)"
  shows "pp_segment ` set out = {i. reclaimable w ms ck i}"
  using pass_exact [OF assms] .

theorem uncapped_pass_complete_witness:
  "{i. reclaimable sample_world sample_marks (Wal_Offset ''b'' 200) i} = {''a''}"
proof -
  have "snd (snd (sample_pass 9)) = False" using sample_planned(2) by simp
  from uncapped_pass_complete [OF sample_run sample_legal sample_pass_parts [of 9, unfolded this]]
  show ?thesis using sample_planned(1) by (metis image_set list.set(1,2))
qed

text \<open>C10. Reclamation makes progress: a pass whose walk budget covers every (tenant, segment) pair, and
  whose pop budget and free rows cover every segment, is not capped and plans every reclaimable segment.\<close>

theorem ample_pass_progress:
  assumes "ledger_run ps (ledger_start u) = Some w"
    and "ledger_legal (Op_Pass ms walks ck durable occupied capacity pops) w"
    and "memberships (lw_ledger w) \<le> walks" and "length (ld_segments (lw_ledger w)) \<le> pops"
    and "length (ld_segments (lw_ledger w)) \<le> pr_free (planned_rows_new (set durable) occupied capacity)"
  shows "\<exists>l' out. ledger_pass ms walks ck (planned_rows_new (set durable) occupied capacity) pops
           (lw_current w) (lw_ledger w) = (l', out, False)
         \<and> pp_segment ` set out = {i. reclaimable w ms ck i}"
proof -
  let ?rows = "planned_rows_new (set durable) occupied capacity"
  obtain l' out c where r: "ledger_pass ms walks ck ?rows pops (lw_current w) (lw_ledger w) = (l', out, c)"
    by (metis prod_cases3)
  have "\<not> c"
    using ample_uncapped [OF ledger_run_inv [OF assms(1) ledger_start_inv]
        run_figures [OF assms(1) ledger_start_inv start_figures] _ _ assms(3,4,5) r] assms(2)
    by (simp add: planned_rows_new_def)
  with r pass_exact [OF assms(1,2)] show ?thesis by simp
qed

theorem ample_pass_progress_witness:
  "\<exists>l' out. sample_pass 9 = (l', out, False)
     \<and> pp_segment ` set out = {i. reclaimable sample_world sample_marks (Wal_Offset ''b'' 200) i}"
proof -
  have "memberships (lw_ledger sample_world) \<le> 9" "length (ld_segments (lw_ledger sample_world)) \<le> 8"
    "length (ld_segments (lw_ledger sample_world)) \<le> pr_free (planned_rows_new (set []) 0 8)"
    by code_simp+
  from ample_pass_progress [OF sample_run sample_legal this] show ?thesis by (simp add: sample_pass_def)
qed

end
