(* ===== verification/Wal_Os.thy ===== *)
theory Wal_Os
  imports Segment_Ledger
begin

text \<open>
  What the write-ahead log uses of the operating system: the files of its root directory, the calls
  on them (each of which may fail), and what a loss of power leaves. A file keeps every content it
  has had since its last successful data sync, the directory every listing since its last fsync.
  After a crash a file holds some prefix of one of those contents, never shorter than the shortest,
  and the directory one of those listings: appended bytes reach the disk in order, and directory
  operations are journalled in order. A fault script says which calls fail; a failed write may have
  written any proper part of its buffer. Reads never report \<open>UnexpectedEof\<close> but at the end of a file.
\<close>

section \<open>State\<close>

record os_file =
  fl_data :: bytes
  fl_images :: "bytes list"

type_synonym directory = "(bytes, nat) hash_map"

datatype io_fault = Io_Fine | Io_Fault bytes nat

record os =
  os_files :: "os_file list"
  os_dir :: directory
  os_dir_images :: "directory list"
  os_script :: "io_fault list"
  os_truncates :: bool
  os_minted :: nat

definition os_error :: "bytes \<Rightarrow> io_error" where
  "os_error d = \<lparr>ie_kind = OtherKind, ie_detail = d\<rparr>"

definition eof_error :: io_error where
  "eof_error = \<lparr>ie_kind = UnexpectedEof, ie_detail = ''failed to fill whole buffer''\<rparr>"

definition not_found :: io_error where
  "not_found = \<lparr>ie_kind = NotFound, ie_detail = []\<rparr>"

definition os_empty :: "bool \<Rightarrow> os" where
  "os_empty truncates =
     \<lparr>os_files = [], os_dir = [], os_dir_images = [[]], os_script = [], os_truncates = truncates,
      os_minted = 0\<rparr>"

section \<open>Calls\<close>

definition next_io :: "os \<Rightarrow> os \<times> (bytes \<times> nat) option" where
  "next_io s =
     (case os_script s of
        [] \<Rightarrow> (s, None)
      | Io_Fine # q \<Rightarrow> (s\<lparr>os_script := q\<rparr>, None)
      | Io_Fault d n # q \<Rightarrow> (s\<lparr>os_script := q\<rparr>, Some (d, n)))"

definition data_of :: "os \<Rightarrow> nat \<Rightarrow> bytes" where
  "data_of s i = fl_data (os_files s ! i)"

definition put_file :: "nat \<Rightarrow> bytes \<Rightarrow> os \<Rightarrow> os" where
  "put_file i data s =
     s\<lparr>os_files := (os_files s)[i := \<lparr>fl_data = data, fl_images = fl_images (os_files s ! i) @ [data]\<rparr>]\<rparr>"

definition put_dir :: "directory \<Rightarrow> os \<Rightarrow> os" where
  "put_dir d s = s\<lparr>os_dir := d, os_dir_images := os_dir_images s @ [d]\<rparr>"

definition os_stat :: "nat \<Rightarrow> os \<Rightarrow> os \<times> (io_error + nat)" where
  "os_stat i s =
     (case next_io s of
        (s, Some (d, _)) \<Rightarrow> (s, Inl (os_error d))
      | (s, None) \<Rightarrow> (s, Inr (length (data_of s i))))"

definition os_write :: "nat \<Rightarrow> os writer" where
  "os_write i s buf =
     (if buf = [] then (s, None)
      else (case next_io s of
              (s, None) \<Rightarrow> (put_file i (data_of s i @ buf) s, None)
            | (s, Some (d, n)) \<Rightarrow>
                (put_file i (data_of s i @ take (min n (length buf - 1)) buf) s, Some (os_error d))))"

definition os_set_len :: "nat \<Rightarrow> nat \<Rightarrow> os \<Rightarrow> os \<times> io_error option" where
  "os_set_len i n s =
     (if os_truncates s
      then (put_file i (take n (data_of s i) @ replicate (n - length (data_of s i)) (CHR 0x00)) s, None)
      else (s, Some (os_error ''ftruncate'')))"

definition os_sync_data :: "nat \<Rightarrow> os \<Rightarrow> os \<times> io_error option" where
  "os_sync_data i s =
     (case next_io s of
        (s, Some (d, _)) \<Rightarrow> (s, Some (os_error d))
      | (s, None) \<Rightarrow>
          (s\<lparr>os_files := (os_files s)[i := \<lparr>fl_data = data_of s i, fl_images = [data_of s i]\<rparr>]\<rparr>, None))"

definition os_sync_dir :: "os \<Rightarrow> os \<times> io_error option" where
  "os_sync_dir s =
     (case next_io s of
        (s, Some (d, _)) \<Rightarrow> (s, Some (os_error d))
      | (s, None) \<Rightarrow> (s\<lparr>os_dir_images := [os_dir s]\<rparr>, None))"

definition os_create_new :: "bytes \<Rightarrow> os \<Rightarrow> os \<times> (io_error + nat)" where
  "os_create_new name s =
     (case next_io s of
        (s, Some (d, _)) \<Rightarrow> (s, Inl (os_error d))
      | (s, None) \<Rightarrow>
          (if hm_get (os_dir s) name \<noteq> None then (s, Inl (os_error ''EEXIST''))
           else (let i = length (os_files s);
                     s = s\<lparr>os_files := os_files s @ [\<lparr>fl_data = [], fl_images = [[]]\<rparr>]\<rparr>
                 in (put_dir (hm_insert name i (os_dir s)) s, Inr i))))"

definition os_create :: "bytes \<Rightarrow> os \<Rightarrow> os \<times> (io_error + nat)" where
  "os_create name s =
     (case hm_get (os_dir s) name of
        None \<Rightarrow> os_create_new name s
      | Some i \<Rightarrow>
          (case next_io s of
             (s, Some (d, _)) \<Rightarrow> (s, Inl (os_error d))
           | (s, None) \<Rightarrow> (put_file i [] s, Inr i)))"

definition os_rename :: "bytes \<Rightarrow> bytes \<Rightarrow> os \<Rightarrow> os \<times> io_error option" where
  "os_rename a b s =
     (case next_io s of
        (s, Some (d, _)) \<Rightarrow> (s, Some (os_error d))
      | (s, None) \<Rightarrow>
          (case hm_get (os_dir s) a of
             None \<Rightarrow> (s, Some not_found)
           | Some i \<Rightarrow> (put_dir (hm_insert b i (hm_remove a (os_dir s))) s, None)))"

definition os_read_dir :: "os \<Rightarrow> os \<times> (io_error + bytes list)" where
  "os_read_dir s =
     (case next_io s of
        (s, Some (d, _)) \<Rightarrow> (s, Inl (os_error d))
      | (s, None) \<Rightarrow> (s, Inr (map fst (os_dir s))))"

definition os_open :: "bytes \<Rightarrow> os \<Rightarrow> os \<times> (io_error + nat)" where
  "os_open name s =
     (case next_io s of
        (s, Some (d, _)) \<Rightarrow> (s, Inl (os_error d))
      | (s, None) \<Rightarrow>
          (case hm_get (os_dir s) name of None \<Rightarrow> (s, Inl not_found) | Some i \<Rightarrow> (s, Inr i)))"

definition os_reader :: "nat \<Rightarrow> os \<Rightarrow> os \<times> reader" where
  "os_reader i s =
     (case next_io s of
        (s, Some (d, n)) \<Rightarrow> (s, \<lparr>rd_rest = take n (data_of s i), rd_end = os_error d\<rparr>)
      | (s, None) \<Rightarrow> (s, \<lparr>rd_rest = data_of s i, rd_end = eof_error\<rparr>))"

section \<open>Loss of power\<close>

record crash_choice =
  cc_dir :: nat
  cc_file :: "nat \<Rightarrow> nat \<times> nat"

definition crash_data :: "nat \<times> nat \<Rightarrow> os_file \<Rightarrow> bytes" where
  "crash_data c f =
     (let img = fl_images f ! min (fst c) (length (fl_images f) - 1);
          low = Min (length ` set (fl_images f))
      in take (max low (snd c)) img)"

definition crash :: "crash_choice \<Rightarrow> os \<Rightarrow> os" where
  "crash c s =
     (let d = os_dir_images s ! min (cc_dir c) (length (os_dir_images s) - 1)
      in s\<lparr>os_files := map (\<lambda>i. let x = crash_data (cc_file c i) (os_files s ! i)
                                in \<lparr>fl_data = x, fl_images = [x]\<rparr>) [0..<length (os_files s)],
           os_dir := d, os_dir_images := [d]\<rparr>)"

section \<open>Names\<close>

definition path_extension :: "bytes \<Rightarrow> bytes option" where
  "path_extension n =
     (let e = rev (takeWhile (\<lambda>c. c \<noteq> CHR ''.'') (rev n))
      in if length n \<le> length e + 1 then None else Some e)"

definition ascii_lower :: "char \<Rightarrow> char" where
  "ascii_lower c =
     (let v = of_char c :: nat in if 65 \<le> v \<and> v \<le> 90 then char_of (v + 32) else c)"

definition is_segment_name :: "bytes \<Rightarrow> bool" where
  "is_segment_name n =
     (case path_extension n of None \<Rightarrow> False | Some e \<Rightarrow> map ascii_lower e = ''wal'')"

section \<open>Facts\<close>

lemma next_io_cases:
  obtains q where "next_io s = (s\<lparr>os_script := q\<rparr>, None)"
    | q d n where "next_io s = (s\<lparr>os_script := q\<rparr>, Some (d, n))"
proof (cases "os_script s")
  case Nil
  then have "s\<lparr>os_script := []\<rparr> = s" by (cases s) simp
  then show ?thesis using that(1) [of "[]"] Nil by (simp add: next_io_def)
next
  case (Cons x q)
  then show ?thesis using that by (cases x) (simp_all add: next_io_def)
qed

lemma data_of_script [simp]: "data_of (s\<lparr>os_script := q\<rparr>) i = data_of s i"
  by (simp add: data_of_def)

lemma path_extension_dot:
  assumes "CHR ''.'' \<notin> set e" and "b \<noteq> []"
  shows "path_extension (b @ CHR ''.'' # e) = Some e"
proof -
  have "takeWhile (\<lambda>c. c \<noteq> CHR ''.'') (rev (b @ CHR ''.'' # e)) = rev e"
    using assms(1) by (auto simp: takeWhile_append)
  then show ?thesis using assms(2) by (cases b) (simp_all add: path_extension_def Let_def)
qed

lemma segment_name_wal: "b \<noteq> [] \<Longrightarrow> is_segment_name (b @ ''.wal'')"
  using path_extension_dot [of "''wal''" b] by (simp add: is_segment_name_def ascii_lower_def Let_def)

lemma segment_name_partial: "\<not> is_segment_name (b @ ''.wal.partial'')"
  using path_extension_dot [of "''partial''" "b @ ''.wal''"] by (simp add: is_segment_name_def)

end
