(* ===== verification/Rotation_Budget.thy ===== *)
theory Rotation_Budget
  imports Wal_Codec
begin

text \<open>
  Rotation under a bounded retry budget, \<open>crates/ourios-wal/src/rotation.rs\<close>: the five steps of a
  rotation, the fault that keeps the first cause, and the state that turns terminal when the budget
  is spent. The fault-injection seam of that file is not modelled; it is inert outside tests.
\<close>

section \<open>States\<close>

datatype rotation_kind = Discretionary | Owed

datatype rotation_site = CloseSync | Create | HeaderSync | Rename | ParentFsync

fun site_op :: "rotation_site \<Rightarrow> bytes" where
  "site_op CloseSync = ''sync(rotation: close segment)''"
| "site_op Create = ''create(rotation: fresh segment partial)''"
| "site_op HeaderSync = ''sync(rotation: fresh segment header)''"
| "site_op Rename = ''rename(rotation: install fresh segment)''"
| "site_op ParentFsync = ''fsync(wal_root after rotation)''"

definition all_sites :: "rotation_site list" where
  "all_sites = [CloseSync, Create, HeaderSync, Rename, ParentFsync]"

record rotation_fault =
  rf_op :: bytes
  rf_kind :: error_kind
  rf_detail :: bytes
  rf_attempts :: nat
  rf_budget :: nat

definition fault_first :: "bytes \<Rightarrow> io_error \<Rightarrow> nat \<Rightarrow> rotation_fault" where
  "fault_first op e budget =
     \<lparr>rf_op = op, rf_kind = ie_kind e, rf_detail = ie_detail e, rf_attempts = 0, rf_budget = budget\<rparr>"

definition fault_site :: "rotation_fault \<Rightarrow> rotation_site option" where
  "fault_site f = List.find (\<lambda>site. site_op site = rf_op f) all_sites"

datatype rotation_state = Healthy | Retrying rotation_fault | Terminal rotation_fault

definition u32_max :: nat where
  "u32_max = 2 ^ 32 - 1"

text \<open>The attempts are a saturating \<open>u32\<close>.\<close>

definition charge :: "bytes \<Rightarrow> io_error \<Rightarrow> nat \<Rightarrow> rotation_state \<Rightarrow> rotation_state \<times> rotation_fault" where
  "charge op source budget st =
     (let fault = (case st of
                     Healthy \<Rightarrow> fault_first op source budget
                   | Retrying f \<Rightarrow> f
                   | Terminal f \<Rightarrow> f);
          fault = fault\<lparr>rf_attempts := min (rf_attempts fault + 1) u32_max\<rparr>
      in (if rf_attempts fault \<ge> budget then Terminal fault else Retrying fault, fault))"

definition discharged :: "rotation_state \<Rightarrow> rotation_state" where
  "discharged st = Healthy"

fun terminal :: "rotation_state \<Rightarrow> rotation_fault option" where
  "terminal (Terminal f) = Some f"
| "terminal Healthy = None"
| "terminal (Retrying f) = None"

datatype dir_fsync = Fsync_Clean | PendingOpen | PendingRotation

section \<open>Facts\<close>

lemma fault_site_op: "rf_op f = site_op site \<Longrightarrow> fault_site f = Some site"
  by (cases site) (simp_all add: fault_site_def all_sites_def)

text \<open>A run of failures without a discharge in between.\<close>

definition charge_all :: "nat \<Rightarrow> (rotation_site \<times> io_error) list \<Rightarrow> rotation_state \<Rightarrow> rotation_state" where
  "charge_all budget fs st = fold (\<lambda>(site, e) st. fst (charge (site_op site) e budget st)) fs st"

definition spent :: "nat \<Rightarrow> rotation_fault \<Rightarrow> nat \<Rightarrow> rotation_state" where
  "spent budget f n =
     (let f = f\<lparr>rf_attempts := min n u32_max\<rparr>
      in if rf_attempts f \<ge> budget then Terminal f else Retrying f)"

lemma charge_spent: "fst (charge op e budget (spent budget f n)) = spent budget f (Suc n)"
proof -
  have "min (min n u32_max + 1) u32_max = min (Suc n) u32_max" by simp
  then show ?thesis by (auto simp: spent_def charge_def Let_def min_def split: if_splits)
qed

lemma charge_all_spent:
  "charge_all budget fs (spent budget f n) = spent budget f (n + length fs)"
proof (induction fs arbitrary: n)
  case (Cons x fs)
  then show ?case using charge_spent [of "site_op (fst x)" "snd x" budget f n]
    by (simp add: charge_all_def case_prod_beta)
qed (simp add: charge_all_def)

lemma charge_all_healthy:
  assumes "fs \<noteq> []"
  shows "charge_all budget fs Healthy
         = spent budget (fault_first (site_op (fst (hd fs))) (snd (hd fs)) budget) (length fs)"
proof -
  obtain x gs where fs: "fs = x # gs" using assms by (cases fs) auto
  have "fst (charge (site_op (fst x)) (snd x) budget Healthy)
      = spent budget (fault_first (site_op (fst x)) (snd x) budget) 1"
    by (auto simp: charge_def spent_def Let_def fault_first_def min_def u32_max_def)
  then show ?thesis
    using charge_all_spent [of budget gs _ 1] by (simp add: fs charge_all_def case_prod_beta)
qed

end
