(* ===== verification/Wal_Log.thy ===== *)
theory Wal_Log
  imports Wal_Os Rotation_Budget
begin

text \<open>
  The write-ahead log, \<open>crates/ourios-wal/src/lib.rs\<close>: configuration, \<open>open\<close>, \<open>append\<close>, rotation,
  \<open>sync\<close>, \<open>checkpoint\<close>, \<open>replay\<close> with its healing of a torn tail, and \<open>rebuild_ledger\<close> of \<open>ledger.rs\<close>,
  over the operating system of \<open>Wal_Os\<close>. The \<open>uuid\<close> crate (minting, text form, timestamps) and the
  clock are parameters. Of the \<open>RECLAIM\<close> sidecar the log keeps whether its record exists and its
  checkpoint witness; the outcome of a write to it is an argument of the operation that makes it.
\<close>

section \<open>Environment and configuration\<close>

record wal_env =
  en_crc :: crc_fns
  en_uuid :: "nat \<Rightarrow> uuid"
  en_text :: "uuid \<Rightarrow> bytes"
  en_is_uuid :: "bytes \<Rightarrow> bool"
  en_age :: "nat \<Rightarrow> uuid \<Rightarrow> nat option"

record wal_config =
  wc_batch_window_ms :: nat
  wc_segment_size_bytes :: nat
  wc_segment_age_secs :: nat
  wc_housekeeping_secs :: nat
  wc_max_unlinks_per_pass :: nat
  wc_rotation_retry_attempts :: nat

definition min_segment_size_bytes :: nat where
  "min_segment_size_bytes = 17 * 1024 * 1024"

definition max_segment_size_bytes :: nat where
  "max_segment_size_bytes = 2 * 1024 * 1024 * 1024"

definition max_batch_window_ms :: nat where
  "max_batch_window_ms = 10000"

definition min_segment_age_secs :: nat where
  "min_segment_age_secs = 1"

definition max_segment_age_secs :: nat where
  "max_segment_age_secs = 86400"

definition min_housekeeping_secs :: nat where
  "min_housekeeping_secs = 1"

definition max_housekeeping_secs :: nat where
  "max_housekeeping_secs = 3600"

definition min_rotation_retry_attempts :: nat where
  "min_rotation_retry_attempts = 1"

definition max_rotation_retry_attempts :: nat where
  "max_rotation_retry_attempts = 16"

definition max_unlinks_per_pass_ceiling :: nat where
  "max_unlinks_per_pass_ceiling = 65536"

section \<open>Errors\<close>

datatype config_detail =
  Exceeds nat nat | Below nat nat | Out_Of_Range nat nat nat | Below_Retries nat nat

datatype open_detail = Bad_Header bytes header_error | Bad_Sidecar sidecar_error | Bad_Root bytes

datatype open_error =
  InvalidConfig bytes config_detail
| Open_Io bytes io_error
| Open_Corrupt open_detail

datatype append_error =
  TooLarge nat nat
| Append_Io bytes io_error
| RotationRetrying rotation_fault
| RotationTerminal rotation_fault

datatype sync_error =
  Sync_Io bytes io_error
| Sync_Retrying rotation_fault
| Sync_Terminal rotation_fault

datatype checkpoint_error =
  Checkpoint_Io bytes io_error
| NonMonotonic wal_offset wal_offset

datatype corruption_reason =
  Reason_Crc | Reason_Kind | Reason_Pad | Reason_Oversize | TornOnClosedSegment

datatype recovery_error =
  Recovery_Io bytes io_error
| Recovery_Corrupt uuid nat corruption_reason
| SinkRejected bytes

definition in_range :: "bytes \<Rightarrow> nat \<Rightarrow> nat \<Rightarrow> nat \<Rightarrow> open_error option" where
  "in_range field value lo hi =
     (if lo \<le> value \<and> value \<le> hi then None
      else Some (InvalidConfig field (Out_Of_Range value lo hi)))"

definition validate_durability_window :: "wal_config \<Rightarrow> open_error option" where
  "validate_durability_window c =
     (if wc_batch_window_ms c > max_batch_window_ms
      then Some (InvalidConfig ''batch_window_ms'' (Exceeds (wc_batch_window_ms c) max_batch_window_ms))
      else None)"

definition validate_segment_bounds :: "wal_config \<Rightarrow> open_error option" where
  "validate_segment_bounds c =
     (if wc_segment_size_bytes c < min_segment_size_bytes
      then Some (InvalidConfig ''segment_size_bytes'' (Below (wc_segment_size_bytes c) min_segment_size_bytes))
      else if wc_segment_size_bytes c > max_segment_size_bytes
      then Some (InvalidConfig ''segment_size_bytes'' (Exceeds (wc_segment_size_bytes c) max_segment_size_bytes))
      else None)"

definition or_else :: "'a option \<Rightarrow> 'a option \<Rightarrow> 'a option" where
  "or_else a b = (case a of None \<Rightarrow> b | Some x \<Rightarrow> Some x)"

definition validate_cadences :: "wal_config \<Rightarrow> open_error option" where
  "validate_cadences c =
     or_else (in_range ''segment_age_secs'' (wc_segment_age_secs c) min_segment_age_secs max_segment_age_secs)
       (in_range ''housekeeping_secs'' (wc_housekeeping_secs c) min_housekeeping_secs max_housekeeping_secs)"

definition validate_reclamation :: "wal_config \<Rightarrow> open_error option" where
  "validate_reclamation c =
     or_else (in_range ''max_unlinks_per_pass'' (wc_max_unlinks_per_pass c) 1 max_unlinks_per_pass_ceiling)
       (or_else (in_range ''rotation_retry_attempts'' (wc_rotation_retry_attempts c)
                   min_rotation_retry_attempts max_rotation_retry_attempts)
          (if wc_max_unlinks_per_pass c < wc_rotation_retry_attempts c
           then Some (InvalidConfig ''max_unlinks_per_pass''
                  (Below_Retries (wc_max_unlinks_per_pass c) (wc_rotation_retry_attempts c)))
           else None))"

definition validate_config :: "wal_config \<Rightarrow> open_error option" where
  "validate_config c =
     or_else (validate_durability_window c)
       (or_else (validate_segment_bounds c) (or_else (validate_cadences c) (validate_reclamation c)))"

section \<open>The log\<close>

datatype reclaim_gate = Unwitnessed | FsyncPending | Gate_Open

datatype witness = Unarmed | Armed | Seen

record wal =
  wl_config :: wal_config
  wl_segment :: nat
  wl_path :: bytes
  wl_uuid :: uuid
  wl_dir_fsync :: dir_fsync
  wl_checkpoint :: "wal_offset option"
  wl_checkpoint_version :: "sidecar_ver option"
  wl_record :: "witness option"
  wl_gate :: reclaim_gate
  wl_legacy :: bool
  wl_stale_partials :: "bytes list"
  wl_ledger :: segment_ledger
  wl_unreclaimed_bytes :: nat
  wl_rotation :: rotation_state
  wl_appends_total :: nat
  wl_syncs_total :: nat
  wl_unflushed_bytes :: nat
  wl_corrupt_frames_total :: nat

definition seg_name :: "wal_env \<Rightarrow> uuid \<Rightarrow> bytes" where
  "seg_name env u = en_text env u @ ''.wal''"

definition partial_name :: "wal_env \<Rightarrow> uuid \<Rightarrow> bytes" where
  "partial_name env u = en_text env u @ ''.wal.partial''"

definition mint :: "wal_env \<Rightarrow> os \<Rightarrow> os \<times> uuid" where
  "mint env s = (s\<lparr>os_minted := Suc (os_minted s)\<rparr>, en_uuid env (os_minted s))"

definition create_segment_at :: "bytes \<Rightarrow> uuid \<Rightarrow> os \<Rightarrow> os \<times> (bytes \<times> io_error + nat)" where
  "create_segment_at path u s =
     (case os_create_new path s of
        (s, Inl e) \<Rightarrow> (s, Inl (''create(fresh segment)'', e))
      | (s, Inr i) \<Rightarrow>
          (case write_header (os_write i) s (segment_header_new u) of
             (s, Some e) \<Rightarrow> (s, Inl (''write(segment header)'', e))
           | (s, None) \<Rightarrow> (s, Inr i)))"

section \<open>Rotation\<close>

definition rotation_charge :: "rotation_site \<Rightarrow> io_error \<Rightarrow> wal \<Rightarrow> wal \<times> rotation_fault" where
  "rotation_charge site e w =
     (let (st, fault) = charge (site_op site) e (wc_rotation_retry_attempts (wl_config w)) (wl_rotation w)
      in (w\<lparr>wl_rotation := st\<rparr>, fault))"

definition append_error_of :: "wal \<Rightarrow> rotation_fault \<Rightarrow> append_error" where
  "append_error_of w fault =
     (if terminal (wl_rotation w) \<noteq> None then RotationTerminal fault else RotationRetrying fault)"

definition sync_error_of :: "wal \<Rightarrow> rotation_fault \<Rightarrow> sync_error" where
  "sync_error_of w fault =
     (if terminal (wl_rotation w) \<noteq> None then Sync_Terminal fault else Sync_Retrying fault)"

definition rotation_step :: "rotation_site \<Rightarrow> io_error option \<Rightarrow> wal \<Rightarrow> wal \<times> append_error option" where
  "rotation_step site outcome w =
     (case outcome of
        None \<Rightarrow> (w, None)
      | Some e \<Rightarrow> (case rotation_charge site e w of (w, fault) \<Rightarrow> (w, Some (append_error_of w fault))))"

definition discharge_owed_rotation_fsync :: "os \<Rightarrow> wal \<Rightarrow> os \<times> wal \<times> append_error option" where
  "discharge_owed_rotation_fsync s w =
     (if wl_dir_fsync w \<noteq> PendingRotation then (s, w, None)
      else (case os_sync_dir s of
              (s, r) \<Rightarrow>
                (case rotation_step ParentFsync r w of
                   (w, Some e) \<Rightarrow> (s, w, Some e)
                 | (w, None) \<Rightarrow>
                     (s, w\<lparr>wl_dir_fsync := Fsync_Clean, wl_rotation := discharged (wl_rotation w)\<rparr>, None))))"

definition ensure_record :: "io_error option \<Rightarrow> wal \<Rightarrow> wal \<times> append_error option" where
  "ensure_record written w =
     (if wl_record w \<noteq> None then (w, None)
      else (case written of
              Some e \<Rightarrow> (w, Some (Append_Io ''write(RECLAIM before rotation)'' e))
            | None \<Rightarrow> (w\<lparr>wl_record := Some Armed\<rparr>, None)))"

definition create_partial ::
  "wal_env \<Rightarrow> os \<Rightarrow> wal \<Rightarrow> os \<times> wal \<times> (append_error + nat \<times> bytes \<times> uuid)" where
  "create_partial env s w =
     (case mint env s of
        (s, u) \<Rightarrow>
          (let partial = partial_name env u;
               w = w\<lparr>wl_stale_partials := wl_stale_partials w @ [partial]\<rparr>
           in case create_segment_at partial u s of
                (s, Inl (_, e)) \<Rightarrow>
                  (case rotation_charge Create e w of
                     (w, fault) \<Rightarrow> (s, w, Inl (append_error_of w fault)))
              | (s, Inr i) \<Rightarrow> (s, w, Inr (i, partial, u))))"

definition forget_partial :: "bytes \<Rightarrow> wal \<Rightarrow> wal" where
  "forget_partial partial w =
     w\<lparr>wl_stale_partials := filter (\<lambda>queued. queued \<noteq> partial) (wl_stale_partials w)\<rparr>"

definition install_fresh :: "wal_env \<Rightarrow> os \<Rightarrow> wal \<Rightarrow> os \<times> wal \<times> append_error option" where
  "install_fresh env s w =
     (case create_partial env s w of
        (s, w, Inl e) \<Rightarrow> (s, w, Some e)
      | (s, w, Inr (i, partial, u)) \<Rightarrow>
          (case os_sync_data i s of
             (s, r) \<Rightarrow>
               (case rotation_step HeaderSync r w of
                  (w, Some e) \<Rightarrow> (s, w, Some e)
                | (w, None) \<Rightarrow>
                    (case os_rename partial (seg_name env u) s of
                       (s, r) \<Rightarrow>
                         (case rotation_step Rename r w of
                            (w, Some e) \<Rightarrow> (s, w, Some e)
                          | (w, None) \<Rightarrow>
                              (let w = (forget_partial partial w)
                                         \<lparr>wl_segment := i, wl_path := seg_name env u, wl_uuid := u,
                                          wl_dir_fsync := PendingRotation\<rparr>
                               in case os_sync_dir s of
                                    (s, r) \<Rightarrow>
                                      (case rotation_step ParentFsync r w of
                                         (w, Some e) \<Rightarrow> (s, w, Some e)
                                       | (w, None) \<Rightarrow>
                                           (s, w\<lparr>wl_dir_fsync := Fsync_Clean,
                                                 wl_rotation := discharged (wl_rotation w)\<rparr>, None))))))))"

definition rotate_now :: "wal_env \<Rightarrow> io_error option \<Rightarrow> os \<Rightarrow> wal \<Rightarrow> os \<times> wal \<times> append_error option" where
  "rotate_now env written s w =
     (case discharge_owed_rotation_fsync s w of
        (s, w, Some e) \<Rightarrow> (s, w, Some e)
      | (s, w, None) \<Rightarrow>
          (case os_sync_data (wl_segment w) s of
             (s, r) \<Rightarrow>
               (case rotation_step CloseSync r w of
                  (w, Some e) \<Rightarrow> (s, w, Some e)
                | (w, None) \<Rightarrow>
                    (case ensure_record written (w\<lparr>wl_unflushed_bytes := 0\<rparr>) of
                       (w, Some e) \<Rightarrow> (s, w, Some e)
                     | (w, None) \<Rightarrow> install_fresh env s w))))"

definition age_exceeded :: "wal_env \<Rightarrow> nat \<Rightarrow> wal \<Rightarrow> bool" where
  "age_exceeded env now w =
     (case en_age env now (wl_uuid w) of
        None \<Rightarrow> False
      | Some age \<Rightarrow> age > wc_segment_age_secs (wl_config w) * 1000000000)"

definition rotation_due :: "wal_env \<Rightarrow> nat \<Rightarrow> wal \<Rightarrow> nat \<Rightarrow> nat \<Rightarrow> bool" where
  "rotation_due env now w current_len frame_len =
     (if current_len + frame_len > wc_segment_size_bytes (wl_config w) then True
      else if current_len \<le> segment_header_len then False
      else age_exceeded env now w)"

definition wal_rotate ::
  "wal_env \<Rightarrow> io_error option \<Rightarrow> rotation_kind \<Rightarrow> os \<Rightarrow> wal \<Rightarrow> os \<times> wal \<times> append_error option" where
  "wal_rotate env written kind s w =
     (case terminal (wl_rotation w) of
        Some fault \<Rightarrow> (s, w, Some (RotationTerminal fault))
      | None \<Rightarrow>
          (case discharge_owed_rotation_fsync s w of
             (s, w, Some e) \<Rightarrow> (s, w, Some e)
           | (s, w, None) \<Rightarrow>
               (if kind = Discretionary
                then (case os_stat (wl_segment w) s of
                        (s, Inl e) \<Rightarrow> (s, w, Some (Append_Io ''stat(current_segment)'' e))
                      | (s, Inr len) \<Rightarrow>
                          (if len > segment_header_len then rotate_now env written s w else (s, w, None)))
                else rotate_now env written s w)))"

section \<open>Append\<close>

definition frame_tenant :: "frame_kind \<Rightarrow> bytes \<Rightarrow> tenant option" where
  "frame_tenant kind payload =
     (case tenant_batch_payload kind payload of
        None \<Rightarrow> None
      | Some bs \<Rightarrow> (case tenant_batch_decode bs of Inl _ \<Rightarrow> None | Inr b \<Rightarrow> Some (tb_tenant b)))"

definition append_frame ::
  "wal_env \<Rightarrow> frame_kind \<Rightarrow> bytes \<Rightarrow> nat \<Rightarrow> os \<Rightarrow> wal \<Rightarrow> (os \<times> wal \<times> (append_error + wal_offset)) option" where
  "append_frame env kind payload pre_write_byte s w =
     (case write_frame (en_crc env) (os_write (wl_segment w)) s kind payload of
        None \<Rightarrow> None
      | Some (s, Some e) \<Rightarrow>
          Some (fst (os_set_len (wl_segment w) pre_write_byte s), w,
                Inl (Append_Io ''write_frame(current_segment)'' e))
      | Some (s, None) \<Rightarrow>
          (let frame_len = frame_header_len + length payload;
               offset = Wal_Offset (wl_uuid w) (pre_write_byte + frame_len)
           in Some (s, w\<lparr>wl_appends_total := wl_appends_total w + 1,
                         wl_unflushed_bytes := wl_unflushed_bytes w + frame_len,
                         wl_unreclaimed_bytes := wl_unreclaimed_bytes w + frame_len,
                         wl_ledger := observe \<lparr>fa_offset = offset, fa_bytes = frame_len,
                                               fa_tenant = frame_tenant kind payload,
                                               fa_path = wl_path w\<rparr> (wl_ledger w)\<rparr>,
                    Inr offset)))"

definition wal_append ::
  "wal_env \<Rightarrow> nat \<Rightarrow> io_error option \<Rightarrow> frame_kind \<Rightarrow> bytes \<Rightarrow> os \<Rightarrow> wal
     \<Rightarrow> (os \<times> wal \<times> (append_error + wal_offset)) option" where
  "wal_append env now written kind payload s w =
     (case terminal (wl_rotation w) of
        Some fault \<Rightarrow> Some (s, w, Inl (RotationTerminal fault))
      | None \<Rightarrow>
          (if length payload > max_frame_bytes
           then Some (s, w, Inl (TooLarge (length payload) max_frame_bytes))
           else (case os_stat (wl_segment w) s of
                   (s, Inl e) \<Rightarrow> Some (s, w, Inl (Append_Io ''stat(current_segment)'' e))
                 | (s, Inr pre_write_byte) \<Rightarrow>
                     (if rotation_due env now w pre_write_byte (frame_header_len + length payload)
                      then (case rotate_now env written s w of
                              (s, w, Some e) \<Rightarrow> Some (s, w, Inl e)
                            | (s, w, None) \<Rightarrow> append_frame env kind payload segment_header_len s w)
                      else append_frame env kind payload pre_write_byte s w))))"

section \<open>Sync\<close>

definition discharge_open_fsync :: "os \<Rightarrow> wal \<Rightarrow> os \<times> wal \<times> sync_error option" where
  "discharge_open_fsync s w =
     (case os_sync_dir s of
        (s, Some e) \<Rightarrow> (s, w, Some (Sync_Io ''fsync(wal_root)'' e))
      | (s, None) \<Rightarrow> (s, w\<lparr>wl_dir_fsync := Fsync_Clean\<rparr>, None))"

definition discharge_rotation_fsync :: "os \<Rightarrow> wal \<Rightarrow> os \<times> wal \<times> sync_error option" where
  "discharge_rotation_fsync s w =
     (case os_sync_dir s of
        (s, Some e) \<Rightarrow>
          (case rotation_charge ParentFsync e w of (w, fault) \<Rightarrow> (s, w, Some (sync_error_of w fault)))
      | (s, None) \<Rightarrow>
          (s, w\<lparr>wl_dir_fsync := Fsync_Clean, wl_rotation := discharged (wl_rotation w)\<rparr>, None))"

definition discharge_dir_fsync :: "os \<Rightarrow> wal \<Rightarrow> os \<times> wal \<times> sync_error option" where
  "discharge_dir_fsync s w =
     (case wl_dir_fsync w of
        Fsync_Clean \<Rightarrow> (s, w, None)
      | PendingOpen \<Rightarrow> discharge_open_fsync s w
      | PendingRotation \<Rightarrow> discharge_rotation_fsync s w)"

definition wal_sync :: "os \<Rightarrow> wal \<Rightarrow> os \<times> wal \<times> (sync_error + wal_offset)" where
  "wal_sync s w =
     (case (terminal (wl_rotation w), wl_dir_fsync w) of
        (Some fault, PendingRotation) \<Rightarrow> (s, w, Inl (Sync_Terminal fault))
      | _ \<Rightarrow>
          (case os_sync_data (wl_segment w) s of
             (s, Some e) \<Rightarrow> (s, w, Inl (Sync_Io ''sync(current_segment)'' e))
           | (s, None) \<Rightarrow>
               (case discharge_dir_fsync s w of
                  (s, w, Some e) \<Rightarrow> (s, w, Inl e)
                | (s, w, None) \<Rightarrow>
                    (case os_stat (wl_segment w) s of
                       (s, Inl e) \<Rightarrow> (s, w, Inl (Sync_Io ''stat(current_segment)'' e))
                     | (s, Inr byte) \<Rightarrow>
                         (s, w\<lparr>wl_syncs_total := wl_syncs_total w + 1, wl_unflushed_bytes := 0\<rparr>,
                          Inr (Wal_Offset (wl_uuid w) byte))))))"

section \<open>Checkpoints\<close>

definition sidecar_name :: bytes where
  "sidecar_name = ''CHECKPOINT''"

definition tmp_name :: bytes where
  "tmp_name = ''CHECKPOINT.tmp''"

definition checkpoint_read :: "os \<Rightarrow> os \<times> (open_error + sidecar option)" where
  "checkpoint_read s =
     (case os_open sidecar_name s of
        (s, Inl e) \<Rightarrow>
          (s, if ie_kind e = NotFound then Inr None else Inl (Open_Io ''open(CHECKPOINT)'' e))
      | (s, Inr i) \<Rightarrow>
          (case os_reader i s of
             (s, r) \<Rightarrow>
               (s, if rd_end r \<noteq> eof_error \<and> length (rd_rest r) < sidecar_len + 1
                   then Inl (Open_Io ''read(CHECKPOINT)'' (rd_end r))
                   else (case sidecar_decode (take (sidecar_len + 1) (rd_rest r)) of
                           Inl e \<Rightarrow> Inl (Open_Corrupt (Bad_Sidecar e))
                         | Inr sc \<Rightarrow> Inr (Some sc)))))"

definition checkpoint_write :: "wal_offset \<Rightarrow> os \<Rightarrow> os \<times> checkpoint_error option" where
  "checkpoint_write p s =
     (case os_create tmp_name s of
        (s, Inl e) \<Rightarrow> (s, Some (Checkpoint_Io ''create(CHECKPOINT.tmp)'' e))
      | (s, Inr i) \<Rightarrow>
          (case os_write i s (sidecar_encode p) of
             (s, Some e) \<Rightarrow> (s, Some (Checkpoint_Io ''write(CHECKPOINT.tmp)'' e))
           | (s, None) \<Rightarrow>
               (case os_sync_data i s of
                  (s, Some e) \<Rightarrow> (s, Some (Checkpoint_Io ''fsync(CHECKPOINT.tmp)'' e))
                | (s, None) \<Rightarrow>
                    (case os_rename tmp_name sidecar_name s of
                       (s, Some e) \<Rightarrow> (s, Some (Checkpoint_Io ''rename(CHECKPOINT.tmp -> CHECKPOINT)'' e))
                     | (s, None) \<Rightarrow> (s, None)))))"

definition checkpoint_is_settled :: "wal \<Rightarrow> bool" where
  "checkpoint_is_settled w \<longleftrightarrow>
     wl_gate w = Gate_Open \<and> wl_checkpoint_version w = Some Sidecar_Current \<and> wl_record w = Some Seen"

definition record_arm :: "io_error option \<Rightarrow> wal \<Rightarrow> wal \<times> checkpoint_error option" where
  "record_arm written w =
     (case wl_record w of
        Some Armed \<Rightarrow> (w, None)
      | Some Seen \<Rightarrow> (w, None)
      | _ \<Rightarrow>
          (case written of
             Some e \<Rightarrow> (w, Some (Checkpoint_Io ''write(RECLAIM)'' e))
           | None \<Rightarrow> (w\<lparr>wl_record := Some Armed\<rparr>, None)))"

definition record_witness :: "io_error option \<Rightarrow> wal \<Rightarrow> wal \<times> checkpoint_error option" where
  "record_witness written w =
     (case wl_record w of
        None \<Rightarrow> (w, None)
      | Some Seen \<Rightarrow> (w, None)
      | _ \<Rightarrow>
          (case written of
             Some e \<Rightarrow> (w, Some (Checkpoint_Io ''write(RECLAIM)'' e))
           | None \<Rightarrow> (w\<lparr>wl_record := Some Seen\<rparr>, None)))"

definition advance_checkpoint ::
  "io_error option \<times> io_error option \<Rightarrow> wal_offset \<Rightarrow> os \<Rightarrow> wal \<Rightarrow> os \<times> wal \<times> checkpoint_error option" where
  "advance_checkpoint written durable_to s w =
     (case record_arm (fst written) w of
        (w, Some e) \<Rightarrow> (s, w, Some e)
      | (w, None) \<Rightarrow>
          (case checkpoint_write durable_to s of
             (s, Some e) \<Rightarrow> (s, w, Some e)
           | (s, None) \<Rightarrow>
               (let w = w\<lparr>wl_checkpoint := Some durable_to, wl_checkpoint_version := Some Sidecar_Current,
                          wl_gate := FsyncPending\<rparr>
                in case os_sync_dir s of
                     (s, Some e) \<Rightarrow> (s, w, Some (Checkpoint_Io ''fsync(wal_root after checkpoint)'' e))
                   | (s, None) \<Rightarrow>
                       (case record_witness (snd written) (w\<lparr>wl_gate := Gate_Open\<rparr>) of
                          (w, r) \<Rightarrow> (s, w, r)))))"

definition wal_checkpoint ::
  "io_error option \<times> io_error option \<Rightarrow> wal_offset \<Rightarrow> os \<Rightarrow> wal \<Rightarrow> os \<times> wal \<times> checkpoint_error option" where
  "wal_checkpoint written durable_to s w =
     (case wl_checkpoint w of
        Some current \<Rightarrow>
          (if durable_to < current then (s, w, Some (NonMonotonic current durable_to))
           else if durable_to = current \<and> checkpoint_is_settled w then (s, w, None)
           else advance_checkpoint written durable_to s w)
      | None \<Rightarrow> advance_checkpoint written durable_to s w)"

section \<open>Open\<close>

definition list_segments :: "os \<Rightarrow> os \<times> (bytes \<times> io_error + bytes list)" where
  "list_segments s =
     (case os_read_dir s of
        (s, Inl e) \<Rightarrow> (s, Inl (''read_dir(wal_root)'', e))
      | (s, Inr names) \<Rightarrow> (s, Inr (sort (filter is_segment_name names))))"

definition is_partial :: "wal_env \<Rightarrow> bytes \<Rightarrow> bool" where
  "is_partial env n =
     (let k = length n - length ''.wal.partial''
      in drop k n = ''.wal.partial'' \<and> en_is_uuid env (take k n))"

definition list_partials :: "wal_env \<Rightarrow> os \<Rightarrow> os \<times> (bytes \<times> io_error + bytes list)" where
  "list_partials env s =
     (case os_read_dir s of
        (s, Inl e) \<Rightarrow> (s, Inl (''read_dir(wal_root)'', e))
      | (s, Inr names) \<Rightarrow> (s, Inr (sort (filter (is_partial env) names))))"

definition open_existing_segment :: "bytes \<Rightarrow> os \<Rightarrow> os \<times> (open_error + nat \<times> bytes \<times> uuid)" where
  "open_existing_segment path s =
     (case os_open path s of
        (s, Inl e) \<Rightarrow> (s, Inl (Open_Io ''open(existing segment)'' e))
      | (s, Inr i) \<Rightarrow>
          (case os_reader i s of
             (s, r) \<Rightarrow>
               (case read_header r of
                  (_, Inl e) \<Rightarrow> (s, Inl (Open_Corrupt (Bad_Header path e)))
                | (_, Inr h) \<Rightarrow> (s, Inr (i, path, sh_uuid h)))))"

definition create_fresh_segment :: "wal_env \<Rightarrow> os \<Rightarrow> os \<times> (open_error + nat \<times> bytes \<times> uuid)" where
  "create_fresh_segment env s =
     (case mint env s of
        (s, u) \<Rightarrow>
          (case create_segment_at (seg_name env u) u s of
             (s, Inl (op, e)) \<Rightarrow> (s, Inl (Open_Io op e))
           | (s, Inr i) \<Rightarrow> (s, Inr (i, seg_name env u, u))))"

definition append_target :: "wal_env \<Rightarrow> bytes list \<Rightarrow> os \<Rightarrow> os \<times> (open_error + nat \<times> bytes \<times> uuid)" where
  "append_target env existing s =
     (if existing = [] then create_fresh_segment env s else open_existing_segment (last existing) s)"

text \<open>What \<open>reconcile::root\<close> answers about the \<open>RECLAIM\<close> sidecar: the record's checkpoint witness, the
  gate, and whether the root predates the record.\<close>

record reconciled =
  rc_record :: "witness option"
  rc_gate :: reclaim_gate
  rc_legacy :: bool

definition wal_open ::
  "wal_env \<Rightarrow> (sidecar option \<Rightarrow> bytes list \<Rightarrow> open_error + reconciled) \<Rightarrow> wal_config \<Rightarrow> os
     \<Rightarrow> os \<times> (open_error + wal)" where
  "wal_open env reconcile cfg s =
     (case validate_config cfg of
        Some e \<Rightarrow> (s, Inl e)
      | None \<Rightarrow>
          (case os_sync_dir s of
             (s, Some e) \<Rightarrow> (s, Inl (Open_Io ''fsync(wal_root)'' e))
           | (s, None) \<Rightarrow>
               (case checkpoint_read s of
                  (s, Inl e) \<Rightarrow> (s, Inl e)
                | (s, Inr sc) \<Rightarrow>
                    (case list_segments s of
                       (s, Inl (op, e)) \<Rightarrow> (s, Inl (Open_Io op e))
                     | (s, Inr existing) \<Rightarrow>
                         (case list_partials env s of
                            (s, Inl (op, e)) \<Rightarrow> (s, Inl (Open_Io op e))
                          | (s, Inr partials) \<Rightarrow>
                              (case reconcile sc existing of
                                 Inl e \<Rightarrow> (s, Inl e)
                               | Inr rc \<Rightarrow>
                                   (case append_target env existing s of
                                      (s, Inl e) \<Rightarrow> (s, Inl e)
                                    | (s, Inr (i, path, u)) \<Rightarrow>
                                        (s, Inr \<lparr>wl_config = cfg, wl_segment = i, wl_path = path, wl_uuid = u,
                                                wl_dir_fsync = PendingOpen,
                                                wl_checkpoint = map_option sc_offset sc,
                                                wl_checkpoint_version = map_option sc_version sc,
                                                wl_record = rc_record rc, wl_gate = rc_gate rc,
                                                wl_legacy = rc_legacy rc, wl_stale_partials = partials,
                                                wl_ledger = (if existing = [] then describe_root ledger_default
                                                             else ledger_default),
                                                wl_unreclaimed_bytes = 0, wl_rotation = Healthy,
                                                wl_appends_total = 0, wl_syncs_total = 0,
                                                wl_unflushed_bytes = 0, wl_corrupt_frames_total = 0\<rparr>))))))))"

section \<open>Replay\<close>

type_synonym 'a sink = "'a \<Rightarrow> wal_offset \<Rightarrow> frame_kind \<Rightarrow> bytes \<Rightarrow> 'a \<times> recovery_error option"

datatype segment_scan = CleanTail | TornTail nat

function scan_frames ::
  "crc_fns \<Rightarrow> uuid \<Rightarrow> bool \<Rightarrow> 'a sink \<Rightarrow> nat \<Rightarrow> nat \<Rightarrow> reader \<Rightarrow> 'a \<Rightarrow> 'a \<times> (recovery_error + segment_scan)" where
  "scan_frames crc u is_newest consume file_len pos r st =
     (if pos \<ge> file_len then (st, Inr CleanTail)
      else (case read_frame crc r of
              (r, Inr (kind, payload)) \<Rightarrow>
                (let pos = pos + (frame_header_len + length payload)
                 in case consume st (Wal_Offset u pos) kind payload of
                      (st, Some e) \<Rightarrow> (st, Inl e)
                    | (st, None) \<Rightarrow> scan_frames crc u is_newest consume file_len pos r st)
            | (_, Inl (Frame_Io e)) \<Rightarrow>
                (st, if ie_kind e = UnexpectedEof
                     then (if is_newest then Inr (TornTail pos)
                           else Inl (Recovery_Corrupt u pos TornOnClosedSegment))
                     else Inl (Recovery_Io ''read_frame(segment for replay)'' e))
            | (_, Inl (CrcMismatch _ _)) \<Rightarrow> (st, Inl (Recovery_Corrupt u pos Reason_Crc))
            | (_, Inl (UnknownKind _)) \<Rightarrow> (st, Inl (Recovery_Corrupt u pos Reason_Kind))
            | (_, Inl (NonZeroPad _)) \<Rightarrow> (st, Inl (Recovery_Corrupt u pos Reason_Pad))
            | (_, Inl (OversizeLen _)) \<Rightarrow> (st, Inl (Recovery_Corrupt u pos Reason_Oversize))))"
  by pat_completeness auto
termination
  by (relation "measure (\<lambda>(crc, u, is_newest, consume, file_len, pos, r, st). file_len - pos)")
    (auto simp: frame_header_len_def)

definition replay_segment ::
  "crc_fns \<Rightarrow> 'a sink \<Rightarrow> bytes \<Rightarrow> bool \<Rightarrow> 'a \<Rightarrow> os \<Rightarrow> os \<times> 'a \<times> (recovery_error + segment_scan)" where
  "replay_segment crc consume path is_newest st s =
     (case os_open path s of
        (s, Inl e) \<Rightarrow> (s, st, Inl (Recovery_Io ''open(segment for replay)'' e))
      | (s, Inr i) \<Rightarrow>
          (case os_stat i s of
             (s, Inl e) \<Rightarrow> (s, st, Inl (Recovery_Io ''stat(segment for replay)'' e))
           | (s, Inr file_len) \<Rightarrow>
               (case os_reader i s of
                  (s, r) \<Rightarrow>
                    (case read_header r of
                       (_, Inl (Header_Io e)) \<Rightarrow>
                         (s, st, Inl (Recovery_Io ''read_header(segment for replay)'' e))
                     | (_, Inl _) \<Rightarrow>
                         (s, st, Inl (Recovery_Io ''validate_header(segment for replay)''
                            \<lparr>ie_kind = InvalidData, ie_detail = []\<rparr>))
                     | (r, Inr h) \<Rightarrow>
                         (case scan_frames crc (sh_uuid h) is_newest consume file_len segment_header_len r st of
                            (st, res) \<Rightarrow> (s, st, res))))))"

definition heal_newest_segment :: "nat \<Rightarrow> os \<Rightarrow> wal \<Rightarrow> os \<times> wal \<times> recovery_error option" where
  "heal_newest_segment valid_to s w =
     (case os_set_len (wl_segment w) valid_to s of
        (s, Some e) \<Rightarrow> (s, w, Some (Recovery_Io ''ftruncate(heal newest segment)'' e))
      | (s, None) \<Rightarrow>
          (case os_sync_data (wl_segment w) s of
             (s, Some e) \<Rightarrow> (s, w, Some (Recovery_Io ''sync(heal newest segment)'' e))
           | (s, None) \<Rightarrow>
               (case os_sync_dir s of
                  (s, Some e) \<Rightarrow> (s, w, Some (Recovery_Io ''fsync(wal_root after heal)'' e))
                | (s, None) \<Rightarrow> (s, w\<lparr>wl_dir_fsync := Fsync_Clean\<rparr>, None))))"

fun is_corrupt :: "recovery_error \<Rightarrow> bool" where
  "is_corrupt (Recovery_Corrupt _ _ _) = True"
| "is_corrupt _ = False"

fun replay_paths ::
  "crc_fns \<Rightarrow> 'a sink \<Rightarrow> bytes list \<Rightarrow> 'a \<Rightarrow> os \<Rightarrow> wal \<Rightarrow> os \<times> 'a \<times> wal \<times> recovery_error option" where
  "replay_paths crc consume [] st s w = (s, st, w, None)"
| "replay_paths crc consume (path # paths) st s w =
     (case replay_segment crc consume path (paths = []) st s of
        (s, st, Inr CleanTail) \<Rightarrow> replay_paths crc consume paths st s w
      | (s, st, Inr (TornTail valid_to)) \<Rightarrow>
          (case heal_newest_segment valid_to s w of
             (s, w, Some e) \<Rightarrow> (s, st, w, Some e)
           | (s, w, None) \<Rightarrow> replay_paths crc consume paths st s w)
      | (s, st, Inl e) \<Rightarrow>
          (s, st, if is_corrupt e then w\<lparr>wl_corrupt_frames_total := wl_corrupt_frames_total w + 1\<rparr> else w,
           Some e))"

definition wal_replay ::
  "crc_fns \<Rightarrow> 'a sink \<Rightarrow> 'a \<Rightarrow> os \<Rightarrow> wal \<Rightarrow> os \<times> 'a \<times> wal \<times> recovery_error option" where
  "wal_replay crc consume st s w =
     (case list_segments s of
        (s, Inl (op, e)) \<Rightarrow> (s, st, w, Some (Recovery_Io op e))
      | (s, Inr segments) \<Rightarrow> replay_paths crc consume segments st s w)"

section \<open>Rebuilding the ledger\<close>

datatype ledger_error =
  Ledger_Io bytes io_error
| Tenant_Too_Long wal_offset nat nat
| Ledger_Scan recovery_error

record scan =
  sc_segments :: segment_ledger
  sc_path :: bytes
  sc_overlong :: "(wal_offset \<times> nat) option"

definition scan_record :: "wal_offset \<Rightarrow> nat \<Rightarrow> tenant option \<Rightarrow> scan \<Rightarrow> scan" where
  "scan_record p n t c =
     c\<lparr>sc_segments := observe \<lparr>fa_offset = p, fa_bytes = n, fa_tenant = t, fa_path = sc_path c\<rparr> (sc_segments c)\<rparr>"

definition scan_consume :: "scan sink" where
  "scan_consume c p kind payload =
     (let n = frame_header_len + length payload
      in case tenant_batch_payload kind payload of
           None \<Rightarrow> (scan_record p n None c, None)
         | Some batch \<Rightarrow>
             (case tenant_batch_decode batch of
                Inl (TenantTooLong found) \<Rightarrow>
                  (c\<lparr>sc_overlong := Some (p, found)\<rparr>, Some (SinkRejected ''tenant length''))
              | Inl _ \<Rightarrow> (scan_record p n None c, None)
              | Inr b \<Rightarrow> (scan_record p n (Some (tb_tenant b)) c, None)))"

definition scan_error :: "scan \<Rightarrow> recovery_error \<Rightarrow> ledger_error" where
  "scan_error c e =
     (case sc_overlong c of
        Some (p, found) \<Rightarrow> Tenant_Too_Long p found max_tenant_bytes
      | None \<Rightarrow> Ledger_Scan e)"

fun rebuild_paths :: "crc_fns \<Rightarrow> bytes list \<Rightarrow> scan \<Rightarrow> os \<Rightarrow> os \<times> (ledger_error + scan)" where
  "rebuild_paths crc [] c s = (s, Inr c)"
| "rebuild_paths crc (path # paths) c s =
     (case replay_segment crc scan_consume path (paths = []) (c\<lparr>sc_path := path\<rparr>) s of
        (s, c, Inr _) \<Rightarrow> rebuild_paths crc paths c s
      | (s, c, Inl e) \<Rightarrow> (s, Inl (scan_error c e)))"

definition ledger_rebuild :: "wal_env \<Rightarrow> os \<Rightarrow> os \<times> (ledger_error + segment_ledger \<times> bytes list)" where
  "ledger_rebuild env s =
     (case list_segments s of
        (s, Inl (op, e)) \<Rightarrow> (s, Inl (Ledger_Io op e))
      | (s, Inr segments) \<Rightarrow>
          (case rebuild_paths (en_crc env) segments
                  \<lparr>sc_segments = ledger_default, sc_path = [], sc_overlong = None\<rparr> s of
             (s, Inl e) \<Rightarrow> (s, Inl e)
           | (s, Inr c) \<Rightarrow>
               (case list_partials env s of
                  (s, Inl (op, e)) \<Rightarrow> (s, Inl (Ledger_Io op e))
                | (s, Inr partials) \<Rightarrow> (s, Inr (describe_root (sc_segments c), partials)))))"

definition rebuild_ledger :: "wal_env \<Rightarrow> os \<Rightarrow> wal \<Rightarrow> os \<times> wal \<times> ledger_error option" where
  "rebuild_ledger env s w =
     (case ledger_rebuild env s of
        (s, Inl e) \<Rightarrow> (s, w, Some e)
      | (s, Inr (l, partials)) \<Rightarrow>
          (s, w\<lparr>wl_unreclaimed_bytes := ledger_bytes l, wl_ledger := l, wl_stale_partials := partials\<rparr>, None))"

end
