(* ===== verification/Wal_Scan.thy ===== *)
theory Wal_Scan
  imports Wal_Log
begin

text \<open>
  What the recovery scan makes of a segment: the bytes a segment has after a list of appends, cut
  anywhere, are whole frames followed by a torn one; the scan delivers exactly the whole frames with
  the offsets \<open>append\<close> returned for them, and reports the torn tail where the last whole frame ends.
\<close>

declare scan_frames.simps [simp del]

section \<open>Segment contents\<close>

type_synonym frame = "frame_kind \<times> bytes"

type_synonym entry = "wal_offset \<times> frame_kind \<times> bytes"

definition frame_bytes :: "crc_fns \<Rightarrow> frame \<Rightarrow> bytes" where
  "frame_bytes crc f = frame_header crc (fst f) (snd f) @ snd f"

definition frames_bytes :: "crc_fns \<Rightarrow> frame list \<Rightarrow> bytes" where
  "frames_bytes crc fr = concat (map (frame_bytes crc) fr)"

definition seg_header :: "uuid \<Rightarrow> bytes" where
  "seg_header u = header_bytes (segment_header_new u)"

definition seg_bytes :: "crc_fns \<Rightarrow> uuid \<Rightarrow> frame list \<Rightarrow> bytes" where
  "seg_bytes crc u fr = seg_header u @ frames_bytes crc fr"

definition frame_ok :: "frame \<Rightarrow> bool" where
  "frame_ok f \<longleftrightarrow> length (snd f) \<le> max_frame_bytes"

definition torn :: "crc_fns \<Rightarrow> bytes \<Rightarrow> bool" where
  "torn crc P \<longleftrightarrow> (\<exists>f n. frame_ok f \<and> n < length (frame_bytes crc f) \<and> P = take n (frame_bytes crc f))"

fun seg_entries :: "uuid \<Rightarrow> nat \<Rightarrow> frame list \<Rightarrow> entry list" where
  "seg_entries u pos [] = []"
| "seg_entries u pos ((k, p) # fr) =
     (Wal_Offset u (pos + (frame_header_len + length p)), k, p)
       # seg_entries u (pos + (frame_header_len + length p)) fr"

fun run_sink :: "'a sink \<Rightarrow> entry list \<Rightarrow> 'a \<Rightarrow> 'a \<times> recovery_error option" where
  "run_sink consume [] st = (st, None)"
| "run_sink consume ((p, k, bs) # es) st =
     (case consume st p k bs of (st, Some e) \<Rightarrow> (st, Some e) | (st, None) \<Rightarrow> run_sink consume es st)"

lemma frames_bytes_simps [simp]:
  "frames_bytes crc [] = []" "frames_bytes crc (f # fr) = frame_bytes crc f @ frames_bytes crc fr"
  "frames_bytes crc (fr @ gs) = frames_bytes crc fr @ frames_bytes crc gs"
  by (simp_all add: frames_bytes_def)

lemma length_frame_bytes: "length (frame_bytes crc f) = frame_header_len + length (snd f)"
  by (simp add: frame_bytes_def)

lemma frame_bytes_nonempty: "0 < length (frame_bytes crc f)"
  by (simp add: length_frame_bytes frame_header_len_def)

lemma length_seg_header [simp]: "uuid_ok u \<Longrightarrow> length (seg_header u) = segment_header_len"
  by (simp add: seg_header_def segment_header_new_def)

lemma torn_Nil [simp]: "torn crc []"
  unfolding torn_def
  by (rule exI [of _ "(OtlpBatch, [])"], rule exI [of _ 0])
    (use frame_bytes_nonempty [of crc "(OtlpBatch, [])"] in \<open>auto simp: frame_ok_def\<close>)

lemma torn_take: "torn crc P \<Longrightarrow> torn crc (take n P)"
  unfolding torn_def by (metis min.strict_coboundedI2 take_take)

lemma torn_frame: "frame_ok f \<Longrightarrow> n < length (frame_bytes crc f) \<Longrightarrow> torn crc (take n (frame_bytes crc f))"
  unfolding torn_def by blast

section \<open>Cutting a segment\<close>

lemma cut_frames:
  assumes "torn crc P" and "\<forall>f \<in> set fr. frame_ok f" and "k \<le> length fr"
    and "length (frames_bytes crc (take k fr)) \<le> n"
  shows "\<exists>j P'. k \<le> j \<and> j \<le> length fr \<and> torn crc P'
           \<and> take n (frames_bytes crc fr @ P) = frames_bytes crc (take j fr) @ P'"
  using assms(2-4)
proof (induction fr arbitrary: k n)
  case Nil
  then show ?case using torn_take [OF assms(1), of n] by auto
next
  case (Cons f fr)
  show ?case
  proof (cases "n < length (frame_bytes crc f)")
    case True
    then have "k = 0" using Cons.prems by (cases k) auto
    moreover have "torn crc (take n (frame_bytes crc f))" using Cons.prems True by (auto intro: torn_frame)
    ultimately show ?thesis using True by (intro exI [of _ 0]) auto
  next
    case False
    define n' where "n' = n - length (frame_bytes crc f)"
    have l: "length (frames_bytes crc (take (k - 1) fr)) \<le> n'" "k - 1 \<le> length fr" "\<forall>f \<in> set fr. frame_ok f"
      using Cons.prems False by (cases k, auto simp: n'_def)
    obtain j P' where j: "k - 1 \<le> j" "j \<le> length fr" "torn crc P'"
        "take n' (frames_bytes crc fr @ P) = frames_bytes crc (take j fr) @ P'"
      using Cons.IH [OF l(3,2,1)] by blast
    then show ?thesis using False by (intro exI [of _ "Suc j"] exI [of _ P']) (auto simp: n'_def)
  qed
qed

lemma cut_segment:
  assumes "uuid_ok u" and "torn crc P" and "\<forall>f \<in> set fr. frame_ok f" and "k \<le> length fr"
    and "length (seg_bytes crc u (take k fr)) \<le> n"
  shows "\<exists>j P'. k \<le> j \<and> j \<le> length fr \<and> torn crc P'
           \<and> take n (seg_bytes crc u fr @ P) = seg_bytes crc u (take j fr) @ P'"
proof -
  let ?h = "segment_header_len"
  have h: "?h \<le> n" "length (frames_bytes crc (take k fr)) \<le> n - ?h"
    using assms(1,5) by (simp_all add: seg_bytes_def)
  from cut_frames [OF assms(2-4) h(2)] show ?thesis using assms(1) h(1) by (auto simp: seg_bytes_def)
qed

lemma cut_header:
  assumes "uuid_ok u"
  shows "(\<exists>m < segment_header_len. take n (seg_bytes crc u fr @ P) = take m (seg_header u))
    \<or> length (seg_bytes crc u []) \<le> n"
  using assms by (cases "n < segment_header_len") (auto simp: seg_bytes_def)

section \<open>Scanning a segment\<close>

definition tail_result :: "uuid \<Rightarrow> bool \<Rightarrow> nat \<Rightarrow> bytes \<Rightarrow> recovery_error + segment_scan" where
  "tail_result u is_newest valid_to P =
     (if P = [] then Inr CleanTail
      else if is_newest then Inr (TornTail valid_to)
      else Inl (Recovery_Corrupt u valid_to TornOnClosedSegment))"

definition scan_result ::
  "'a sink \<Rightarrow> entry list \<Rightarrow> recovery_error + segment_scan \<Rightarrow> 'a \<Rightarrow> 'a \<times> (recovery_error + segment_scan)" where
  "scan_result consume es res st =
     (case run_sink consume es st of (st, Some e) \<Rightarrow> (st, Inl e) | (st, None) \<Rightarrow> (st, res))"

lemma scan_result_simps:
  "scan_result consume [] res st = (st, res)"
  "scan_result consume ((p, k, bs) # es) res st =
     (case consume st p k bs of (st, Some e) \<Rightarrow> (st, Inl e) | (st, None) \<Rightarrow> scan_result consume es res st)"
  by (simp_all add: scan_result_def split: option.split prod.split)

lemma read_torn:
  assumes "torn crc P"
  shows "\<exists>r. read_frame crc \<lparr>rd_rest = P, rd_end = e\<rparr> = (r, Inl (Frame_Io e))"
proof -
  obtain f n where f: "frame_ok f" "n < length (frame_bytes crc f)" "P = take n (frame_bytes crc f)"
    using assms by (auto simp: torn_def)
  then have "snd (read_frame crc \<lparr>rd_rest = P, rd_end = e\<rparr>) = Inl (Frame_Io e)"
    using read_frame_torn [of "snd f" n crc "fst f" e] by (simp add: frame_ok_def length_frame_bytes frame_bytes_def)
  then show ?thesis by (metis prod.collapse)
qed

lemma scan_frames_spec:
  assumes "\<forall>f \<in> set fr. frame_ok f" and "torn crc P"
  shows "scan_frames crc u is_newest consume (pos + length (frames_bytes crc fr @ P)) pos
           \<lparr>rd_rest = frames_bytes crc fr @ P, rd_end = eof_error\<rparr> st
         = scan_result consume (seg_entries u pos fr)
             (tail_result u is_newest (pos + length (frames_bytes crc fr)) P) st"
  using assms(1)
proof (induction fr arbitrary: pos st)
  case Nil
  show ?case
  proof (cases "P = []")
    case False
    obtain r where "read_frame crc \<lparr>rd_rest = P, rd_end = eof_error\<rparr> = (r, Inl (Frame_Io eof_error))"
      using read_torn [OF assms(2)] by blast
    then show ?thesis using False
      by (simp add: scan_frames.simps [of crc u is_newest consume _ pos] scan_result_simps tail_result_def
          eof_error_def)
  qed (simp add: scan_frames.simps scan_result_simps tail_result_def)
next
  case (Cons f fr)
  obtain k p where f: "f = (k, p)" by fastforce
  have p: "length p \<le> max_frame_bytes" using Cons.prems f by (simp add: frame_ok_def)
  let ?pos = "pos + (frame_header_len + length p)"
  have r: "read_frame crc \<lparr>rd_rest = frames_bytes crc ((k, p) # fr) @ P, rd_end = eof_error\<rparr>
      = (\<lparr>rd_rest = frames_bytes crc fr @ P, rd_end = eof_error\<rparr>, Inr (k, p))"
    using read_frame_complete [OF p, of crc k "frames_bytes crc fr @ P" eof_error] by (simp add: frame_bytes_def)
  have l: "pos + length (frames_bytes crc ((k, p) # fr) @ P) = ?pos + length (frames_bytes crc fr @ P)"
    "pos + length (frames_bytes crc ((k, p) # fr)) = ?pos + length (frames_bytes crc fr)"
    by (simp_all add: length_frame_bytes)
  have lt: "\<not> ?pos + length (frames_bytes crc fr @ P) \<le> pos" by (simp add: frame_header_len_def)
  have IH: "scan_frames crc u is_newest consume (?pos + length (frames_bytes crc fr @ P)) ?pos
      \<lparr>rd_rest = frames_bytes crc fr @ P, rd_end = eof_error\<rparr> st'
    = scan_result consume (seg_entries u ?pos fr)
        (tail_result u is_newest (?pos + length (frames_bytes crc fr)) P) st'" for st'
    using Cons.IH [of ?pos st'] Cons.prems by simp
  show ?case unfolding f l
    by (subst scan_frames.simps)
      (simp only: r lt IH seg_entries.simps scan_result_simps Let_def if_False prod.case sum.case)
qed

end
