(* ===== verification/Wal_Invariant.thy ===== *)
theory Wal_Invariant
  imports Wal_Scan "HOL-Library.Sublist"
begin

text \<open>
  What the root directory of a log holds while it runs, over a list of segments that the model does
  not store: closed segments are synced whole, the newest one has every appended frame and perhaps a
  torn tail, every directory listing a crash may leave shows a prefix of the segments, and no listing
  and no surviving prefix of a file is without the frames that were acknowledged.
\<close>

section \<open>The environment\<close>

text \<open>What the \<open>uuid\<close> crate documents: \<open>now_v7\<close> is strictly increasing (over the first \<open>2\<^sup>6\<^sup>4\<close> calls: sixteen
  bytes are finitely many), and the hyphenated text form has 36 characters and sorts as the bytes do.\<close>

definition mint_limit :: nat where
  "mint_limit = 2 ^ 64"

definition env_ok :: "wal_env \<Rightarrow> bool" where
  "env_ok env \<longleftrightarrow>
     (\<forall>a b. a < b \<longrightarrow> b < mint_limit \<longrightarrow> en_uuid env a < en_uuid env b) \<and> (\<forall>n. uuid_ok (en_uuid env n))
     \<and> (\<forall>u. uuid_ok u \<longrightarrow> length (en_text env u) = 36)
     \<and> (\<forall>u v. uuid_ok u \<longrightarrow> uuid_ok v \<longrightarrow> u < v \<longrightarrow> en_text env u < en_text env v)"

lemma append_less_same_length:
  "length a = length b \<Longrightarrow> a < b \<Longrightarrow> a @ x < b @ x" for a b x :: "'a :: linorder list"
  by (induction a b rule: list_induct2) auto

lemma seg_name_less: "env_ok env \<Longrightarrow> uuid_ok u \<Longrightarrow> uuid_ok v \<Longrightarrow> u < v \<Longrightarrow> seg_name env u < seg_name env v"
  unfolding seg_name_def env_ok_def by (simp add: append_less_same_length)

lemma seg_name_segment: "env_ok env \<Longrightarrow> uuid_ok u \<Longrightarrow> is_segment_name (seg_name env u)"
  unfolding seg_name_def env_ok_def by (intro segment_name_wal) auto

lemma partial_name_other: "\<not> is_segment_name (partial_name env u)"
  by (simp add: partial_name_def segment_name_partial)

lemma sidecar_names_other [simp]: "\<not> is_segment_name sidecar_name" "\<not> is_segment_name tmp_name"
  by (simp_all add: is_segment_name_def path_extension_def sidecar_name_def tmp_name_def ascii_lower_def Let_def)

section \<open>The invariant\<close>

type_synonym seg = "uuid \<times> nat \<times> frame list"

abbreviation seg_uuid :: "seg \<Rightarrow> uuid" where
  "seg_uuid x \<equiv> fst x"

abbreviation seg_inode :: "seg \<Rightarrow> nat" where
  "seg_inode x \<equiv> fst (snd x)"

abbreviation seg_frames :: "seg \<Rightarrow> frame list" where
  "seg_frames x \<equiv> snd (snd x)"

definition log_frames :: "seg list \<Rightarrow> frame list" where
  "log_frames xs = concat (map seg_frames xs)"

definition log_entries :: "seg list \<Rightarrow> entry list" where
  "log_entries xs = concat (map (\<lambda>x. seg_entries (seg_uuid x) segment_header_len (seg_frames x)) xs)"

definition ids_ok :: "wal_env \<Rightarrow> os \<Rightarrow> seg list \<Rightarrow> bool" where
  "ids_ok env s xs \<longleftrightarrow>
     sorted_wrt (<) (map seg_uuid xs) \<and> distinct (map seg_inode xs)
     \<and> (\<forall>x \<in> set xs. (\<exists>c < os_minted s. seg_uuid x = en_uuid env c)
          \<and> seg_inode x < length (os_files s) \<and> (\<forall>f \<in> set (seg_frames x). frame_ok f))"

definition closed_file :: "crc_fns \<Rightarrow> uuid \<Rightarrow> frame list \<Rightarrow> os_file \<Rightarrow> bool" where
  "closed_file crc u fr f \<longleftrightarrow> fl_data f = seg_bytes crc u fr \<and> fl_images f = [seg_bytes crc u fr]"

definition image_ok :: "crc_fns \<Rightarrow> uuid \<Rightarrow> frame list \<Rightarrow> nat \<Rightarrow> bool \<Rightarrow> bytes \<Rightarrow> bool" where
  "image_ok crc u fr k bare img \<longleftrightarrow>
     (\<exists>j P. k \<le> j \<and> j \<le> length fr \<and> torn crc P \<and> img = seg_bytes crc u (take j fr) @ P)
     \<or> bare \<and> (\<exists>n < segment_header_len. img = take n (seg_header u))"

definition data_ok :: "crc_fns \<Rightarrow> uuid \<Rightarrow> frame list \<Rightarrow> bool \<Rightarrow> bytes \<Rightarrow> bool" where
  "data_ok crc u fr bare data \<longleftrightarrow>
     (\<exists>P. torn crc P \<and> data = seg_bytes crc u fr @ P)
     \<or> bare \<and> fr = [] \<and> (\<exists>n < segment_header_len. data = take n (seg_header u))"

definition last_file :: "crc_fns \<Rightarrow> uuid \<Rightarrow> frame list \<Rightarrow> nat \<Rightarrow> bool \<Rightarrow> os_file \<Rightarrow> bool" where
  "last_file crc u fr k bare f \<longleftrightarrow>
     fl_data f \<in> set (fl_images f) \<and> (\<forall>img \<in> set (fl_images f). image_ok crc u fr k bare img)
     \<and> data_ok crc u fr bare (fl_data f) \<and> (bare \<longrightarrow> k = 0) \<and> k \<le> length fr"

definition files_ok :: "crc_fns \<Rightarrow> os \<Rightarrow> seg list \<Rightarrow> nat \<Rightarrow> bool" where
  "files_ok crc s xs N \<longleftrightarrow>
     (\<forall>x \<in> set (butlast xs). closed_file crc (seg_uuid x) (seg_frames x) (os_files s ! seg_inode x))
     \<and> (xs \<noteq> [] \<longrightarrow>
          last_file crc (seg_uuid (last xs)) (seg_frames (last xs)) (N - length (log_frames (butlast xs)))
            (length xs = 1 \<and> N = 0) (os_files s ! seg_inode (last xs)))"

definition dir_shows :: "wal_env \<Rightarrow> directory \<Rightarrow> seg list \<Rightarrow> bool" where
  "dir_shows env d xs \<longleftrightarrow>
     hm_wf d \<and> {(n, i). map_of d n = Some i \<and> is_segment_name n} = (\<lambda>x. (seg_name env (seg_uuid x), seg_inode x)) ` set xs"

definition listing_ok :: "wal_env \<Rightarrow> seg list \<Rightarrow> nat \<Rightarrow> directory \<Rightarrow> bool" where
  "listing_ok env xs N d \<longleftrightarrow>
     (\<exists>j \<le> length xs. dir_shows env d (take j xs) \<and> N \<le> length (log_frames (take j xs)))"

definition sidecar_apart :: "os \<Rightarrow> seg list \<Rightarrow> directory \<Rightarrow> bool" where
  "sidecar_apart s xs d \<longleftrightarrow>
     (\<forall>n i. map_of d n = Some i \<longrightarrow>
        i < length (os_files s) \<and> (n \<in> {sidecar_name, tmp_name} \<longrightarrow> i \<notin> seg_inode ` set xs))"

definition dirs_ok :: "wal_env \<Rightarrow> os \<Rightarrow> seg list \<Rightarrow> nat \<Rightarrow> bool" where
  "dirs_ok env s xs N \<longleftrightarrow>
     os_dir s \<in> set (os_dir_images s) \<and> dir_shows env (os_dir s) xs
     \<and> (\<forall>d \<in> set (os_dir_images s). listing_ok env xs N d \<and> sidecar_apart s xs d)"

text \<open>The \<open>CHECKPOINT\<close> sidecar of every listing is synced whole, holds one of the values \<open>C\<close>, and is not
  the file behind \<open>CHECKPOINT.tmp\<close>.\<close>

definition sidecar_value :: "os \<Rightarrow> directory \<Rightarrow> wal_offset option \<Rightarrow> bool" where
  "sidecar_value s d v \<longleftrightarrow>
     (case map_of d sidecar_name of
        None \<Rightarrow> v = None
      | Some i \<Rightarrow> \<exists>p. offset_ok p \<and> v = Some p
          \<and> os_files s ! i = \<lparr>fl_data = sidecar_encode p, fl_images = [sidecar_encode p]\<rparr>)"

definition sidecars_ok :: "os \<Rightarrow> wal_offset option set \<Rightarrow> bool" where
  "sidecars_ok s C \<longleftrightarrow>
     (\<forall>d \<in> set (os_dir_images s). (\<exists>v \<in> C. sidecar_value s d v)
        \<and> (\<forall>i. map_of d sidecar_name = Some i \<longrightarrow> map_of d tmp_name \<noteq> Some i \<and> map_of (os_dir s) tmp_name \<noteq> Some i))"

definition log_inv :: "wal_offset option set \<Rightarrow> wal_env \<Rightarrow> os \<Rightarrow> seg list \<Rightarrow> nat \<Rightarrow> bool" where
  "log_inv C env s xs N \<longleftrightarrow>
     os_truncates s \<and> ids_ok env s xs \<and> N \<le> length (log_frames xs)
     \<and> files_ok (en_crc env) s xs N \<and> dirs_ok env s xs N \<and> sidecars_ok s C"

text \<open>The open log appends to the newest segment, which then ends at a frame boundary.\<close>

definition running :: "wal_env \<Rightarrow> os \<Rightarrow> wal \<Rightarrow> seg list \<Rightarrow> bool" where
  "running env s w xs \<longleftrightarrow>
     xs \<noteq> [] \<and> wl_segment w = seg_inode (last xs) \<and> wl_uuid w = seg_uuid (last xs)
     \<and> wl_path w = seg_name env (seg_uuid (last xs))
     \<and> data_of s (seg_inode (last xs)) = seg_bytes (en_crc env) (seg_uuid (last xs)) (seg_frames (last xs))
     \<and> (wl_dir_fsync w = Fsync_Clean \<longrightarrow> (\<forall>d \<in> set (os_dir_images s). dir_shows env d xs))"

lemma log_invD:
  assumes "log_inv C env s xs N"
  shows "os_truncates s" "ids_ok env s xs" "N \<le> length (log_frames xs)"
    "files_ok (en_crc env) s xs N" "dirs_ok env s xs N" "sidecars_ok s C"
  using assms by (simp_all add: log_inv_def)

lemma log_frames_simps [simp]:
  "log_frames [] = []" "log_frames (x # xs) = seg_frames x @ log_frames xs"
  "log_frames (xs @ gs) = log_frames xs @ log_frames gs"
  by (simp_all add: log_frames_def)

lemma log_entries_simps [simp]:
  "log_entries [] = []"
  "log_entries (x # xs) = seg_entries (seg_uuid x) segment_header_len (seg_frames x) @ log_entries xs"
  "log_entries (xs @ gs) = log_entries xs @ log_entries gs"
  by (simp_all add: log_entries_def)

lemma log_frames_split: "xs \<noteq> [] \<Longrightarrow> log_frames xs = log_frames (butlast xs) @ seg_frames (last xs)"
  by (metis append_Nil2 append_butlast_last_id log_frames_simps)

lemma length_log_frames_take: "length (log_frames (take j xs)) \<le> length (log_frames xs)"
  by (metis append_take_drop_id length_append le_add1 log_frames_simps(3))

section \<open>Steps that leave the segments alone\<close>

lemma sidecar_value_cong:
  "map_of d' sidecar_name = map_of d sidecar_name
   \<Longrightarrow> (\<And>i. map_of d sidecar_name = Some i \<Longrightarrow> os_files s' ! i = os_files s ! i)
   \<Longrightarrow> sidecar_value s' d' v = sidecar_value s d v"
  by (auto simp: sidecar_value_def split: option.split)

lemma sidecars_ok_cong:
  assumes "sidecars_ok s C"
    and d: "\<And>d'. d' \<in> set (os_dir_images s') \<Longrightarrow>
      \<exists>d \<in> set (os_dir_images s). map_of d' sidecar_name = map_of d sidecar_name \<and> map_of d' tmp_name = map_of d tmp_name"
    and t: "map_of (os_dir s') tmp_name = map_of (os_dir s) tmp_name"
    and f: "\<And>d i. d \<in> set (os_dir_images s) \<Longrightarrow> map_of d sidecar_name = Some i \<Longrightarrow> os_files s' ! i = os_files s ! i"
  shows "sidecars_ok s' C"
  unfolding sidecars_ok_def
proof (intro ballI)
  fix d' assume "d' \<in> set (os_dir_images s')"
  then obtain d0 where d0: "d0 \<in> set (os_dir_images s)" "map_of d' sidecar_name = map_of d0 sidecar_name"
    "map_of d' tmp_name = map_of d0 tmp_name" using d by blast
  have "sidecar_value s' d' v = sidecar_value s d0 v" for v
    using f [OF d0(1)] by (intro sidecar_value_cong d0(2))
  then show "(\<exists>v \<in> C. sidecar_value s' d' v)
      \<and> (\<forall>i. map_of d' sidecar_name = Some i \<longrightarrow> map_of d' tmp_name \<noteq> Some i \<and> map_of (os_dir s') tmp_name \<noteq> Some i)"
    using assms(1) d0 t by (simp add: sidecars_ok_def)
qed

lemma sidecars_script [simp]: "sidecars_ok (s\<lparr>os_script := q\<rparr>) C = sidecars_ok s C"
  by (simp add: sidecars_ok_def sidecar_value_def cong: option.case_cong)

text \<open>Files that are neither a segment's nor a sidecar's.\<close>

definition is_sidecar :: "os \<Rightarrow> nat \<Rightarrow> bool" where
  "is_sidecar s i \<longleftrightarrow> (\<exists>d \<in> set (os_dir_images s). map_of d sidecar_name = Some i)"

lemma is_sidecarD:
  assumes "log_inv C env s xs N" and "is_sidecar s i"
  shows "i < length (os_files s)" and "i \<notin> seg_inode ` set xs" and "map_of (os_dir s) tmp_name \<noteq> Some i"
proof -
  obtain d where d: "d \<in> set (os_dir_images s)" "map_of d sidecar_name = Some i"
    using assms(2) by (auto simp: is_sidecar_def)
  have "sidecar_apart s xs d" "sidecars_ok s C" using assms(1) d(1) by (simp_all add: log_inv_def dirs_ok_def)
  then show "i < length (os_files s)" "i \<notin> seg_inode ` set xs" "map_of (os_dir s) tmp_name \<noteq> Some i"
    using d by (auto simp: sidecar_apart_def sidecars_ok_def)
qed

lemma log_inv_cong:
  assumes inv: "log_inv C env s xs N" and t: "os_truncates s'"
    and d: "os_dir s' = os_dir s" "os_dir_images s' = os_dir_images s"
    and n: "length (os_files s) \<le> length (os_files s')" and m: "os_minted s \<le> os_minted s'"
    and f: "\<And>x. x \<in> set xs \<Longrightarrow> os_files s' ! seg_inode x = os_files s ! seg_inode x"
    and g: "\<And>i. is_sidecar s i \<Longrightarrow> os_files s' ! i = os_files s ! i"
  shows "log_inv C env s' xs N"
proof -
  note I = log_invD [OF inv]
  have "ids_ok env s' xs" using I(2) n m unfolding ids_ok_def by (meson less_le_trans)
  moreover have "files_ok (en_crc env) s' xs N"
    using I(4) f [OF in_set_butlastD] f [OF last_in_set] by (simp add: files_ok_def)
  moreover have "dirs_ok env s' xs N"
    using I(5) n unfolding dirs_ok_def sidecar_apart_def d by (meson less_le_trans)
  moreover have "sidecars_ok s' C"
    by (rule sidecars_ok_cong [OF I(6)]) (use g in \<open>auto simp: d is_sidecar_def\<close>)
  ultimately show ?thesis using t I(3) by (simp add: log_inv_def)
qed

lemma log_inv_script [simp]: "log_inv C env (s\<lparr>os_script := q\<rparr>) xs N = log_inv C env s xs N"
  by (simp add: log_inv_def ids_ok_def files_ok_def dirs_ok_def sidecar_apart_def)

lemma running_script [simp]: "running env (s\<lparr>os_script := q\<rparr>) w xs = running env s w xs"
  by (simp add: running_def)

lemma sync_dir_inv:
  assumes inv: "log_inv C env s xs N"
  shows "log_inv C env (s\<lparr>os_dir_images := [os_dir s]\<rparr>) xs N"
proof -
  note I = log_invD [OF inv]
  have "listing_ok env xs N (os_dir s)"
    using I(3,5) unfolding listing_ok_def dirs_ok_def by (intro exI [of _ "length xs"]) simp
  then have "dirs_ok env (s\<lparr>os_dir_images := [os_dir s]\<rparr>) xs N"
    using I(5) by (auto simp: dirs_ok_def sidecar_apart_def)
  moreover have "sidecars_ok (s\<lparr>os_dir_images := [os_dir s]\<rparr>) C"
    by (rule sidecars_ok_cong [OF I(6)]) (use I(5) in \<open>auto simp: dirs_ok_def\<close>)
  ultimately show ?thesis using I by (simp add: log_inv_def ids_ok_def files_ok_def)
qed

lemma put_dir_simps [simp]:
  "os_dir (put_dir d s) = d" "os_dir_images (put_dir d s) = os_dir_images s @ [d]"
  "os_files (put_dir d s) = os_files s" "os_truncates (put_dir d s) = os_truncates s"
  "os_minted (put_dir d s) = os_minted s" "os_script (put_dir d s) = os_script s"
  by (simp_all add: put_dir_def)

lemma data_of_dir [simp]:
  "data_of (s\<lparr>os_dir_images := ds\<rparr>) i = data_of s i" "data_of (put_dir d s) i = data_of s i"
  by (simp_all add: data_of_def put_dir_def)

lemma sync_dir_running:
  assumes "log_inv C env s xs N" and "running env s w xs"
  shows "running env (s\<lparr>os_dir_images := [os_dir s]\<rparr>) w xs"
    and "running env (s\<lparr>os_dir_images := [os_dir s]\<rparr>) (w\<lparr>wl_dir_fsync := x, wl_rotation := y\<rparr>) xs"
    and "running env (s\<lparr>os_dir_images := [os_dir s]\<rparr>) (w\<lparr>wl_dir_fsync := x\<rparr>) xs"
  using log_invD(5) [OF assms(1)] assms(2) by (simp_all add: running_def dirs_ok_def)

definition same_sidecars :: "directory \<Rightarrow> directory \<Rightarrow> bool" where
  "same_sidecars d d' \<longleftrightarrow> map_of d' sidecar_name = map_of d sidecar_name \<and> map_of d' tmp_name = map_of d tmp_name"

lemma put_dir_sidecars:
  assumes "sidecars_ok s C" and "os_dir s \<in> set (os_dir_images s)" and "same_sidecars (os_dir s) d"
  shows "sidecars_ok (put_dir d s) C"
  by (rule sidecars_ok_cong [OF assms(1)]) (use assms(2,3) in \<open>auto simp: same_sidecars_def\<close>)

text \<open>A directory change under a name that is no segment's.\<close>

lemma dir_shows_other:
  assumes "dir_shows env d xs" and "\<not> is_segment_name n"
  shows "dir_shows env (hm_insert n i d) xs" and "dir_shows env (hm_remove n d) xs"
proof -
  have wf: "hm_wf d" using assms(1) by (simp add: dir_shows_def)
  have "{(m, j). map_of (hm_insert n i d) m = Some j \<and> is_segment_name m} = {(m, j). map_of d m = Some j \<and> is_segment_name m}"
    "{(m, j). map_of (hm_remove n d) m = Some j \<and> is_segment_name m} = {(m, j). map_of d m = Some j \<and> is_segment_name m}"
    using assms(2) by (auto simp: map_upd split: if_splits)
  moreover have "hm_wf (hm_insert n i d)" "hm_wf (hm_remove n d)"
    using wf by (simp_all add: hm_wf_def distinct_update distinct_delete)
  ultimately show "dir_shows env (hm_insert n i d) xs" "dir_shows env (hm_remove n d) xs"
    using assms(1) by (simp_all add: dir_shows_def)
qed

lemma put_dir_inv:
  assumes inv: "log_inv C env s xs N" and d: "dir_shows env d xs" "sidecar_apart s xs d"
    and sc: "sidecars_ok (put_dir d s) C'"
  shows "log_inv C' env (put_dir d s) xs N"
proof -
  note I = log_invD [OF inv]
  have "listing_ok env xs N d"
    using I(3) d(1) unfolding listing_ok_def by (intro exI [of _ "length xs"]) simp
  then have "dirs_ok env (put_dir d s) xs N"
    using I(5) d by (auto simp: dirs_ok_def sidecar_apart_def)
  then show ?thesis using I sc by (simp add: log_inv_def ids_ok_def files_ok_def)
qed

lemma put_dir_running:
  assumes "running env s w xs" and "dir_shows env d xs"
  shows "running env (put_dir d s) w xs"
  using assms by (auto simp: running_def)

section \<open>Steps on the newest segment\<close>

lemma dir_shows_frames: "dir_shows env d (ys @ [(u, i, fr)]) = dir_shows env d (ys @ [(u, i, fr')])"
  by (simp add: dir_shows_def)

lemma listing_frames:
  assumes "listing_ok env (ys @ [(u, i, fr)]) N d" and "length fr \<le> length fr'"
  shows "listing_ok env (ys @ [(u, i, fr')]) N d"
proof -
  obtain j where j: "j \<le> length ys + 1" "dir_shows env d (take j (ys @ [(u, i, fr)]))"
    "N \<le> length (log_frames (take j (ys @ [(u, i, fr)])))"
    using assms(1) by (auto simp: listing_ok_def)
  show ?thesis
  proof (cases "j \<le> length ys")
    case True
    then show ?thesis using j unfolding listing_ok_def by (intro exI [of _ j]) simp
  next
    case False
    then have "j = length ys + 1" using j(1) by simp
    then show ?thesis using j(2,3) assms(2) dir_shows_frames [of env d ys u i fr fr']
      unfolding listing_ok_def by (intro exI [of _ j]) simp
  qed
qed

lemma newest_inv:
  assumes inv: "log_inv C env s (ys @ [(u, i, fr)]) N" and fr: "length fr \<le> length fr'" "\<forall>f \<in> set fr'. frame_ok f"
    and f: "last_file (en_crc env) u fr' (N - length (log_frames ys)) (ys = [] \<and> N = 0) file"
  shows "log_inv C env (s\<lparr>os_files := (os_files s)[i := file]\<rparr>) (ys @ [(u, i, fr')]) N"
    (is "log_inv C env ?s ?xs N")
proof -
  note I = log_invD [OF inv]
  have i: "i < length (os_files s)" and out: "i \<notin> seg_inode ` set ys"
    using I(2) by (auto simp: ids_ok_def)
  have "ids_ok env ?s ?xs" using I(2) fr(2) by (auto simp: ids_ok_def)
  moreover have "N \<le> length (log_frames ?xs)" using I(3) fr(1) by simp
  moreover have "os_files ?s ! seg_inode x = os_files s ! seg_inode x" if "x \<in> set ys" for x
    using that out by (cases "seg_inode x = i") auto
  then have "files_ok (en_crc env) ?s ?xs N" using I(4) f i by (simp add: files_ok_def)
  moreover have "sidecar_apart ?s ?xs d" if "sidecar_apart s (ys @ [(u, i, fr)]) d" for d
    using that by (simp add: sidecar_apart_def)
  then have "dirs_ok env ?s ?xs N"
    using I(5) listing_frames [OF _ fr(1), of env ys u i N] dir_shows_frames [of env _ ys u i fr fr']
    by (simp add: dirs_ok_def)
  moreover have "sidecars_ok ?s C"
  proof (rule sidecars_ok_cong [OF I(6)])
    fix d j assume "d \<in> set (os_dir_images s)" "map_of d sidecar_name = Some j"
    then have "j \<noteq> i" using is_sidecarD(2) [OF inv, of j] by (auto simp: is_sidecar_def)
    then show "os_files ?s ! j = os_files s ! j" by simp
  qed auto
  ultimately show ?thesis using I(1) by (simp add: log_inv_def)
qed

lemma newest_file:
  assumes "log_inv C env s (ys @ [(u, i, fr)]) N"
  shows "last_file (en_crc env) u fr (N - length (log_frames ys)) (ys = [] \<and> N = 0) (os_files s ! i)"
    and "i < length (os_files s)" and "\<forall>f \<in> set fr. frame_ok f" and "\<exists>c < os_minted s. u = en_uuid env c"
    and "i \<notin> seg_inode ` set ys"
  using log_invD(2,4) [OF assms] by (auto simp: files_ok_def ids_ok_def)

lemma image_ok_more:
  assumes "image_ok crc u fr k bare img"
  shows "image_ok crc u (fr @ gs) k bare img"
proof -
  { fix j P assume "k \<le> j" "j \<le> length fr" "torn crc P" "img = seg_bytes crc u (take j fr) @ P"
    then have "\<exists>j P. k \<le> j \<and> j \<le> length (fr @ gs) \<and> torn crc P \<and> img = seg_bytes crc u (take j (fr @ gs)) @ P"
      by (intro exI [of _ j] exI [of _ P]) simp }
  then show ?thesis using assms unfolding image_ok_def by blast
qed

lemma image_ok_whole: "k \<le> length fr \<Longrightarrow> torn crc P \<Longrightarrow> image_ok crc u fr k bare (seg_bytes crc u fr @ P)"
  unfolding image_ok_def by (intro disjI1 exI [of _ "length fr"] exI [of _ P]) simp

lemma put_file_eq:
  "put_file i data s = s\<lparr>os_files := (os_files s)[i :=
     \<lparr>fl_data = data, fl_images = fl_images (os_files s ! i) @ [data]\<rparr>]\<rparr>"
  by (simp add: put_file_def)

text \<open>The newest file gets a content that holds every appended frame and a torn one at most.\<close>

lemma put_newest_inv:
  assumes inv: "log_inv C env s (ys @ [(u, i, fr)]) N" and gs: "\<forall>f \<in> set gs. frame_ok f"
    and P: "torn (en_crc env) P"
  shows "log_inv C env (put_file i (seg_bytes (en_crc env) u (fr @ gs) @ P) s) (ys @ [(u, i, fr @ gs)]) N"
proof -
  note n = newest_file [OF inv]
  have "last_file (en_crc env) u (fr @ gs) (N - length (log_frames ys)) (ys = [] \<and> N = 0)
      \<lparr>fl_data = seg_bytes (en_crc env) u (fr @ gs) @ P,
       fl_images = fl_images (os_files s ! i) @ [seg_bytes (en_crc env) u (fr @ gs) @ P]\<rparr>"
    using n(1) P image_ok_whole [of "N - length (log_frames ys)" "fr @ gs" "en_crc env" P u]
    by (auto simp: last_file_def image_ok_more data_ok_def)
  with newest_inv [OF inv, of "fr @ gs"] gs n(3) show ?thesis by (auto simp: put_file_eq)
qed

lemma sync_newest_inv:
  assumes inv: "log_inv C env s (ys @ [(u, i, fr)]) N" and data: "data_of s i = seg_bytes (en_crc env) u fr"
  defines "s' \<equiv> s\<lparr>os_files := (os_files s)[i := \<lparr>fl_data = data_of s i, fl_images = [data_of s i]\<rparr>]\<rparr>"
  shows "log_inv C env s' (ys @ [(u, i, fr)]) N" and "closed_file (en_crc env) u fr (os_files s' ! i)"
proof -
  note n = newest_file [OF inv]
  have k: "N - length (log_frames ys) \<le> length fr" using log_invD(3) [OF inv] by simp
  have "last_file (en_crc env) u fr (N - length (log_frames ys)) (ys = [] \<and> N = 0)
      \<lparr>fl_data = data_of s i, fl_images = [data_of s i]\<rparr>"
    using n(1) image_ok_whole [OF k torn_Nil, of "en_crc env" u] data
    by (auto simp: last_file_def data_ok_def intro: exI [of _ "[]"])
  with newest_inv [OF inv _ n(3)] show "log_inv C env s' (ys @ [(u, i, fr)]) N" by (simp add: s'_def)
  show "closed_file (en_crc env) u fr (os_files s' ! i)" using n(2) data by (simp add: s'_def closed_file_def)
qed

text \<open>Everything in the log becomes acknowledged once the newest file and the directory are synced.\<close>

lemma acknowledge_inv:
  assumes inv: "log_inv C env s (ys @ [(u, i, fr)]) N" and c: "closed_file (en_crc env) u fr (os_files s ! i)"
    and d: "\<forall>d \<in> set (os_dir_images s). dir_shows env d (ys @ [(u, i, fr)])"
  shows "log_inv C env s (ys @ [(u, i, fr)]) (length (log_frames (ys @ [(u, i, fr)])))"
    (is "log_inv C env s ?xs ?M")
proof -
  note I = log_invD [OF inv]
  have "last_file (en_crc env) u fr (?M - length (log_frames ys)) (ys = [] \<and> ?M = 0) (os_files s ! i)"
    using c image_ok_whole [of "length fr" fr "en_crc env" "[]" u]
    by (auto simp: last_file_def closed_file_def data_ok_def intro: exI [of _ "[]"])
  then have "files_ok (en_crc env) s ?xs ?M" using I(4) by (simp add: files_ok_def)
  moreover have "listing_ok env ?xs ?M d" if "d \<in> set (os_dir_images s)" for d
    using d that unfolding listing_ok_def by (intro exI [of _ "length ?xs"]) simp
  then have "dirs_ok env s ?xs ?M" using I(5) by (simp add: dirs_ok_def)
  ultimately show ?thesis using I by (simp add: log_inv_def)
qed

text \<open>A new segment appears under its final name.\<close>

lemma install_inv:
  assumes inv: "log_inv C env s (ys @ [(u, i, fr)]) N" and c: "closed_file (en_crc env) u fr (os_files s ! i)"
    and new: "closed_file (en_crc env) v [] (os_files s ! j)" "j < length (os_files s)" "j \<notin> seg_inode ` set (ys @ [(u, i, fr)])"
    and v: "\<exists>c < os_minted s. v = en_uuid env c" "\<forall>x \<in> set (ys @ [(u, i, fr)]). seg_uuid x < v"
    and d: "dir_shows env d (ys @ [(u, i, fr), (v, j, [])])"
    and apart: "\<forall>d' \<in> insert d (set (os_dir_images s)). sidecar_apart s (ys @ [(u, i, fr), (v, j, [])]) d'"
    and sc: "same_sidecars (os_dir s) d"
  shows "log_inv C env (put_dir d s) (ys @ [(u, i, fr), (v, j, [])]) N"
    (is "log_inv C env ?s ?xs N")
proof -
  note I = log_invD [OF inv]
  have N: "N \<le> length (log_frames ys) + length fr" using I(3) by simp
  have "ids_ok env ?s ?xs" using I(2) new(2,3) v by (auto simp: ids_ok_def sorted_wrt_append)
  moreover have "last_file (en_crc env) v [] (N - length (log_frames (ys @ [(u, i, fr)]))) False (os_files s ! j)"
    using new(1) N image_ok_whole [of 0 "[]" "en_crc env" "[]" v]
    by (auto simp: last_file_def closed_file_def data_ok_def intro: exI [of _ "[]"])
  then have "files_ok (en_crc env) ?s ?xs N" using I(4) c by (simp add: files_ok_def butlast_append)
  moreover have "listing_ok env ?xs N d'" if l: "listing_ok env (ys @ [(u, i, fr)]) N d'" for d'
  proof -
    obtain k where "k \<le> length ys + 1" "dir_shows env d' (take k (ys @ [(u, i, fr)]))"
      "N \<le> length (log_frames (take k (ys @ [(u, i, fr)])))" using l by (auto simp: listing_ok_def)
    moreover have "take k ?xs = take k (ys @ [(u, i, fr)])" using calculation(1) by (cases "k - length ys") auto
    ultimately show ?thesis unfolding listing_ok_def by (intro exI [of _ k]) simp
  qed
  moreover have "listing_ok env ?xs N d"
    using d N unfolding listing_ok_def by (intro exI [of _ "length ?xs"]) simp
  moreover have "sidecars_ok ?s C" using I(5,6) sc by (intro put_dir_sidecars) (auto simp: dirs_ok_def)
  ultimately show ?thesis using I(1,5) N d apart by (auto simp: log_inv_def dirs_ok_def sidecar_apart_def)
qed

section \<open>Loss of power\<close>

lemma crash_file_at:
  "i < length (os_files s) \<Longrightarrow> os_files (crash c s) ! i
     = \<lparr>fl_data = crash_data (cc_file c i) (os_files s ! i), fl_images = [crash_data (cc_file c i) (os_files s ! i)]\<rparr>"
  by (simp add: crash_def Let_def)

lemma crash_simps [simp]:
  "length (os_files (crash c s)) = length (os_files s)" "os_minted (crash c s) = os_minted s"
  "os_truncates (crash c s) = os_truncates s" "os_dir_images (crash c s) = [os_dir (crash c s)]"
  by (simp_all add: crash_def Let_def)

lemma crash_dir:
  assumes "os_dir_images s \<noteq> []"
  shows "os_dir (crash c s) \<in> set (os_dir_images s)"
proof -
  have "min (cc_dir c) (length (os_dir_images s) - 1) < length (os_dir_images s)"
    using assms by (cases "os_dir_images s") auto
  then show ?thesis by (simp add: crash_def Let_def)
qed

lemma crash_closed: "closed_file crc u fr f \<Longrightarrow> crash_data c f = seg_bytes crc u fr"
  by (simp add: closed_file_def crash_data_def)

lemma crash_image:
  assumes "fl_images f \<noteq> []"
  obtains img n where "img \<in> set (fl_images f)" "crash_data c f = take n img"
    "\<And>b. (\<And>img. img \<in> set (fl_images f) \<Longrightarrow> b \<le> length img) \<Longrightarrow> b \<le> n"
proof -
  let ?img = "fl_images f ! min (fst c) (length (fl_images f) - 1)"
  let ?low = "Min (length ` set (fl_images f))"
  have "?img \<in> set (fl_images f)" using assms by (intro nth_mem) (cases "fl_images f", auto)
  moreover have "crash_data c f = take (max ?low (snd c)) ?img" by (simp add: crash_data_def Let_def)
  moreover have "b \<le> max ?low (snd c)" if "\<And>img. img \<in> set (fl_images f) \<Longrightarrow> b \<le> length img" for b
    using that assms by (auto simp: le_max_iff_disj)
  ultimately show thesis by (rule that)
qed

lemma crash_last:
  assumes f: "last_file crc u fr k bare f" and u: "uuid_ok u" and fr: "\<forall>f \<in> set fr. frame_ok f"
  shows "\<exists>j. k \<le> j \<and> last_file crc u (take j fr) k bare
           \<lparr>fl_data = crash_data c f, fl_images = [crash_data c f]\<rparr>"
proof -
  have ne: "fl_images f \<noteq> []" using f by (auto simp: last_file_def)
  have k: "k \<le> length fr" and k0: "bare \<Longrightarrow> k = 0" using f by (auto simp: last_file_def)
  have im: "image_ok crc u fr k bare img" if "img \<in> set (fl_images f)" for img
    using f that by (simp add: last_file_def)
  obtain img n where img: "img \<in> set (fl_images f)" and x: "crash_data c f = take n img"
    and low: "\<And>b. (\<And>img. img \<in> set (fl_images f) \<Longrightarrow> b \<le> length img) \<Longrightarrow> b \<le> n"
    using crash_image [OF ne] by metis
  have whole: ?thesis if ex: "\<exists>j P. k \<le> j \<and> j \<le> length fr \<and> torn crc P \<and> take n img = seg_bytes crc u (take j fr) @ P"
  proof -
    obtain j P where j: "k \<le> j" "j \<le> length fr" "torn crc P" "take n img = seg_bytes crc u (take j fr) @ P"
      using ex by auto
    then show ?thesis using k0 image_ok_whole [of k "take j fr" crc P u bare]
      by (intro exI [of _ j]) (auto simp: last_file_def data_ok_def x)
  qed
  have torn_head: ?thesis if "bare" "\<exists>m < segment_header_len. take n img = take m (seg_header u)"
    using that k0 by (intro exI [of _ 0]) (auto simp: last_file_def data_ok_def image_ok_def x)
  consider (frames) j0 P where "k \<le> j0" "j0 \<le> length fr" "torn crc P" "img = seg_bytes crc u (take j0 fr) @ P"
    | (head) m where "bare" "m < segment_header_len" "img = take m (seg_header u)"
    using im [OF img] by (auto simp: image_ok_def)
  then show ?thesis
  proof cases
    case head
    then have "take n img = take (min n m) (seg_header u)" "min n m < segment_header_len" by simp_all
    then show ?thesis using torn_head head(1) by blast
  next
    case frames
    have frs: "\<forall>f \<in> set (take j0 fr). frame_ok f" using fr by (meson in_set_takeD)
    have cut: ?thesis if l: "length (seg_bytes crc u (take k fr)) \<le> n"
    proof -
      have "length (seg_bytes crc u (take k (take j0 fr))) \<le> n" using l frames(1) by (simp add: min_def)
      from cut_segment [OF u frames(3) frs _ this] frames(1,2) obtain j P' where
        "k \<le> j" "j \<le> j0" "torn crc P'" "take n img = seg_bytes crc u (take j (take j0 fr)) @ P'"
        by (auto simp: frames(4))
      then show ?thesis using frames(2) by (intro whole exI [of _ j] exI [of _ P']) (auto simp: min_def)
    qed
    show ?thesis
    proof (cases bare)
      case False
      have "length (seg_bytes crc u (take k fr)) \<le> length im" if mem: "im \<in> set (fl_images f)" for im
      proof -
        obtain j P where "k \<le> j" "im = seg_bytes crc u (take j fr) @ P"
          using im [OF mem] False by (auto simp: image_ok_def)
        moreover have "take j fr = take k fr @ take (j - k) (drop k fr)"
          using calculation(1) by (metis le_add_diff_inverse take_add)
        ultimately show ?thesis by (simp add: seg_bytes_def)
      qed
      then show ?thesis using low cut by blast
    next
      case True
      from cut_header [OF u, of n crc "take j0 fr" P] show ?thesis
        using True k0 cut torn_head by (auto simp: frames(4))
    qed
  qed
qed

lemma seg_entries_take: "seg_entries u pos (take j fr) = take j (seg_entries u pos fr)"
proof (induction fr arbitrary: pos j)
  case (Cons f fr)
  then show ?case by (cases f; cases j) simp_all
qed simp

lemma crash_sidecars:
  assumes "log_inv C env s xs N"
  shows "sidecars_ok (crash c s) C"
proof -
  let ?d = "os_dir (crash c s)"
  note I = log_invD [OF assms]
  have d: "?d \<in> set (os_dir_images s)" using I(5) by (intro crash_dir) (auto simp: dirs_ok_def)
  then obtain v where v: "v \<in> C" "sidecar_value s ?d v" using I(6) by (auto simp: sidecars_ok_def)
  have "sidecar_value (crash c s) ?d v"
  proof (cases "map_of ?d sidecar_name")
    case (Some i)
    have "i < length (os_files s)" using is_sidecarD(1) [OF assms, of i] d Some by (auto simp: is_sidecar_def)
    then show ?thesis using v(2) Some by (auto simp: sidecar_value_def crash_file_at crash_data_def)
  qed (use v(2) in \<open>simp add: sidecar_value_def\<close>)
  then show ?thesis using I(6) d v(1) by (auto simp: sidecars_ok_def)
qed

lemma crash_inv:
  assumes inv: "log_inv C env s xs N" and env: "env_ok env"
  shows "\<exists>xs'. log_inv C env (crash c s) xs' N \<and> prefix (log_entries xs') (log_entries xs)"
proof -
  note I = log_invD [OF inv]
  note sc = crash_sidecars [OF inv, of c]
  let ?d = "os_dir (crash c s)"
  have d: "?d \<in> set (os_dir_images s)" using I(5) by (intro crash_dir) (auto simp: dirs_ok_def)
  then have "listing_ok env xs N ?d" and apart: "sidecar_apart s xs ?d" using I(5) by (auto simp: dirs_ok_def)
  then obtain j where j: "j \<le> length xs" "dir_shows env ?d (take j xs)" "N \<le> length (log_frames (take j xs))"
    by (auto simp: listing_ok_def)
  have dirs: "dirs_ok env (crash c s) zs N"
    if "seg_inode ` set zs \<subseteq> seg_inode ` set xs" "dir_shows env ?d zs" "N \<le> length (log_frames zs)" for zs
  proof -
    have "listing_ok env zs N ?d" using that unfolding listing_ok_def by (intro exI [of _ "length zs"]) simp
    then show ?thesis using that apart by (auto simp: dirs_ok_def sidecar_apart_def)
  qed
  have cf: "closed_file (en_crc env) (seg_uuid x) (seg_frames x) (os_files (crash c s) ! seg_inode x)"
    if "x \<in> set (butlast xs)" for x
  proof -
    have "closed_file (en_crc env) (seg_uuid x) (seg_frames x) (os_files s ! seg_inode x)"
      using I(4) that by (simp add: files_ok_def)
    moreover have "seg_inode x < length (os_files s)" using I(2) in_set_butlastD [OF that] by (simp add: ids_ok_def)
    ultimately show ?thesis using crash_closed by (auto simp: crash_file_at closed_file_def)
  qed
  show ?thesis
  proof (cases "j < length xs")
    case True
    let ?zs = "take j xs"
    have sub: "set ?zs \<subseteq> set (butlast xs)"
      using True set_take_subset_set_take [of j "length xs - 1" xs] by (simp add: butlast_conv_take)
    have "ids_ok env (crash c s) ?zs"
      using I(2) by (auto simp: ids_ok_def sorted_wrt_take take_map [symmetric] dest: in_set_takeD)
    moreover have "files_ok (en_crc env) (crash c s) ?zs N"
    proof -
      have "closed_file (en_crc env) (seg_uuid x) (seg_frames x) (os_files (crash c s) ! seg_inode x)"
        if "x \<in> set ?zs" for x using cf sub that by blast
      moreover have "last_file (en_crc env) (seg_uuid (last ?zs)) (seg_frames (last ?zs))
          (N - length (log_frames (butlast ?zs))) (length ?zs = 1 \<and> N = 0) (os_files (crash c s) ! seg_inode (last ?zs))"
        if ne: "?zs \<noteq> []"
      proof -
        have k: "N - length (log_frames (butlast ?zs)) \<le> length (seg_frames (last ?zs))"
          using j(3) log_frames_split [OF ne] by simp
        have "closed_file (en_crc env) (seg_uuid (last ?zs)) (seg_frames (last ?zs)) (os_files (crash c s) ! seg_inode (last ?zs))"
          using cf sub last_in_set [OF ne] by blast
        then show ?thesis using k image_ok_whole [OF k torn_Nil, of "en_crc env"]
          by (auto simp: last_file_def closed_file_def data_ok_def intro: exI [of _ "[]"])
      qed
      ultimately show ?thesis by (auto simp: files_ok_def dest: in_set_butlastD)
    qed
    moreover have "dirs_ok env (crash c s) ?zs N"
      using j(2,3) by (intro dirs) (auto dest: in_set_takeD)
    moreover have "prefix (log_entries ?zs) (log_entries xs)"
      by (metis append_take_drop_id log_entries_simps(3) prefixI)
    ultimately show ?thesis using I(1) j(3) sc by (auto simp: log_inv_def)
  next
    case False
    then have all: "take j xs = xs" by simp
    show ?thesis
    proof (cases xs rule: rev_cases)
      case Nil
      then show ?thesis using I j sc dirs [of "[]"]
        by (intro exI [of _ "[]"]) (simp add: log_inv_def ids_ok_def files_ok_def)
    next
      case (snoc ys x)
      obtain u i fr where x: "x = (u, i, fr)" by (metis prod_cases3)
      note n = newest_file [OF inv [unfolded snoc x]]
      have uo: "uuid_ok u" using n(4) env by (auto simp: env_ok_def)
      obtain m where m: "N - length (log_frames ys) \<le> m"
        "last_file (en_crc env) u (take m fr) (N - length (log_frames ys)) (ys = [] \<and> N = 0)
           (os_files (crash c s) ! i)"
        using crash_last [OF n(1) uo n(3), of "cc_file c i"] by (auto simp: crash_file_at [OF n(2)])
      let ?zs = "ys @ [(u, i, take m fr)]"
      have N: "N \<le> length (log_frames ?zs)" using m(1) I(3) by (simp add: snoc x)
      have "ids_ok env (crash c s) ?zs" using I(2) by (auto simp: ids_ok_def snoc x dest: in_set_takeD)
      moreover have "files_ok (en_crc env) (crash c s) ?zs N" using cf m(2) by (simp add: files_ok_def snoc)
      moreover have "dirs_ok env (crash c s) ?zs N"
        using j(2) [unfolded all] N dir_shows_frames [of env ?d ys u i fr "take m fr"]
        by (intro dirs) (auto simp: snoc x)
      moreover have "prefix (log_entries ?zs) (log_entries xs)"
        by (simp add: snoc x seg_entries_take take_is_prefix)
      ultimately show ?thesis using I(1) N sc by (auto simp: log_inv_def)
    qed
  qed
qed

end
