(* ===== verification/Wal_Steps.thy ===== *)
theory Wal_Steps
  imports Wal_Invariant
begin

text \<open>
  The operations of an open log keep the invariant of \<open>Wal_Invariant\<close>, whatever calls fail: a failed
  append leaves the log as it was, a failed rotation loses nothing, a successful sync acknowledges
  every frame before it.
\<close>

section \<open>Calls\<close>

lemma script_last:
  "s\<lparr>os_script := q, os_files := fs\<rparr> = s\<lparr>os_files := fs, os_script := q\<rparr>"
  "s\<lparr>os_script := q, os_dir_images := ds\<rparr> = s\<lparr>os_dir_images := ds, os_script := q\<rparr>"
  "s\<lparr>os_script := q, os_minted := m\<rparr> = s\<lparr>os_minted := m, os_script := q\<rparr>"
  "put_dir d (s\<lparr>os_script := q\<rparr>) = (put_dir d s)\<lparr>os_script := q\<rparr>"
  "put_file i data (s\<lparr>os_script := q\<rparr>) = (put_file i data s)\<lparr>os_script := q\<rparr>"
  by (cases s, simp add: put_dir_def put_file_def)+

lemma sync_dir_cases:
  obtains (ok) q where "os_sync_dir s = (s\<lparr>os_dir_images := [os_dir s], os_script := q\<rparr>, None)"
    | (failed) q e where "os_sync_dir s = (s\<lparr>os_script := q\<rparr>, Some e)"
  by (rule next_io_cases [of s]) (auto simp: os_sync_dir_def script_last intro: that)

lemma sync_data_cases:
  obtains (ok) q where "os_sync_data i s = (s\<lparr>os_files := (os_files s)[i := \<lparr>fl_data = data_of s i, fl_images = [data_of s i]\<rparr>],
      os_script := q\<rparr>, None)"
    | (failed) q e where "os_sync_data i s = (s\<lparr>os_script := q\<rparr>, Some e)"
  by (rule next_io_cases [of s]) (auto simp: os_sync_data_def script_last intro: that)

lemma stat_cases:
  obtains (ok) q where "os_stat i s = (s\<lparr>os_script := q\<rparr>, Inr (length (data_of s i)))"
    | (failed) q e where "os_stat i s = (s\<lparr>os_script := q\<rparr>, Inl e)"
  by (rule next_io_cases [of s]) (auto simp: os_stat_def intro: that)

lemma write_cases:
  assumes "buf \<noteq> []"
  obtains (ok) q where "os_write i s buf = ((put_file i (data_of s i @ buf) s)\<lparr>os_script := q\<rparr>, None)"
    | (failed) q n e where "n < length buf"
        "os_write i s buf = ((put_file i (data_of s i @ take n buf) s)\<lparr>os_script := q\<rparr>, Some e)"
proof (rule next_io_cases [of s])
  fix q d n assume "next_io s = (s\<lparr>os_script := q\<rparr>, Some (d, n))"
  moreover have "min n (length buf - 1) < length buf" using assms by (cases buf) auto
  ultimately show thesis using assms by (intro failed [of "min n (length buf - 1)" q]) (simp_all add: os_write_def script_last)
qed (use assms in \<open>auto simp: os_write_def script_last intro: ok\<close>)

lemma open_cases:
  obtains (ok) q i where "os_open name s = (s\<lparr>os_script := q\<rparr>, Inr i)" "map_of (os_dir s) name = Some i"
    | (missing) q where "os_open name s = (s\<lparr>os_script := q\<rparr>, Inl not_found)" "map_of (os_dir s) name = None"
    | (failed) q d where "os_open name s = (s\<lparr>os_script := q\<rparr>, Inl (os_error d))"
proof (rule next_io_cases [of s])
  fix q assume "next_io s = (s\<lparr>os_script := q\<rparr>, None)"
  then show thesis by (cases "map_of (os_dir s) name") (auto simp: os_open_def intro: ok missing)
qed (auto simp: os_open_def intro: failed)

lemma create_new_cases:
  obtains (ok) q where "os_create_new name s
      = ((put_dir (hm_insert name (length (os_files s)) (os_dir s))
            (s\<lparr>os_files := os_files s @ [\<lparr>fl_data = [], fl_images = [[]]\<rparr>]\<rparr>))\<lparr>os_script := q\<rparr>,
         Inr (length (os_files s)))" "map_of (os_dir s) name = None"
    | (failed) q e where "os_create_new name s = (s\<lparr>os_script := q\<rparr>, Inl e)"
proof (rule next_io_cases [of s])
  fix q assume n: "next_io s = (s\<lparr>os_script := q\<rparr>, None)"
  show thesis
  proof (cases "map_of (os_dir s) name")
    case None
    then show ?thesis using n by (intro ok) (simp_all add: os_create_new_def Let_def script_last)
  qed (use n in \<open>auto simp: os_create_new_def intro: failed\<close>)
qed (auto simp: os_create_new_def intro: failed)

lemma rename_cases:
  obtains (ok) q i where "os_rename a b s = ((put_dir (hm_insert b i (hm_remove a (os_dir s))) s)\<lparr>os_script := q\<rparr>, None)"
      "map_of (os_dir s) a = Some i"
    | (failed) q e where "os_rename a b s = (s\<lparr>os_script := q\<rparr>, Some e)"
proof (rule next_io_cases [of s])
  fix q assume n: "next_io s = (s\<lparr>os_script := q\<rparr>, None)"
  show thesis
  proof (cases "map_of (os_dir s) a")
    case (Some i)
    then show ?thesis using n by (intro ok) (simp_all add: os_rename_def script_last)
  qed (use n in \<open>auto simp: os_rename_def intro: failed\<close>)
qed (auto simp: os_rename_def intro: failed)

section \<open>The open log\<close>

definition run_inv :: "wal_offset option set \<Rightarrow> wal_env \<Rightarrow> os \<Rightarrow> wal \<Rightarrow> seg list \<Rightarrow> nat \<Rightarrow> bool" where
  "run_inv C env s w xs N \<longleftrightarrow> log_inv C env s xs N \<and> running env s w xs"

lemma run_inv_script [simp]: "run_inv C env (s\<lparr>os_script := q\<rparr>) w xs N = run_inv C env s w xs N"
  by (simp add: run_inv_def)

lemma running_wal:
  "wl_segment w' = wl_segment w \<Longrightarrow> wl_uuid w' = wl_uuid w \<Longrightarrow> wl_path w' = wl_path w
   \<Longrightarrow> wl_dir_fsync w' = wl_dir_fsync w \<Longrightarrow> running env s w' xs = running env s w xs"
  by (simp add: running_def)

text \<open>What no append, rotation or sync changes of the handle.\<close>

definition side :: "wal \<Rightarrow> wal_config \<times> reclaim_gate \<times> wal_offset option" where
  "side w = (wl_config w, wl_gate w, wl_checkpoint w)"

lemma side_simps [simp]:
  "side (w\<lparr>wl_segment := a\<rparr>) = side w" "side (w\<lparr>wl_path := b\<rparr>) = side w" "side (w\<lparr>wl_uuid := c\<rparr>) = side w"
  "side (w\<lparr>wl_dir_fsync := d\<rparr>) = side w" "side (w\<lparr>wl_rotation := e\<rparr>) = side w" "side (w\<lparr>wl_record := f\<rparr>) = side w"
  "side (w\<lparr>wl_stale_partials := g\<rparr>) = side w" "side (w\<lparr>wl_unflushed_bytes := h\<rparr>) = side w"
  "side (w\<lparr>wl_appends_total := i\<rparr>) = side w" "side (w\<lparr>wl_syncs_total := j\<rparr>) = side w"
  "side (w\<lparr>wl_unreclaimed_bytes := k\<rparr>) = side w" "side (w\<lparr>wl_ledger := l\<rparr>) = side w"
  by (simp_all add: side_def)

definition same_target :: "wal \<Rightarrow> wal \<Rightarrow> bool" where
  "same_target w w' \<longleftrightarrow>
     wl_segment w' = wl_segment w \<and> wl_uuid w' = wl_uuid w \<and> wl_path w' = wl_path w
     \<and> wl_dir_fsync w' = wl_dir_fsync w \<and> side w' = side w"

lemma same_targetD: "same_target w w' \<Longrightarrow> run_inv C env s w' xs N = run_inv C env s w xs N"
  by (simp add: same_target_def run_inv_def running_wal [of w' w])

lemma same_target_refl [simp]: "same_target w w"
  by (simp add: same_target_def)

lemma rotation_charge_target: "same_target w (fst (rotation_charge site e w))"
  by (simp add: rotation_charge_def same_target_def case_prod_beta Let_def)

lemma rotation_step_target:
  assumes "rotation_step site r w = (w', x)"
  shows "same_target w w'" and "x = None \<longleftrightarrow> r = None" and "r = None \<Longrightarrow> w' = w"
proof -
  have "same_target w v" if "rotation_charge site e w = (v, f)" for e v f
    using rotation_charge_target [of w site e] that by simp
  then show "same_target w w'" "x = None \<longleftrightarrow> r = None" "r = None \<Longrightarrow> w' = w"
    using assms by (auto simp: rotation_step_def split: option.splits prod.splits)
qed

lemma ensure_record_target: "ensure_record written w = (w', x) \<Longrightarrow> same_target w w'"
  by (auto simp: ensure_record_def same_target_def split: if_splits option.splits)

lemma run_last:
  assumes "run_inv C env s w xs N"
  obtains ys u i fr where "xs = ys @ [(u, i, fr)]" "wl_segment w = i" "wl_uuid w = u"
    "wl_path w = seg_name env u" "data_of s i = seg_bytes (en_crc env) u fr" "i < length (os_files s)"
    "\<forall>f \<in> set fr. frame_ok f" "\<exists>c < os_minted s. u = en_uuid env c"
proof -
  have r: "running env s w xs" and l: "log_inv C env s xs N" using assms by (simp_all add: run_inv_def)
  then obtain ys x where xs: "xs = ys @ [x]" by (cases xs rule: rev_cases) (auto simp: running_def)
  obtain u i fr where x: "x = (u, i, fr)" by (metis prod_cases3)
  show thesis
    using that [of ys u i fr] r newest_file [OF l [unfolded xs x]] by (simp add: xs x running_def)
qed

lemma sync_dir_run:
  assumes "run_inv C env s w xs N"
  shows "run_inv C env (s\<lparr>os_dir_images := [os_dir s]\<rparr>) w xs N"
    and "run_inv C env (s\<lparr>os_dir_images := [os_dir s]\<rparr>) (w\<lparr>wl_dir_fsync := x, wl_rotation := y\<rparr>) xs N"
    and "run_inv C env (s\<lparr>os_dir_images := [os_dir s]\<rparr>) (w\<lparr>wl_dir_fsync := x\<rparr>) xs N"
  using assms sync_dir_inv [of C env s xs N] sync_dir_running [of C env s xs N w] by (simp_all add: run_inv_def)

lemma sync_data_run:
  assumes "run_inv C env s w xs N"
  defines "s' \<equiv> s\<lparr>os_files := (os_files s)[wl_segment w := \<lparr>fl_data = data_of s (wl_segment w),
      fl_images = [data_of s (wl_segment w)]\<rparr>]\<rparr>"
  shows "run_inv C env s' w xs N"
    and "closed_file (en_crc env) (seg_uuid (last xs)) (seg_frames (last xs)) (os_files s' ! wl_segment w)"
proof -
  obtain ys u i fr where l: "xs = ys @ [(u, i, fr)]" "wl_segment w = i" "data_of s i = seg_bytes (en_crc env) u fr"
    "i < length (os_files s)" by (rule run_last [OF assms(1)])
  have inv: "log_inv C env s (ys @ [(u, i, fr)]) N" and r: "running env s w xs"
    using assms(1) by (simp_all add: run_inv_def l(1))
  have "log_inv C env s' xs N" using sync_newest_inv(1) [OF inv l(3)] by (simp add: s'_def l)
  moreover have "running env s' w xs" using r l(2-4) by (simp add: running_def s'_def l(1) data_of_def)
  ultimately show "run_inv C env s' w xs N" by (simp add: run_inv_def)
  show "closed_file (en_crc env) (seg_uuid (last xs)) (seg_frames (last xs)) (os_files s' ! wl_segment w)"
    using sync_newest_inv(2) [OF inv l(3)] by (simp add: s'_def l)
qed

section \<open>Rotation\<close>

lemma discharge_owed_run:
  assumes "run_inv C env s w xs N" and "discharge_owed_rotation_fsync s w = (s', w', r)"
  shows "run_inv C env s' w' xs N \<and> side w' = side w \<and> os_minted s' = os_minted s"
proof (cases "wl_dir_fsync w = PendingRotation")
  case True
  show ?thesis
  proof (rule sync_dir_cases [of s])
    fix q assume "os_sync_dir s = (s\<lparr>os_dir_images := [os_dir s], os_script := q\<rparr>, None)"
    then show ?thesis using assms True sync_dir_run(2) [OF assms(1)]
      by (auto simp: discharge_owed_rotation_fsync_def rotation_step_def)
  next
    fix q e assume f: "os_sync_dir s = (s\<lparr>os_script := q\<rparr>, Some e)"
    obtain v x where v: "rotation_step ParentFsync (Some e) w = (v, x)" by fastforce
    have "x \<noteq> None" "same_target w v" using rotation_step_target [OF v] by simp_all
    then have "s' = s\<lparr>os_script := q\<rparr>" "w' = v"
      using assms(2) True f v by (auto simp: discharge_owed_rotation_fsync_def split: option.splits)
    then show ?thesis
      using assms(1) same_targetD [OF \<open>same_target w v\<close>] \<open>same_target w v\<close> by (simp add: same_target_def)
  qed
qed (use assms in \<open>simp add: discharge_owed_rotation_fsync_def\<close>)

lemma run_inv_cong:
  assumes "run_inv C env s w xs N" and "os_truncates s' = os_truncates s"
    and "os_dir s' = os_dir s" "os_dir_images s' = os_dir_images s"
    and "length (os_files s) \<le> length (os_files s')" and "os_minted s \<le> os_minted s'"
    and f: "\<And>x. x \<in> set xs \<Longrightarrow> os_files s' ! seg_inode x = os_files s ! seg_inode x"
    and g: "\<And>i. is_sidecar s i \<Longrightarrow> os_files s' ! i = os_files s ! i"
  shows "run_inv C env s' w xs N"
proof -
  have l: "log_inv C env s xs N" and r: "running env s w xs" using assms(1) by (simp_all add: run_inv_def)
  have "log_inv C env s' xs N"
    using assms(2-6) log_invD(1) [OF l] by (intro log_inv_cong [OF l] f g) simp_all
  moreover have "running env s' w xs"
    using r f [OF last_in_set] assms(4) by (simp add: running_def data_of_def)
  ultimately show ?thesis by (simp add: run_inv_def)
qed

lemma inode_bound: "run_inv C env s w xs N \<Longrightarrow> x \<in> set xs \<Longrightarrow> seg_inode x < length (os_files s)"
  using log_invD(2) [of C env s xs N] by (auto simp: run_inv_def ids_ok_def)

lemma other_file_run:
  assumes "run_inv C env s w xs N" and "j \<notin> seg_inode ` set xs" and "\<not> is_sidecar s j"
  shows "run_inv C env (s\<lparr>os_files := (os_files s)[j := f]\<rparr>) w xs N"
proof (rule run_inv_cong [OF assms(1)])
  fix x assume "x \<in> set xs"
  then have "j \<noteq> seg_inode x" using assms(2) by blast
  then show "os_files (s\<lparr>os_files := (os_files s)[j := f]\<rparr>) ! seg_inode x = os_files s ! seg_inode x" by simp
next
  fix i assume "is_sidecar s i"
  then have "j \<noteq> i" using assms(3) by blast
  then show "os_files (s\<lparr>os_files := (os_files s)[j := f]\<rparr>) ! i = os_files s ! i" by simp
qed simp_all

lemma grow_run:
  assumes "run_inv C env s w xs N"
  shows "run_inv C env (s\<lparr>os_files := os_files s @ fs\<rparr>) w xs N"
proof (rule run_inv_cong [OF assms])
  fix i assume "is_sidecar s i"
  then have "i < length (os_files s)" using assms is_sidecarD(1) by (auto simp: run_inv_def)
  then show "os_files (s\<lparr>os_files := os_files s @ fs\<rparr>) ! i = os_files s ! i" by (simp add: nth_append)
qed (use inode_bound [OF assms] in \<open>simp_all add: nth_append\<close>)

lemma mint_run: "run_inv C env s w xs N \<Longrightarrow> run_inv C env (s\<lparr>os_minted := Suc (os_minted s)\<rparr>) w xs N"
  by (rule run_inv_cong) simp_all

lemma put_dir_run:
  assumes "run_inv C env s w xs N" and "dir_shows env d xs" and "sidecar_apart s xs d" and "same_sidecars (os_dir s) d"
  shows "run_inv C env (put_dir d s) w xs N"
proof -
  have l: "log_inv C env s xs N" and r: "running env s w xs" using assms(1) by (simp_all add: run_inv_def)
  have "sidecars_ok (put_dir d s) C"
    using log_invD(5,6) [OF l] assms(4) by (intro put_dir_sidecars) (auto simp: dirs_ok_def)
  from put_dir_inv [OF l assms(2,3) this] put_dir_running [OF r assms(2)] show ?thesis by (simp add: run_inv_def)
qed

lemma run_dir:
  assumes "run_inv C env s w xs N"
  shows "dir_shows env (os_dir s) xs" and "sidecar_apart s xs (os_dir s)"
    and "d \<in> set (os_dir_images s) \<Longrightarrow> sidecar_apart s xs d" and "os_dir s \<in> set (os_dir_images s)"
  using log_invD(5) [of C env s xs N] assms by (auto simp: run_inv_def dirs_ok_def)

text \<open>A segment created and written under its temporary name, not yet part of the log.\<close>

definition staged :: "wal_env \<Rightarrow> os \<Rightarrow> seg list \<Rightarrow> nat \<Rightarrow> uuid \<Rightarrow> bool" where
  "staged env s xs j v \<longleftrightarrow>
     j < length (os_files s) \<and> j \<notin> seg_inode ` set xs \<and> data_of s j = seg_header v
     \<and> map_of (os_dir s) (partial_name env v) = Some j
     \<and> (\<exists>c < os_minted s. v = en_uuid env c) \<and> (\<forall>x \<in> set xs. seg_uuid x < v)
     \<and> \<not> is_sidecar s j \<and> (\<forall>d \<in> set (os_dir_images s). map_of d tmp_name \<noteq> Some j)"

lemma partial_not_sidecar: "env_ok env \<Longrightarrow> uuid_ok v \<Longrightarrow> partial_name env v \<noteq> sidecar_name \<and> partial_name env v \<noteq> tmp_name"
  by (auto simp: partial_name_def sidecar_name_def tmp_name_def env_ok_def dest!: arg_cong [where f = length])

lemma create_partial_run:
  assumes env: "env_ok env" and run: "run_inv C env s w xs N" and lim: "os_minted s < mint_limit"
    and c: "create_partial env s w = (s', w', res)"
  shows "same_target w w'" and "run_inv C env s' w' xs N"
    and "os_files s' ! wl_segment w = os_files s ! wl_segment w"
    and "res = Inr (j, p, u) \<Longrightarrow> p = partial_name env u \<and> staged env s' xs j u"
proof -
  define v where "v = en_uuid env (os_minted s)"
  define n where "n = length (os_files s)"
  define s0 where "s0 = s\<lparr>os_minted := Suc (os_minted s)\<rparr>"
  define w0 where "w0 = w\<lparr>wl_stale_partials := wl_stale_partials w @ [partial_name env v]\<rparr>"
  have vo: "uuid_ok v" using env by (simp add: env_ok_def v_def)
  have t0: "same_target w w0" by (simp add: same_target_def w0_def)
  have r0: "run_inv C env s0 w0 xs N" using mint_run [OF run] same_targetD [OF t0] by (simp add: s0_def)
  have lt: "seg_uuid x < v" if x: "x \<in> set xs" for x
  proof -
    obtain c where "c < os_minted s" "seg_uuid x = en_uuid env c"
      using run x by (auto simp: run_inv_def log_inv_def ids_ok_def)
    then show ?thesis using env lim by (simp add: env_ok_def v_def)
  qed
  have out: "n \<notin> seg_inode ` set xs"
  proof
    assume "n \<in> seg_inode ` set xs"
    then obtain x where "x \<in> set xs" "n = seg_inode x" by blast
    then show False using inode_bound [OF run, of x] by (simp add: n_def)
  qed
  have seg: "wl_segment w < n" using run_last [OF run] by (metis n_def)
  have step: "create_partial env s w
      = (case create_segment_at (partial_name env v) v s0 of
           (s, Inl (_, e)) \<Rightarrow>
             (case rotation_charge Create e w0 of (w, fault) \<Rightarrow> (s, w, Inl (append_error_of w fault)))
         | (s, Inr i) \<Rightarrow> (s, w0, Inr (i, partial_name env v, v)))"
    unfolding create_partial_def mint_def Let_def w0_def s0_def v_def by simp
  have fail: "same_target w w'" "run_inv C env s' w' xs N" "(\<exists>e. res = Inl e) \<and> s' = s1"
    if "create_segment_at (partial_name env v) v s0 = (s1, Inl (op, e))" "run_inv C env s1 w0 xs N" for s1 op e
  proof -
    have "w' = fst (rotation_charge Create e w0)" "s' = s1" "\<exists>e. res = Inl e"
      using c step that(1) by (auto simp: case_prod_beta)
    moreover have "same_target w0 (fst (rotation_charge Create e w0))" by (rule rotation_charge_target)
    ultimately show "same_target w w'" "run_inv C env s' w' xs N" "(\<exists>e. res = Inl e) \<and> s' = s1"
      using t0 that(2) same_targetD [of w0 w'] by (auto simp: same_target_def)
  qed
  have "same_target w w' \<and> run_inv C env s' w' xs N \<and> os_files s' ! wl_segment w = os_files s ! wl_segment w
      \<and> (\<forall>j p v. res = Inr (j, p, v) \<longrightarrow> p = partial_name env v \<and> staged env s' xs j v)"
  proof (rule create_new_cases [of "partial_name env v" s0])
    fix q e assume "os_create_new (partial_name env v) s0 = (s0\<lparr>os_script := q\<rparr>, Inl e)"
    then have "create_segment_at (partial_name env v) v s0 = (s0\<lparr>os_script := q\<rparr>, Inl (''create(fresh segment)'', e))"
      by (simp add: create_segment_at_def)
    from fail [OF this] r0 show ?thesis by (auto simp: s0_def)
  next
    fix q
    let ?d = "hm_insert (partial_name env v) n (os_dir s0)"
    define s1 where "s1 = put_dir ?d (s0\<lparr>os_files := os_files s0 @ [\<lparr>fl_data = [], fl_images = [[]]\<rparr>]\<rparr>)"
    have n0: "length (os_files s0) = n" by (simp add: s0_def n_def)
    assume "os_create_new (partial_name env v) s0 = ((put_dir (hm_insert (partial_name env v) (length (os_files s0)) (os_dir s0))
        (s0\<lparr>os_files := os_files s0 @ [\<lparr>fl_data = [], fl_images = [[]]\<rparr>]\<rparr>))\<lparr>os_script := q\<rparr>, Inr (length (os_files s0)))"
    then have cr: "os_create_new (partial_name env v) s0 = (s1\<lparr>os_script := q\<rparr>, Inr n)" by (simp add: s1_def n0)
    have d1: "dir_shows env ?d xs" using run_dir(1) [OF r0] by (intro dir_shows_other(1) partial_name_other)
    have "sidecar_apart s0 xs (os_dir s0)" by (rule run_dir(2) [OF r0])
    then have ap: "sidecar_apart (s0\<lparr>os_files := os_files s0 @ [\<lparr>fl_data = [], fl_images = [[]]\<rparr>]\<rparr>) xs ?d"
      using partial_not_sidecar [OF env vo] n0 by (auto simp: sidecar_apart_def map_upd less_SucI)
    have same: "same_sidecars (os_dir s0) ?d" using partial_not_sidecar [OF env vo] by (auto simp: same_sidecars_def map_upd)
    have r1: "run_inv C env s1 w0 xs N" unfolding s1_def by (rule put_dir_run [OF grow_run [OF r0] d1 ap]) (simp add: same)
    have "map_of d m \<noteq> Some n" if "d \<in> set (os_dir_images s0)" for d m
      using run_dir(3) [OF r0 that] n0 by (auto simp: sidecar_apart_def)
    then have ns: "\<not> is_sidecar s1 n" "\<forall>d \<in> set (os_dir_images s1). map_of d tmp_name \<noteq> Some n"
      using partial_not_sidecar [OF env vo] run_dir(4) [OF r0] by (auto simp: s1_def map_upd is_sidecar_def)
    have len: "length (os_files s1) = Suc n" and dn: "data_of s1 n = []"
      by (simp_all add: s1_def n0 data_of_def nth_append)
    have f1: "os_files s1 ! wl_segment w = os_files s ! wl_segment w"
      using seg by (simp add: s1_def s0_def nth_append n_def)
    have hw: "write_header (os_write n) (s1\<lparr>os_script := q\<rparr>) (segment_header_new v)
        = os_write n (s1\<lparr>os_script := q\<rparr>) (seg_header v)" by (simp add: write_header_def seg_header_def)
    have ne: "seg_header v \<noteq> []" using length_seg_header [OF vo] by (auto simp: segment_header_len_def)
    have pf: "run_inv C env (put_file n bs s1) w0 xs N" for bs
      unfolding put_file_eq by (rule other_file_run [OF r1 out ns(1)])
    have ff: "os_files (put_file n bs s1) ! wl_segment w = os_files s ! wl_segment w" for bs
      using f1 seg by (simp add: put_file_def)
    show ?thesis
    proof (rule write_cases [OF ne, of n "s1\<lparr>os_script := q\<rparr>"])
      fix q' m e assume "os_write n (s1\<lparr>os_script := q\<rparr>) (seg_header v)
          = ((put_file n (data_of (s1\<lparr>os_script := q\<rparr>) n @ take m (seg_header v)) (s1\<lparr>os_script := q\<rparr>))\<lparr>os_script := q'\<rparr>, Some e)"
      then have "create_segment_at (partial_name env v) v s0
          = ((put_file n (take m (seg_header v)) s1)\<lparr>os_script := q'\<rparr>, Inl (''write(segment header)'', e))"
        by (simp add: create_segment_at_def cr hw dn script_last)
      from fail [OF this] pf ff show ?thesis by auto
    next
      fix q' assume "os_write n (s1\<lparr>os_script := q\<rparr>) (seg_header v)
          = ((put_file n (data_of (s1\<lparr>os_script := q\<rparr>) n @ seg_header v) (s1\<lparr>os_script := q\<rparr>))\<lparr>os_script := q'\<rparr>, None)"
      then have "create_segment_at (partial_name env v) v s0
          = ((put_file n (seg_header v) s1)\<lparr>os_script := q'\<rparr>, Inr n)"
        by (simp add: create_segment_at_def cr hw dn script_last)
      then have out': "s' = (put_file n (seg_header v) s1)\<lparr>os_script := q'\<rparr>" "w' = w0" "res = Inr (n, partial_name env v, v)"
        using c step by simp_all
      have "staged env s' xs n v"
        using out lt len ns by (auto simp: staged_def out'(1) put_file_def data_of_def s1_def map_upd s0_def v_def is_sidecar_def)
      then show ?thesis using pf [of "seg_header v"] ff [of "seg_header v"] t0 by (simp add: out')
    qed
  qed
  then show "same_target w w'" "run_inv C env s' w' xs N" "os_files s' ! wl_segment w = os_files s ! wl_segment w"
    "res = Inr (j, p, u) \<Longrightarrow> p = partial_name env u \<and> staged env s' xs j u" by blast+
qed

lemma dir_shows_add:
  assumes env: "env_ok env" and d: "dir_shows env d xs" and v: "uuid_ok v"
    and ids: "\<forall>x \<in> set xs. seg_name env (seg_uuid x) \<noteq> seg_name env v"
  shows "dir_shows env (hm_insert (seg_name env v) j d) (xs @ [(v, j, fr)])"
proof -
  have new: "map_of d (seg_name env v) = None"
  proof (rule ccontr)
    assume "map_of d (seg_name env v) \<noteq> None"
    then obtain i where "map_of d (seg_name env v) = Some i" by auto
    then have "(seg_name env v, i) \<in> {(n, i). map_of d n = Some i \<and> is_segment_name n}"
      using seg_name_segment [OF env v] by simp
    then have "(seg_name env v, i) \<in> (\<lambda>x. (seg_name env (seg_uuid x), seg_inode x)) ` set xs"
      using d by (simp only: dir_shows_def)
    then show False using ids by auto
  qed
  have "{(n, i). map_of (hm_insert (seg_name env v) j d) n = Some i \<and> is_segment_name n}
      = insert (seg_name env v, j) {(n, i). map_of d n = Some i \<and> is_segment_name n}"
    using new seg_name_segment [OF env v] by (auto simp: map_upd(1) split: if_splits)
  moreover have "hm_wf (hm_insert (seg_name env v) j d)"
    using d by (simp add: dir_shows_def hm_wf_def distinct_update)
  ultimately show ?thesis using d by (simp add: dir_shows_def)
qed

lemma dir_shows_install:
  assumes "env_ok env" and "dir_shows env d xs" and "uuid_ok v" and "\<forall>x \<in> set xs. seg_name env (seg_uuid x) \<noteq> seg_name env v"
  shows "dir_shows env (hm_insert (seg_name env v) j (hm_remove (partial_name env v) d)) (xs @ [(v, j, fr)])"
  by (rule dir_shows_add [OF assms(1) dir_shows_other(2) [OF assms(2) partial_name_other] assms(3,4)])

lemma staged_sync:
  assumes "run_inv C env s w xs N" and st: "staged env s xs j v"
  defines "s' \<equiv> s\<lparr>os_files := (os_files s)[j := \<lparr>fl_data = data_of s j, fl_images = [data_of s j]\<rparr>]\<rparr>"
  shows "run_inv C env s' w xs N" and "staged env s' xs j v" and "closed_file (en_crc env) v [] (os_files s' ! j)"
    and "os_files s' ! wl_segment w = os_files s ! wl_segment w"
proof -
  have j: "j < length (os_files s)" "j \<notin> seg_inode ` set xs" using st by (simp_all add: staged_def)
  show "run_inv C env s' w xs N" unfolding s'_def using st by (intro other_file_run [OF assms(1) j(2)]) (simp add: staged_def)
  show "staged env s' xs j v" using st j by (auto simp: staged_def s'_def data_of_def is_sidecar_def)
  show "closed_file (en_crc env) v [] (os_files s' ! j)"
    using st j by (auto simp: staged_def s'_def closed_file_def seg_bytes_def frames_bytes_def)
  have "wl_segment w \<in> seg_inode ` set xs" by (rule run_last [OF assms(1)]) auto
  then have "wl_segment w \<noteq> j" using j by blast
  then show "os_files s' ! wl_segment w = os_files s ! wl_segment w" by (simp add: s'_def)
qed

lemma staged_install:
  assumes env: "env_ok env" and run: "run_inv C env s w xs N" and st: "staged env s xs j v"
    and c: "closed_file (en_crc env) v [] (os_files s ! j)"
    and c': "closed_file (en_crc env) (seg_uuid (last xs)) (seg_frames (last xs)) (os_files s ! wl_segment w)"
    and w': "wl_segment w' = j" "wl_path w' = seg_name env v" "wl_uuid w' = v" "wl_dir_fsync w' = PendingRotation"
  shows "run_inv C env (put_dir (hm_insert (seg_name env v) j (hm_remove (partial_name env v) (os_dir s))) s) w'
           (xs @ [(v, j, [])]) N"
    (is "run_inv C env (put_dir ?d s) w' ?xs N")
proof -
  obtain ys u i fr where l: "xs = ys @ [(u, i, fr)]" "wl_segment w = i" by (rule run_last [OF run])
  have inv: "log_inv C env s (ys @ [(u, i, fr)]) N" using run by (simp add: run_inv_def l(1))
  obtain cv where v: "v = en_uuid env cv" "cv < os_minted s" using st by (auto simp: staged_def)
  have vo: "uuid_ok v" using env v by (simp add: env_ok_def)
  have xo: "uuid_ok (seg_uuid x)" if "x \<in> set xs" for x
    using that log_invD(2) [OF inv] env by (auto simp: ids_ok_def env_ok_def l(1))
  have ids: "\<forall>x \<in> set xs. seg_name env (seg_uuid x) \<noteq> seg_name env v"
    using st seg_name_less [OF env xo vo] by (fastforce simp: staged_def)
  have d: "dir_shows env ?d ?xs" by (rule dir_shows_install [OF env run_dir(1) [OF run] vo ids])
  have j: "j < length (os_files s)" "j \<notin> seg_inode ` set xs" using st by (simp_all add: staged_def)
  have sc: "seg_name env v \<noteq> sidecar_name \<and> seg_name env v \<noteq> tmp_name"
    using seg_name_segment [OF env vo] sidecar_names_other by metis
  have ap0: "sidecar_apart s ?xs d'" if "d' \<in> set (os_dir_images s)" for d'
    using run_dir(3) [OF run that] st that by (auto simp: sidecar_apart_def staged_def is_sidecar_def)
  have same: "same_sidecars (os_dir s) ?d"
    using sc partial_not_sidecar [OF env vo] by (auto simp: same_sidecars_def map_upd)
  have "sidecar_apart s ?xs ?d"
    using ap0 [OF run_dir(4) [OF run]] sc j(1) by (auto simp: sidecar_apart_def map_upd split: if_splits)
  then have "log_inv C env (put_dir ?d s) (ys @ [(u, i, fr), (v, j, [])]) N"
    using c c' j st d ap0 same by (intro install_inv [OF inv]) (simp_all add: l staged_def)
  moreover have "running env (put_dir ?d s) w' ?xs"
    using w' c by (simp add: running_def closed_file_def data_of_def)
  ultimately show ?thesis by (simp add: run_inv_def l(1))
qed

definition rotated :: "wal_offset option set \<Rightarrow> wal_env \<Rightarrow> os \<Rightarrow> wal \<Rightarrow> seg list \<Rightarrow> nat \<Rightarrow> wal \<Rightarrow> append_error option \<Rightarrow> bool" where
  "rotated C env s' w' xs N w r \<longleftrightarrow>
     (\<exists>xs'. run_inv C env s' w' xs' N \<and> log_entries xs' = log_entries xs \<and> side w' = side w
        \<and> (r = None \<longrightarrow> seg_frames (last xs') = []))"

lemma rotated_failed:
  "run_inv C env s' w' xs N \<Longrightarrow> side w' = side w \<Longrightarrow> rotated C env s' w' xs N w (Some e)"
  by (auto simp: rotated_def)

lemma rotated_cong:
  "rotated C env s' w' xs N w r \<Longrightarrow> side w = side w0 \<Longrightarrow> log_entries xs = log_entries xs0 \<Longrightarrow> rotated C env s' w' xs0 N w0 r"
  by (simp add: rotated_def)

lemma rotated_step:
  assumes "rotation_step site (Some e) w = (w', x)" and "run_inv C env s w xs N"
  shows "\<exists>e'. x = Some e' \<and> rotated C env s w' xs N w x"
proof -
  note t = rotation_step_target [OF assms(1)]
  have "run_inv C env s w' xs N" using same_targetD [OF t(1)] assms(2) by simp
  moreover have "side w' = side w" using t(1) by (simp add: same_target_def)
  ultimately show ?thesis using t(2) rotated_failed by (cases x) auto
qed

lemma rotation_step_ok [simp]: "rotation_step site None w = (w, None)"
  by (simp add: rotation_step_def)

lemma install_fresh_run:
  assumes env: "env_ok env" and run: "run_inv C env s w xs N" and lim: "os_minted s < mint_limit"
    and c: "closed_file (en_crc env) (seg_uuid (last xs)) (seg_frames (last xs)) (os_files s ! wl_segment w)"
    and i: "install_fresh env s w = (s', w', r)"
  shows "rotated C env s' w' xs N w r"
proof -
  obtain s1 w1 res where cp: "create_partial env s w = (s1, w1, res)" by (metis prod_cases3)
  note C = create_partial_run [OF env run lim cp]
  have w1: "wl_segment w1 = wl_segment w" "side w1 = side w" using C(1) by (simp_all add: same_target_def)
  show ?thesis
  proof (cases res)
    case (Inl e)
    then show ?thesis using i C(2) w1 by (auto simp: install_fresh_def cp intro: rotated_failed)
  next
    case (Inr t)
    obtain j p v where t: "t = (j, p, v)" by (metis prod_cases3)
    have st: "p = partial_name env v" "staged env s1 xs j v" using C(4) [of j p v] Inr t by auto
    have c1: "closed_file (en_crc env) (seg_uuid (last xs)) (seg_frames (last xs)) (os_files s1 ! wl_segment w1)"
      using c C(3) w1 by simp
    note cp' = cp [unfolded Inr t st(1)]
    show ?thesis
    proof (rule sync_data_cases [of j s1])
      fix q e assume f: "os_sync_data j s1 = (s1\<lparr>os_script := q\<rparr>, Some e)"
      obtain w2 x where st: "rotation_step HeaderSync (Some e) w1 = (w2, x)" by fastforce
      have "\<exists>e'. x = Some e' \<and> rotated C env (s1\<lparr>os_script := q\<rparr>) w2 xs N w1 x"
        using rotated_step [OF st, of C env "s1\<lparr>os_script := q\<rparr>" xs N] C(2) by simp
      then show ?thesis using i w1(2) by (auto simp: install_fresh_def cp' f st intro: rotated_cong)
    next
      fix q
      define s2 where "s2 = s1\<lparr>os_files := (os_files s1)[j := \<lparr>fl_data = data_of s1 j, fl_images = [data_of s1 j]\<rparr>]\<rparr>"
      note S = staged_sync [OF C(2) st(2), folded s2_def]
      assume "os_sync_data j s1 = (s1\<lparr>os_files := (os_files s1)[j := \<lparr>fl_data = data_of s1 j, fl_images = [data_of s1 j]\<rparr>],
        os_script := q\<rparr>, None)"
      then have ok: "os_sync_data j s1 = (s2\<lparr>os_script := q\<rparr>, None)" by (simp add: s2_def)
      show ?thesis
      proof (rule rename_cases [of "partial_name env v" "seg_name env v" "s2\<lparr>os_script := q\<rparr>"])
        fix q' e assume f: "os_rename (partial_name env v) (seg_name env v) (s2\<lparr>os_script := q\<rparr>) = (s2\<lparr>os_script := q, os_script := q'\<rparr>, Some e)"
        obtain w2 x where st: "rotation_step Rename (Some e) w1 = (w2, x)" by fastforce
        have "\<exists>e'. x = Some e' \<and> rotated C env (s2\<lparr>os_script := q'\<rparr>) w2 xs N w1 x"
          using rotated_step [OF st, of C env "s2\<lparr>os_script := q'\<rparr>" xs N] S(1) by simp
        then show ?thesis using i w1(2) by (auto simp: install_fresh_def cp' ok f st intro: rotated_cong)
      next
        fix q' k
        define d where "d = hm_insert (seg_name env v) j (hm_remove (partial_name env v) (os_dir s2))"
        define w2 where "w2 = (forget_partial (partial_name env v) w1)\<lparr>wl_segment := j, wl_path := seg_name env v, wl_uuid := v,
          wl_dir_fsync := PendingRotation\<rparr>"
        let ?xs = "xs @ [(v, j, [])]"
        assume "map_of (os_dir (s2\<lparr>os_script := q\<rparr>)) (partial_name env v) = Some k"
          "os_rename (partial_name env v) (seg_name env v) (s2\<lparr>os_script := q\<rparr>)
             = ((put_dir (hm_insert (seg_name env v) k (hm_remove (partial_name env v) (os_dir (s2\<lparr>os_script := q\<rparr>)))) (s2\<lparr>os_script := q\<rparr>))\<lparr>os_script := q'\<rparr>, None)"
        moreover from this have "k = j" using S(2) by (simp add: staged_def)
        ultimately have ren: "os_rename (partial_name env v) (seg_name env v) (s2\<lparr>os_script := q\<rparr>) = ((put_dir d s2)\<lparr>os_script := q'\<rparr>, None)"
          by (simp add: d_def script_last)
        have c2: "closed_file (en_crc env) (seg_uuid (last xs)) (seg_frames (last xs)) (os_files s2 ! wl_segment w1)"
          using c1 S(4) by simp
        have r2: "run_inv C env (put_dir d s2) w2 ?xs N"
          unfolding d_def by (rule staged_install [OF env S(1,2,3) c2]) (simp_all add: w2_def)
        have w2c: "side w2 = side w" by (simp add: w2_def forget_partial_def w1)
        have en: "log_entries ?xs = log_entries xs" by (simp add: seg_entries.simps)
        have go: "install_fresh env s w = (case os_sync_dir ((put_dir d s2)\<lparr>os_script := q'\<rparr>) of
            (s, r) \<Rightarrow> (case rotation_step ParentFsync r w2 of
                 (w, Some e) \<Rightarrow> (s, w, Some e)
               | (w, None) \<Rightarrow> (s, w\<lparr>wl_dir_fsync := Fsync_Clean, wl_rotation := discharged (wl_rotation w)\<rparr>, None)))"
          by (simp add: install_fresh_def cp' ok ren Let_def w2_def)
        show ?thesis
        proof (rule sync_dir_cases [of "(put_dir d s2)\<lparr>os_script := q'\<rparr>"])
          fix q'' e assume f: "os_sync_dir ((put_dir d s2)\<lparr>os_script := q'\<rparr>) = ((put_dir d s2)\<lparr>os_script := q', os_script := q''\<rparr>, Some e)"
          obtain w3 x where st: "rotation_step ParentFsync (Some e) w2 = (w3, x)" by fastforce
          have "\<exists>e'. x = Some e' \<and> rotated C env ((put_dir d s2)\<lparr>os_script := q''\<rparr>) w3 ?xs N w2 x"
            using rotated_step [OF st, of C env "(put_dir d s2)\<lparr>os_script := q''\<rparr>" ?xs N] r2 by simp
          then show ?thesis using i w2c en by (auto simp: go f st simp del: log_entries_simps intro: rotated_cong)
        next
          fix q'' assume f: "os_sync_dir ((put_dir d s2)\<lparr>os_script := q'\<rparr>)
            = ((put_dir d s2)\<lparr>os_script := q', os_dir_images := [os_dir ((put_dir d s2)\<lparr>os_script := q'\<rparr>)], os_script := q''\<rparr>, None)"
          show ?thesis using i w2c en sync_dir_run(2) [OF r2, of "discharged (wl_rotation w2)" Fsync_Clean]
            by (auto simp: go f rotated_def script_last intro!: exI [of _ ?xs])
        qed
      qed
    qed
  qed
qed

lemma rotate_now_run:
  assumes env: "env_ok env" and run: "run_inv C env s w xs N" and lim: "os_minted s < mint_limit"
    and rot: "rotate_now env written s w = (s', w', r)"
  shows "rotated C env s' w' xs N w r"
proof -
  obtain s1 w1 o1 where d: "discharge_owed_rotation_fsync s w = (s1, w1, o1)" by (metis prod_cases3)
  note D = discharge_owed_run [OF run d]
  show ?thesis
  proof (cases o1)
    case (Some e)
    then show ?thesis using rot D by (auto simp: rotate_now_def d intro: rotated_failed)
  next
    case None
    show ?thesis
    proof (rule sync_data_cases [of "wl_segment w1" s1])
      fix q e assume f: "os_sync_data (wl_segment w1) s1 = (s1\<lparr>os_script := q\<rparr>, Some e)"
      obtain w2 x where st: "rotation_step CloseSync (Some e) w1 = (w2, x)" by fastforce
      have "\<exists>e'. x = Some e' \<and> rotated C env (s1\<lparr>os_script := q\<rparr>) w2 xs N w1 x"
        using rotated_step [OF st, of C env "s1\<lparr>os_script := q\<rparr>" xs N] D by simp
      then show ?thesis using rot D by (auto simp: rotate_now_def d None f st intro: rotated_cong)
    next
      fix q
      define s2 where "s2 = s1\<lparr>os_files := (os_files s1)[wl_segment w1 := \<lparr>fl_data = data_of s1 (wl_segment w1),
        fl_images = [data_of s1 (wl_segment w1)]\<rparr>]\<rparr>"
      define w2 where "w2 = w1\<lparr>wl_unflushed_bytes := 0\<rparr>"
      assume "os_sync_data (wl_segment w1) s1 = (s1\<lparr>os_files := (os_files s1)[wl_segment w1 :=
        \<lparr>fl_data = data_of s1 (wl_segment w1), fl_images = [data_of s1 (wl_segment w1)]\<rparr>], os_script := q\<rparr>, None)"
      then have ok: "os_sync_data (wl_segment w1) s1 = (s2\<lparr>os_script := q\<rparr>, None)" by (simp add: s2_def)
      obtain w3 o3 where e: "ensure_record written w2 = (w3, o3)" by fastforce
      have t: "same_target w1 w3" using ensure_record_target [OF e] by (simp add: same_target_def w2_def)
      have "run_inv C env s1 w1 xs N" using D by simp
      note S = sync_data_run [OF this, folded s2_def]
      have m2: "os_minted s2 = os_minted s" using D by (simp add: s2_def)
      have r3: "run_inv C env (s2\<lparr>os_script := q\<rparr>) w3 xs N" using S(1) same_targetD [OF t] by simp
      have w3: "side w3 = side w" "wl_segment w3 = wl_segment w1" using t D by (simp_all add: same_target_def)
      have go: "rotate_now env written s w
          = (case o3 of Some e \<Rightarrow> (s2\<lparr>os_script := q\<rparr>, w3, Some e) | None \<Rightarrow> install_fresh env (s2\<lparr>os_script := q\<rparr>) w3)"
        by (simp add: rotate_now_def d None ok w2_def [symmetric] e)
      show ?thesis
      proof (cases o3)
        case (Some e)
        then show ?thesis using rot go r3 w3 by (auto intro: rotated_failed)
      next
        case None
        then have "install_fresh env (s2\<lparr>os_script := q\<rparr>) w3 = (s', w', r)" using rot go by simp
        from install_fresh_run [OF env r3 _ _ this] S(2) w3 lim m2 show ?thesis by (auto intro: rotated_cong)
      qed
    qed
  qed
qed

lemma wal_rotate_run:
  assumes env: "env_ok env" and run: "run_inv C env s w xs N" and lim: "os_minted s < mint_limit"
    and rot: "wal_rotate env written kind s w = (s', w', r)"
  obtains xs' where "run_inv C env s' w' xs' N" "log_entries xs' = log_entries xs" "side w' = side w"
proof (cases "terminal (wl_rotation w)")
  case (Some fault)
  then show ?thesis using rot run that by (auto simp: wal_rotate_def)
next
  case None
  obtain s1 w1 o1 where d: "discharge_owed_rotation_fsync s w = (s1, w1, o1)" by (metis prod_cases3)
  have D: "run_inv C env s1 w1 xs N" "side w1 = side w" "os_minted s1 < mint_limit" using lim discharge_owed_run [OF run d] by simp_all
  have now: thesis if "run_inv C env s2 w1 xs N" "os_minted s2 < mint_limit" "rotate_now env written s2 w1 = (s', w', r)" for s2
    using rotate_now_run [OF env that] \<open>\<And>xs'. _ \<Longrightarrow> _ \<Longrightarrow> _ \<Longrightarrow> thesis\<close> D(2) by (auto simp: rotated_def)
  show ?thesis
  proof (cases "o1 = None \<and> kind = Discretionary")
    case True
    show ?thesis
    proof (rule stat_cases [of "wl_segment w1" s1])
      fix q assume "os_stat (wl_segment w1) s1 = (s1\<lparr>os_script := q\<rparr>, Inr (length (data_of s1 (wl_segment w1))))"
      then show ?thesis using rot D True None that now [of "s1\<lparr>os_script := q\<rparr>"]
        by (auto simp: wal_rotate_def d split: if_splits)
    next
      fix q e assume "os_stat (wl_segment w1) s1 = (s1\<lparr>os_script := q\<rparr>, Inl e)"
      then show ?thesis using rot D True None that by (auto simp: wal_rotate_def d)
    qed
  next
    case False
    then show ?thesis using rot D None that now [of s1] by (cases o1) (auto simp: wal_rotate_def d)
  qed
qed

section \<open>Append\<close>

lemma seg_entries_snoc:
  "seg_entries u pos (fr @ [(k, p)]) = seg_entries u pos fr
     @ [(Wal_Offset u (pos + length (frames_bytes crc fr) + (frame_header_len + length p)), k, p)]"
  by (induction fr arbitrary: pos) (auto simp: length_frame_bytes add.assoc)

definition target :: "wal_env \<Rightarrow> os \<Rightarrow> wal \<Rightarrow> seg list \<Rightarrow> bool" where
  "target env s w xs \<longleftrightarrow>
     wl_segment w = seg_inode (last xs) \<and> wl_uuid w = seg_uuid (last xs) \<and> wl_path w = seg_name env (seg_uuid (last xs))
     \<and> (wl_dir_fsync w = Fsync_Clean \<longrightarrow> (\<forall>d \<in> set (os_dir_images s). dir_shows env d xs))"

lemma running_target:
  "running env s w (ys @ [(u, i, fr)]) \<longleftrightarrow>
     target env s w (ys @ [(u, i, fr)]) \<and> data_of s i = seg_bytes (en_crc env) u fr"
  by (auto simp: running_def target_def)

lemma target_put [simp]: "target env (put_file i data s) w xs = target env s w xs"
  by (simp add: target_def put_file_def)

lemma target_script [simp]: "target env (s\<lparr>os_script := q\<rparr>) w xs = target env s w xs"
  by (simp add: target_def)

lemma target_frames: "target env s w (ys @ [(u, i, fr)]) = target env s w (ys @ [(u, i, fr')])"
  by (simp add: target_def dir_shows_frames [of env _ ys u i fr fr'])

lemma data_put: "i < length (os_files s) \<Longrightarrow> data_of (put_file i data s) i = data"
  by (simp add: put_file_def data_of_def)

text \<open>The newest file gets whole frames and a torn tail: the log holds the whole frames.\<close>

lemma put_newest_run:
  assumes inv: "log_inv C env s (ys @ [(u, i, fr)]) N" and t: "target env s w (ys @ [(u, i, fr)])"
    and gs: "\<forall>f \<in> set gs. frame_ok f" and P: "torn (en_crc env) P"
  defines "s' \<equiv> put_file i (seg_bytes (en_crc env) u (fr @ gs) @ P) s"
  shows "log_inv C env s' (ys @ [(u, i, fr @ gs)]) N" and "target env s' w (ys @ [(u, i, fr @ gs)])"
    and "data_of s' i = seg_bytes (en_crc env) u (fr @ gs) @ P"
    and "P = [] \<Longrightarrow> run_inv C env s' w (ys @ [(u, i, fr @ gs)]) N"
proof -
  show l: "log_inv C env s' (ys @ [(u, i, fr @ gs)]) N" unfolding s'_def by (rule put_newest_inv [OF inv gs P])
  show t': "target env s' w (ys @ [(u, i, fr @ gs)])" using t target_frames [of env s w ys u i fr] by (simp add: s'_def)
  show d: "data_of s' i = seg_bytes (en_crc env) u (fr @ gs) @ P"
    using newest_file(2) [OF inv] by (simp add: s'_def data_put)
  show "run_inv C env s' w (ys @ [(u, i, fr @ gs)]) N" if "P = []"
    using l t' d that by (simp add: run_inv_def running_target)
qed

lemma truncate_run:
  assumes inv: "log_inv C env s (ys @ [(u, i, fr)]) N" and t: "target env s w (ys @ [(u, i, fr)])"
    and d: "data_of s i = seg_bytes (en_crc env) u fr @ P" and n: "n = length (seg_bytes (en_crc env) u fr)"
  shows "\<exists>s'. os_set_len i n s = (s', None) \<and> run_inv C env s' w (ys @ [(u, i, fr)]) N"
proof -
  have "os_set_len i n s = (put_file i (seg_bytes (en_crc env) u (fr @ []) @ []) s, None)"
    using log_invD(1) [OF inv] by (simp add: os_set_len_def d n)
  then show ?thesis using put_newest_run(4) [OF inv t, of "[]" "[]"] by simp
qed

text \<open>The two writes of \<open>write_frame\<close>, each cut anywhere.\<close>

lemma write_frame_run:
  assumes run: "run_inv C env s w (ys @ [(u, i, fr)]) N" and p: "length p \<le> max_frame_bytes"
  obtains (ok) s' where "write_frame (en_crc env) (os_write i) s k p = Some (s', None)"
      "run_inv C env s' w (ys @ [(u, i, fr @ [(k, p)])]) N"
    | (failed) s' e P where "write_frame (en_crc env) (os_write i) s k p = Some (s', Some e)"
      "log_inv C env s' (ys @ [(u, i, fr)]) N" "target env s' w (ys @ [(u, i, fr)])"
      "data_of s' i = seg_bytes (en_crc env) u fr @ P"
proof -
  let ?crc = "en_crc env" and ?xs = "ys @ [(u, i, fr)]" and ?h = "frame_header (en_crc env) k p"
  have inv: "log_inv C env s ?xs N" and t: "target env s w ?xs" and d: "data_of s i = seg_bytes ?crc u fr"
    using run by (simp_all add: run_inv_def running_target)
  have fb: "frame_bytes ?crc (k, p) = ?h @ p" by (simp add: frame_bytes_def)
  have fo: "frame_ok (k, p)" using p by (simp add: frame_ok_def)
  have tn: "torn ?crc (take n (?h @ p))" if "n < length (?h @ p)" for n
    using torn_frame [OF fo, of n ?crc] that by (simp add: fb)
  have cut: "log_inv C env (put_file i (seg_bytes ?crc u fr @ P) s0) ?xs N" "target env (put_file i (seg_bytes ?crc u fr @ P) s0) w ?xs"
    "data_of (put_file i (seg_bytes ?crc u fr @ P) s0) i = seg_bytes ?crc u fr @ P"
    if "torn ?crc P" "log_inv C env s0 ?xs N" "target env s0 w ?xs" for P s0
    using put_newest_run [OF that(2,3) _ that(1), of "[]"] by simp_all
  have whole: "run_inv C env (put_file i (seg_bytes ?crc u fr @ ?h @ p) s0) w (ys @ [(u, i, fr @ [(k, p)])]) N"
    if "log_inv C env s0 ?xs N" "target env s0 w ?xs" for s0
    using put_newest_run(4) [OF that, of "[(k, p)]" "[]"] fo by (simp add: seg_bytes_def fb)
  have h: "?h \<noteq> []" using length_frame_header [of ?crc k p]
    by (auto simp: frame_header_len_def simp del: length_frame_header)
  note wf = write_frame_def [of ?crc "os_write i" s k p]
  show thesis
  proof (rule write_cases [OF h, of i s])
    fix q n e assume w: "n < length ?h" "os_write i s ?h = ((put_file i (data_of s i @ take n ?h) s)\<lparr>os_script := q\<rparr>, Some e)"
    have "torn ?crc (take n ?h)" using tn [of n] w(1) by simp
    note c = cut [OF this inv t]
    show thesis using w(2) p c max_frame_fits(1) [OF p]
      by (intro failed [of "(put_file i (data_of s i @ take n ?h) s)\<lparr>os_script := q\<rparr>" e "take n ?h"]) (simp_all add: wf d)
  next
    fix q assume w: "os_write i s ?h = ((put_file i (data_of s i @ ?h) s)\<lparr>os_script := q\<rparr>, None)"
    define s1 where "s1 = put_file i (seg_bytes ?crc u fr @ ?h) s"
    have w1: "os_write i s ?h = (s1\<lparr>os_script := q\<rparr>, None)" using w by (simp add: s1_def d)
    show thesis
    proof (cases "p = []")
      case True
      then have "os_write i (s1\<lparr>os_script := q\<rparr>) p = (s1\<lparr>os_script := q\<rparr>, None)" by (simp add: os_write_def)
      then show thesis using whole [OF inv t] True w1 max_frame_fits(1) [OF p]
        by (intro ok [of "s1\<lparr>os_script := q\<rparr>"]) (simp_all add: write_frame_def s1_def)
    next
      case False
      have "torn ?crc ?h" using tn [of "length ?h"] False by simp
      note c = cut [OF this inv t, folded s1_def]
      show thesis
      proof (rule write_cases [OF False, of i "s1\<lparr>os_script := q\<rparr>"])
        fix q' n e assume n: "n < length p" and w: "os_write i (s1\<lparr>os_script := q\<rparr>) p
            = ((put_file i (data_of (s1\<lparr>os_script := q\<rparr>) i @ take n p) (s1\<lparr>os_script := q\<rparr>))\<lparr>os_script := q'\<rparr>, Some e)"
        have "torn ?crc (?h @ take n p)" using tn [of "length ?h + n"] n by simp
        note c' = cut [OF this c(1,2)]
        show thesis using w w1 c(3) c' max_frame_fits(1) [OF p]
          by (intro failed [of "(put_file i (seg_bytes ?crc u fr @ ?h @ take n p) s1)\<lparr>os_script := q'\<rparr>" e "?h @ take n p"])
            (simp_all add: wf script_last)
      next
        fix q' assume w: "os_write i (s1\<lparr>os_script := q\<rparr>) p
            = ((put_file i (data_of (s1\<lparr>os_script := q\<rparr>) i @ p) (s1\<lparr>os_script := q\<rparr>))\<lparr>os_script := q'\<rparr>, None)"
        show thesis using w w1 c(3) whole [OF c(1,2)] max_frame_fits(1) [OF p]
          by (intro ok [of "(put_file i (seg_bytes ?crc u fr @ ?h @ p) s1)\<lparr>os_script := q'\<rparr>"]) (simp_all add: wf script_last)
      qed
    qed
  qed
qed

definition appended :: "wal_offset option set \<Rightarrow> wal_env \<Rightarrow> frame_kind \<Rightarrow> bytes \<Rightarrow> seg list \<Rightarrow> nat \<Rightarrow> wal \<Rightarrow> os \<times> wal \<times> (append_error + wal_offset) \<Rightarrow> bool" where
  "appended C env k p xs N w res \<longleftrightarrow>
     (case res of (s', w', r) \<Rightarrow>
        side w' = side w \<and> (\<exists>xs'. run_inv C env s' w' xs' N
          \<and> log_entries xs' = log_entries xs @ (case r of Inl _ \<Rightarrow> [] | Inr off \<Rightarrow> [(off, k, p)])))"

lemma append_frame_run:
  assumes run: "run_inv C env s w xs N" and env: "env_ok env" and p: "length p \<le> max_frame_bytes"
    and n: "n = length (data_of s (wl_segment w))"
  obtains res where "append_frame env k p n s w = Some res" "appended C env k p xs N w res"
proof -
  obtain ys u i fr where l: "xs = ys @ [(u, i, fr)]" "wl_segment w = i" "wl_uuid w = u"
    "data_of s i = seg_bytes (en_crc env) u fr" "\<exists>c < os_minted s. u = en_uuid env c" by (rule run_last [OF run])
  have uo: "uuid_ok u" using l(5) env by (auto simp: env_ok_def)
  note run' = run [unfolded l(1)]
  show thesis
  proof (rule write_frame_run [OF run' p, of k])
    fix s' assume w: "write_frame (en_crc env) (os_write i) s k p = Some (s', None)"
      and r: "run_inv C env s' w (ys @ [(u, i, fr @ [(k, p)])]) N"
    obtain w' where a: "append_frame env k p n s w = Some (s', w', Inr (Wal_Offset u (n + (frame_header_len + length p))))"
      and t: "same_target w w'"
      by (simp add: append_frame_def l(2,3) w Let_def same_target_def)
    have "log_entries (ys @ [(u, i, fr @ [(k, p)])]) = log_entries xs @ [(Wal_Offset u (n + (frame_header_len + length p)), k, p)]"
      using uo by (simp add: seg_entries_snoc [where crc = "en_crc env"] l n seg_bytes_def)
    moreover have "run_inv C env s' w' (ys @ [(u, i, fr @ [(k, p)])]) N" using same_targetD [OF t] r by simp
    ultimately show thesis using t by (intro that [OF a]) (auto simp: appended_def same_target_def simp del: log_entries_simps)
  next
    fix s' e P assume w: "write_frame (en_crc env) (os_write i) s k p = Some (s', Some e)"
      and f: "log_inv C env s' (ys @ [(u, i, fr)]) N" "target env s' w (ys @ [(u, i, fr)])"
        "data_of s' i = seg_bytes (en_crc env) u fr @ P"
    obtain s2 where s2: "os_set_len i n s' = (s2, None)" "run_inv C env s2 w xs N"
      using truncate_run [OF f, of n] by (auto simp: l n)
    show thesis using that [of "(s2, w, Inl (Append_Io ''write_frame(current_segment)'' e))"] s2
      by (auto simp: append_frame_def l(2) w appended_def intro!: exI [of _ xs])
  qed
qed

lemma wal_append_run:
  assumes env: "env_ok env" and run: "run_inv C env s w xs N" and lim: "os_minted s < mint_limit"
  obtains res where "wal_append env now written k p s w = Some res" "appended C env k p xs N w res"
proof (cases "terminal (wl_rotation w) = None \<and> length p \<le> max_frame_bytes")
  case False
  then obtain e where "wal_append env now written k p s w = Some (s, w, Inl e)"
    by (cases "terminal (wl_rotation w)") (auto simp: wal_append_def)
  then show ?thesis using that run by (auto simp: appended_def)
next
  case True
  let ?go = "append_frame env k p"
  show ?thesis
  proof (rule stat_cases [of "wl_segment w" s])
    fix q e assume "os_stat (wl_segment w) s = (s\<lparr>os_script := q\<rparr>, Inl e)"
    then have "wal_append env now written k p s w = Some (s\<lparr>os_script := q\<rparr>, w, Inl (Append_Io ''stat(current_segment)'' e))"
      using True by (simp add: wal_append_def)
    then show ?thesis using that run by (auto simp: appended_def)
  next
    fix q
    define s0 where "s0 = s\<lparr>os_script := q\<rparr>"
    define n where "n = length (data_of s (wl_segment w))"
    have run0: "run_inv C env s0 w xs N" and lim0: "os_minted s0 < mint_limit" using run lim by (simp_all add: s0_def)
    assume "os_stat (wl_segment w) s = (s\<lparr>os_script := q\<rparr>, Inr (length (data_of s (wl_segment w))))"
    then have go: "wal_append env now written k p s w =
        (if rotation_due env now w n (frame_header_len + length p)
         then (case rotate_now env written s0 w of
                 (s, w, Some e) \<Rightarrow> Some (s, w, Inl e) | (s, w, None) \<Rightarrow> ?go segment_header_len s w)
         else ?go n s0 w)"
      using True by (simp add: wal_append_def s0_def n_def)
    show ?thesis
    proof (cases "rotation_due env now w n (frame_header_len + length p)")
      case False
      have "n = length (data_of s0 (wl_segment w))" by (simp add: n_def s0_def data_of_def)
      from append_frame_run [OF run0 env _ this, of p k] True obtain res where
        "?go n s0 w = Some res" "appended C env k p xs N w res" by blast
      then show ?thesis using that go False by simp
    next
      case due: True
      obtain s1 w1 r where rot: "rotate_now env written s0 w = (s1, w1, r)" by (metis prod_cases3)
      obtain xs1 where x: "run_inv C env s1 w1 xs1 N" "log_entries xs1 = log_entries xs"
        "r = None \<Longrightarrow> seg_frames (last xs1) = []" "side w1 = side w"
        using rotate_now_run [OF env run0 lim0 rot] by (auto simp: rotated_def)
      show ?thesis
      proof (cases r)
        case (Some e)
        then show ?thesis using that [of "(s1, w1, Inl e)"] go due rot x by (auto simp: appended_def)
      next
        case None
        have "segment_header_len = length (data_of s1 (wl_segment w1))"
        proof (rule run_last [OF x(1)])
          fix ys u i fr assume l: "xs1 = ys @ [(u, i, fr)]" "wl_segment w1 = i" "data_of s1 i = seg_bytes (en_crc env) u fr"
            "\<exists>c < os_minted s1. u = en_uuid env c"
          then have "uuid_ok u" "fr = []" using env x(3) [OF None] by (auto simp: env_ok_def)
          then show ?thesis by (simp add: l seg_bytes_def)
        qed
        from append_frame_run [OF x(1) env _ this, of p k] True obtain res where
          "?go segment_header_len s1 w1 = Some res" "appended C env k p xs1 N w1 res" by blast
        then show ?thesis using that go due rot None x(2,4) by (auto simp: appended_def)
      qed
    qed
  qed
qed

section \<open>Sync\<close>

lemma acknowledge_run:
  assumes run: "run_inv C env s w xs N" and d: "wl_dir_fsync w = Fsync_Clean"
    and c: "closed_file (en_crc env) (seg_uuid (last xs)) (seg_frames (last xs)) (os_files s ! wl_segment w)"
  shows "run_inv C env s w xs (length (log_frames xs))"
proof -
  obtain ys u i fr where l: "xs = ys @ [(u, i, fr)]" "wl_segment w = i" by (rule run_last [OF run])
  have "log_inv C env s (ys @ [(u, i, fr)]) N" "\<forall>d \<in> set (os_dir_images s). dir_shows env d (ys @ [(u, i, fr)])"
    using run d by (simp_all add: run_inv_def l running_def)
  from acknowledge_inv [OF this(1) _ this(2)] c run show ?thesis by (simp add: run_inv_def l)
qed

lemma discharge_dir_run:
  assumes run: "run_inv C env s w xs N" and d: "discharge_dir_fsync s w = (s', w', r)"
  shows "run_inv C env s' w' xs N" and "os_files s' = os_files s" and "wl_segment w' = wl_segment w"
    and "wl_uuid w' = wl_uuid w" and "r = None \<Longrightarrow> wl_dir_fsync w' = Fsync_Clean" and "side w' = side w"
proof -
  have "run_inv C env s' w' xs N \<and> side w' = side w \<and> os_files s' = os_files s \<and> wl_segment w' = wl_segment w \<and> wl_uuid w' = wl_uuid w
      \<and> (r = None \<longrightarrow> wl_dir_fsync w' = Fsync_Clean)"
  proof (cases "wl_dir_fsync w = Fsync_Clean")
    case True
    then show ?thesis using d run by (auto simp: discharge_dir_fsync_def)
  next
    case False
    show ?thesis
    proof (rule sync_dir_cases [of s])
      fix q assume "os_sync_dir s = (s\<lparr>os_dir_images := [os_dir s], os_script := q\<rparr>, None)"
      then show ?thesis using d sync_dir_run(2,3) [OF run] False
        by (auto simp: discharge_dir_fsync_def discharge_open_fsync_def discharge_rotation_fsync_def split: dir_fsync.splits)
    next
      fix q e assume f: "os_sync_dir s = (s\<lparr>os_script := q\<rparr>, Some e)"
      obtain v x where v: "rotation_charge ParentFsync e w = (v, x)" by fastforce
      have "same_target w v" using rotation_charge_target [of w ParentFsync e] v by simp
      then show ?thesis using d run same_targetD [OF \<open>same_target w v\<close>] False
        by (auto simp: discharge_dir_fsync_def discharge_open_fsync_def discharge_rotation_fsync_def f v same_target_def
            split: dir_fsync.splits)
    qed
  qed
  then show "run_inv C env s' w' xs N" "os_files s' = os_files s" "wl_segment w' = wl_segment w"
    "wl_uuid w' = wl_uuid w" "r = None \<Longrightarrow> wl_dir_fsync w' = Fsync_Clean" "side w' = side w" by simp_all
qed

lemma wal_sync_run:
  assumes run: "run_inv C env s w xs N" and sy: "wal_sync s w = (s', w', r)"
  shows "side w' = side w \<and> (case r of
      Inl _ \<Rightarrow> run_inv C env s' w' xs N
    | Inr off \<Rightarrow> run_inv C env s' w' xs (length (log_frames xs))
        \<and> off = Wal_Offset (seg_uuid (last xs)) (length (seg_bytes (en_crc env) (seg_uuid (last xs)) (seg_frames (last xs)))))"
proof (cases "terminal (wl_rotation w) \<noteq> None \<and> wl_dir_fsync w = PendingRotation")
  case True
  then show ?thesis using sy run by (auto simp: wal_sync_def)
next
  case False
  obtain ys u i fr where l: "xs = ys @ [(u, i, fr)]" "wl_segment w = i" "wl_uuid w = u"
    "data_of s i = seg_bytes (en_crc env) u fr" "i < length (os_files s)" by (rule run_last [OF run])
  have un: "wal_sync s w = (case os_sync_data (wl_segment w) s of
             (s, Some e) \<Rightarrow> (s, w, Inl (Sync_Io ''sync(current_segment)'' e))
           | (s, None) \<Rightarrow>
               (case discharge_dir_fsync s w of
                  (s, w, Some e) \<Rightarrow> (s, w, Inl e)
                | (s, w, None) \<Rightarrow>
                    (case os_stat (wl_segment w) s of
                       (s, Inl e) \<Rightarrow> (s, w, Inl (Sync_Io ''stat(current_segment)'' e))
                     | (s, Inr byte) \<Rightarrow>
                         (s, w\<lparr>wl_syncs_total := wl_syncs_total w + 1, wl_unflushed_bytes := 0\<rparr>,
                          Inr (Wal_Offset (wl_uuid w) byte)))))"
    using False unfolding wal_sync_def by (cases "terminal (wl_rotation w)"; cases "wl_dir_fsync w") simp_all
  show ?thesis
  proof (rule sync_data_cases [of "wl_segment w" s])
    fix q e assume "os_sync_data (wl_segment w) s = (s\<lparr>os_script := q\<rparr>, Some e)"
    then show ?thesis using sy run by (auto simp: un)
  next
    fix q
    define s1 where "s1 = s\<lparr>os_files := (os_files s)[wl_segment w := \<lparr>fl_data = data_of s (wl_segment w),
      fl_images = [data_of s (wl_segment w)]\<rparr>]\<rparr>"
    assume "os_sync_data (wl_segment w) s = (s\<lparr>os_files := (os_files s)[wl_segment w := \<lparr>fl_data = data_of s (wl_segment w),
      fl_images = [data_of s (wl_segment w)]\<rparr>], os_script := q\<rparr>, None)"
    then have ok: "os_sync_data (wl_segment w) s = (s1\<lparr>os_script := q\<rparr>, None)" by (simp add: s1_def)
    note S = sync_data_run [OF run, folded s1_def]
    obtain s2 w2 x where d: "discharge_dir_fsync (s1\<lparr>os_script := q\<rparr>) w = (s2, w2, x)" by (metis prod_cases3)
    have r1: "run_inv C env (s1\<lparr>os_script := q\<rparr>) w xs N" using S(1) by simp
    note D = discharge_dir_run [OF r1 d]
    show ?thesis
    proof (cases x)
      case (Some e)
      then show ?thesis using sy D(1,6) by (auto simp: un ok d)
    next
      case None
      have c: "closed_file (en_crc env) (seg_uuid (last xs)) (seg_frames (last xs)) (os_files s2 ! wl_segment w2)"
        using S(2) D(2,3) by simp
      note A = acknowledge_run [OF D(1) D(5) [OF None] c]
      have d2: "data_of s2 (wl_segment w2) = seg_bytes (en_crc env) u fr"
        using c by (simp add: closed_file_def data_of_def l(1))
      have t: "same_target w2 (w2\<lparr>wl_syncs_total := a, wl_unflushed_bytes := b\<rparr>)" for a b
        by (simp add: same_target_def)
      show ?thesis
      proof (rule stat_cases [of "wl_segment w2" s2])
        fix q' e assume "os_stat (wl_segment w2) s2 = (s2\<lparr>os_script := q'\<rparr>, Inl e)"
        then show ?thesis using sy D(1,6) None by (auto simp: un ok d)
      next
        fix q' assume "os_stat (wl_segment w2) s2 = (s2\<lparr>os_script := q'\<rparr>, Inr (length (data_of s2 (wl_segment w2))))"
        then have "s' = s2\<lparr>os_script := q'\<rparr>" "r = Inr (Wal_Offset u (length (seg_bytes (en_crc env) u fr)))"
          "same_target w2 w'" using sy None D(4) t by (auto simp: un ok d d2 l(3))
        then show ?thesis using A D(6) same_targetD [of w2 w'] by (simp add: l(1) same_target_def)
      qed
    qed
  qed
qed

section \<open>Order of the log\<close>

lemma seg_entries_bound:
  "e \<in> set (seg_entries u pos fr) \<Longrightarrow> \<exists>b. fst e = Wal_Offset u b \<and> pos < b \<and> b \<le> pos + length (frames_bytes crc fr)"
proof (induction u pos fr rule: seg_entries.induct)
  case (2 u pos k p fr)
  show ?case
  proof (cases "e \<in> set (seg_entries u (pos + (frame_header_len + length p)) fr)")
    case True
    from "2.IH" [OF this] show ?thesis by (auto simp: length_frame_bytes)
  next
    case False
    then show ?thesis using "2.prems" by (simp add: length_frame_bytes frame_header_len_def)
  qed
qed simp

lemma seg_entries_sorted: "sorted_wrt (<) (map fst (seg_entries u pos fr))"
proof (induction u pos fr rule: seg_entries.induct)
  case (2 u pos k p fr)
  have "Wal_Offset u (pos + (frame_header_len + length p)) < fst e"
    if "e \<in> set (seg_entries u (pos + (frame_header_len + length p)) fr)" for e
    using seg_entries_bound [OF that, of undefined] by (auto simp: less_wal_offset_def)
  then show ?case using 2 by simp
qed simp

lemma log_entries_uuid: "e \<in> set (log_entries xs) \<Longrightarrow> \<exists>x \<in> set xs. wo_segment (fst e) = seg_uuid x"
proof (induction xs)
  case (Cons x xs)
  then show ?case using seg_entries_bound [of e "seg_uuid x" segment_header_len "seg_frames x" undefined] by auto
qed simp

lemma log_entries_sorted:
  assumes "sorted_wrt (<) (map seg_uuid xs)"
  shows "sorted_wrt (<) (map fst (log_entries xs))"
  using assms
proof (induction xs rule: rev_induct)
  case (snoc x xs)
  have "fst a < fst b" if ab: "a \<in> set (log_entries xs)" "b \<in> set (seg_entries (seg_uuid x) segment_header_len (seg_frames x))" for a b
  proof -
    obtain y where "y \<in> set xs" "wo_segment (fst a) = seg_uuid y" using log_entries_uuid [OF ab(1)] by blast
    moreover obtain c where "fst b = Wal_Offset (seg_uuid x) c" using seg_entries_bound [OF ab(2), of undefined] by blast
    ultimately show ?thesis using snoc.prems by (simp add: less_wal_offset_def sorted_wrt_append)
  qed
  then show ?case using snoc seg_entries_sorted by (simp add: sorted_wrt_append)
qed simp

lemma log_entries_below:
  assumes "sorted_wrt (<) (map seg_uuid (ys @ [(u, i, fr)]))" and "uuid_ok u" and "e \<in> set (log_entries (ys @ [(u, i, fr)]))"
  shows "fst e \<le> Wal_Offset u (length (seg_bytes crc u fr))"
proof (cases "e \<in> set (log_entries ys)")
  case True
  obtain y where "y \<in> set ys" "wo_segment (fst e) = seg_uuid y" using log_entries_uuid [OF True] by blast
  then show ?thesis using assms(1) by (simp add: less_eq_wal_offset_def sorted_wrt_append)
next
  case False
  then have "e \<in> set (seg_entries u segment_header_len fr)" using assms(3) by simp
  from seg_entries_bound [OF this, of crc] show ?thesis using assms(2) by (auto simp: less_eq_wal_offset_def seg_bytes_def)
qed

lemma length_seg_entries: "length (seg_entries u pos fr) = length fr"
  by (induction u pos fr rule: seg_entries.induct) simp_all

lemma length_log_entries: "length (log_entries xs) = length (log_frames xs)"
  by (induction xs) (simp_all add: length_seg_entries)

lemma run_sorted: "run_inv C env s w xs N \<Longrightarrow> sorted_wrt (<) (map fst (log_entries xs))"
  by (rule log_entries_sorted) (simp add: run_inv_def log_inv_def ids_ok_def)

end
