(* ===== verification/Wal_Sidecar.thy ===== *)
theory Wal_Sidecar
  imports Wal_Steps
begin

text \<open>
  The \<open>CHECKPOINT\<close> sidecar is an atomic register: a checkpoint writes a temporary file, syncs it and
  renames it over the old one, so that whatever call fails and whenever power is lost, the root shows
  the old value or the new one, and only the new one once \<open>checkpoint\<close> has returned.
\<close>

lemma put_dir_sidecars':
  assumes "log_inv C env s xs N" and ck: "map_of d sidecar_name = map_of (os_dir s) sidecar_name"
    and tmp: "\<And>i. is_sidecar s i \<Longrightarrow> map_of d tmp_name \<noteq> Some i"
  shows "sidecars_ok (put_dir d s) C"
proof -
  note I = log_invD [OF assms(1)]
  have cur: "os_dir s \<in> set (os_dir_images s)" using I(5) by (simp add: dirs_ok_def)
  have old: "\<exists>v \<in> C. sidecar_value s d' v" "\<forall>i. map_of d' sidecar_name = Some i \<longrightarrow> map_of d' tmp_name \<noteq> Some i"
    if "d' \<in> set (os_dir_images s)" for d' using I(6) that by (auto simp: sidecars_ok_def)
  have val: "sidecar_value (put_dir d s) d' v = sidecar_value s d' v" for d' v by (rule sidecar_value_cong) simp_all
  have new: "sidecar_value s d v = sidecar_value s (os_dir s) v" for v by (rule sidecar_value_cong) (simp_all add: ck)
  have tmp': "map_of d tmp_name \<noteq> Some i" if "d' \<in> set (os_dir_images s)" "map_of d' sidecar_name = Some i" for d' i
    using that by (intro tmp) (auto simp: is_sidecar_def)
  have "map_of d tmp_name \<noteq> Some i" if "map_of d sidecar_name = Some i" for i using tmp' [OF cur] that ck by simp
  then show ?thesis unfolding sidecars_ok_def val
    using old old(1) [OF cur] tmp' by (auto simp: new)
qed

lemma put_dir_tmp_run:
  assumes run: "run_inv C env s w xs N" and d: "dir_shows env d xs" "sidecar_apart s xs d"
    and ck: "map_of d sidecar_name = map_of (os_dir s) sidecar_name"
    and tmp: "\<And>i. is_sidecar s i \<Longrightarrow> map_of d tmp_name \<noteq> Some i"
  shows "run_inv C env (put_dir d s) w xs N"
proof -
  have l: "log_inv C env s xs N" and r: "running env s w xs" using run by (simp_all add: run_inv_def)
  from put_dir_inv [OF l d put_dir_sidecars' [OF l ck tmp]] put_dir_running [OF r d(1)]
  show ?thesis by (simp add: run_inv_def)
qed

text \<open>The temporary file: reachable under its own name only, and under no segment's.\<close>

definition scratch_file :: "os \<Rightarrow> seg list \<Rightarrow> nat \<Rightarrow> bool" where
  "scratch_file s xs i \<longleftrightarrow>
     i < length (os_files s) \<and> map_of (os_dir s) tmp_name = Some i \<and> \<not> is_sidecar s i \<and> i \<notin> seg_inode ` set xs"

lemma names_differ [simp]: "sidecar_name \<noteq> tmp_name" "tmp_name \<noteq> sidecar_name"
  by (simp_all add: sidecar_name_def tmp_name_def)

lemma scratch_put:
  assumes "run_inv C env s w xs N" and "scratch_file s xs i"
  shows "run_inv C env (s\<lparr>os_files := (os_files s)[i := f]\<rparr>) w xs N"
    and "scratch_file (s\<lparr>os_files := (os_files s)[i := f]\<rparr>) xs i"
  using assms other_file_run [OF assms(1), of i f] by (auto simp: scratch_file_def is_sidecar_def)

lemma scratch_script [simp]: "scratch_file (s\<lparr>os_script := q\<rparr>) xs i = scratch_file s xs i"
  by (simp add: scratch_file_def is_sidecar_def)

lemma create_tmp_run:
  assumes run: "run_inv C env s w xs N"
  obtains (ok) s' i where "os_create tmp_name s = (s', Inr i)" "run_inv C env s' w xs N" "scratch_file s' xs i" "data_of s' i = []"
    | (failed) s' e where "os_create tmp_name s = (s', Inl e)" "run_inv C env s' w xs N"
proof (cases "map_of (os_dir s) tmp_name")
  case (Some i)
  have l: "log_inv C env s xs N" using run by (simp add: run_inv_def)
  have sc: "scratch_file s xs i"
    using run_dir(2) [OF run] Some is_sidecarD(3) [OF l, of i] by (auto simp: scratch_file_def sidecar_apart_def)
  show ?thesis
  proof (rule next_io_cases [of s])
    fix q assume "next_io s = (s\<lparr>os_script := q\<rparr>, None)"
    then have "os_create tmp_name s = ((put_file i [] s)\<lparr>os_script := q\<rparr>, Inr i)"
      using Some by (simp add: os_create_def script_last)
    moreover have "data_of (put_file i [] s) i = []" using sc by (simp add: data_put scratch_file_def)
    then have "data_of ((put_file i [] s)\<lparr>os_script := q\<rparr>) i = []" by (simp add: data_of_def)
    moreover note scratch_put [OF run sc, folded put_file_eq]
    ultimately show ?thesis by (intro ok [of "(put_file i [] s)\<lparr>os_script := q\<rparr>" i]) (simp_all add: put_file_eq)
  next
    fix q d n assume "next_io s = (s\<lparr>os_script := q\<rparr>, Some (d, n))"
    then show ?thesis using Some run by (intro failed [of "s\<lparr>os_script := q\<rparr>"]) (simp_all add: os_create_def)
  qed
next
  case None
  show ?thesis
  proof (rule create_new_cases [of tmp_name s])
    fix q e assume "os_create_new tmp_name s = (s\<lparr>os_script := q\<rparr>, Inl e)"
    then show ?thesis using None run by (intro failed [of "s\<lparr>os_script := q\<rparr>"]) (simp_all add: os_create_def)
  next
    fix q
    let ?n = "length (os_files s)"
    let ?d = "hm_insert tmp_name ?n (os_dir s)"
    define s0 where "s0 = s\<lparr>os_files := os_files s @ [\<lparr>fl_data = [], fl_images = [[]]\<rparr>]\<rparr>"
    assume "os_create_new tmp_name s = ((put_dir ?d (s\<lparr>os_files := os_files s @ [\<lparr>fl_data = [], fl_images = [[]]\<rparr>]\<rparr>))\<lparr>os_script := q\<rparr>, Inr ?n)"
    then have c: "os_create tmp_name s = ((put_dir ?d s0)\<lparr>os_script := q\<rparr>, Inr ?n)" using None by (simp add: os_create_def s0_def)
    have r0: "run_inv C env s0 w xs N" unfolding s0_def by (rule grow_run [OF run])
    have l: "log_inv C env s xs N" using run by (simp add: run_inv_def)
    have out: "\<not> is_sidecar s0 ?n" using is_sidecarD(1) [OF l, of ?n] by (auto simp: s0_def is_sidecar_def)
    have xs: "?n \<notin> seg_inode ` set xs"
    proof
      assume "?n \<in> seg_inode ` set xs"
      then obtain x where "x \<in> set xs" "?n = seg_inode x" by blast
      then show False using inode_bound [OF run, of x] by simp
    qed
    have d1: "dir_shows env ?d xs" using run_dir(1) [OF run] by (intro dir_shows_other(1)) simp_all
    have ap: "sidecar_apart s0 xs ?d"
      using run_dir(2) [OF run] xs by (auto simp: sidecar_apart_def map_upd s0_def less_SucI split: if_splits)
    have "map_of ?d sidecar_name = map_of (os_dir s0) sidecar_name" by (simp add: map_upd s0_def)
    moreover have "map_of ?d tmp_name \<noteq> Some i" if "is_sidecar s0 i" for i using that out by (auto simp: map_upd)
    ultimately have r1: "run_inv C env (put_dir ?d s0) w xs N" by (rule put_dir_tmp_run [OF r0 d1 ap])
    have "\<not> is_sidecar (put_dir ?d s0) ?n"
      using out run_dir(4) [OF r0] by (auto simp: is_sidecar_def map_upd s0_def)
    then have "scratch_file (put_dir ?d s0) xs ?n" using xs by (simp add: scratch_file_def map_upd s0_def)
    then show ?thesis using r1 by (intro ok [OF c]) (simp_all add: data_of_def s0_def)
  qed
qed

text \<open>The rename makes the new value one of those a crash may leave.\<close>

lemma rename_sidecar_run:
  assumes run: "run_inv C env s w xs N" and sc: "scratch_file s xs i" and p: "offset_ok p"
    and f: "os_files s ! i = \<lparr>fl_data = sidecar_encode p, fl_images = [sidecar_encode p]\<rparr>"
  defines "d \<equiv> hm_insert sidecar_name i (hm_remove tmp_name (os_dir s))"
  shows "run_inv (insert (Some p) C) env (put_dir d s) w xs N"
    and "run_inv {Some p} env (s\<lparr>os_dir := d, os_dir_images := [d]\<rparr>) w xs N"
proof -
  have l: "log_inv C env s xs N" and r: "running env s w xs" using run by (simp_all add: run_inv_def)
  note I = log_invD [OF l]
  have d1: "dir_shows env d xs"
    unfolding d_def using run_dir(1) [OF run] by (intro dir_shows_other) simp_all
  have ap: "sidecar_apart s xs d"
    using run_dir(2) [OF run] sc by (auto simp: sidecar_apart_def map_upd d_def scratch_file_def split: if_splits)
  have dt: "map_of d sidecar_name = Some i" "map_of d tmp_name = None" by (simp_all add: d_def map_upd)
  have val: "sidecar_value (put_dir d s) d' v = sidecar_value s d' v" for d' v by (rule sidecar_value_cong) simp_all
  have new: "sidecar_value s d (Some p)" using f p dt by (simp add: sidecar_value_def)
  have "sidecars_ok (put_dir d s) (insert (Some p) C)" unfolding sidecars_ok_def val
    using I(6) new dt by (auto simp: sidecars_ok_def)
  note L = put_dir_inv [OF l d1 ap this]
  then show R: "run_inv (insert (Some p) C) env (put_dir d s) w xs N"
    using put_dir_running [OF r d1] by (simp add: run_inv_def)
  have eq: "(put_dir d s)\<lparr>os_dir_images := [os_dir (put_dir d s)]\<rparr> = s\<lparr>os_dir := d, os_dir_images := [d]\<rparr>"
    by (simp add: put_dir_def)
  have S: "run_inv (insert (Some p) C) env (s\<lparr>os_dir := d, os_dir_images := [d]\<rparr>) w xs N"
    using sync_dir_run(1) [OF R] unfolding eq .
  have "sidecar_value (s\<lparr>os_dir := d, os_dir_images := [d]\<rparr>) d (Some p)" using f p dt by (simp add: sidecar_value_def)
  then have "sidecars_ok (s\<lparr>os_dir := d, os_dir_images := [d]\<rparr>) {Some p}" using dt by (simp add: sidecars_ok_def)
  then show "run_inv {Some p} env (s\<lparr>os_dir := d, os_dir_images := [d]\<rparr>) w xs N"
    using S by (simp add: run_inv_def log_inv_def)
qed

lemma checkpoint_write_run:
  assumes run: "run_inv C env s w xs N" and p: "offset_ok p"
  obtains (ok) s' q where "checkpoint_write p s = (s'\<lparr>os_script := q\<rparr>, None)" "run_inv (insert (Some p) C) env s' w xs N"
      "run_inv {Some p} env (s'\<lparr>os_dir_images := [os_dir s']\<rparr>) w xs N"
    | (failed) s' e where "checkpoint_write p s = (s', Some e)" "run_inv C env s' w xs N"
proof (rule create_tmp_run [OF run])
  fix s1 e assume "os_create tmp_name s = (s1, Inl e)" "run_inv C env s1 w xs N"
  then show thesis by (intro failed) (simp_all add: checkpoint_write_def)
next
  fix s1 i assume c: "os_create tmp_name s = (s1, Inr i)" and r1: "run_inv C env s1 w xs N"
    and sc1: "scratch_file s1 xs i" and dat: "data_of s1 i = []"
  have ne: "sidecar_encode p \<noteq> []" using length_sidecar_encode [OF p] by (auto simp: sidecar_len_def)
  show thesis
  proof (rule write_cases [OF ne, of i s1])
    fix q n e assume "os_write i s1 (sidecar_encode p) = ((put_file i (data_of s1 i @ take n (sidecar_encode p)) s1)\<lparr>os_script := q\<rparr>, Some e)"
    then show thesis using c scratch_put(1) [OF r1 sc1]
      by (intro failed [of "(put_file i (data_of s1 i @ take n (sidecar_encode p)) s1)\<lparr>os_script := q\<rparr>"])
        (simp_all add: checkpoint_write_def put_file_eq)
  next
    fix q
    define s2 where "s2 = put_file i (sidecar_encode p) s1"
    assume "os_write i s1 (sidecar_encode p) = ((put_file i (data_of s1 i @ sidecar_encode p) s1)\<lparr>os_script := q\<rparr>, None)"
    then have w: "os_write i s1 (sidecar_encode p) = (s2\<lparr>os_script := q\<rparr>, None)" by (simp add: dat s2_def)
    have S2: "run_inv C env s2 w xs N" "scratch_file s2 xs i"
      using scratch_put [OF r1 sc1] by (simp_all add: s2_def put_file_eq)
    have d2: "data_of s2 i = sidecar_encode p" using sc1 by (simp add: s2_def data_put scratch_file_def)
    show thesis
    proof (rule sync_data_cases [of i "s2\<lparr>os_script := q\<rparr>"])
      fix q' e assume "os_sync_data i (s2\<lparr>os_script := q\<rparr>) = (s2\<lparr>os_script := q, os_script := q'\<rparr>, Some e)"
      then show thesis using c w S2(1) by (intro failed [of "s2\<lparr>os_script := q'\<rparr>"]) (simp_all add: checkpoint_write_def)
    next
      fix q'
      define s3 where "s3 = s2\<lparr>os_files := (os_files s2)[i := \<lparr>fl_data = sidecar_encode p, fl_images = [sidecar_encode p]\<rparr>]\<rparr>"
      have S3: "run_inv C env s3 w xs N" "scratch_file s3 xs i" using scratch_put [OF S2] by (simp_all add: s3_def)
      have f3: "os_files s3 ! i = \<lparr>fl_data = sidecar_encode p, fl_images = [sidecar_encode p]\<rparr>"
        using S2(2) by (simp add: s3_def scratch_file_def)
      assume "os_sync_data i (s2\<lparr>os_script := q\<rparr>) = (s2\<lparr>os_script := q, os_files := (os_files (s2\<lparr>os_script := q\<rparr>))[i :=
        \<lparr>fl_data = data_of (s2\<lparr>os_script := q\<rparr>) i, fl_images = [data_of (s2\<lparr>os_script := q\<rparr>) i]\<rparr>], os_script := q'\<rparr>, None)"
      then have y: "os_sync_data i (s2\<lparr>os_script := q\<rparr>) = (s3\<lparr>os_script := q'\<rparr>, None)"
        using d2 by (simp add: s3_def data_of_def script_last)
      show thesis
      proof (rule rename_cases [of tmp_name sidecar_name "s3\<lparr>os_script := q'\<rparr>"])
        fix q'' e assume "os_rename tmp_name sidecar_name (s3\<lparr>os_script := q'\<rparr>) = (s3\<lparr>os_script := q', os_script := q''\<rparr>, Some e)"
        then show thesis using c w y S3(1) by (intro failed [of "s3\<lparr>os_script := q''\<rparr>"]) (simp_all add: checkpoint_write_def)
      next
        fix q'' k
        let ?d = "hm_insert sidecar_name i (hm_remove tmp_name (os_dir s3))"
        assume k: "map_of (os_dir (s3\<lparr>os_script := q'\<rparr>)) tmp_name = Some k"
          and ren: "os_rename tmp_name sidecar_name (s3\<lparr>os_script := q'\<rparr>)
            = ((put_dir (hm_insert sidecar_name k (hm_remove tmp_name (os_dir (s3\<lparr>os_script := q'\<rparr>)))) (s3\<lparr>os_script := q'\<rparr>))\<lparr>os_script := q''\<rparr>, None)"
        have "k = i" using k S3(2) by (simp add: scratch_file_def)
        then have ren': "os_rename tmp_name sidecar_name (s3\<lparr>os_script := q'\<rparr>) = ((put_dir ?d s3)\<lparr>os_script := q''\<rparr>, None)"
          using ren by (simp add: script_last)
        note R = rename_sidecar_run [OF S3 p f3]
        have eq: "(put_dir ?d s3)\<lparr>os_dir_images := [os_dir (put_dir ?d s3)]\<rparr> = s3\<lparr>os_dir := ?d, os_dir_images := [?d]\<rparr>"
          by (simp add: put_dir_def)
        have "run_inv {Some p} env ((put_dir ?d s3)\<lparr>os_dir_images := [os_dir (put_dir ?d s3)]\<rparr>) w xs N"
          unfolding eq by (rule R(2))
        moreover have "checkpoint_write p s = ((put_dir ?d s3)\<lparr>os_script := q''\<rparr>, None)"
          using c w y ren' by (simp add: checkpoint_write_def)
        ultimately show thesis using R(1) by (intro ok [of q'' "put_dir ?d s3"])
      qed
    qed
  qed
qed

text \<open>An open gate means the root shows one value, the handle's.\<close>

definition ck_run :: "wal \<Rightarrow> wal_offset option set \<Rightarrow> bool" where
  "ck_run w C \<longleftrightarrow> (wl_gate w = Gate_Open \<longrightarrow> C = {wl_checkpoint w})"

definition checkpointed ::
  "wal_offset option set \<Rightarrow> wal_env \<Rightarrow> wal_offset \<Rightarrow> seg list \<Rightarrow> nat \<Rightarrow> wal \<Rightarrow> os \<times> wal \<times> checkpoint_error option \<Rightarrow> bool" where
  "checkpointed C env p xs N w res \<longleftrightarrow>
     (case res of (s', w', r) \<Rightarrow>
        \<exists>C'. run_inv C' env s' w' xs N \<and> ck_run w' C' \<and> C' \<subseteq> (if r = None then {Some p} else insert (Some p) C)
          \<and> wl_checkpoint w' \<in> {wl_checkpoint w, Some p} \<and> (r = None \<longrightarrow> wl_checkpoint w' = Some p))"

lemma run_inv_handle:
  "wl_segment w' = wl_segment w \<Longrightarrow> wl_uuid w' = wl_uuid w \<Longrightarrow> wl_path w' = wl_path w
   \<Longrightarrow> wl_dir_fsync w' = wl_dir_fsync w \<Longrightarrow> run_inv C env s w' xs N = run_inv C env s w xs N"
  by (simp add: run_inv_def running_wal [of w' w])

lemma run_inv_record [simp]: "run_inv C env s (w\<lparr>wl_record := x\<rparr>) xs N = run_inv C env s w xs N"
  by (rule run_inv_handle) simp_all

lemma record_arm_keeps:
  "record_arm written w = (w', r) \<Longrightarrow> run_inv C env s w' xs N = run_inv C env s w xs N \<and> side w' = side w"
  by (auto simp: record_arm_def split: option.splits witness.splits)

lemma record_witness_keeps:
  "record_witness written w = (w', r) \<Longrightarrow> run_inv C env s w' xs N = run_inv C env s w xs N \<and> side w' = side w"
  by (auto simp: record_witness_def split: option.splits witness.splits)

lemma advance_checkpoint_run:
  assumes run: "run_inv C env s w xs N" and p: "offset_ok p" and ck: "ck_run w C"
  shows "checkpointed C env p xs N w (advance_checkpoint written p s w)"
proof -
  obtain w1 r1 where a: "record_arm (fst written) w = (w1, r1)" by fastforce
  have R1: "run_inv C env s w1 xs N" "side w1 = side w" using record_arm_keeps [OF a] run by auto
  then have ck1: "ck_run w1 C" "wl_checkpoint w1 = wl_checkpoint w" using ck by (simp_all add: ck_run_def side_def)
  show ?thesis
  proof (cases r1)
    case (Some e)
    then show ?thesis using a R1 ck1 by (auto simp: advance_checkpoint_def checkpointed_def)
  next
    case None
    show ?thesis
    proof (rule checkpoint_write_run [OF R1(1) p])
      fix s2 e assume "checkpoint_write p s = (s2, Some e)" "run_inv C env s2 w1 xs N"
      then show ?thesis using a None ck1 by (auto simp: advance_checkpoint_def checkpointed_def)
    next
      fix s2 q assume c: "checkpoint_write p s = (s2\<lparr>os_script := q\<rparr>, None)" and r2: "run_inv (insert (Some p) C) env s2 w1 xs N"
        and r3: "run_inv {Some p} env (s2\<lparr>os_dir_images := [os_dir s2]\<rparr>) w1 xs N"
      define w2 where "w2 = w1\<lparr>wl_checkpoint := Some p, wl_checkpoint_version := Some Sidecar_Current, wl_gate := FsyncPending\<rparr>"
      have W: "run_inv D env t w2 xs N = run_inv D env t w1 xs N"
        "run_inv D env t (w2\<lparr>wl_gate := Gate_Open\<rparr>) xs N = run_inv D env t w1 xs N" for D t
        by (rule run_inv_handle; simp add: w2_def)+
      have adv: "advance_checkpoint written p s w = (case os_sync_dir (s2\<lparr>os_script := q\<rparr>) of
          (s, Some e) \<Rightarrow> (s, w2, Some (Checkpoint_Io ''fsync(wal_root after checkpoint)'' e))
        | (s, None) \<Rightarrow> (case record_witness (snd written) (w2\<lparr>wl_gate := Gate_Open\<rparr>) of (w, r) \<Rightarrow> (s, w, r)))"
        unfolding w2_def by (simp add: advance_checkpoint_def a None c Let_def split: option.split prod.split)
      show ?thesis
      proof (rule sync_dir_cases [of "s2\<lparr>os_script := q\<rparr>"])
        fix q' e assume "os_sync_dir (s2\<lparr>os_script := q\<rparr>) = (s2\<lparr>os_script := q, os_script := q'\<rparr>, Some e)"
        then show ?thesis using r2 W
          by (auto simp: adv checkpointed_def ck_run_def w2_def [symmetric] intro!: exI [of _ "insert (Some p) C"]) (simp_all add: w2_def)
      next
        fix q'
        obtain w3 r where v: "record_witness (snd written) (w2\<lparr>wl_gate := Gate_Open\<rparr>) = (w3, r)" by fastforce
        have V: "run_inv {Some p} env t w3 xs N = run_inv {Some p} env t w1 xs N" "side w3 = side (w2\<lparr>wl_gate := Gate_Open\<rparr>)" for t
          using record_witness_keeps [OF v, of "{Some p}" env t xs N] W(2) by auto
        assume "os_sync_dir (s2\<lparr>os_script := q\<rparr>) = (s2\<lparr>os_script := q, os_dir_images := [os_dir (s2\<lparr>os_script := q\<rparr>)], os_script := q'\<rparr>, None)"
        then have "advance_checkpoint written p s w = (s2\<lparr>os_dir_images := [os_dir s2], os_script := q'\<rparr>, w3, r)"
          by (simp add: adv v script_last)
        moreover have "wl_checkpoint w3 = Some p" using V(2) by (simp add: side_def w2_def)
        ultimately show ?thesis using V(1) r3
          by (auto simp: checkpointed_def ck_run_def intro!: exI [of _ "{Some p}"])
      qed
    qed
  qed
qed

lemma wal_checkpoint_run:
  assumes run: "run_inv C env s w xs N" and p: "offset_ok p" and ck: "ck_run w C"
  shows "(\<exists>c. wl_checkpoint w = Some c \<and> p < c \<and> wal_checkpoint written p s w = (s, w, Some (NonMonotonic c p)))
    \<or> (\<forall>c. wl_checkpoint w = Some c \<longrightarrow> c \<le> p) \<and> checkpointed C env p xs N w (wal_checkpoint written p s w)"
proof (cases "wl_checkpoint w")
  case None
  then show ?thesis using advance_checkpoint_run [OF run p ck] by (simp add: wal_checkpoint_def)
next
  case (Some c)
  show ?thesis
  proof (cases "p < c \<or> \<not> (p = c \<and> checkpoint_is_settled w)")
    case True
    then show ?thesis using Some advance_checkpoint_run [OF run p ck] by (auto simp: wal_checkpoint_def)
  next
    case False
    then have "wal_checkpoint written p s w = (s, w, None)" "C = {Some p}" "p = c"
      using Some ck by (auto simp: wal_checkpoint_def checkpoint_is_settled_def ck_run_def)
    then show ?thesis using run ck Some by (auto simp: checkpointed_def)
  qed
qed

end
