(* ===== verification/Wal_Recovery.thy ===== *)
theory Wal_Recovery
  imports Wal_Sidecar
begin

text \<open>
  Opening a root and replaying it: the listing names the segments in order, the header of the newest
  one reads back, the scan hands over every whole frame once and in order, and a torn tail is cut off.
  A call that fails stops recovery with an I/O error and changes nothing a later attempt needs.
\<close>

section \<open>The listing\<close>

lemma seg_uuid_ok: "env_ok env \<Longrightarrow> log_inv C env s xs N \<Longrightarrow> x \<in> set xs \<Longrightarrow> uuid_ok (seg_uuid x)"
  using log_invD(2) [of C env s xs N] by (auto simp: ids_ok_def env_ok_def)

abbreviation seg_names :: "wal_env \<Rightarrow> seg list \<Rightarrow> bytes list" where
  "seg_names env xs \<equiv> map (\<lambda>x. seg_name env (seg_uuid x)) xs"

lemma seg_names_sorted:
  assumes env: "env_ok env" and inv: "log_inv C env s xs N"
  shows "sorted_wrt (<) (seg_names env xs)"
proof -
  have "sorted_wrt (\<lambda>a b. seg_uuid a < seg_uuid b) xs"
    using log_invD(2) [OF inv] by (simp add: ids_ok_def sorted_wrt_map)
  then have "sorted_wrt (\<lambda>a b. seg_name env (seg_uuid a) < seg_name env (seg_uuid b)) xs"
    using seg_uuid_ok [OF env inv] seg_name_less [OF env] by (elim sorted_wrt_mono_rel [rotated]) blast
  then show ?thesis by (simp add: sorted_wrt_map)
qed

lemma listed_names:
  assumes env: "env_ok env" and inv: "log_inv C env s xs N"
  shows "sort (filter is_segment_name (map fst (os_dir s))) = seg_names env xs"
proof -
  have d: "dir_shows env (os_dir s) xs" using log_invD(5) [OF inv] by (simp add: dirs_ok_def)
  then have wf: "distinct (map fst (os_dir s))" by (simp add: dir_shows_def hm_wf_def)
  have "n \<in> set (filter is_segment_name (map fst (os_dir s)))
      \<longleftrightarrow> (\<exists>i. (n, i) \<in> {(n, i). map_of (os_dir s) n = Some i \<and> is_segment_name n})" for n
    using wf by (force simp: map_of_eq_Some_iff image_iff)
  then have "set (filter is_segment_name (map fst (os_dir s))) = fst ` {(n, i). map_of (os_dir s) n = Some i \<and> is_segment_name n}"
    by force
  also have "\<dots> = fst ` (\<lambda>x. (seg_name env (seg_uuid x), seg_inode x)) ` set xs" using d by (simp only: dir_shows_def)
  also have "\<dots> = set (seg_names env xs)" unfolding image_image by simp
  finally have eq: "set (sort (filter is_segment_name (map fst (os_dir s)))) = set (seg_names env xs)" by simp
  note srt = seg_names_sorted [OF env inv]
  show ?thesis
    by (rule sorted_distinct_set_unique [OF _ _ _ _ eq])
      (use wf srt strict_sorted_iff [of "seg_names env xs"] in simp_all)
qed

lemma list_segments_cases:
  assumes "env_ok env" and "log_inv C env s xs N"
  obtains (ok) q where "list_segments s = (s\<lparr>os_script := q\<rparr>, Inr (seg_names env xs))"
    | (failed) q e where "list_segments s = (s\<lparr>os_script := q\<rparr>, Inl (''read_dir(wal_root)'', e))"
proof (rule next_io_cases [of s])
  fix q assume "next_io s = (s\<lparr>os_script := q\<rparr>, None)"
  then show thesis using listed_names [OF assms] by (intro ok [of q]) (simp add: list_segments_def os_read_dir_def)
next
  fix q d n assume "next_io s = (s\<lparr>os_script := q\<rparr>, Some (d, n))"
  then show thesis by (intro failed) (simp add: list_segments_def os_read_dir_def)
qed

lemma partials_cases:
  obtains (ok) q ps where "list_partials env s = (s\<lparr>os_script := q\<rparr>, Inr ps)"
    | (failed) q e where "list_partials env s = (s\<lparr>os_script := q\<rparr>, Inl (''read_dir(wal_root)'', e))"
  by (rule next_io_cases [of s]) (auto simp: list_partials_def os_read_dir_def intro: that)

lemma dir_finds:
  assumes "log_inv C env s xs N" and "x \<in> set xs"
  shows "map_of (os_dir s) (seg_name env (seg_uuid x)) = Some (seg_inode x)"
proof -
  have "{(n, i). map_of (os_dir s) n = Some i \<and> is_segment_name n} = (\<lambda>x. (seg_name env (seg_uuid x), seg_inode x)) ` set xs"
    using log_invD(5) [OF assms(1)] by (simp add: dirs_ok_def dir_shows_def)
  then have "(seg_name env (seg_uuid x), seg_inode x) \<in> {(n, i). map_of (os_dir s) n = Some i \<and> is_segment_name n}"
    using assms(2) by blast
  then show ?thesis by simp
qed

lemma open_segment_cases:
  assumes "log_inv C env s xs N" and "x \<in> set xs"
  obtains (ok) q where "os_open (seg_name env (seg_uuid x)) s = (s\<lparr>os_script := q\<rparr>, Inr (seg_inode x))"
    | (failed) q d where "os_open (seg_name env (seg_uuid x)) s = (s\<lparr>os_script := q\<rparr>, Inl (os_error d))"
  by (rule open_cases [of "seg_name env (seg_uuid x)" s]) (auto simp: dir_finds [OF assms] intro: that)

lemma reader_cases:
  obtains (ok) q where "os_reader i s = (s\<lparr>os_script := q\<rparr>, \<lparr>rd_rest = data_of s i, rd_end = eof_error\<rparr>)"
    | (failed) q n d where "os_reader i s = (s\<lparr>os_script := q\<rparr>, \<lparr>rd_rest = take n (data_of s i), rd_end = os_error d\<rparr>)"
proof (rule next_io_cases [of s])
  fix q assume "next_io s = (s\<lparr>os_script := q\<rparr>, None)"
  then show thesis by (intro ok [of q]) (simp add: os_reader_def data_of_def)
next
  fix q d n assume "next_io s = (s\<lparr>os_script := q\<rparr>, Some (d, n))"
  then show thesis by (intro failed [of q n d]) (simp add: os_reader_def data_of_def)
qed

lemma data_script [simp]: "data_of (s\<lparr>os_script := q\<rparr>) i = data_of s i"
  by (simp add: data_of_def)

lemma sidecar_value_script [simp]: "sidecar_value (s\<lparr>os_script := q\<rparr>) d v = sidecar_value s d v"
  by (rule sidecar_value_cong) simp_all

lemma read_header_short:
  "length r < segment_header_len \<Longrightarrow> \<exists>r'. read_header \<lparr>rd_rest = r, rd_end = e\<rparr> = (r', Inl (Header_Io e))"
  by (simp add: read_header_def read_exact_def)

lemma read_header_seg:
  assumes "uuid_ok u" and "segment_header_len \<le> n"
  shows "read_header \<lparr>rd_rest = take n (seg_bytes crc u fr @ P), rd_end = e\<rparr>
    = (\<lparr>rd_rest = take (n - segment_header_len) (frames_bytes crc fr @ P), rd_end = e\<rparr>, Inr (segment_header_new u))"
proof -
  have "take n (seg_bytes crc u fr @ P)
      = header_bytes (segment_header_new u) @ take (n - segment_header_len) (frames_bytes crc fr @ P)"
    using assms length_seg_header [OF assms(1)] by (simp add: seg_bytes_def seg_header_def)
  then show ?thesis using read_header_new [OF assms(1)] by simp
qed

section \<open>Scanning with a reader that fails\<close>

lemma scan_frames_cut:
  assumes "\<forall>f \<in> set fr. frame_ok f" and "torn crc P"
  shows "scan_frames crc u is_newest consume (pos + length (frames_bytes crc fr @ P)) pos
           \<lparr>rd_rest = take n (frames_bytes crc fr @ P), rd_end = os_error d\<rparr> st
         = scan_result consume (seg_entries u pos fr)
             (tail_result u is_newest (pos + length (frames_bytes crc fr)) P) st
    \<or> (\<exists>st' op e. scan_frames crc u is_newest consume (pos + length (frames_bytes crc fr @ P)) pos
           \<lparr>rd_rest = take n (frames_bytes crc fr @ P), rd_end = os_error d\<rparr> st = (st', Inl (Recovery_Io op e)))"
  using assms(1)
proof (induction fr arbitrary: pos st n)
  case Nil
  show ?case
  proof (cases "P = []")
    case False
    obtain r where "read_frame crc \<lparr>rd_rest = take n P, rd_end = os_error d\<rparr> = (r, Inl (Frame_Io (os_error d)))"
      using read_torn [OF torn_take [OF assms(2)]] by blast
    then show ?thesis using False
      by (simp add: scan_frames.simps [of crc u is_newest consume _ pos] os_error_def)
  qed (simp add: scan_frames.simps scan_result_simps tail_result_def)
next
  case (Cons f fr)
  obtain k p where f: "f = (k, p)" by fastforce
  have p: "length p \<le> max_frame_bytes" using Cons.prems f by (simp add: frame_ok_def)
  let ?pos = "pos + (frame_header_len + length p)"
  have l: "pos + length (frames_bytes crc (f # fr) @ P) = ?pos + length (frames_bytes crc fr @ P)"
    "pos + length (frames_bytes crc (f # fr)) = ?pos + length (frames_bytes crc fr)"
    by (simp_all add: length_frame_bytes f)
  have lt: "\<not> ?pos + length (frames_bytes crc fr @ P) \<le> pos" by (simp add: frame_header_len_def)
  show ?case
  proof (cases "n < length (frame_bytes crc f)")
    case True
    then have "torn crc (take n (frames_bytes crc (f # fr) @ P))" using torn_frame [of f n crc] Cons.prems by simp
    then obtain r where "read_frame crc \<lparr>rd_rest = take n (frames_bytes crc (f # fr) @ P), rd_end = os_error d\<rparr>
        = (r, Inl (Frame_Io (os_error d)))" using read_torn by blast
    then show ?thesis using lt unfolding l
      by (subst scan_frames.simps) (subst (2) scan_frames.simps, simp only: if_False prod.case sum.case, simp add: os_error_def)
  next
    case False
    define m where "m = n - length (frame_bytes crc f)"
    have "take n (frames_bytes crc (f # fr) @ P) = frame_header crc k p @ p @ take m (frames_bytes crc fr @ P)"
      using False by (simp add: f m_def frame_bytes_def)
    then have r: "read_frame crc \<lparr>rd_rest = take n (frames_bytes crc (f # fr) @ P), rd_end = os_error d\<rparr>
        = (\<lparr>rd_rest = take m (frames_bytes crc fr @ P), rd_end = os_error d\<rparr>, Inr (k, p))"
      using read_frame_complete [OF p] by simp
    have IH: "scan_frames crc u is_newest consume (?pos + length (frames_bytes crc fr @ P)) ?pos
        \<lparr>rd_rest = take m (frames_bytes crc fr @ P), rd_end = os_error d\<rparr> st'
      = scan_result consume (seg_entries u ?pos fr) (tail_result u is_newest (?pos + length (frames_bytes crc fr)) P) st'
      \<or> (\<exists>st'' op e. scan_frames crc u is_newest consume (?pos + length (frames_bytes crc fr @ P)) ?pos
        \<lparr>rd_rest = take m (frames_bytes crc fr @ P), rd_end = os_error d\<rparr> st' = (st'', Inl (Recovery_Io op e)))" for st'
      using Cons.IH [of ?pos m st'] Cons.prems by simp
    have step: "scan_frames crc u is_newest consume (?pos + length (frames_bytes crc fr @ P)) pos
        \<lparr>rd_rest = take n (frames_bytes crc (f # fr) @ P), rd_end = os_error d\<rparr> st
      = (case consume st (Wal_Offset u ?pos) k p of
           (st, Some e) \<Rightarrow> (st, Inl e)
         | (st, None) \<Rightarrow> scan_frames crc u is_newest consume (?pos + length (frames_bytes crc fr @ P)) ?pos
              \<lparr>rd_rest = take m (frames_bytes crc fr @ P), rd_end = os_error d\<rparr> st)"
      by (subst scan_frames.simps) (simp only: r lt Let_def if_False prod.case sum.case)
    obtain st1 c where c: "consume st (Wal_Offset u ?pos) k p = (st1, c)" by fastforce
    show ?thesis unfolding l step using IH [of st1]
      by (cases c) (simp_all add: c f scan_result_simps)
  qed
qed

section \<open>One segment\<close>

text \<open>The sink that keeps what it is handed.\<close>

definition collect :: "entry list sink" where
  "collect es p k bs = (es @ [(p, k, bs)], None)"

lemma run_collect: "run_sink collect es st = (st @ es, None)"
  by (induction es arbitrary: st) (auto simp: collect_def)

lemma replay_segment_run:
  assumes env: "env_ok env" and inv: "log_inv C env s xs N" and x: "x \<in> set xs"
    and d: "data_of s (seg_inode x) = seg_bytes (en_crc env) (seg_uuid x) (seg_frames x) @ P" and P: "torn (en_crc env) P"
  obtains (ok) q where "replay_segment (en_crc env) collect (seg_name env (seg_uuid x)) is_newest st s
      = (s\<lparr>os_script := q\<rparr>, st @ seg_entries (seg_uuid x) segment_header_len (seg_frames x),
         tail_result (seg_uuid x) is_newest (length (seg_bytes (en_crc env) (seg_uuid x) (seg_frames x))) P)"
    | (failed) q st' op e where "replay_segment (en_crc env) collect (seg_name env (seg_uuid x)) is_newest st s
      = (s\<lparr>os_script := q\<rparr>, st', Inl (Recovery_Io op e))"
proof (rule open_segment_cases [OF inv x])
  fix q d assume "os_open (seg_name env (seg_uuid x)) s = (s\<lparr>os_script := q\<rparr>, Inl (os_error d))"
  then show thesis by (intro failed) (simp add: replay_segment_def)
next
  fix q assume o: "os_open (seg_name env (seg_uuid x)) s = (s\<lparr>os_script := q\<rparr>, Inr (seg_inode x))"
  let ?u = "seg_uuid x" and ?fr = "seg_frames x" and ?crc = "en_crc env" and ?h = "segment_header_len"
  have uo: "uuid_ok ?u" by (rule seg_uuid_ok [OF env inv x])
  have fr: "\<forall>f \<in> set ?fr. frame_ok f" using log_invD(2) [OF inv] x by (simp add: ids_ok_def)
  have len: "length (seg_bytes ?crc ?u ?fr @ P) = ?h + length (frames_bytes ?crc ?fr @ P)"
    "length (seg_bytes ?crc ?u ?fr) = ?h + length (frames_bytes ?crc ?fr)" using uo by (simp_all add: seg_bytes_def)
  have res: "scan_result collect es r st = (st @ es, r)" for es r by (simp add: scan_result_def run_collect)
  show thesis
  proof (rule stat_cases [of "seg_inode x" "s\<lparr>os_script := q\<rparr>"])
    fix q' e assume "os_stat (seg_inode x) (s\<lparr>os_script := q\<rparr>) = (s\<lparr>os_script := q, os_script := q'\<rparr>, Inl e)"
    then show thesis using o by (intro failed [of q']) (simp add: replay_segment_def)
  next
    fix q' assume st: "os_stat (seg_inode x) (s\<lparr>os_script := q\<rparr>)
        = (s\<lparr>os_script := q, os_script := q'\<rparr>, Inr (length (data_of (s\<lparr>os_script := q\<rparr>) (seg_inode x))))"
    show thesis
    proof (rule reader_cases [of "seg_inode x" "s\<lparr>os_script := q'\<rparr>"])
      fix q'' assume "os_reader (seg_inode x) (s\<lparr>os_script := q'\<rparr>)
        = (s\<lparr>os_script := q', os_script := q''\<rparr>, \<lparr>rd_rest = data_of (s\<lparr>os_script := q'\<rparr>) (seg_inode x), rd_end = eof_error\<rparr>)"
      then show thesis using o st read_header_seg [OF uo, of "length (seg_bytes ?crc ?u ?fr @ P)" ?crc ?fr P eof_error]
          scan_frames_spec [OF fr P, of ?u is_newest collect ?h st]
        by (intro ok [of q'']) (simp add: replay_segment_def d len res segment_header_new_def add.assoc)
    next
      fix q'' n e assume "os_reader (seg_inode x) (s\<lparr>os_script := q'\<rparr>)
        = (s\<lparr>os_script := q', os_script := q''\<rparr>, \<lparr>rd_rest = take n (data_of (s\<lparr>os_script := q'\<rparr>) (seg_inode x)), rd_end = os_error e\<rparr>)"
      then have rd: "os_reader (seg_inode x) (s\<lparr>os_script := q'\<rparr>)
        = (s\<lparr>os_script := q''\<rparr>, \<lparr>rd_rest = take n (seg_bytes ?crc ?u ?fr @ P), rd_end = os_error e\<rparr>)" by (simp add: d)
      show thesis
      proof (cases "n < ?h")
        case True
        then obtain r where "read_header \<lparr>rd_rest = take n (seg_bytes ?crc ?u ?fr @ P), rd_end = os_error e\<rparr> = (r, Inl (Header_Io (os_error e)))"
          using read_header_short [of "take n (seg_bytes ?crc ?u ?fr @ P)" "os_error e"]
          by (metis length_take min.strict_coboundedI2)
        then show thesis using o st rd by (intro failed [of q'']) (simp add: replay_segment_def)
      next
        case False
        note H = read_header_seg [OF uo, of n ?crc ?fr P "os_error e"]
        have rp: "replay_segment ?crc collect (seg_name env ?u) is_newest st s
            = (case scan_frames ?crc ?u is_newest collect (?h + length (frames_bytes ?crc ?fr @ P)) ?h
                 \<lparr>rd_rest = take (n - ?h) (frames_bytes ?crc ?fr @ P), rd_end = os_error e\<rparr> st of
                 (st, res) \<Rightarrow> (s\<lparr>os_script := q''\<rparr>, st, res))"
          using o st rd H False by (simp add: replay_segment_def d len segment_header_new_def add.assoc)
        from scan_frames_cut [OF fr P, of ?u is_newest collect ?h "n - ?h" e st] show thesis
          unfolding res by (elim disjE exE) (auto simp: rp len intro: ok [of q''] failed [of q''])
      qed
    qed
  qed
qed

section \<open>The whole log\<close>

lemma heal_run:
  assumes inv: "log_inv C env s (ys @ [(u, i, fr)]) N" and t: "target env s w (ys @ [(u, i, fr)])"
    and d: "data_of s i = seg_bytes (en_crc env) u fr @ P"
  obtains (ok) s' w' where "heal_newest_segment (length (seg_bytes (en_crc env) u fr)) s w = (s', w', None)"
      "run_inv C env s' w' (ys @ [(u, i, fr)]) N" "side w' = side w"
    | (failed) s' op e where "heal_newest_segment (length (seg_bytes (en_crc env) u fr)) s w = (s', w, Some (Recovery_Io op e))"
      "run_inv C env s' w (ys @ [(u, i, fr)]) N"
proof -
  have i: "wl_segment w = i" using t by (simp add: target_def)
  obtain s1 where s1: "os_set_len i (length (seg_bytes (en_crc env) u fr)) s = (s1, None)" "run_inv C env s1 w (ys @ [(u, i, fr)]) N"
    using truncate_run [OF inv t d] by blast
  show thesis
  proof (rule sync_data_cases [of i s1])
    fix q e assume "os_sync_data i s1 = (s1\<lparr>os_script := q\<rparr>, Some e)"
    then show thesis using s1 i by (intro failed [of "s1\<lparr>os_script := q\<rparr>"]) (simp_all add: heal_newest_segment_def)
  next
    fix q
    define s2 where "s2 = s1\<lparr>os_files := (os_files s1)[i := \<lparr>fl_data = data_of s1 i, fl_images = [data_of s1 i]\<rparr>]\<rparr>"
    assume "os_sync_data i s1 = (s1\<lparr>os_files := (os_files s1)[i := \<lparr>fl_data = data_of s1 i, fl_images = [data_of s1 i]\<rparr>], os_script := q\<rparr>, None)"
    then have y: "os_sync_data i s1 = (s2\<lparr>os_script := q\<rparr>, None)" by (simp add: s2_def)
    have r2: "run_inv C env s2 w (ys @ [(u, i, fr)]) N" using sync_data_run(1) [OF s1(2)] by (simp add: i s2_def)
    show thesis
    proof (rule sync_dir_cases [of "s2\<lparr>os_script := q\<rparr>"])
      fix q' e assume "os_sync_dir (s2\<lparr>os_script := q\<rparr>) = (s2\<lparr>os_script := q, os_script := q'\<rparr>, Some e)"
      then show thesis using s1 y i r2 by (intro failed [of "s2\<lparr>os_script := q'\<rparr>"]) (simp_all add: heal_newest_segment_def)
    next
      fix q' assume "os_sync_dir (s2\<lparr>os_script := q\<rparr>)
        = (s2\<lparr>os_script := q, os_dir_images := [os_dir (s2\<lparr>os_script := q\<rparr>)], os_script := q'\<rparr>, None)"
      then show thesis using s1 y i sync_dir_run(3) [OF r2, of Fsync_Clean]
        by (intro ok [of "s2\<lparr>os_dir_images := [os_dir s2], os_script := q'\<rparr>" "w\<lparr>wl_dir_fsync := Fsync_Clean\<rparr>"]) (simp_all add: heal_newest_segment_def script_last)
    qed
  qed
qed

lemma replay_paths_run:
  assumes env: "env_ok env" and "log_inv C env s (ys @ zs) N" and "zs \<noteq> []" and "target env s w (ys @ zs)"
    and "data_of s (seg_inode (last zs)) = seg_bytes (en_crc env) (seg_uuid (last zs)) (seg_frames (last zs)) @ P"
    and P: "torn (en_crc env) P"
  shows "(\<exists>s' w'. replay_paths (en_crc env) collect (seg_names env zs) st s w = (s', st @ log_entries zs, w', None)
        \<and> run_inv C env s' w' (ys @ zs) N \<and> side w' = side w)
    \<or> (\<exists>s' st' w' op e. replay_paths (en_crc env) collect (seg_names env zs) st s w = (s', st', w', Some (Recovery_Io op e))
        \<and> log_inv C env s' (ys @ zs) N)"
  using assms(2-5)
proof (induction zs arbitrary: ys st s)
  case (Cons x zs)
  let ?crc = "en_crc env"
  have x: "x \<in> set (ys @ x # zs)" by simp
  show ?case
  proof (cases "zs = []")
    case True
    obtain u i fr where xe: "x = (u, i, fr)" by (metis prod_cases3)
    have inv: "log_inv C env s (ys @ [(u, i, fr)]) N" and t: "target env s w (ys @ [(u, i, fr)])"
      and d: "data_of s i = seg_bytes ?crc u fr @ P" using Cons.prems True xe by simp_all
    show ?thesis
    proof (rule replay_segment_run [OF env Cons.prems(1) x, of P True st])
      show "data_of s (seg_inode x) = seg_bytes ?crc (seg_uuid x) (seg_frames x) @ P" "torn ?crc P"
        using d P xe by simp_all
    next
      fix q st' op e assume "replay_segment ?crc collect (seg_name env (seg_uuid x)) True st s = (s\<lparr>os_script := q\<rparr>, st', Inl (Recovery_Io op e))"
      then show ?thesis using True inv xe by simp
    next
      fix q assume "replay_segment ?crc collect (seg_name env (seg_uuid x)) True st s
        = (s\<lparr>os_script := q\<rparr>, st @ seg_entries (seg_uuid x) segment_header_len (seg_frames x),
           tail_result (seg_uuid x) True (length (seg_bytes ?crc (seg_uuid x) (seg_frames x))) P)"
      then have r: "replay_segment ?crc collect (seg_name env u) True st s
        = (s\<lparr>os_script := q\<rparr>, st @ seg_entries u segment_header_len fr, tail_result u True (length (seg_bytes ?crc u fr)) P)"
        by (simp add: xe)
      show ?thesis
      proof (cases "P = []")
        case Pe: True
        have "run_inv C env s w (ys @ [(u, i, fr)]) N" using inv t d Pe by (simp add: run_inv_def running_target)
        then show ?thesis using r True xe Pe by (auto simp: tail_result_def)
      next
        case False
        have inv': "log_inv C env (s\<lparr>os_script := q\<rparr>) (ys @ [(u, i, fr)]) N" "target env (s\<lparr>os_script := q\<rparr>) w (ys @ [(u, i, fr)])"
          "data_of (s\<lparr>os_script := q\<rparr>) i = seg_bytes ?crc u fr @ P" using inv t d by simp_all
        show ?thesis
          by (rule heal_run [OF inv']) (use r True xe False in \<open>auto simp: tail_result_def run_inv_def\<close>)
      qed
    qed
  next
    case False
    have "x \<in> set (butlast (ys @ x # zs))" using False by (simp add: butlast_append)
    then have "closed_file ?crc (seg_uuid x) (seg_frames x) (os_files s ! seg_inode x)"
      using log_invD(4) [OF Cons.prems(1)] by (simp add: files_ok_def)
    then have d: "data_of s (seg_inode x) = seg_bytes ?crc (seg_uuid x) (seg_frames x) @ []"
      by (simp add: closed_file_def data_of_def)
    have nonempty: "(zs = []) = False" using False by simp
    show ?thesis
    proof (rule replay_segment_run [OF env Cons.prems(1) x d torn_Nil, of False st])
      fix q st' op e assume "replay_segment ?crc collect (seg_name env (seg_uuid x)) False st s = (s\<lparr>os_script := q\<rparr>, st', Inl (Recovery_Io op e))"
      then show ?thesis using False Cons.prems(1) by simp
    next
      fix q assume r: "replay_segment ?crc collect (seg_name env (seg_uuid x)) False st s
        = (s\<lparr>os_script := q\<rparr>, st @ seg_entries (seg_uuid x) segment_header_len (seg_frames x),
           tail_result (seg_uuid x) False (length (seg_bytes ?crc (seg_uuid x) (seg_frames x))) [])"
      show ?thesis
        using Cons.IH [of "s\<lparr>os_script := q\<rparr>" "ys @ [x]" "st @ seg_entries (seg_uuid x) segment_header_len (seg_frames x)"]
          Cons.prems False r by (simp add: tail_result_def)
    qed
  qed
qed simp

lemma wal_replay_run:
  assumes env: "env_ok env" and inv: "log_inv C env s xs N" and "xs \<noteq> []" and t: "target env s w xs"
    and d: "data_of s (seg_inode (last xs)) = seg_bytes (en_crc env) (seg_uuid (last xs)) (seg_frames (last xs)) @ P"
    and P: "torn (en_crc env) P"
  shows "(\<exists>s' w'. wal_replay (en_crc env) collect [] s w = (s', log_entries xs, w', None)
        \<and> run_inv C env s' w' xs N \<and> side w' = side w)
    \<or> (\<exists>s' st' w' op e. wal_replay (en_crc env) collect [] s w = (s', st', w', Some (Recovery_Io op e))
        \<and> log_inv C env s' xs N)"
proof (rule list_segments_cases [OF env inv])
  fix q e assume "list_segments s = (s\<lparr>os_script := q\<rparr>, Inl (''read_dir(wal_root)'', e))"
  then show ?thesis using inv by (simp add: wal_replay_def)
next
  fix q assume "list_segments s = (s\<lparr>os_script := q\<rparr>, Inr (seg_names env xs))"
  then show ?thesis
    using replay_paths_run [OF env, of C "s\<lparr>os_script := q\<rparr>" "[]" xs N w P "[]"] assms by (simp add: wal_replay_def)
qed

section \<open>Open\<close>

text \<open>Errors that say a file of the log is damaged: a sidecar that does not decode, a segment header that
  is not one, a segment header that ends early.\<close>

fun torn_header :: "open_error \<Rightarrow> bool" where
  "torn_header (Open_Corrupt (Bad_Header _ (Header_Io e))) = (ie_kind e = UnexpectedEof)"
| "torn_header _ = False"

fun damage :: "open_error \<Rightarrow> bool" where
  "damage (Open_Corrupt (Bad_Sidecar _)) = True"
| "damage (Open_Corrupt (Bad_Header p (Header_Io e))) = torn_header (Open_Corrupt (Bad_Header p (Header_Io e)))"
| "damage (Open_Corrupt (Bad_Header _ _)) = True"
| "damage _ = False"

lemma checkpoint_read_run:
  assumes inv: "log_inv C env s xs N"
  obtains (ok) q v where "checkpoint_read s = (s\<lparr>os_script := q\<rparr>, Inr (map_option (\<lambda>p. \<lparr>sc_offset = p, sc_version = Sidecar_Current\<rparr>) v))"
      "v \<in> C" "sidecar_value s (os_dir s) v"
    | (failed) q op e where "checkpoint_read s = (s\<lparr>os_script := q\<rparr>, Inl (Open_Io op e))"
proof -
  have "os_dir s \<in> set (os_dir_images s)" using log_invD(5) [OF inv] by (simp add: dirs_ok_def)
  then obtain v where v: "v \<in> C" "sidecar_value s (os_dir s) v" using log_invD(6) [OF inv] by (auto simp: sidecars_ok_def)
  show thesis
  proof (rule open_cases [of sidecar_name s])
    fix q assume "os_open sidecar_name s = (s\<lparr>os_script := q\<rparr>, Inl not_found)" "map_of (os_dir s) sidecar_name = None"
    then show thesis using v by (intro ok [of q v]) (auto simp: checkpoint_read_def not_found_def sidecar_value_def)
  next
    fix q d assume "os_open sidecar_name s = (s\<lparr>os_script := q\<rparr>, Inl (os_error d))"
    then show thesis by (intro failed) (simp add: checkpoint_read_def os_error_def)
  next
    fix q i assume o: "os_open sidecar_name s = (s\<lparr>os_script := q\<rparr>, Inr i)" and i: "map_of (os_dir s) sidecar_name = Some i"
    obtain p where p: "offset_ok p" "v = Some p" "data_of s i = sidecar_encode p"
      using v(2) i by (auto simp: sidecar_value_def data_of_def)
    show thesis
    proof (rule reader_cases [of i "s\<lparr>os_script := q\<rparr>"])
      fix q' assume "os_reader i (s\<lparr>os_script := q\<rparr>)
        = (s\<lparr>os_script := q, os_script := q'\<rparr>, \<lparr>rd_rest = data_of (s\<lparr>os_script := q\<rparr>) i, rd_end = eof_error\<rparr>)"
      then show thesis using o p v sidecar_decode_encode [OF p(1)] length_sidecar_encode [OF p(1)]
        by (intro ok [of q' v]) (simp_all add: checkpoint_read_def)
    next
      fix q' n d assume "os_reader i (s\<lparr>os_script := q\<rparr>)
        = (s\<lparr>os_script := q, os_script := q'\<rparr>, \<lparr>rd_rest = take n (data_of (s\<lparr>os_script := q\<rparr>) i), rd_end = os_error d\<rparr>)"
      moreover have "os_error d \<noteq> eof_error" by (simp add: os_error_def eof_error_def)
      moreover have "length (take n (sidecar_encode p)) < sidecar_len + 1"
        using length_sidecar_encode [OF p(1)] by simp
      ultimately show thesis using o p by (intro failed [of q']) (simp add: checkpoint_read_def)
    qed
  qed
qed

lemma open_existing_run:
  assumes env: "env_ok env" and inv: "log_inv C env s xs N" and ne: "xs \<noteq> []"
  obtains (ok) q P where "open_existing_segment (last (seg_names env xs)) s
        = (s\<lparr>os_script := q\<rparr>, Inr (seg_inode (last xs), seg_name env (seg_uuid (last xs)), seg_uuid (last xs)))"
      "torn (en_crc env) P"
      "data_of s (seg_inode (last xs)) = seg_bytes (en_crc env) (seg_uuid (last xs)) (seg_frames (last xs)) @ P"
    | (failed) q e where "open_existing_segment (last (seg_names env xs)) s = (s\<lparr>os_script := q\<rparr>, Inl e)"
      "damage e \<Longrightarrow> torn_header e \<and> N = 0"
proof -
  obtain ys u i fr where xs: "xs = ys @ [(u, i, fr)]" using ne by (metis append_butlast_last_id prod_cases3)
  have x: "(u, i, fr) \<in> set xs" by (simp add: xs)
  have uo: "uuid_ok u" using seg_uuid_ok [OF env inv x] by simp
  have ln: "last (seg_names env xs) = seg_name env u" by (simp add: xs)
  have dk: "data_ok (en_crc env) u fr (ys = [] \<and> N = 0) (data_of s i)"
    using newest_file(1) [OF inv [unfolded xs]] by (simp add: last_file_def data_of_def)
  show thesis
  proof (rule open_segment_cases [OF inv x])
    fix q d assume "os_open (seg_name env (seg_uuid (u, i, fr))) s = (s\<lparr>os_script := q\<rparr>, Inl (os_error d))"
    then show thesis
      by (intro failed [of q "Open_Io ''open(existing segment)'' (os_error d)"]) (simp_all add: open_existing_segment_def ln)
  next
    fix q assume o: "os_open (seg_name env (seg_uuid (u, i, fr))) s = (s\<lparr>os_script := q\<rparr>, Inr (seg_inode (u, i, fr)))"
    have go: "open_existing_segment (last (seg_names env xs)) s
        = (case os_reader i (s\<lparr>os_script := q\<rparr>) of (s, r) \<Rightarrow>
             (case read_header r of
                (_, Inl e) \<Rightarrow> (s, Inl (Open_Corrupt (Bad_Header (seg_name env u) e)))
              | (_, Inr h) \<Rightarrow> (s, Inr (i, seg_name env u, sh_uuid h))))"
      using o by (simp add: open_existing_segment_def ln)
    have good: thesis if "os_reader i (s\<lparr>os_script := q\<rparr>) = (s\<lparr>os_script := q'\<rparr>, \<lparr>rd_rest = take n (data_of s i), rd_end = e\<rparr>)"
        "segment_header_len \<le> n" "torn (en_crc env) P" "data_of s i = seg_bytes (en_crc env) u fr @ P" for q' n e P
      using that go read_header_seg [OF uo that(2), of "en_crc env" fr P e]
      by (intro ok [of q' P]) (simp_all add: xs segment_header_new_def)
    have bad: thesis if "os_reader i (s\<lparr>os_script := q\<rparr>) = (s\<lparr>os_script := q'\<rparr>, \<lparr>rd_rest = r, rd_end = e\<rparr>)"
        "length r < segment_header_len" "ie_kind e = UnexpectedEof \<Longrightarrow> N = 0" for q' r e
      using that go read_header_short [OF that(2), of e]
      by (intro failed [of q' "Open_Corrupt (Bad_Header (seg_name env u) (Header_Io e))"]) auto
    show thesis
    proof (rule reader_cases [of i "s\<lparr>os_script := q\<rparr>"])
      fix q' assume r: "os_reader i (s\<lparr>os_script := q\<rparr>)
        = (s\<lparr>os_script := q, os_script := q'\<rparr>, \<lparr>rd_rest = data_of (s\<lparr>os_script := q\<rparr>) i, rd_end = eof_error\<rparr>)"
      from dk consider (frames) P where "torn (en_crc env) P" "data_of s i = seg_bytes (en_crc env) u fr @ P"
        | (head) n where "N = 0" "n < segment_header_len" "data_of s i = take n (seg_header u)"
        by (auto simp: data_ok_def)
      then show thesis
      proof cases
        case frames
        then show thesis using good [of q' "length (data_of s i)" eof_error P] r uo by (simp add: seg_bytes_def)
      next
        case head
        then show thesis using bad [of q' "data_of s i" eof_error] r by simp
      qed
    next
      fix q' n d assume r: "os_reader i (s\<lparr>os_script := q\<rparr>)
        = (s\<lparr>os_script := q, os_script := q'\<rparr>, \<lparr>rd_rest = take n (data_of (s\<lparr>os_script := q\<rparr>) i), rd_end = os_error d\<rparr>)"
      show thesis
      proof (cases "length (take n (data_of s i)) < segment_header_len")
        case True
        then show thesis using bad [of q' "take n (data_of s i)" "os_error d"] r by (simp add: os_error_def)
      next
        case False
        from dk consider (frames) P where "torn (en_crc env) P" "data_of s i = seg_bytes (en_crc env) u fr @ P"
          | (head) m where "m < segment_header_len" "data_of s i = take m (seg_header u)"
          by (auto simp: data_ok_def)
        then show thesis
        proof cases
          case frames
          then show thesis using good [of q' n "os_error d" P] r False by simp
        next
          case head
          then show thesis using False by simp
        qed
      qed
    qed
  qed
qed

text \<open>The first segment of a root is created under its final name, before its header is written.\<close>

lemma fresh_inv:
  assumes env: "env_ok env" and inv: "log_inv C env s [] N" and u: "u = en_uuid env c" "c < os_minted s"
    and f: "last_file (en_crc env) u [] 0 True f"
  defines "s' \<equiv> put_dir (hm_insert (seg_name env u) (length (os_files s)) (os_dir s)) (s\<lparr>os_files := os_files s @ [f]\<rparr>)"
  shows "log_inv C env s' [(u, length (os_files s), [])] N"
proof -
  note I = log_invD [OF inv]
  let ?n = "length (os_files s)" and ?xs = "[(u, length (os_files s), []) :: seg]"
  let ?d = "hm_insert (seg_name env u) ?n (os_dir s)"
  have N: "N = 0" using I(3) by simp
  have uo: "uuid_ok u" using env u by (simp add: env_ok_def)
  note sn = seg_name_segment [OF env uo]
  have sc: "seg_name env u \<noteq> sidecar_name \<and> seg_name env u \<noteq> tmp_name" using sn sidecar_names_other by metis
  have bound: "i < ?n" if "d \<in> set (os_dir_images s)" "map_of d m = Some i" for d m i
    using I(5) that by (auto simp: dirs_ok_def sidecar_apart_def)
  have cur: "os_dir s \<in> set (os_dir_images s)" "dir_shows env (os_dir s) []" using I(5) by (simp_all add: dirs_ok_def)
  have show_d: "dir_shows env ?d ?xs"
    using dir_shows_add [OF env cur(2) uo, of ?n "[]"] by simp
  have old: "listing_ok env ?xs N d" if "d \<in> set (os_dir_images s)" for d
  proof -
    have "dir_shows env d []" using I(5) that by (auto simp: dirs_ok_def listing_ok_def)
    then show ?thesis unfolding listing_ok_def N by (intro exI [of _ 0]) simp
  qed
  have new: "listing_ok env ?xs N ?d" using show_d unfolding listing_ok_def N by (intro exI [of _ 1]) simp
  have ap: "sidecar_apart s' ?xs d" if "d \<in> set (os_dir_images s) \<or> d = ?d" for d
    using that bound cur(1) sc by (auto simp: sidecar_apart_def s'_def map_upd less_SucI dest: bound split: if_splits)
  have "dirs_ok env s' ?xs N" using old new show_d ap by (auto simp: dirs_ok_def s'_def)
  moreover have "ids_ok env s' ?xs" using u by (auto simp: ids_ok_def s'_def)
  moreover have "files_ok (en_crc env) s' ?xs N" using f N by (simp add: files_ok_def s'_def)
  moreover have "sidecars_ok s' C"
  proof (rule sidecars_ok_cong [OF I(6)])
    fix d' assume "d' \<in> set (os_dir_images s')"
    then show "\<exists>d \<in> set (os_dir_images s). map_of d' sidecar_name = map_of d sidecar_name \<and> map_of d' tmp_name = map_of d tmp_name"
      using cur(1) sc by (auto simp: s'_def map_upd)
  next
    show "map_of (os_dir s') tmp_name = map_of (os_dir s) tmp_name" using sc by (auto simp: s'_def map_upd)
  next
    fix d i assume "d \<in> set (os_dir_images s)" "map_of d sidecar_name = Some i"
    then show "os_files s' ! i = os_files s ! i" using bound by (simp add: s'_def nth_append)
  qed
  ultimately show ?thesis using I(1) N by (simp add: log_inv_def s'_def)
qed

lemma torn_header_file:
  assumes "uuid_ok u" and "\<forall>img \<in> set imgs. \<exists>n. img = take n (seg_header u)" and "data = take n (seg_header u)"
  shows "last_file crc u [] 0 True \<lparr>fl_data = data, fl_images = imgs @ [data]\<rparr>"
proof -
  have "image_ok crc u [] 0 True (take n (seg_header u)) \<and> data_ok crc u [] True (take n (seg_header u))" for n
  proof (cases "n < segment_header_len")
    case False
    then have "take n (seg_header u) = seg_bytes crc u [] @ []" using assms(1) by (simp add: seg_bytes_def)
    then show ?thesis by (auto simp: image_ok_def data_ok_def intro: exI [of _ "[]"])
  qed (auto simp: image_ok_def data_ok_def)
  then show ?thesis using assms(2,3) by (fastforce simp: last_file_def)
qed

lemma create_fresh_run:
  assumes env: "env_ok env" and inv: "log_inv C env s [] N"
  obtains (ok) s' i u where "create_fresh_segment env s = (s', Inr (i, seg_name env u, u))" "log_inv C env s' [(u, i, [])] N"
      "data_of s' i = seg_bytes (en_crc env) u []"
    | (failed) s' op e xs where "create_fresh_segment env s = (s', Inl (Open_Io op e))" "log_inv C env s' xs N" "log_entries xs = []"
proof -
  define u where "u = en_uuid env (os_minted s)"
  define s0 where "s0 = s\<lparr>os_minted := Suc (os_minted s)\<rparr>"
  have inv0: "log_inv C env s0 [] N" unfolding s0_def by (rule log_inv_cong [OF inv]) (use log_invD(1) [OF inv] in simp_all)
  have uo: "uuid_ok u" using env by (simp add: env_ok_def u_def)
  have um: "u = en_uuid env (os_minted s)" "os_minted s < os_minted s0" by (simp_all add: u_def s0_def)
  have go: "create_fresh_segment env s = (case create_segment_at (seg_name env u) u s0 of
      (s, Inl (op, e)) \<Rightarrow> (s, Inl (Open_Io op e)) | (s, Inr i) \<Rightarrow> (s, Inr (i, seg_name env u, u)))"
    unfolding create_fresh_segment_def mint_def u_def s0_def by simp
  let ?n = "length (os_files s0)" and ?d = "hm_insert (seg_name env u) (length (os_files s0)) (os_dir s0)"
  show thesis
  proof (rule create_new_cases [of "seg_name env u" s0])
    fix q e assume "os_create_new (seg_name env u) s0 = (s0\<lparr>os_script := q\<rparr>, Inl e)"
    then show thesis using inv0 by (intro failed [of "s0\<lparr>os_script := q\<rparr>" _ e "[]"]) (simp_all add: go create_segment_at_def)
  next
    fix q
    define mk where "mk f = put_dir ?d (s0\<lparr>os_files := os_files s0 @ [f]\<rparr>)" for f
    define s1 where "s1 = mk \<lparr>fl_data = [], fl_images = [[]]\<rparr>"
    assume "os_create_new (seg_name env u) s0 = ((put_dir ?d (s0\<lparr>os_files := os_files s0 @ [\<lparr>fl_data = [], fl_images = [[]]\<rparr>]\<rparr>))\<lparr>os_script := q\<rparr>, Inr ?n)"
    then have cr: "os_create_new (seg_name env u) s0 = (s1\<lparr>os_script := q\<rparr>, Inr ?n)" by (simp add: s1_def mk_def)
    have fl: "put_file ?n data s1 = mk \<lparr>fl_data = data, fl_images = [[]] @ [data]\<rparr>" for data
      by (simp add: put_file_def s1_def mk_def put_dir_def)
    have ok_inv: "log_inv C env (put_file ?n (take m (seg_header u)) s1) [(u, ?n, [])] N" for m
      unfolding fl mk_def
      by (rule fresh_inv [OF env inv0 um torn_header_file [OF uo]]) auto
    have hw: "write_header (os_write ?n) (s1\<lparr>os_script := q\<rparr>) (segment_header_new u) = os_write ?n (s1\<lparr>os_script := q\<rparr>) (seg_header u)"
      by (simp add: write_header_def seg_header_def)
    have ne: "seg_header u \<noteq> []" using length_seg_header [OF uo] by (auto simp: segment_header_len_def)
    have dn: "data_of s1 ?n = []" by (simp add: s1_def mk_def data_of_def nth_append)
    show thesis
    proof (rule write_cases [OF ne, of ?n "s1\<lparr>os_script := q\<rparr>"])
      fix q' m e assume "os_write ?n (s1\<lparr>os_script := q\<rparr>) (seg_header u)
          = ((put_file ?n (data_of (s1\<lparr>os_script := q\<rparr>) ?n @ take m (seg_header u)) (s1\<lparr>os_script := q\<rparr>))\<lparr>os_script := q'\<rparr>, Some e)"
      then show thesis using ok_inv [of m]
        by (intro failed [of "(put_file ?n (take m (seg_header u)) s1)\<lparr>os_script := q'\<rparr>" "''write(segment header)''" e "[(u, ?n, [])]"])
          (simp_all add: go create_segment_at_def cr hw dn script_last)
    next
      fix q' assume "os_write ?n (s1\<lparr>os_script := q\<rparr>) (seg_header u)
          = ((put_file ?n (data_of (s1\<lparr>os_script := q\<rparr>) ?n @ seg_header u) (s1\<lparr>os_script := q\<rparr>))\<lparr>os_script := q'\<rparr>, None)"
      then have cf: "create_fresh_segment env s = ((put_file ?n (seg_header u) s1)\<lparr>os_script := q'\<rparr>, Inr (?n, seg_name env u, u))"
        by (simp add: go create_segment_at_def cr hw dn script_last)
      have "log_inv C env (put_file ?n (seg_header u) s1) [(u, ?n, [])] N" using ok_inv [of "length (seg_header u)"] by simp
      moreover have "data_of (put_file ?n (seg_header u) s1) ?n = seg_bytes (en_crc env) u []"
        by (simp add: fl mk_def data_of_def nth_append seg_bytes_def)
      ultimately show thesis by (intro ok [OF cf]) simp_all
    qed
  qed
qed

lemma log_inv_mono: "log_inv C env s xs N \<Longrightarrow> C \<subseteq> C' \<Longrightarrow> log_inv C' env s xs N"
  unfolding log_inv_def sidecars_ok_def by (meson subset_iff)

lemma log_inv_settled:
  assumes "log_inv C env s xs N" and "os_dir_images s = [os_dir s]" and "sidecar_value s (os_dir s) v"
  shows "log_inv {v} env s xs N"
  using assms by (auto simp: log_inv_def sidecars_ok_def)

definition reconcile_ok :: "(sidecar option \<Rightarrow> bytes list \<Rightarrow> open_error + reconciled) \<Rightarrow> bool" where
  "reconcile_ok reconcile \<longleftrightarrow> (\<forall>sc names e. reconcile sc names = Inl e \<longrightarrow> \<not> damage e)"

lemma validate_config_plain:
  assumes "validate_config c = Some e"
  shows "\<not> damage e"
proof -
  have "\<exists>f d. e = InvalidConfig f d"
    using assms
    by (auto simp: validate_config_def or_else_def validate_durability_window_def validate_segment_bounds_def
        validate_cadences_def validate_reclamation_def in_range_def
        split: if_splits option.splits)
  then show ?thesis by auto
qed

definition opened ::
  "wal_offset option set \<Rightarrow> wal_env \<Rightarrow> seg list \<Rightarrow> nat \<Rightarrow> os \<times> (open_error + wal) \<Rightarrow> bool" where
  "opened C env xs N res \<longleftrightarrow>
     (case res of
        (s', Inl e) \<Rightarrow>
          (damage e \<longrightarrow> torn_header e \<and> N = 0) \<and> (\<exists>xs'. log_inv C env s' xs' N \<and> log_entries xs' = log_entries xs)
      | (s', Inr w) \<Rightarrow>
          wl_checkpoint w \<in> C
          \<and> (\<exists>xs' P. xs' \<noteq> [] \<and> log_inv {wl_checkpoint w} env s' xs' N \<and> target env s' w xs' \<and> torn (en_crc env) P
               \<and> data_of s' (seg_inode (last xs')) = seg_bytes (en_crc env) (seg_uuid (last xs')) (seg_frames (last xs')) @ P
               \<and> log_entries xs' = log_entries xs))"

lemma append_target_run:
  assumes env: "env_ok env" and inv: "log_inv C env s xs N"
  obtains (ok) s' i path u xs' P where "append_target env (seg_names env xs) s = (s', Inr (i, path, u))"
      "xs' \<noteq> []" "log_inv C env s' xs' N" "log_entries xs' = log_entries xs" "torn (en_crc env) P"
      "i = seg_inode (last xs')" "u = seg_uuid (last xs')" "path = seg_name env u"
      "data_of s' i = seg_bytes (en_crc env) u (seg_frames (last xs')) @ P"
    | (failed) s' e xs' where "append_target env (seg_names env xs) s = (s', Inl e)" "damage e \<Longrightarrow> torn_header e \<and> N = 0"
      "log_inv C env s' xs' N" "log_entries xs' = log_entries xs"
proof (cases "xs = []")
  case True
  show ?thesis
  proof (rule create_fresh_run [OF env inv [unfolded True]])
    fix s' i u assume "create_fresh_segment env s = (s', Inr (i, seg_name env u, u))" "log_inv C env s' [(u, i, [])] N"
      "data_of s' i = seg_bytes (en_crc env) u []"
    then show ?thesis using True by (intro ok [of s' i "seg_name env u" u "[(u, i, [])]" "[]"]) (simp_all add: append_target_def)
  next
    fix s' op e xs' assume "create_fresh_segment env s = (s', Inl (Open_Io op e))" "log_inv C env s' xs' N" "log_entries xs' = []"
    then show ?thesis using True by (intro failed [of s' "Open_Io op e" xs']) (simp_all add: append_target_def)
  qed
next
  case False
  show ?thesis
  proof (rule open_existing_run [OF env inv False])
    fix q P assume "open_existing_segment (last (seg_names env xs)) s
        = (s\<lparr>os_script := q\<rparr>, Inr (seg_inode (last xs), seg_name env (seg_uuid (last xs)), seg_uuid (last xs)))"
      "torn (en_crc env) P"
      "data_of s (seg_inode (last xs)) = seg_bytes (en_crc env) (seg_uuid (last xs)) (seg_frames (last xs)) @ P"
    then show ?thesis using False inv
      by (intro ok [of "s\<lparr>os_script := q\<rparr>" "seg_inode (last xs)" "seg_name env (seg_uuid (last xs))" "seg_uuid (last xs)" xs P])
        (simp_all add: append_target_def)
  next
    fix q e assume "open_existing_segment (last (seg_names env xs)) s = (s\<lparr>os_script := q\<rparr>, Inl e)"
      "damage e \<Longrightarrow> torn_header e \<and> N = 0"
    then show ?thesis using False inv by (intro failed [of "s\<lparr>os_script := q\<rparr>" e xs]) (simp_all add: append_target_def)
  qed
qed

lemma wal_open_run:
  assumes env: "env_ok env" and inv: "log_inv C env s xs N" and rc: "reconcile_ok reconcile"
  shows "opened C env xs N (wal_open env reconcile cfg s)"
proof (cases "validate_config cfg")
  case (Some e)
  then show ?thesis using validate_config_plain [OF Some] inv by (auto simp: wal_open_def opened_def)
next
  case None
  show ?thesis
  proof (rule sync_dir_cases [of s])
    fix q e assume "os_sync_dir s = (s\<lparr>os_script := q\<rparr>, Some e)"
    then show ?thesis using None inv by (auto simp: wal_open_def opened_def)
  next
    fix q
    define s1 where "s1 = s\<lparr>os_dir_images := [os_dir s], os_script := q\<rparr>"
    assume "os_sync_dir s = (s\<lparr>os_dir_images := [os_dir s], os_script := q\<rparr>, None)"
    then have y: "os_sync_dir s = (s1, None)" by (simp add: s1_def)
    have i1: "log_inv C env s1 xs N" using sync_dir_inv [OF inv] by (simp add: s1_def)
    show ?thesis
    proof (rule checkpoint_read_run [OF i1])
      fix q op e assume "checkpoint_read s1 = (s1\<lparr>os_script := q\<rparr>, Inl (Open_Io op e))"
      then show ?thesis using None y i1 by (auto simp: wal_open_def opened_def)
    next
      fix q v assume r: "checkpoint_read s1 = (s1\<lparr>os_script := q\<rparr>,
          Inr (map_option (\<lambda>p. \<lparr>sc_offset = p, sc_version = Sidecar_Current\<rparr>) v))"
        and v: "v \<in> C" "sidecar_value s1 (os_dir s1) v"
      let ?sc = "map_option (\<lambda>p. \<lparr>sc_offset = p, sc_version = Sidecar_Current\<rparr>) v"
      have iv: "log_inv {v} env s1 xs N" by (rule log_inv_settled [OF i1 _ v(2)]) (simp add: s1_def)
      have iq: "log_inv {v} env (s1\<lparr>os_script := q\<rparr>) xs N" for q using iv by simp
      have mono: "log_inv C env t ys N" if "log_inv {v} env t ys N" for t ys using log_inv_mono [OF that] v(1) by simp
      show ?thesis
      proof (rule list_segments_cases [OF env iq [of q]])
        fix q' e assume "list_segments (s1\<lparr>os_script := q\<rparr>) = (s1\<lparr>os_script := q, os_script := q'\<rparr>, Inl (''read_dir(wal_root)'', e))"
        then show ?thesis using None y r i1 by (auto simp: wal_open_def opened_def)
      next
        fix q' assume l: "list_segments (s1\<lparr>os_script := q\<rparr>) = (s1\<lparr>os_script := q, os_script := q'\<rparr>, Inr (seg_names env xs))"
        show ?thesis
        proof (rule partials_cases [of env "s1\<lparr>os_script := q'\<rparr>"])
          fix q'' e assume "list_partials env (s1\<lparr>os_script := q'\<rparr>) = (s1\<lparr>os_script := q', os_script := q''\<rparr>, Inl (''read_dir(wal_root)'', e))"
          then show ?thesis using None y r l i1 by (auto simp: wal_open_def opened_def)
        next
          fix q'' ps assume p: "list_partials env (s1\<lparr>os_script := q'\<rparr>) = (s1\<lparr>os_script := q', os_script := q''\<rparr>, Inr ps)"
          show ?thesis
          proof (cases "reconcile ?sc (seg_names env xs)")
            case (Inl e)
            then show ?thesis using None y r l p i1 rc by (auto simp: wal_open_def opened_def reconcile_ok_def)
          next
            case (Inr rcd)
            note go = None y r l p Inr
            show ?thesis
            proof (rule append_target_run [OF env iq [of q'']])
              fix s' e xs' assume "append_target env (seg_names env xs) (s1\<lparr>os_script := q''\<rparr>) = (s', Inl e)"
                "damage e \<Longrightarrow> torn_header e \<and> N = 0" "log_inv {v} env s' xs' N" "log_entries xs' = log_entries xs"
              then show ?thesis using go mono by (auto simp: wal_open_def opened_def)
            next
              fix s' i path u xs' P assume a: "append_target env (seg_names env xs) (s1\<lparr>os_script := q''\<rparr>) = (s', Inr (i, path, u))"
                and b: "xs' \<noteq> []" "log_inv {v} env s' xs' N" "log_entries xs' = log_entries xs" "torn (en_crc env) P"
                "i = seg_inode (last xs')" "u = seg_uuid (last xs')" "path = seg_name env u"
                "data_of s' i = seg_bytes (en_crc env) u (seg_frames (last xs')) @ P"
              have "map_option sc_offset ?sc = v" by (cases v) simp_all
              then obtain w where w: "wal_open env reconcile cfg s = (s', Inr w)" "wl_checkpoint w = v" "target env s' w xs'"
                using go a b(5-7) by (simp add: wal_open_def target_def)
              then show ?thesis using b v(1) by (auto simp: opened_def)
            qed
          qed
        qed
      qed
    qed
  qed
qed

end
