(* ===== verification/Wal_Mints.thy ===== *)
theory Wal_Mints
  imports Wal_Recovery
begin

text \<open>
  No call of the log asks for more than one fresh segment id: the budget the ordering of segment names
  needs is spent at most once per operation.
\<close>

named_theorems mints "what a call does to the count of ids drawn"

lemma next_io_mints [mints]: "next_io s = (s', r) \<Longrightarrow> os_minted s' = os_minted s"
  by (rule next_io_cases [of s]) auto

lemma put_mints [simp]: "os_minted (put_file i data s) = os_minted s"
  by (simp add: put_file_def)

lemma os_mints [mints]:
  "os_stat i s = (s', a) \<Longrightarrow> os_minted s' = os_minted s"
  "os_write i s buf = (s', b) \<Longrightarrow> os_minted s' = os_minted s"
  "os_set_len i n s = (s', b) \<Longrightarrow> os_minted s' = os_minted s"
  "os_sync_data i s = (s', b) \<Longrightarrow> os_minted s' = os_minted s"
  "os_sync_dir s = (s', b) \<Longrightarrow> os_minted s' = os_minted s"
  "os_create_new name s = (s', a) \<Longrightarrow> os_minted s' = os_minted s"
  "os_rename p q s = (s', b) \<Longrightarrow> os_minted s' = os_minted s"
  "os_read_dir s = (s', c) \<Longrightarrow> os_minted s' = os_minted s"
  "os_open name s = (s', a) \<Longrightarrow> os_minted s' = os_minted s"
  "os_reader i s = (s', r) \<Longrightarrow> os_minted s' = os_minted s"
  by (auto simp: os_stat_def os_write_def os_set_len_def os_sync_data_def os_sync_dir_def os_create_new_def os_rename_def
      os_read_dir_def os_open_def os_reader_def Let_def split: prod.splits option.splits if_splits dest!: next_io_mints)

lemma os_create_mints [mints]: "os_create name s = (s', a) \<Longrightarrow> os_minted s' = os_minted s"
  by (auto simp: os_create_def split: option.splits prod.splits dest!: mints)

lemma create_segment_mints [mints]: "create_segment_at path u s = (s', r) \<Longrightarrow> os_minted s' = os_minted s"
  by (auto simp: create_segment_at_def write_header_def split: prod.splits sum.splits option.splits dest!: mints)

lemma discharge_owed_mints [mints]: "discharge_owed_rotation_fsync s w = (s', w', r) \<Longrightarrow> os_minted s' = os_minted s"
  by (auto simp: discharge_owed_rotation_fsync_def split: prod.splits option.splits if_splits dest!: mints)

lemma create_partial_mints: "create_partial env s w = (s', w', r) \<Longrightarrow> os_minted s' = Suc (os_minted s)"
  by (auto simp: create_partial_def mint_def Let_def split: prod.splits sum.splits dest!: mints)

lemma install_fresh_mints: "install_fresh env s w = (s', w', r) \<Longrightarrow> os_minted s' = Suc (os_minted s)"
  by (auto simp: install_fresh_def Let_def split: prod.splits sum.splits option.splits dest!: mints create_partial_mints)

lemma rotate_now_mints: "rotate_now env written s w = (s', w', r) \<Longrightarrow> os_minted s' \<le> Suc (os_minted s)"
  by (auto simp: rotate_now_def split: prod.splits option.splits dest!: mints install_fresh_mints)

lemma wal_rotate_mints: "wal_rotate env written kind s w = (s', w', r) \<Longrightarrow> os_minted s' \<le> Suc (os_minted s)"
  by (auto simp: wal_rotate_def split: prod.splits option.splits sum.splits if_splits dest!: mints dest: rotate_now_mints)

lemma write_frame_mints [mints]:
  "write_frame crc (os_write i) s k p = Some (s', r) \<Longrightarrow> os_minted s' = os_minted s"
  by (auto simp: write_frame_def split: prod.splits option.splits if_splits dest!: mints)

lemma append_frame_mints [mints]: "append_frame env k p n s w = Some (s', w', r) \<Longrightarrow> os_minted s' = os_minted s"
proof -
  assume a: "append_frame env k p n s w = Some (s', w', r)"
  obtain s1 x where f: "write_frame (en_crc env) (os_write (wl_segment w)) s k p = Some (s1, x)"
    using a by (auto simp: append_frame_def split: option.splits)
  obtain s2 y where t: "os_set_len (wl_segment w) n s1 = (s2, y)" by fastforce
  show ?thesis using a f t mints(4) [OF t] write_frame_mints [OF f] by (cases x) (auto simp: append_frame_def Let_def)
qed

lemma wal_append_mints:
  assumes "wal_append env now written k p s w = Some (s', w', r)"
  shows "os_minted s' \<le> Suc (os_minted s)"
  using assms
  by (auto simp: wal_append_def split: prod.splits option.splits sum.splits if_splits dest!: mints dest: rotate_now_mints)

lemma discharge_dir_mints [mints]: "discharge_dir_fsync s w = (s', w', r) \<Longrightarrow> os_minted s' = os_minted s"
  by (auto simp: discharge_dir_fsync_def discharge_open_fsync_def discharge_rotation_fsync_def
      split: prod.splits option.splits dir_fsync.splits dest!: mints)

lemma wal_sync_mints: "wal_sync s w = (s', w', r) \<Longrightarrow> os_minted s' = os_minted s"
  by (auto simp: wal_sync_def split: prod.splits option.splits dir_fsync.splits sum.splits dest!: mints)

lemma checkpoint_write_mints [mints]: "checkpoint_write p s = (s', r) \<Longrightarrow> os_minted s' = os_minted s"
  by (auto simp: checkpoint_write_def split: prod.splits option.splits sum.splits dest!: mints)

lemma wal_checkpoint_mints: "wal_checkpoint written p s w = (s', w', r) \<Longrightarrow> os_minted s' = os_minted s"
  by (auto simp: wal_checkpoint_def advance_checkpoint_def Let_def split: prod.splits option.splits if_splits dest!: mints)

lemma checkpoint_read_mints [mints]: "checkpoint_read s = (s', r) \<Longrightarrow> os_minted s' = os_minted s"
  by (auto simp: checkpoint_read_def split: prod.splits sum.splits dest!: mints)

lemma list_mints [mints]:
  "list_segments s = (s', a) \<Longrightarrow> os_minted s' = os_minted s"
  "list_partials env s = (s', b) \<Longrightarrow> os_minted s' = os_minted s"
  by (auto simp: list_segments_def list_partials_def split: prod.splits sum.splits dest!: mints)

lemma append_target_mints: "append_target env names s = (s', r) \<Longrightarrow> os_minted s' \<le> Suc (os_minted s)"
  by (auto simp: append_target_def create_fresh_segment_def open_existing_segment_def mint_def
      split: prod.splits sum.splits if_splits dest!: mints)

lemma wal_open_mints: "wal_open env reconcile cfg s = (s', r) \<Longrightarrow> os_minted s' \<le> Suc (os_minted s)"
  by (auto simp: wal_open_def split: prod.splits sum.splits option.splits dest!: mints dest: append_target_mints)

lemma replay_segment_mints [mints]: "replay_segment crc consume path newest st s = (s', r) \<Longrightarrow> os_minted s' = os_minted s"
  by (auto simp: replay_segment_def split: prod.splits sum.splits header_error.splits dest!: mints)

lemma heal_mints [mints]: "heal_newest_segment n s w = (s', r) \<Longrightarrow> os_minted s' = os_minted s"
  by (auto simp: heal_newest_segment_def split: prod.splits option.splits dest!: mints)

lemma replay_paths_mints [mints]: "replay_paths crc consume paths st s w = (s', r) \<Longrightarrow> os_minted s' = os_minted s"
proof (induction paths arbitrary: st s w)
  case (Cons path paths)
  obtain s1 st1 res where p: "replay_segment crc consume path (paths = []) st s = (s1, st1, res)" by (metis prod_cases3)
  have m1: "os_minted s1 = os_minted s" by (rule replay_segment_mints [OF p])
  show ?case
  proof (cases res)
    case (Inl e)
    then show ?thesis using Cons.prems p m1 by simp
  next
    case (Inr scan)
    show ?thesis
    proof (cases scan)
      case CleanTail
      then show ?thesis using Cons.prems Cons.IH p m1 Inr by simp
    next
      case (TornTail n)
      obtain s2 w2 x where h: "heal_newest_segment n s1 w = (s2, w2, x)" by (metis prod_cases3)
      have "os_minted s2 = os_minted s1" by (rule heal_mints [OF h])
      then show ?thesis using Cons.prems Cons.IH p m1 Inr TornTail h by (cases x) simp_all
    qed
  qed
qed simp

lemma wal_replay_mints: "wal_replay crc consume st s w = (s', r) \<Longrightarrow> os_minted s' = os_minted s"
  by (auto simp: wal_replay_def split: prod.splits sum.splits dest!: mints)

end
