(* ===== verification/Sample_Env.thy ===== *)
theory Sample_Env
  imports Wal_Mints
begin

text \<open>
  A concrete environment for the log: ids counted up from zero as sixteen big-endian bytes, their
  hyphenated hexadecimal text, and a reconciliation that accepts every root. It has what the log relies
  on the \<open>uuid\<close> crate for.
\<close>

definition sample_uuid :: "nat \<Rightarrow> uuid" where
  "sample_uuid n = rev (le_bytes 16 n)"

definition hex_digit :: "nat \<Rightarrow> char" where
  "hex_digit d = char_of (if d < 10 then 48 + d else 87 + d)"

definition hex_byte :: "char \<Rightarrow> bytes" where
  "hex_byte c = [hex_digit (of_char c div 16), hex_digit (of_char c mod 16)]"

definition hex_block :: "nat \<Rightarrow> char \<Rightarrow> bytes" where
  "hex_block i c = hex_byte c @ (if i \<in> {3, 5, 7, 9} then ''-'' else [])"

definition hyphenated :: "uuid \<Rightarrow> bytes" where
  "hyphenated u = concat (map2 hex_block [0..<16] u)"

definition sample_env :: wal_env where
  "sample_env = \<lparr>en_crc = toy_crc, en_uuid = sample_uuid, en_text = hyphenated,
     en_is_uuid = (\<lambda>t. length t = 36), en_age = (\<lambda>_ _. None)\<rparr>"

definition sample_config :: wal_config where
  "sample_config = \<lparr>wc_batch_window_ms = 0, wc_segment_size_bytes = min_segment_size_bytes,
     wc_segment_age_secs = min_segment_age_secs, wc_housekeeping_secs = min_housekeeping_secs,
     wc_max_unlinks_per_pass = 128, wc_rotation_retry_attempts = min_rotation_retry_attempts\<rparr>"

definition sample_reconcile :: "sidecar option \<Rightarrow> bytes list \<Rightarrow> open_error + reconciled" where
  "sample_reconcile sc names = Inr \<lparr>rc_record = Some Seen, rc_gate = Gate_Open, rc_legacy = False\<rparr>"

section \<open>It satisfies the hypotheses\<close>

lemma char_less: "(a :: char) < b \<longleftrightarrow> (of_char a :: nat) < of_char b"
  by (simp add: less_char_def)

lemma append_less_right: "length a = length b \<Longrightarrow> a < b \<Longrightarrow> a @ x < b @ y" for a b x y :: "'a :: linorder list"
  by (induction a b rule: list_induct2) auto

lemma append_less_left: "x < y \<Longrightarrow> a @ x < a @ y" for a x y :: "'a :: linorder list"
  by (induction a) auto

lemma le_bytes_less:
  "a < b \<Longrightarrow> b < 256 ^ n \<Longrightarrow> rev (le_bytes n a) < rev (le_bytes n b)"
proof (induction n arbitrary: a b)
  case (Suc n)
  have b: "b div 256 < 256 ^ n" using Suc.prems(2) by (simp add: div_less_iff_less_mult mult.commute)
  show ?case
  proof (cases "a div 256 < b div 256")
    case True
    from append_less_right [OF _ Suc.IH [OF True b]] show ?thesis by simp
  next
    case False
    have eq: "a div 256 = b div 256" using False div_le_mono [of a b 256] Suc.prems(1) by linarith
    then have "a mod 256 < b mod 256" using Suc.prems(1) by (metis div_mult_mod_eq nat_add_left_cancel_less)
    then have "[char_of (a mod 256)] < [char_of (b mod 256) :: char]" by (simp add: char_less)
    from append_less_left [OF this] eq show ?thesis by simp
  qed
qed simp

lemma hex_digit_less: "a < b \<Longrightarrow> b < 16 \<Longrightarrow> hex_digit a < hex_digit b"
  by (auto simp: hex_digit_def char_less of_char_of)

lemma length_hex_block: "length (hex_block i c) = (if i \<in> {3, 5, 7, 9} then 3 else 2)"
  by (simp add: hex_block_def hex_byte_def)

lemma hex_block_less: "c < d \<Longrightarrow> hex_block i c < hex_block i d"
proof -
  assume "c < d"
  then have lt: "(of_char c :: nat) < of_char d" by (simp add: char_less)
  have d: "(of_char d :: nat) < 256" by (rule nat_of_char_less_256)
  have "hex_byte c < hex_byte d"
  proof (cases "(of_char c :: nat) div 16 < of_char d div 16")
    case True
    moreover have "(of_char d :: nat) div 16 < 16" using d by (simp add: div_less_iff_less_mult)
    ultimately show ?thesis using hex_digit_less [OF True] by (simp add: hex_byte_def)
  next
    case False
    have eq: "(of_char c :: nat) div 16 = of_char d div 16" using False div_le_mono [of "of_char c :: nat" "of_char d" 16] lt by linarith
    then have "(of_char c :: nat) mod 16 < of_char d mod 16" using lt by (metis div_mult_mod_eq nat_add_left_cancel_less)
    from hex_digit_less [OF this] eq show ?thesis by (simp add: hex_byte_def)
  qed
  then show ?thesis unfolding hex_block_def by (intro append_less_right) (simp_all add: hex_byte_def)
qed

lemma blocks_less:
  "length u = length v \<Longrightarrow> length is = length v \<Longrightarrow> u < v \<Longrightarrow> concat (map2 hex_block is u) < concat (map2 hex_block is v)"
proof (induction u v arbitrary: "is" rule: list_induct2)
  case (Cons c u d v)
  obtain i js where "is": "is = i # js" using Cons.prems(1) by (cases "is") auto
  show ?case
  proof (cases "c < d")
    case True
    then show ?thesis unfolding "is" by (simp add: append_less_right [OF _ hex_block_less] length_hex_block)
  next
    case False
    then have "c = d" "u < v" using Cons.prems(2) by auto
    then show ?thesis using Cons.IH [of js] Cons.prems(1) "is" by (simp add: append_less_left)
  qed
qed simp

lemma length_blocks:
  "length js = length u \<Longrightarrow> length (concat (map2 hex_block js u)) = sum_list (map (\<lambda>i. if i \<in> {3, 5, 7, 9} then 3 else 2) js)"
  by (induction js u rule: list_induct2) (simp_all add: length_hex_block)

lemma length_hyphenated: "uuid_ok u \<Longrightarrow> length (hyphenated u) = 36"
  by (simp add: hyphenated_def uuid_ok_def length_blocks upt_rec)

lemma sample_env_ok: "env_ok sample_env"
proof -
  have "sample_uuid a < sample_uuid b" if "a < b" "b < mint_limit" for a b
    unfolding sample_uuid_def using that by (intro le_bytes_less) (simp_all add: mint_limit_def)
  moreover have "uuid_ok (sample_uuid n)" for n by (simp add: sample_uuid_def uuid_ok_def)
  moreover have "hyphenated u < hyphenated v" if "uuid_ok u" "uuid_ok v" "u < v" for u v
    unfolding hyphenated_def using that by (intro blocks_less) (simp_all add: uuid_ok_def)
  ultimately show ?thesis by (simp add: env_ok_def sample_env_def length_hyphenated)
qed

lemma sample_reconcile_ok: "reconcile_ok sample_reconcile"
  by (simp add: reconcile_ok_def sample_reconcile_def)

end
