(* ===== verification/Trace_Refinement.thy ===== *)
theory Trace_Refinement
  imports Main
begin

text \<open>
  Trace refinement: a machine takes operations and answers with events, a specification admits or
  refuses events. When every step of the machine answers with an event the specification admits in a
  related state, every run's whole trace is admitted. The relation carries a budget that each step may
  spend one of, for machines that draw on a supply that is large but not endless.
\<close>

fun run_trace :: "('op \<Rightarrow> 's \<Rightarrow> 's \<times> 'e) \<Rightarrow> 'op list \<Rightarrow> 's \<Rightarrow> 's \<times> 'e list" where
  "run_trace step [] s = (s, [])"
| "run_trace step (p # ps) s =
     (case step p s of (s, e) \<Rightarrow> (case run_trace step ps s of (s, es) \<Rightarrow> (s, e # es)))"

fun admitted :: "('a \<Rightarrow> 'e \<Rightarrow> 'a option) \<Rightarrow> 'a \<Rightarrow> 'e list \<Rightarrow> 'a option" where
  "admitted admits a [] = Some a"
| "admitted admits a (e # es) = (case admits a e of None \<Rightarrow> None | Some a \<Rightarrow> admitted admits a es)"

locale trace_refinement =
  fixes step :: "'op \<Rightarrow> 's \<Rightarrow> 's \<times> 'e"
    and admits :: "'a \<Rightarrow> 'e \<Rightarrow> 'a option"
    and legal :: "'op \<Rightarrow> bool"
    and sim :: "nat \<Rightarrow> 's \<Rightarrow> 'a \<Rightarrow> bool"
  assumes simulates: "sim (Suc n) s a \<Longrightarrow> legal p \<Longrightarrow> step p s = (s', e) \<Longrightarrow> \<exists>a'. admits a e = Some a' \<and> sim n s' a'"
begin

lemma run_admitted:
  assumes "sim (length ps + n) s a" and "list_all legal ps"
  shows "\<exists>a'. admitted admits a (snd (run_trace step ps s)) = Some a' \<and> sim n (fst (run_trace step ps s)) a'"
  using assms
proof (induction ps arbitrary: s a)
  case (Cons p ps)
  obtain s1 e where st: "step p s = (s1, e)" by fastforce
  have "sim (Suc (length ps + n)) s a" using Cons.prems(1) by simp
  then obtain a1 where a1: "admits a e = Some a1" "sim (length ps + n) s1 a1"
    using simulates [OF _ _ st] Cons.prems(2) by auto
  from Cons.IH [OF a1(2)] Cons.prems(2) a1(1) show ?case by (auto simp: st split: prod.split)
qed simp

end

lemma admitted_append:
  "admitted admits a (es @ fs) = (case admitted admits a es of None \<Rightarrow> None | Some a \<Rightarrow> admitted admits a fs)"
  by (induction es arbitrary: a) (auto split: option.split)

end
