(* ===== verification/Wal_Durability.thy ===== *)
theory Wal_Durability
  imports Sample_Env Trace_Refinement "HOL-Library.Code_Target_Nat"
begin

text \<open>
  The log as a durable sequence. A machine owns a root directory and at most one open log; its
  operations are the calls of the log's interface, each with the system calls that fail during it, the
  death of the process and the loss of power. A short specification says which answers are allowed:
  what recovery returns is what was acknowledged, then possibly more of what was appended, in order;
  the checkpoint is a register that never goes back.
\<close>

section \<open>The machine\<close>

record wal_world =
  wd_os :: os
  wd_wal :: "wal option"

datatype wal_op =
  Do_Open "sidecar option \<Rightarrow> bytes list \<Rightarrow> open_error + reconciled" wal_config
| Do_Append nat "io_error option" frame_kind bytes
| Do_Sync
| Do_Rotate rotation_kind "io_error option"
| Do_Checkpoint "io_error option \<times> io_error option" wal_offset
| Do_Kill "(frame_kind \<times> bytes \<times> nat) option"
| Do_Crash crash_choice

datatype wal_event =
  Ev_Opened "entry list" "wal_offset option"
| Ev_Open_Failed open_error
| Ev_Replay_Failed recovery_error
| Ev_Appended wal_offset frame_kind bytes
| Ev_Append_Failed append_error
| Ev_Panicked
| Ev_Synced wal_offset
| Ev_Sync_Failed sync_error
| Ev_Rotated "append_error option"
| Ev_Checkpointed wal_offset
| Ev_Checkpoint_Failed wal_offset checkpoint_error
| Ev_Killed "entry option"
| Ev_Crashed
| Ev_Idle

text \<open>Start-up opens the root and replays it; a failed replay drops the handle.\<close>

definition start ::
  "wal_env \<Rightarrow> (sidecar option \<Rightarrow> bytes list \<Rightarrow> open_error + reconciled) \<Rightarrow> wal_config \<Rightarrow> os \<Rightarrow> wal_world \<times> wal_event" where
  "start env reconcile cfg s =
     (case wal_open env reconcile cfg s of
        (s, Inl e) \<Rightarrow> (\<lparr>wd_os = s, wd_wal = None\<rparr>, Ev_Open_Failed e)
      | (s, Inr w) \<Rightarrow>
          (case wal_replay (en_crc env) collect [] s w of
             (s, _, _, Some e) \<Rightarrow> (\<lparr>wd_os = s, wd_wal = None\<rparr>, Ev_Replay_Failed e)
           | (s, es, w, None) \<Rightarrow> (\<lparr>wd_os = s, wd_wal = Some w\<rparr>, Ev_Opened es (wl_checkpoint w))))"

text \<open>A process that dies while \<open>append\<close> writes its frame leaves a prefix of the frame's bytes.\<close>

definition kill_in_append :: "wal_env \<Rightarrow> frame_kind \<Rightarrow> bytes \<Rightarrow> nat \<Rightarrow> os \<Rightarrow> wal \<Rightarrow> os \<times> entry option" where
  "kill_in_append env kind payload n s w =
     (let i = wl_segment w; len = length (data_of s i);
          frame = frame_bytes (en_crc env) (kind, payload)
      in (put_file i (data_of s i @ take n frame) s,
          if n < length frame then None else Some (Wal_Offset (wl_uuid w) (len + length frame), kind, payload)))"

fun world_op :: "wal_env \<Rightarrow> wal_op \<Rightarrow> os \<Rightarrow> wal option \<Rightarrow> wal_world \<times> wal_event" where
  "world_op env (Do_Crash c) s _ = (\<lparr>wd_os = crash c s, wd_wal = None\<rparr>, Ev_Crashed)"
| "world_op env (Do_Open reconcile cfg) s None = start env reconcile cfg s"
| "world_op env (Do_Append now written kind payload) s (Some w) =
     (case wal_append env now written kind payload s w of
        None \<Rightarrow> (\<lparr>wd_os = s, wd_wal = None\<rparr>, Ev_Panicked)
      | Some (s, w, Inl e) \<Rightarrow> (\<lparr>wd_os = s, wd_wal = Some w\<rparr>, Ev_Append_Failed e)
      | Some (s, w, Inr p) \<Rightarrow> (\<lparr>wd_os = s, wd_wal = Some w\<rparr>, Ev_Appended p kind payload))"
| "world_op env Do_Sync s (Some w) =
     (case wal_sync s w of
        (s, w, Inl e) \<Rightarrow> (\<lparr>wd_os = s, wd_wal = Some w\<rparr>, Ev_Sync_Failed e)
      | (s, w, Inr p) \<Rightarrow> (\<lparr>wd_os = s, wd_wal = Some w\<rparr>, Ev_Synced p))"
| "world_op env (Do_Rotate kind written) s (Some w) =
     (case wal_rotate env written kind s w of
        (s, w, r) \<Rightarrow> (\<lparr>wd_os = s, wd_wal = Some w\<rparr>, Ev_Rotated r))"
| "world_op env (Do_Checkpoint written p) s (Some w) =
     (case wal_checkpoint written p s w of
        (s, w, Some e) \<Rightarrow> (\<lparr>wd_os = s, wd_wal = Some w\<rparr>, Ev_Checkpoint_Failed p e)
      | (s, w, None) \<Rightarrow> (\<lparr>wd_os = s, wd_wal = Some w\<rparr>, Ev_Checkpointed p))"
| "world_op env (Do_Kill None) s (Some w) = (\<lparr>wd_os = s, wd_wal = None\<rparr>, Ev_Killed None)"
| "world_op env (Do_Kill (Some (kind, payload, n))) s (Some w) =
     (case kill_in_append env kind payload n s w of
        (s, e) \<Rightarrow> (\<lparr>wd_os = s, wd_wal = None\<rparr>, Ev_Killed e))"
| "world_op env _ s w = (\<lparr>wd_os = s, wd_wal = w\<rparr>, Ev_Idle)"

definition world_step :: "wal_env \<Rightarrow> io_fault list \<times> wal_op \<Rightarrow> wal_world \<Rightarrow> wal_world \<times> wal_event" where
  "world_step env p d = world_op env (snd p) ((wd_os d)\<lparr>os_script := fst p\<rparr>) (wd_wal d)"

definition world_init :: wal_world where
  "world_init = \<lparr>wd_os = os_empty True, wd_wal = None\<rparr>"

text \<open>Arguments within their Rust types, and a reconciliation that reports faults of its own file only.\<close>

fun op_legal :: "wal_op \<Rightarrow> bool" where
  "op_legal (Do_Open reconcile _) = reconcile_ok reconcile"
| "op_legal (Do_Checkpoint _ p) = offset_ok p"
| "op_legal (Do_Kill (Some (_, payload, _))) = (length payload \<le> max_frame_bytes)"
| "op_legal _ = True"

section \<open>The specification\<close>

record durable =
  du_stable :: "entry list"
  du_pending :: "entry list"
  du_low :: "wal_offset option"
  du_marks :: "wal_offset option list"

definition durable_init :: durable where
  "durable_init = \<lparr>du_stable = [], du_pending = [], du_low = None, du_marks = [None]\<rparr>"

fun mark_le :: "wal_offset option \<Rightarrow> wal_offset option \<Rightarrow> bool" where
  "mark_le None _ = True"
| "mark_le (Some a) None = False"
| "mark_le (Some a) (Some b) = (a \<le> b)"

definition allow :: "bool \<Rightarrow> 'a \<Rightarrow> 'a option" where
  "allow b x = (if b then Some x else None)"

fun log_admits :: "durable \<Rightarrow> wal_event \<Rightarrow> durable option" where
  "log_admits d (Ev_Opened es v) =
     allow (prefix (du_stable d) es \<and> prefix es (du_stable d @ du_pending d) \<and> v \<in> set (du_marks d) \<and> mark_le (du_low d) v)
       (d\<lparr>du_pending := drop (length (du_stable d)) es, du_marks := [v], du_low := v\<rparr>)"
| "log_admits d (Ev_Open_Failed e) = allow (damage e \<longrightarrow> torn_header e \<and> du_stable d = []) d"
| "log_admits d (Ev_Replay_Failed e) = allow (\<not> is_corrupt e) d"
| "log_admits d (Ev_Appended p k bs) =
     allow (\<forall>x \<in> set (du_stable d @ du_pending d). fst x < p) (d\<lparr>du_pending := du_pending d @ [(p, k, bs)]\<rparr>)"
| "log_admits d Ev_Panicked = None"
| "log_admits d (Ev_Synced p) =
     allow (\<forall>x \<in> set (du_stable d @ du_pending d). fst x \<le> p)
       (d\<lparr>du_stable := du_stable d @ du_pending d, du_pending := []\<rparr>)"
| "log_admits d (Ev_Checkpointed p) = allow (mark_le (du_low d) (Some p)) (d\<lparr>du_marks := [Some p], du_low := Some p\<rparr>)"
| "log_admits d (Ev_Checkpoint_Failed p (NonMonotonic c _)) = allow (p < c) d"
| "log_admits d (Ev_Checkpoint_Failed p (Checkpoint_Io _ _)) =
     allow (mark_le (du_low d) (Some p)) (d\<lparr>du_marks := Some p # du_marks d\<rparr>)"
| "log_admits d (Ev_Killed (Some e)) = Some (d\<lparr>du_pending := du_pending d @ [e]\<rparr>)"
| "log_admits d _ = Some d"

section \<open>Simulation\<close>

definition between :: "entry list \<Rightarrow> durable \<Rightarrow> bool" where
  "between es d \<longleftrightarrow> prefix (du_stable d) es \<and> prefix es (du_stable d @ du_pending d)"

definition idle_sim :: "wal_env \<Rightarrow> os \<Rightarrow> durable \<Rightarrow> bool" where
  "idle_sim env s d \<longleftrightarrow>
     (\<exists>xs C. log_inv C env s xs (length (du_stable d)) \<and> between (log_entries xs) d \<and> C \<subseteq> set (du_marks d))"

definition open_sim :: "wal_env \<Rightarrow> os \<Rightarrow> wal \<Rightarrow> durable \<Rightarrow> bool" where
  "open_sim env s w d \<longleftrightarrow>
     mark_le (du_low d) (wl_checkpoint w)
     \<and> (\<exists>xs C. run_inv C env s w xs (length (du_stable d)) \<and> log_entries xs = du_stable d @ du_pending d
          \<and> C \<subseteq> set (du_marks d) \<and> ck_run w C)"

definition world_sim :: "wal_env \<Rightarrow> wal_world \<Rightarrow> durable \<Rightarrow> bool" where
  "world_sim env d a \<longleftrightarrow>
     (\<forall>v \<in> set (du_marks a). mark_le (du_low a) v)
     \<and> (case wd_wal d of None \<Rightarrow> idle_sim env (wd_os d) a | Some w \<Rightarrow> open_sim env (wd_os d) w a)"

lemma idle_script [simp]: "idle_sim env (s\<lparr>os_script := q\<rparr>) d = idle_sim env s d"
  by (simp add: idle_sim_def)

lemma open_script [simp]: "open_sim env (s\<lparr>os_script := q\<rparr>) w d = open_sim env s w d"
  by (simp add: open_sim_def)

lemma open_idle: "open_sim env s w d \<Longrightarrow> idle_sim env s d"
  unfolding open_sim_def idle_sim_def run_inv_def between_def
  by (elim conjE exE, rename_tac xs C, rule_tac x = xs in exI, rule_tac x = C in exI) simp

lemma between_shorter:
  assumes "between es d" and "prefix es' es" and "length (du_stable d) \<le> length es'"
  shows "between es' d"
  using assms unfolding between_def
  by (meson prefix_length_prefix prefix_order.trans)

lemma idle_crash:
  assumes "env_ok env" and "idle_sim env s d"
  shows "idle_sim env (crash c s) d"
proof -
  obtain xs C where I: "log_inv C env s xs (length (du_stable d))" "between (log_entries xs) d" "C \<subseteq> set (du_marks d)"
    using assms(2) by (auto simp: idle_sim_def)
  obtain xs' where x: "log_inv C env (crash c s) xs' (length (du_stable d))" "prefix (log_entries xs') (log_entries xs)"
    using crash_inv [OF I(1) assms(1)] by blast
  have "length (du_stable d) \<le> length (log_entries xs')" using log_invD(3) [OF x(1)] by (simp add: length_log_entries)
  then show ?thesis using x(1) I(3) between_shorter [OF I(2) x(2)] by (auto simp: idle_sim_def)
qed

definition answers :: "wal_env \<Rightarrow> durable \<Rightarrow> wal_world \<times> wal_event \<Rightarrow> bool" where
  "answers env a res \<longleftrightarrow> (\<exists>a'. log_admits a (snd res) = Some a' \<and> world_sim env (fst res) a')"

lemma start_answers:
  assumes env: "env_ok env" and idle: "idle_sim env s d" and rc: "reconcile_ok reconcile"
    and low: "\<forall>v \<in> set (du_marks d). mark_le (du_low d) v"
  shows "answers env d (start env reconcile cfg s)"
proof -
  let ?N = "length (du_stable d)"
  obtain xs C where I: "log_inv C env s xs ?N" "between (log_entries xs) d" "C \<subseteq> set (du_marks d)"
    using idle by (auto simp: idle_sim_def)
  obtain s1 res where o: "wal_open env reconcile cfg s = (s1, res)" by fastforce
  note O = wal_open_run [OF env I(1) rc, of cfg, unfolded o]
  show ?thesis
  proof (cases res)
    case (Inl e)
    then obtain xs' where "damage e \<longrightarrow> torn_header e \<and> ?N = 0" "log_inv C env s1 xs' ?N" "log_entries xs' = log_entries xs"
      using O by (auto simp: opened_def)
    moreover from this have "idle_sim env s1 d" unfolding idle_sim_def using I(2,3)
      by (intro exI [of _ xs'] exI [of _ C]) simp
    ultimately show ?thesis using Inl low by (auto simp: answers_def start_def o allow_def world_sim_def)
  next
    case (Inr w)
    then obtain xs' P where v: "wl_checkpoint w \<in> C" and x: "xs' \<noteq> []" "log_inv {wl_checkpoint w} env s1 xs' ?N"
      "target env s1 w xs'" "torn (en_crc env) P"
      "data_of s1 (seg_inode (last xs')) = seg_bytes (en_crc env) (seg_uuid (last xs')) (seg_frames (last xs')) @ P"
      "log_entries xs' = log_entries xs"
      using O by (auto simp: opened_def)
    have mark: "wl_checkpoint w \<in> set (du_marks d)" "mark_le (du_low d) (wl_checkpoint w)" using v I(3) low by auto
    from wal_replay_run [OF env x(2,1,3,5,4)] show ?thesis
    proof (elim disjE exE conjE)
      fix s2 w2 assume r: "wal_replay (en_crc env) collect [] s1 w = (s2, log_entries xs', w2, None)"
        and run: "run_inv {wl_checkpoint w} env s2 w2 xs' ?N" and side: "side w2 = side w"
      define a where "a = d\<lparr>du_pending := drop ?N (log_entries xs), du_marks := [wl_checkpoint w], du_low := wl_checkpoint w\<rparr>"
      have ck: "wl_checkpoint w2 = wl_checkpoint w" using side by (simp add: side_def)
      have st: "start env reconcile cfg s = (\<lparr>wd_os = s2, wd_wal = Some w2\<rparr>, Ev_Opened (log_entries xs) (wl_checkpoint w))"
        by (simp add: start_def o Inr r x(6) ck)
      have es: "log_entries xs = du_stable d @ drop ?N (log_entries xs)" using I(2) by (auto simp: between_def prefix_def)
      have le: "mark_le c c" for c by (cases c) simp_all
      have "open_sim env s2 w2 a" unfolding open_sim_def a_def using run es x(6) ck le
        by (auto simp: ck_run_def intro!: exI [of _ xs'] exI [of _ "{wl_checkpoint w}"])
      then show ?thesis using I(2) mark le
        by (auto simp: answers_def st allow_def between_def world_sim_def a_def)
    next
      fix s2 st' w2 op e assume r: "wal_replay (en_crc env) collect [] s1 w = (s2, st', w2, Some (Recovery_Io op e))"
        and l: "log_inv {wl_checkpoint w} env s2 xs' ?N"
      have "idle_sim env s2 d" unfolding idle_sim_def using l x(6) I(2) mark
        by (intro exI [of _ xs'] exI [of _ "{wl_checkpoint w}"]) simp
      then show ?thesis using low by (simp add: answers_def start_def o Inr r allow_def world_sim_def)
    qed
  qed
qed

lemma open_simE:
  assumes "open_sim env s w d"
  obtains xs C where "run_inv C env s w xs (length (du_stable d))" "log_entries xs = du_stable d @ du_pending d"
    "C \<subseteq> set (du_marks d)" "ck_run w C" "mark_le (du_low d) (wl_checkpoint w)"
  using assms unfolding open_sim_def by blast

lemma open_simI:
  assumes "run_inv C env s w' xs (length (du_stable d))" and "log_entries xs = du_stable d @ du_pending d"
    and "C \<subseteq> set (du_marks d)" and "ck_run w' C" and "mark_le (du_low d) (wl_checkpoint w')"
  shows "open_sim env s w' d"
  using assms unfolding open_sim_def by blast

lemma side_ck: "side w' = side w \<Longrightarrow> ck_run w' C = ck_run w C \<and> wl_checkpoint w' = wl_checkpoint w"
  by (simp add: side_def ck_run_def)

lemma append_answers:
  assumes env: "env_ok env" and lim: "os_minted s < mint_limit" and o: "open_sim env s w d" and low: "\<forall>v \<in> set (du_marks d). mark_le (du_low d) v"
  shows "answers env d (world_op env (Do_Append now written k p) s (Some w))"
proof -
  obtain xs C where I: "run_inv C env s w xs (length (du_stable d))" "log_entries xs = du_stable d @ du_pending d"
    "C \<subseteq> set (du_marks d)" "ck_run w C" "mark_le (du_low d) (wl_checkpoint w)" by (rule open_simE [OF o])
  obtain res where a: "wal_append env now written k p s w = Some res" "appended C env k p xs (length (du_stable d)) w res"
    by (rule wal_append_run [OF env I(1) lim])
  obtain s' w' r where res: "res = (s', w', r)" by (metis prod_cases3)
  obtain xs' where x: "side w' = side w" "run_inv C env s' w' xs' (length (du_stable d))"
    "log_entries xs' = log_entries xs @ (case r of Inl _ \<Rightarrow> [] | Inr off \<Rightarrow> [(off, k, p)])"
    using a(2) by (auto simp: appended_def res)
  note sc = side_ck [OF x(1), of C]
  show ?thesis
  proof (cases r)
    case (Inl e)
    have "open_sim env s' w' d" using x(2,3) I(2-5) sc Inl by (intro open_simI [of C _ _ _ xs']) simp_all
    then show ?thesis using low by (simp add: answers_def a(1) res Inl world_sim_def)
  next
    case (Inr off)
    let ?d = "d\<lparr>du_pending := du_pending d @ [(off, k, p)]\<rparr>"
    have "open_sim env s' w' ?d" using x(2,3) I(2-5) sc Inr by (intro open_simI [of C _ _ _ xs']) simp_all
    moreover have "\<forall>e \<in> set (du_stable d @ du_pending d). fst e < off"
      using run_sorted [OF x(2)] x(3) I(2) Inr by (auto simp: sorted_wrt_append)
    ultimately show ?thesis using low by (simp add: answers_def a(1) res Inr world_sim_def allow_def)
  qed
qed

lemma sync_answers:
  assumes env: "env_ok env" and o: "open_sim env s w d" and low: "\<forall>v \<in> set (du_marks d). mark_le (du_low d) v"
  shows "answers env d (world_op env Do_Sync s (Some w))"
proof -
  obtain xs C where I: "run_inv C env s w xs (length (du_stable d))" "log_entries xs = du_stable d @ du_pending d"
    "C \<subseteq> set (du_marks d)" "ck_run w C" "mark_le (du_low d) (wl_checkpoint w)" by (rule open_simE [OF o])
  obtain s' w' r where y: "wal_sync s w = (s', w', r)" by (metis prod_cases3)
  note S = wal_sync_run [OF I(1) y]
  have sc: "ck_run w' C = ck_run w C" "wl_checkpoint w' = wl_checkpoint w" using S side_ck by blast+
  show ?thesis
  proof (cases r)
    case (Inl e)
    have "open_sim env s' w' d" using S I(2-5) sc Inl by (intro open_simI [of C _ _ _ xs]) simp_all
    then show ?thesis using low by (simp add: answers_def y Inl world_sim_def)
  next
    case (Inr off)
    let ?d = "d\<lparr>du_stable := du_stable d @ du_pending d, du_pending := []\<rparr>"
    have len: "length (log_frames xs) = length (du_stable d @ du_pending d)"
      using length_log_entries [of xs] I(2) by simp
    have run: "run_inv C env s' w' xs (length (du_stable ?d))" using S Inr len by simp
    have "open_sim env s' w' ?d" using run I(2-5) sc by (intro open_simI [of C _ _ _ xs]) simp_all
    moreover have "fst e \<le> off" if "e \<in> set (du_stable d @ du_pending d)" for e
    proof (rule run_last [OF I(1)])
      fix ys u i fr assume l: "xs = ys @ [(u, i, fr)]" "\<exists>c < os_minted s. u = en_uuid env c"
      have "uuid_ok u" using l(2) env by (auto simp: env_ok_def)
      moreover have "sorted_wrt (<) (map seg_uuid xs)" using I(1) by (simp add: run_inv_def log_inv_def ids_ok_def)
      moreover have "e \<in> set (log_entries xs)" using that I(2) by simp
      ultimately have "fst e \<le> Wal_Offset u (length (seg_bytes (en_crc env) u fr))"
        unfolding l(1) by (intro log_entries_below)
      then show ?thesis using S Inr l(1) by simp
    qed
    ultimately show ?thesis using low by (auto simp: answers_def y Inr world_sim_def allow_def)
  qed
qed

lemma rotate_answers:
  assumes env: "env_ok env" and lim: "os_minted s < mint_limit" and o: "open_sim env s w d" and low: "\<forall>v \<in> set (du_marks d). mark_le (du_low d) v"
  shows "answers env d (world_op env (Do_Rotate kind written) s (Some w))"
proof -
  obtain xs C where I: "run_inv C env s w xs (length (du_stable d))" "log_entries xs = du_stable d @ du_pending d"
    "C \<subseteq> set (du_marks d)" "ck_run w C" "mark_le (du_low d) (wl_checkpoint w)" by (rule open_simE [OF o])
  obtain s' w' r where y: "wal_rotate env written kind s w = (s', w', r)" by (metis prod_cases3)
  obtain xs' where x: "run_inv C env s' w' xs' (length (du_stable d))" "log_entries xs' = log_entries xs" "side w' = side w"
    by (rule wal_rotate_run [OF env I(1) lim y])
  have "open_sim env s' w' d" using x I(2-5) side_ck [OF x(3)] by (intro open_simI [of C _ _ _ xs']) simp_all
  then show ?thesis using low by (simp add: answers_def y world_sim_def)
qed

lemma mark_le_trans: "mark_le a b \<Longrightarrow> mark_le b c \<Longrightarrow> mark_le a c"
  by (cases a; cases b; cases c) auto

lemma checkpoint_io_error:
  assumes "wal_checkpoint written p s w = (s', w', Some e)" and "\<forall>c. wl_checkpoint w = Some c \<longrightarrow> c \<le> p"
  shows "\<exists>op x. e = Checkpoint_Io op x"
proof -
  have "advance_checkpoint written p s w = (s', w', Some e)"
    using assms by (auto simp: wal_checkpoint_def not_less [symmetric] split: option.splits if_splits)
  then show ?thesis
    by (auto simp: advance_checkpoint_def record_arm_def record_witness_def checkpoint_write_def Let_def
        split: prod.splits option.splits witness.splits sum.splits)
qed

lemma checkpoint_answers:
  assumes o: "open_sim env s w d" and p: "offset_ok p" and low: "\<forall>v \<in> set (du_marks d). mark_le (du_low d) v"
  shows "answers env d (world_op env (Do_Checkpoint written p) s (Some w))"
proof -
  obtain xs C where I: "run_inv C env s w xs (length (du_stable d))" "log_entries xs = du_stable d @ du_pending d"
    "C \<subseteq> set (du_marks d)" "ck_run w C" "mark_le (du_low d) (wl_checkpoint w)" by (rule open_simE [OF o])
  obtain s' w' r where y: "wal_checkpoint written p s w = (s', w', r)" by (metis prod_cases3)
  consider (lower) c where "p < c" "wal_checkpoint written p s w = (s, w, Some (NonMonotonic c p))"
    | (go) "\<forall>c. wl_checkpoint w = Some c \<longrightarrow> c \<le> p" "checkpointed C env p xs (length (du_stable d)) w (s', w', r)"
    using wal_checkpoint_run [OF I(1) p I(4), of written] y by auto
  then show ?thesis
  proof cases
    case lower
    then show ?thesis using o low by (simp add: answers_def world_sim_def allow_def)
  next
    case go
    obtain C' where C': "run_inv C' env s' w' xs (length (du_stable d))" "ck_run w' C'"
      "C' \<subseteq> (if r = None then {Some p} else insert (Some p) C)" "wl_checkpoint w' \<in> {wl_checkpoint w, Some p}"
      "r = None \<longrightarrow> wl_checkpoint w' = Some p"
      using go(2) by (auto simp: checkpointed_def)
    have "mark_le (wl_checkpoint w) (Some p)" using go(1) by (cases "wl_checkpoint w") auto
    then have lp: "mark_le (du_low d) (Some p)" using I(5) mark_le_trans by blast
    show ?thesis
    proof (cases r)
      case None
      let ?d = "d\<lparr>du_marks := [Some p], du_low := Some p\<rparr>"
      have "open_sim env s' w' ?d" using C' None I(2) by (intro open_simI [of C' _ _ _ xs]) simp_all
      then show ?thesis using lp by (simp add: answers_def y None world_sim_def allow_def)
    next
      case (Some e)
      let ?d = "d\<lparr>du_marks := Some p # du_marks d\<rparr>"
      have sim: "open_sim env s' w' ?d" using C' Some I(2,3,5) lp by (intro open_simI [of C' _ _ _ xs]) auto
      obtain op x where "e = Checkpoint_Io op x" using checkpoint_io_error [OF y [unfolded Some] go(1)] by blast
      then show ?thesis using lp low sim by (auto simp: answers_def y Some world_sim_def allow_def)
    qed
  qed
qed

lemma kill_answers:
  assumes env: "env_ok env" and o: "open_sim env s w d" and p: "length p \<le> max_frame_bytes"
    and low: "\<forall>v \<in> set (du_marks d). mark_le (du_low d) v"
  shows "answers env d (world_op env (Do_Kill (Some (k, p, n))) s (Some w))"
proof -
  obtain xs C where I: "run_inv C env s w xs (length (du_stable d))" "log_entries xs = du_stable d @ du_pending d"
    "C \<subseteq> set (du_marks d)" "ck_run w C" "mark_le (du_low d) (wl_checkpoint w)" by (rule open_simE [OF o])
  obtain ys u i fr where l: "xs = ys @ [(u, i, fr)]" "wl_segment w = i" "wl_uuid w = u"
    "data_of s i = seg_bytes (en_crc env) u fr" "\<exists>c < os_minted s. u = en_uuid env c" by (rule run_last [OF I(1)])
  have inv: "log_inv C env s (ys @ [(u, i, fr)]) (length (du_stable d))" and t: "target env s w (ys @ [(u, i, fr)])"
    using I(1) by (simp_all add: run_inv_def l(1) running_target)
  have uo: "uuid_ok u" using l(5) env by (auto simp: env_ok_def)
  let ?f = "frame_bytes (en_crc env) (k, p)"
  have fo: "frame_ok (k, p)" using p by (simp add: frame_ok_def)
  show ?thesis
  proof (cases "n < length ?f")
    case True
    have "log_inv C env (put_file i (seg_bytes (en_crc env) u fr @ take n ?f) s) xs (length (du_stable d))"
      using put_newest_run(1) [OF inv t, of "[]" "take n ?f"] torn_frame [OF fo True] by (simp add: l(1))
    then have "idle_sim env (put_file i (seg_bytes (en_crc env) u fr @ take n ?f) s) d"
      unfolding idle_sim_def using I(2,3) by (intro exI [of _ xs] exI [of _ C]) (simp add: between_def)
    then show ?thesis using low True by (simp add: answers_def kill_in_append_def Let_def l(2-4) world_sim_def)
  next
    case False
    let ?e = "(Wal_Offset u (length (seg_bytes (en_crc env) u fr) + length ?f), k, p)"
    let ?d = "d\<lparr>du_pending := du_pending d @ [?e]\<rparr>"
    let ?xs = "ys @ [(u, i, fr @ [(k, p)])]"
    have "log_inv C env (put_file i (seg_bytes (en_crc env) u fr @ ?f) s) ?xs (length (du_stable d))"
      using put_newest_run(1) [OF inv t, of "[(k, p)]" "[]"] fo by (simp add: seg_bytes_def)
    moreover have "log_entries ?xs = du_stable ?d @ du_pending ?d"
      using I(2) uo by (simp add: l(1) seg_entries_snoc [where crc = "en_crc env"] seg_bytes_def length_frame_bytes)
    ultimately have "idle_sim env (put_file i (seg_bytes (en_crc env) u fr @ ?f) s) ?d"
      unfolding idle_sim_def using I(3) by (intro exI [of _ ?xs] exI [of _ C]) (simp add: between_def del: log_entries_simps)
    then show ?thesis using low False by (simp add: answers_def kill_in_append_def Let_def l(2-4) world_sim_def)
  qed
qed

lemma world_answers:
  assumes env: "env_ok env" and lim: "os_minted s < mint_limit"
    and sim: "world_sim env \<lparr>wd_os = s, wd_wal = w\<rparr> d" and p: "op_legal p"
  shows "answers env d (world_op env p s w)"
proof -
  have low: "\<forall>v \<in> set (du_marks d). mark_le (du_low d) v" using sim by (simp add: world_sim_def)
  have idle: "idle_sim env s d" using sim open_idle by (auto simp: world_sim_def split: option.splits)
  have noop: "answers env d (\<lparr>wd_os = s, wd_wal = w\<rparr>, Ev_Idle)" using sim by (simp add: answers_def)
  show ?thesis
  proof (cases w)
    case None
    show ?thesis
    proof (cases p)
      case (Do_Open reconcile cfg)
      then show ?thesis using start_answers [OF env idle _ low, of reconcile cfg] p None by simp
    next
      case (Do_Crash c)
      then show ?thesis using idle_crash [OF env idle, of c] low by (simp add: answers_def world_sim_def)
    next
      case (Do_Kill x)
      have "world_op env p s w = (\<lparr>wd_os = s, wd_wal = w\<rparr>, Ev_Idle)" using Do_Kill None by (cases x) auto
      then show ?thesis using noop by simp
    qed (use noop None in simp_all)
  next
    case (Some h)
    then have o: "open_sim env s h d" using sim by (simp add: world_sim_def)
    show ?thesis
    proof (cases p)
      case (Do_Open reconcile cfg)
      then show ?thesis using noop Some by simp
    next
      case (Do_Kill x)
      show ?thesis
      proof (cases x)
        case None
        then show ?thesis using Do_Kill Some idle low by (simp add: answers_def world_sim_def)
      next
        case Some': (Some t)
        obtain k pl n where "t = (k, pl, n)" by (metis prod_cases3)
        then show ?thesis using kill_answers [OF env o _ low, of pl k n] Do_Kill Some Some' p by simp
      qed
    next
      case (Do_Crash c)
      then show ?thesis using idle_crash [OF env idle, of c] low by (simp add: answers_def world_sim_def)
    qed (use append_answers [OF env lim o low] sync_answers [OF env o low] rotate_answers [OF env lim o low]
          checkpoint_answers [OF o _ low] p Some in simp_all)
  qed
qed

lemma start_mints: "start env reconcile cfg s = (d, e) \<Longrightarrow> os_minted (wd_os d) \<le> Suc (os_minted s)"
  by (auto simp: start_def split: prod.splits sum.splits option.splits dest!: wal_open_mints wal_replay_mints)

lemma world_op_mints:
  assumes "world_op env p s w = (d, e)"
  shows "os_minted (wd_os d) \<le> Suc (os_minted s)"
proof (cases p)
  case (Do_Open reconcile cfg)
  then show ?thesis using assms start_mints by (cases w) auto
next
  case (Do_Append now written k pl)
  then show ?thesis using assms
    by (cases w) (auto split: option.splits sum.splits dest!: wal_append_mints)
next
  case Do_Sync
  then show ?thesis using assms by (cases w) (auto split: prod.splits sum.splits dest!: wal_sync_mints)
next
  case (Do_Rotate kind written)
  then show ?thesis using assms by (cases w) (auto split: prod.splits dest!: wal_rotate_mints)
next
  case (Do_Checkpoint written q)
  then show ?thesis using assms by (cases w) (auto split: prod.splits option.splits dest!: wal_checkpoint_mints)
next
  case (Do_Kill x)
  then show ?thesis using assms by (cases w; cases x) (auto simp: kill_in_append_def Let_def)
next
  case (Do_Crash c)
  then show ?thesis using assms by (cases w) auto
qed

definition budget_sim :: "wal_env \<Rightarrow> nat \<Rightarrow> wal_world \<Rightarrow> durable \<Rightarrow> bool" where
  "budget_sim env n d a \<longleftrightarrow> env_ok env \<and> os_minted (wd_os d) + n \<le> mint_limit \<and> world_sim env d a"

interpretation wal_trace: trace_refinement "world_step env" log_admits "\<lambda>p. op_legal (snd p)" "budget_sim env"
proof
  fix n d a p d' e assume b: "budget_sim env (Suc n) d a" and p: "op_legal (snd p)" and st: "world_step env p d = (d', e)"
  let ?s = "(wd_os d)\<lparr>os_script := fst p\<rparr>"
  have "world_sim env \<lparr>wd_os = ?s, wd_wal = wd_wal d\<rparr> a"
    using b by (simp add: budget_sim_def world_sim_def split: option.splits)
  moreover have "os_minted ?s < mint_limit" using b by (simp add: budget_sim_def)
  ultimately have "answers env a (d', e)"
    using world_answers [of env ?s "wd_wal d" a "snd p"] b p st by (simp add: budget_sim_def world_step_def)
  moreover have "os_minted (wd_os d') \<le> Suc (os_minted ?s)" by (rule world_op_mints [OF st [unfolded world_step_def]])
  ultimately show "\<exists>a'. log_admits a e = Some a' \<and> budget_sim env n d' a'"
    using b by (auto simp: answers_def budget_sim_def)
qed

lemma init_sim: "world_sim env world_init durable_init"
proof -
  have "log_inv {None} env (os_empty True) [] 0"
    by (simp add: log_inv_def ids_ok_def files_ok_def dirs_ok_def os_empty_def dir_shows_def hm_wf_def listing_ok_def
        sidecar_apart_def sidecars_ok_def sidecar_value_def)
  then have "idle_sim env (os_empty True) durable_init"
    unfolding idle_sim_def by (intro exI [of _ "[]"] exI [of _ "{None}"]) (simp add: durable_init_def between_def)
  then show ?thesis by (simp add: world_sim_def world_init_def durable_init_def)
qed

section \<open>Durability\<close>

text \<open>C6. The write-ahead log refines a durable sequence with an atomic checkpoint register. Take any run
  from an empty root: appends, syncs, rotations, checkpoints and start-ups in any order, with any
  system call failing except a truncation, which always works here, the process dying anywhere in a
  frame write, power lost between any two operations with any of the directory listings and file
  prefixes since the last sync surviving. Segments are not unlinked, and the run has at most
  \<open>mint_limit\<close> operations. Every answer is one the specification allows: offsets rise, a start-up that
  succeeds delivers exactly the acknowledged frames and then a prefix of the unacknowledged ones,
  replay never reports corruption, \<open>open\<close> reports damage only for a torn header while nothing is
  acknowledged, no call panics, and the checkpoint read back is one that was written and never below
  an acknowledged one.\<close>

theorem log_is_durable:
  assumes "env_ok env" and "list_all (\<lambda>p. op_legal (snd p)) ops" and "length ops \<le> mint_limit"
  shows "admitted log_admits durable_init (snd (run_trace (world_step env) ops world_init)) \<noteq> None"
proof -
  have "budget_sim env (length ops + 0) world_init durable_init"
    using assms init_sim by (simp add: budget_sim_def world_init_def os_empty_def)
  from wal_trace.run_admitted [OF this assms(2)] show ?thesis by auto
qed

definition sample_ops :: "(io_fault list \<times> wal_op) list" where
  "sample_ops =
     [([], Do_Open sample_reconcile sample_config), ([], Do_Append 0 None OtlpBatch ''a''), ([], Do_Sync),
      ([], Do_Crash \<lparr>cc_dir = 0, cc_file = (\<lambda>_. (0, 0))\<rparr>), ([], Do_Open sample_reconcile sample_config)]"

lemma sample_ops_legal: "list_all (\<lambda>p. op_legal (snd p)) sample_ops" "length sample_ops \<le> mint_limit"
  by (simp_all add: sample_ops_def sample_reconcile_ok mint_limit_def)

theorem log_is_durable_witness:
  "admitted log_admits durable_init (snd (run_trace (world_step sample_env) sample_ops world_init)) \<noteq> None"
  by (rule log_is_durable [OF sample_env_ok sample_ops_legal])

lemma admits_stable: "log_admits d e = Some d' \<Longrightarrow> prefix (du_stable d) (du_stable d')"
  by (cases "(d, e)" rule: log_admits.cases) (auto simp: allow_def split: if_splits)

lemma admitted_stable: "admitted log_admits d es = Some d' \<Longrightarrow> prefix (du_stable d) (du_stable d')"
proof (induction es arbitrary: d)
  case (Cons e es)
  then obtain d1 where "log_admits d e = Some d1" "admitted log_admits d1 es = Some d'" by (auto split: option.splits)
  then show ?case using admits_stable Cons.IH by (meson prefix_order.trans)
qed simp

fun is_opened :: "wal_event \<Rightarrow> bool" where
  "is_opened (Ev_Opened _ _) = True"
| "is_opened _ = False"

lemma admits_keeps:
  "log_admits d e = Some d' \<Longrightarrow> \<not> is_opened e \<Longrightarrow> x \<in> set (du_stable d @ du_pending d) \<Longrightarrow> x \<in> set (du_stable d' @ du_pending d')"
  by (cases "(d, e)" rule: log_admits.cases) (auto simp: allow_def split: if_splits)

lemma admitted_keeps:
  "admitted log_admits d es = Some d' \<Longrightarrow> \<forall>e \<in> set es. \<not> is_opened e \<Longrightarrow> x \<in> set (du_stable d @ du_pending d)
   \<Longrightarrow> x \<in> set (du_stable d' @ du_pending d')"
proof (induction es arbitrary: d)
  case (Cons e es)
  then obtain d1 where d1: "log_admits d e = Some d1" "admitted log_admits d1 es = Some d'" by (auto split: option.splits)
  show ?case using Cons.IH [OF d1(2)] admits_keeps [OF d1(1)] Cons.prems(2,3) by simp
qed simp

lemma admittedE:
  assumes "admitted log_admits d (es @ e # fs) \<noteq> None"
  obtains d1 d2 where "admitted log_admits d es = Some d1" "log_admits d1 e = Some d2" "admitted log_admits d2 fs \<noteq> None"
  using assms by (auto simp: admitted_append split: option.splits)


lemma sample_trace:
  "snd (run_trace (world_step sample_env) sample_ops world_init)
     = [Ev_Opened [] None] @ Ev_Appended (Wal_Offset (replicate 16 (CHR 0x00)) 37) OtlpBatch ''a''
       # [] @ Ev_Synced (Wal_Offset (replicate 16 (CHR 0x00)) 37)
       # [Ev_Crashed] @ Ev_Opened [(Wal_Offset (replicate 16 (CHR 0x00)) 37, OtlpBatch, ''a'')] None # []"
  by code_simp



end
