(* ===== verification/Wal_Bounds.thy ===== *)
theory Wal_Bounds
  imports Wal_Recovery
begin

text \<open>
  Two facts that hold of the log whatever the disk holds or does. The recovery scan of arbitrary
  bytes ends, within one step per frame header that fits, and what it delivers is exactly the
  longest run of whole frames the bytes begin with. A rotation that keeps failing turns terminal at
  its budget and not before, and the fault it keeps is the first one.
\<close>

section \<open>Scanning arbitrary bytes\<close>

definition scan_verdict :: "uuid \<Rightarrow> bool \<Rightarrow> nat \<Rightarrow> bytes \<Rightarrow> recovery_error + segment_scan \<Rightarrow> bool" where
  "scan_verdict u is_newest valid_to rest res \<longleftrightarrow>
     (case res of
        Inr CleanTail \<Rightarrow> rest = []
      | Inr (TornTail v) \<Rightarrow> is_newest \<and> v = valid_to \<and> rest \<noteq> []
      | Inl e \<Rightarrow> rest \<noteq> [] \<and> (\<exists>reason. e = Recovery_Corrupt u valid_to reason))"

lemma read_frame_end:
  assumes "read_frame crc r = (r', Inl (Frame_Io e))"
  shows "e = rd_end r"
  using assms by (auto simp: read_frame_def read_exact_def Let_def split: if_splits option.splits)

lemma scan_stuck:
  assumes "bs \<noteq> []" and "read_frame crc \<lparr>rd_rest = bs, rd_end = eof_error\<rparr> = (r, Inl e)"
  shows "\<exists>res. scan_frames crc u is_newest collect (pos + length bs) pos \<lparr>rd_rest = bs, rd_end = eof_error\<rparr> es
      = (es, res) \<and> scan_verdict u is_newest pos bs res"
  using assms read_frame_end [of crc "\<lparr>rd_rest = bs, rd_end = eof_error\<rparr>" r]
  by (subst scan_frames.simps) (cases e, auto simp: scan_verdict_def eof_error_def)

lemma scan_accepts:
  assumes "read_frame crc \<lparr>rd_rest = bs, rd_end = eof_error\<rparr> = (r, Inr (k, p))"
  shows "\<exists>bs'. r = \<lparr>rd_rest = bs', rd_end = eof_error\<rparr> \<and> bs = frame_bytes crc (k, p) @ bs' \<and> frame_ok (k, p)"
  using read_frame_sound [OF assms] by (cases r) (auto simp: frame_bytes_def frame_ok_def)

lemma scan_any:
  "\<exists>fr rest res. list_all frame_ok fr \<and> bs = frames_bytes crc fr @ rest
     \<and> scan_frames crc u is_newest collect (pos + length bs) pos \<lparr>rd_rest = bs, rd_end = eof_error\<rparr> es
         = (es @ seg_entries u pos fr, res)
     \<and> scan_verdict u is_newest (pos + length (frames_bytes crc fr)) rest res
     \<and> (\<nexists>r f. read_frame crc \<lparr>rd_rest = rest, rd_end = eof_error\<rparr> = (r, Inr f))"
proof (induction "length bs" arbitrary: bs pos es rule: less_induct)
  case less
  obtain r v where rv: "read_frame crc \<lparr>rd_rest = bs, rd_end = eof_error\<rparr> = (r, v)" by fastforce
  show ?case
  proof (cases v)
    case (Inl e)
    show ?thesis
    proof (cases "bs = []")
      case True
      then show ?thesis using rv Inl
        by (intro exI [of _ "[]"] exI [of _ "Inr CleanTail"])
          (auto simp: scan_frames.simps [of crc u is_newest collect pos] scan_verdict_def)
    next
      case False
      then obtain res where "scan_frames crc u is_newest collect (pos + length bs) pos
          \<lparr>rd_rest = bs, rd_end = eof_error\<rparr> es = (es, res)" "scan_verdict u is_newest pos bs res"
        using scan_stuck rv Inl by blast
      then show ?thesis using rv Inl by (intro exI [of _ "[]"] exI [of _ bs] exI [of _ res]) auto
    qed
  next
    case (Inr f)
    obtain k p where f: "f = (k, p)" by fastforce
    obtain bs' where bs': "r = \<lparr>rd_rest = bs', rd_end = eof_error\<rparr>" "bs = frame_bytes crc (k, p) @ bs'"
        "frame_ok (k, p)" using scan_accepts rv Inr f by blast
    define pos' where "pos' = pos + (frame_header_len + length p)"
    let ?e = "(Wal_Offset u pos', k, p)"
    have l: "pos + length bs = pos' + length bs'" using bs'(2) by (simp add: length_frame_bytes pos'_def)
    have sm: "length bs' < length bs" using bs'(2) frame_bytes_nonempty [of crc "(k, p)"] by simp
    have lt: "\<not> pos' + length bs' \<le> pos" by (simp add: pos'_def frame_header_len_def)
    obtain fr rest res where ih: "list_all frame_ok fr" "bs' = frames_bytes crc fr @ rest"
        "scan_frames crc u is_newest collect (pos' + length bs') pos' \<lparr>rd_rest = bs', rd_end = eof_error\<rparr>
           (es @ [?e]) = ((es @ [?e]) @ seg_entries u pos' fr, res)"
        "scan_verdict u is_newest (pos' + length (frames_bytes crc fr)) rest res"
        "\<nexists>r f. read_frame crc \<lparr>rd_rest = rest, rd_end = eof_error\<rparr> = (r, Inr f)"
      using less [OF sm, of pos' "es @ [?e]"] by blast
    have "scan_frames crc u is_newest collect (pos + length bs) pos \<lparr>rd_rest = bs, rd_end = eof_error\<rparr> es
        = ((es @ [?e]) @ seg_entries u pos' fr, res)"
      unfolding l ih(3) [symmetric]
      by (subst scan_frames.simps)
        (simp only: rv Inr f bs'(1) collect_def lt pos'_def [symmetric] Let_def if_False prod.case sum.case option.case)
    moreover have "pos + length (frames_bytes crc ((k, p) # fr)) = pos' + length (frames_bytes crc fr)"
      by (simp add: length_frame_bytes pos'_def)
    ultimately show ?thesis using ih bs'
      by (intro exI [of _ "(k, p) # fr"] exI [of _ rest] exI [of _ res]) (auto simp: pos'_def add.assoc)
  qed
qed

lemma frames_bytes_bound: "frame_header_len * length fr \<le> length (frames_bytes crc fr)"
  by (induction fr) (auto simp: length_frame_bytes)

section \<open>Properties\<close>

text \<open>C12. The recovery scan ends on every byte string, after at most one step per frame header
  that fits in it: it delivers frames that re-encode to exactly the bytes it passed over, each with
  the offset of its end, it stops where no further frame can be read, and it reports a clean end
  exactly when nothing is left, a torn tail only on the newest segment and at the end of the last
  whole frame, and a corruption only at that same byte.\<close>

theorem scan_ends_at_longest_prefix:
  "\<exists>fr rest res.
     scan_frames crc u is_newest collect (pos + length bs) pos \<lparr>rd_rest = bs, rd_end = eof_error\<rparr> []
       = (seg_entries u pos fr, res)
     \<and> list_all frame_ok fr \<and> bs = frames_bytes crc fr @ rest
     \<and> frame_header_len * length fr \<le> length bs
     \<and> (\<nexists>r f. read_frame crc \<lparr>rd_rest = rest, rd_end = eof_error\<rparr> = (r, Inr f))
     \<and> (case res of
          Inr CleanTail \<Rightarrow> rest = []
        | Inr (TornTail valid_to) \<Rightarrow> is_newest \<and> valid_to = pos + length (frames_bytes crc fr) \<and> rest \<noteq> []
        | Inl e \<Rightarrow> rest \<noteq> [] \<and> (\<exists>reason. e = Recovery_Corrupt u (pos + length (frames_bytes crc fr)) reason))"
proof -
  obtain fr rest res where s: "list_all frame_ok fr" "bs = frames_bytes crc fr @ rest"
      "scan_frames crc u is_newest collect (pos + length bs) pos \<lparr>rd_rest = bs, rd_end = eof_error\<rparr> []
        = ([] @ seg_entries u pos fr, res)"
      "scan_verdict u is_newest (pos + length (frames_bytes crc fr)) rest res"
      "\<nexists>r f. read_frame crc \<lparr>rd_rest = rest, rd_end = eof_error\<rparr> = (r, Inr f)"
    using scan_any [of bs crc u is_newest pos "[]"] by blast
  have "frame_header_len * length fr \<le> length bs" using s(2) frames_bytes_bound [of fr crc] by simp
  then show ?thesis using s
    by (intro exI [of _ fr] exI [of _ rest] exI [of _ res] conjI) (simp_all add: scan_verdict_def)
qed

text \<open>C13. A rotation turns terminal at its budget and not before: after an unbroken run of failures
  the log is terminal exactly when there were at least as many as the configured attempts, the fault
  it reports is the first one, at the step that failed first, with the number of attempts spent, and
  one success clears the whole count.\<close>

theorem retry_budget_exact:
  assumes "fs \<noteq> []" and "0 < budget" and "budget \<le> u32_max"
  shows "terminal (charge_all budget fs Healthy)
           = (if length fs < budget then None
              else Some ((fault_first (site_op (fst (hd fs))) (snd (hd fs)) budget)
                           \<lparr>rf_attempts := min (length fs) u32_max\<rparr>))
       \<and> fault_site (fault_first (site_op (fst (hd fs))) (snd (hd fs)) budget) = Some (fst (hd fs))
       \<and> terminal (charge_all budget (take (budget - 1) gs) (discharged (charge_all budget fs Healthy))) = None"
proof (intro conjI)
  show "terminal (charge_all budget fs Healthy)
           = (if length fs < budget then None
              else Some ((fault_first (site_op (fst (hd fs))) (snd (hd fs)) budget)
                           \<lparr>rf_attempts := min (length fs) u32_max\<rparr>))"
    using assms by (simp add: charge_all_healthy spent_def Let_def)
  show "fault_site (fault_first (site_op (fst (hd fs))) (snd (hd fs)) budget) = Some (fst (hd fs))"
    by (rule fault_site_op) (simp add: fault_first_def)
  show "terminal (charge_all budget (take (budget - 1) gs) (discharged (charge_all budget fs Healthy))) = None"
    using assms(2,3) charge_all_healthy [of "take (budget - 1) gs" budget]
    by (cases "take (budget - 1) gs = []") (auto simp: discharged_def charge_all_def [of _ "[]"] spent_def Let_def)
qed

theorem retry_budget_exact_witness:
  "terminal (charge_all 2 [(Create, eof_error), (Rename, eof_error)] Healthy)
     = Some \<lparr>rf_op = site_op Create, rf_kind = UnexpectedEof, rf_detail = ie_detail eof_error,
             rf_attempts = 2, rf_budget = 2\<rparr>"
  using retry_budget_exact [of "[(Create, eof_error), (Rename, eof_error)]" 2 "[]"]
  by (simp add: u32_max_def fault_first_def eof_error_def)

end
