(* ===== verification/Reclaim_Record.thy ===== *)
theory Reclaim_Record
  imports Wal_Log
begin

text \<open>
  The \<open>RECLAIM\<close> sidecar codec, \<open>crates/ourios-wal/src/reclaim.rs\<close>: the geometry of the file, the tenant
  dictionary and its operations, the writer and the reader of one slot, the file header, and the
  choice between the two slots. A \<open>SlotId\<close> is a number below \<open>2 ^ 16\<close>; a \<open>BTreeMap\<close> is its association
  list in ascending key order; a write into a sub-slice of the buffer is \<open>put_at\<close>, which the layout
  lemmas show to stay inside its block. \<open>Witness::Terminal\<close> is \<open>Seen\<close>. The checksum is the function of
  the \<open>crc32c\<close> crate, a parameter.
\<close>

unbundle bit_operations_syntax

section \<open>Results\<close>

text \<open>The question mark operator, on a value and on a check.\<close>

definition and_try :: "'e + 'a \<Rightarrow> ('a \<Rightarrow> 'e + 'b) \<Rightarrow> 'e + 'b" where
  "and_try x f = (case x of Inl e \<Rightarrow> Inl e | Inr a \<Rightarrow> f a)"

definition unless_error :: "'e option \<Rightarrow> 'e + 'b \<Rightarrow> 'e + 'b" where
  "unless_error x r = (case x of Some e \<Rightarrow> Inl e | None \<Rightarrow> r)"

lemma and_try_simps [simp]: "and_try (Inl e) f = Inl e" "and_try (Inr a) f = f a"
  by (simp_all add: and_try_def)

lemma unless_error_simps [simp]: "unless_error (Some e) r = Inl e" "unless_error None r = r"
  by (simp_all add: unless_error_def)

lemma and_try_Inr [simp]: "and_try x f = Inr b \<longleftrightarrow> (\<exists>a. x = Inr a \<and> f a = Inr b)"
  by (cases x) simp_all

lemma unless_error_Inr [simp]: "unless_error x r = Inr b \<longleftrightarrow> x = None \<and> r = Inr b"
  by (cases x) simp_all

lemma and_try_cong [fundef_cong]:
  "x = y \<Longrightarrow> (\<And>a. y = Inr a \<Longrightarrow> f a = g a) \<Longrightarrow> and_try x f = and_try y g"
  by (cases y) simp_all

section \<open>Geometry\<close>

definition reclaim_magic :: bytes where "reclaim_magic = ''OWRC''"
definition reclaim_version :: nat where "reclaim_version = 1"
definition file_header_len :: nat where "file_header_len = 32"
definition file_header_crc_covers :: nat where "file_header_crc_covers = 24"
definition slot_header_len :: nat where "slot_header_len = 24"
definition slot_trailer_len :: nat where "slot_trailer_len = 8"
definition key_len :: nat where "key_len = max_tenant_bytes"
definition dict_record_len :: nat where "dict_record_len = 132"
definition entry_len :: nat where "entry_len = 32"
definition planned_header_len :: nat where "planned_header_len = 24"
definition pair_len :: nat where "pair_len = 32"
definition slot_count :: nat where "slot_count = 2"
definition default_max_tenants :: nat where "default_max_tenants = 1024"
definition max_tenants_ceiling :: nat where "max_tenants_ceiling = 65536"

lemmas layout_consts = file_header_len_def file_header_crc_covers_def slot_header_len_def slot_trailer_len_def
  key_len_def max_tenant_bytes_def dict_record_len_def entry_len_def planned_header_len_def pair_len_def slot_count_def

record geometry =
  gm_max_tenants :: nat
  gm_max_unlinks_per_pass :: nat

datatype geometry_error = Geo_MaxTenants nat | Geo_MaxUnlinksPerPass nat | Geo_Unrepresentable nat

definition planned_stride :: "geometry \<Rightarrow> nat" where
  "planned_stride g = planned_header_len + pair_len * gm_max_tenants g"

definition slot_len :: "geometry \<Rightarrow> nat" where
  "slot_len g =
     slot_header_len + slot_trailer_len + (dict_record_len + entry_len) * gm_max_tenants g
       + planned_stride g * gm_max_unlinks_per_pass g"

definition file_len :: "geometry \<Rightarrow> nat" where
  "file_len g = file_header_len + slot_count * slot_len g"

text \<open>\<open>usize\<close> is 64 bits wide.\<close>

definition geometry_new :: "nat \<Rightarrow> nat \<Rightarrow> geometry_error + geometry" where
  "geometry_new max_tenants max_unlinks =
     (if \<not> (1 \<le> max_tenants \<and> max_tenants \<le> max_tenants_ceiling) then Inl (Geo_MaxTenants max_tenants)
      else if \<not> (1 \<le> max_unlinks \<and> max_unlinks \<le> max_unlinks_per_pass_ceiling)
      then Inl (Geo_MaxUnlinksPerPass max_unlinks)
      else (let g = \<lparr>gm_max_tenants = max_tenants, gm_max_unlinks_per_pass = max_unlinks\<rparr>
            in if file_len g \<ge> 2 ^ 64 then Inl (Geo_Unrepresentable (file_len g)) else Inr g))"

definition geometry_covers :: "geometry \<Rightarrow> geometry \<Rightarrow> bool" where
  "geometry_covers g needed \<longleftrightarrow>
     gm_max_tenants g \<ge> gm_max_tenants needed
     \<and> gm_max_unlinks_per_pass g \<ge> gm_max_unlinks_per_pass needed"

datatype slot_index = First_Slot | Second_Slot

fun other_slot :: "slot_index \<Rightarrow> slot_index" where
  "other_slot First_Slot = Second_Slot"
| "other_slot Second_Slot = First_Slot"

fun slot_ordinal :: "slot_index \<Rightarrow> nat" where
  "slot_ordinal First_Slot = 0"
| "slot_ordinal Second_Slot = 1"

definition slot_offset :: "geometry \<Rightarrow> slot_index \<Rightarrow> nat" where
  "slot_offset g i = file_header_len + slot_ordinal i * slot_len g"

definition dictionary_at :: "nat \<Rightarrow> nat" where
  "dictionary_at i = slot_header_len + dict_record_len * i"

definition entries_at :: "geometry \<Rightarrow> nat \<Rightarrow> nat" where
  "entries_at g i = slot_header_len + dict_record_len * gm_max_tenants g + entry_len * i"

definition planned_at :: "geometry \<Rightarrow> nat \<Rightarrow> nat" where
  "planned_at g position =
     (let base = slot_header_len + (dict_record_len + entry_len) * gm_max_tenants g
      in base + position * planned_stride g)"

definition pair_at :: "geometry \<Rightarrow> nat \<Rightarrow> nat \<Rightarrow> nat" where
  "pair_at g position i = planned_at g position + (planned_header_len + pair_len * i)"

definition trailer_offset :: "geometry \<Rightarrow> nat" where
  "trailer_offset g = slot_len g - slot_trailer_len"

definition slot_ids :: "geometry \<Rightarrow> nat list" where
  "slot_ids g = filter (\<lambda>i. i < 2 ^ 16) [0..<gm_max_tenants g]"

section \<open>Witnesses and modes\<close>

definition header_flags_mask :: "16 word" where "header_flags_mask = 15"
definition checkpoint_armed :: "16 word" where "checkpoint_armed = 1"
definition checkpoint_seen :: "16 word" where "checkpoint_seen = 2"
definition published_seeded_armed :: "16 word" where "published_seeded_armed = 4"
definition published_seeded_confirmed :: "16 word" where "published_seeded_confirmed = 8"
definition dict_tombstoned :: "16 word" where "dict_tombstoned = 1"
definition entry_occupied :: "16 word" where "entry_occupied = 1"
definition planned_uncertain :: "8 word" where "planned_uncertain = 1"
definition planned_occupied :: "8 word" where "planned_occupied = 2"
definition pair_present :: "16 word" where "pair_present = 1"

lemmas flag_consts = header_flags_mask_def checkpoint_armed_def checkpoint_seen_def
  published_seeded_armed_def published_seeded_confirmed_def dict_tombstoned_def entry_occupied_def
  planned_uncertain_def planned_occupied_def pair_present_def

record witness_flags =
  wf_checkpoint :: witness
  wf_published_seeding :: witness

datatype recorded_mode = Unrecorded | Mode_Known | Mode_NoConsumer

datatype entry_mode = Entry_Known | Entry_NoConsumer

record reclaim_entry =
  re_mode :: entry_mode
  re_offset :: wal_offset

datatype slot_state = Live "reclaim_entry option" | Tombstoned

record dict_record =
  dr_key :: tenant
  dr_state :: slot_state

type_synonym dictionary = "dict_record list"

record seed_key =
  sk_key :: tenant
  sk_tombstoned :: bool

record planned_unlink =
  pu_segment :: uuid
  pu_uncertain :: bool
  pu_last_offsets :: "(nat \<times> wal_offset) list"

record reclaim_record =
  rr_witness :: witness_flags
  rr_consumer_mode :: recorded_mode
  rr_dictionary :: dictionary
  rr_planned :: "planned_unlink list"

definition reclaim_default :: reclaim_record where
  "reclaim_default =
     \<lparr>rr_witness = \<lparr>wf_checkpoint = Unarmed, wf_published_seeding = Unarmed\<rparr>, rr_consumer_mode = Unrecorded,
      rr_dictionary = [], rr_planned = []\<rparr>"

record decoded_slot =
  ds_generation :: nat
  ds_record :: reclaim_record

datatype encode_error =
  Enc_BufferLength nat nat
| Enc_TooManyTenants nat nat
| Enc_TooManyPlanned nat nat
| Enc_TooManyPairs uuid nat
| Enc_PairWithoutTenant uuid nat
| Enc_PairSegment uuid nat uuid
| Enc_EntryModeDisagrees nat entry_mode recorded_mode
| Enc_PlannedWithoutMode
| Enc_KeyLength nat nat
| Enc_ZeroGeneration

datatype format_error =
  Fmt_Length nat nat
| Fmt_BadMagic bytes
| Fmt_UnknownVersion nat
| Fmt_Reserved bytes nat
| Fmt_CrcMismatch nat "32 word"
| Fmt_SlotLen nat nat
| Fmt_Capacity geometry_error
| Fmt_ReservedHeaderFlags "16 word"
| Fmt_WitnessOrder "16 word"
| Fmt_UnknownMode bytes nat
| Fmt_NextSlotId nat nat
| Fmt_DictionaryHole nat
| Fmt_DictionaryPastNext nat nat
| Fmt_KeyLength nat nat
| Fmt_KeyNotUtf8 nat
| Fmt_DictionaryFlags nat "16 word"
| Fmt_EntryFlags nat "16 word"
| Fmt_EntryWithoutTenant nat
| Fmt_EntryModeDisagrees nat entry_mode recorded_mode
| Fmt_EntryCount nat nat
| Fmt_DuplicateKey nat nat tenant
| Fmt_PlannedWithoutMode nat
| Fmt_PlannedFlags nat "8 word"
| Fmt_PlannedCount nat nat
| Fmt_PairFlags nat nat "16 word"
| Fmt_PairWithoutTenant nat nat
| Fmt_PairSegment nat nat uuid
| Fmt_TenantCount nat nat nat
| Fmt_ZeroGeneration
| Fmt_NoValidSlot format_error format_error
| Fmt_EqualGenerations nat

fun witness_bits :: "witness \<Rightarrow> 16 word \<Rightarrow> 16 word \<Rightarrow> 16 word" where
  "witness_bits Unarmed armed seen = 0"
| "witness_bits Armed armed seen = armed"
| "witness_bits Seen armed seen = armed OR seen"

definition witness_from_bits :: "16 word \<Rightarrow> 16 word \<Rightarrow> 16 word \<Rightarrow> format_error + witness" where
  "witness_from_bits bits armed seen =
     (case (bits AND armed \<noteq> 0, bits AND seen \<noteq> 0) of
        (False, False) \<Rightarrow> Inr Unarmed
      | (True, False) \<Rightarrow> Inr Armed
      | (True, True) \<Rightarrow> Inr Seen
      | (False, True) \<Rightarrow> Inl (Fmt_WitnessOrder bits))"

definition flags_bits :: "witness_flags \<Rightarrow> 16 word" where
  "flags_bits f =
     witness_bits (wf_checkpoint f) checkpoint_armed checkpoint_seen
       OR witness_bits (wf_published_seeding f) published_seeded_armed published_seeded_confirmed"

definition flags_from_bits :: "16 word \<Rightarrow> format_error + witness_flags" where
  "flags_from_bits bits =
     (if bits AND NOT header_flags_mask \<noteq> 0 then Inl (Fmt_ReservedHeaderFlags bits)
      else and_try (witness_from_bits bits checkpoint_armed checkpoint_seen) (\<lambda>c.
             and_try (witness_from_bits bits published_seeded_armed published_seeded_confirmed) (\<lambda>p.
               Inr \<lparr>wf_checkpoint = c, wf_published_seeding = p\<rparr>)))"

definition mode_admits :: "recorded_mode \<Rightarrow> entry_mode \<Rightarrow> bool" where
  "mode_admits recorded entry \<longleftrightarrow>
     recorded = Mode_Known \<and> entry = Entry_Known \<or> recorded = Mode_NoConsumer \<and> entry = Entry_NoConsumer"

fun mode_code :: "recorded_mode \<Rightarrow> nat" where
  "mode_code Unrecorded = 0"
| "mode_code Mode_Known = 1"
| "mode_code Mode_NoConsumer = 2"

definition mode_from_code :: "nat \<Rightarrow> format_error + recorded_mode" where
  "mode_from_code code =
     (if code = 0 then Inr Unrecorded else if code = 1 then Inr Mode_Known
      else if code = 2 then Inr Mode_NoConsumer else Inl (Fmt_UnknownMode ''consumer_mode'' code))"

fun entry_mode_code :: "entry_mode \<Rightarrow> nat" where
  "entry_mode_code Entry_Known = 1"
| "entry_mode_code Entry_NoConsumer = 2"

definition entry_mode_from_code :: "nat \<Rightarrow> format_error + entry_mode" where
  "entry_mode_from_code code =
     (if code = 1 then Inr Entry_Known else if code = 2 then Inr Entry_NoConsumer
      else Inl (Fmt_UnknownMode ''entry mode'' code))"

section \<open>The dictionary\<close>

datatype not_live = Id_Unknown nat | Id_Tombstoned nat

definition record_is_live :: "dict_record \<Rightarrow> bool" where
  "record_is_live r = (case dr_state r of Live _ \<Rightarrow> True | Tombstoned \<Rightarrow> False)"

definition dict_get :: "dictionary \<Rightarrow> nat \<Rightarrow> dict_record option" where
  "dict_get d i = (if i < length d then Some (d ! i) else None)"

definition dict_is_live :: "dictionary \<Rightarrow> nat \<Rightarrow> bool" where
  "dict_is_live d i = (case dict_get d i of None \<Rightarrow> False | Some r \<Rightarrow> record_is_live r)"

definition to_slot_id :: "nat \<Rightarrow> nat option" where
  "to_slot_id i = (if i < 2 ^ 16 then Some i else None)"

definition dict_iter :: "dictionary \<Rightarrow> (nat \<times> dict_record) list" where
  "dict_iter d = filter (\<lambda>(i, r). i < 2 ^ 16) (enumerate 0 d)"

definition dict_live :: "dictionary \<Rightarrow> (nat \<times> dict_record) list" where
  "dict_live d = filter (\<lambda>(i, r). record_is_live r) (dict_iter d)"

fun dict_position :: "tenant \<Rightarrow> nat \<Rightarrow> dictionary \<Rightarrow> nat option" where
  "dict_position key i [] = None"
| "dict_position key i (r # d) =
     (if dr_key r = key \<and> record_is_live r then Some i else dict_position key (Suc i) d)"

definition id_of :: "dictionary \<Rightarrow> tenant \<Rightarrow> nat option" where
  "id_of d key = (case dict_position key 0 d of None \<Rightarrow> None | Some i \<Rightarrow> to_slot_id i)"

definition raise_reclaimed :: "nat \<Rightarrow> reclaim_entry \<Rightarrow> dictionary \<Rightarrow> not_live + dictionary" where
  "raise_reclaimed i entry d =
     (case dict_get d i of
        Some r \<Rightarrow>
          (case dr_state r of
             Live held \<Rightarrow>
               (let raised = (case held of
                                Some h \<Rightarrow> if re_offset h \<ge> re_offset entry then h else entry
                              | None \<Rightarrow> entry)
                in Inr (d[i := r\<lparr>dr_state := Live (Some raised)\<rparr>]))
           | Tombstoned \<Rightarrow> Inl (Id_Tombstoned i))
      | None \<Rightarrow> Inl (Id_Unknown i))"

definition dict_assign :: "tenant \<Rightarrow> geometry \<Rightarrow> dictionary \<Rightarrow> dictionary \<times> nat option" where
  "dict_assign key g d =
     (case id_of d key of
        Some i \<Rightarrow> (d, Some i)
      | None \<Rightarrow>
          (let n = length d in
           if n \<ge> gm_max_tenants g then (d, None)
           else (case to_slot_id n of
                   None \<Rightarrow> (d, None)
                 | Some i \<Rightarrow> (d @ [\<lparr>dr_key = key, dr_state = Live None\<rparr>], Some i))))"

definition dict_tombstone :: "nat \<Rightarrow> dictionary \<Rightarrow> dictionary option" where
  "dict_tombstone i d =
     (case dict_get d i of Some r \<Rightarrow> Some (d[i := r\<lparr>dr_state := Tombstoned\<rparr>]) | None \<Rightarrow> None)"

definition seed_keys :: "dictionary \<Rightarrow> seed_key list" where
  "seed_keys d = map (\<lambda>r. \<lparr>sk_key = dr_key r, sk_tombstoned = \<not> record_is_live r\<rparr>) d"

record dictionary_conflict =
  dc_id :: nat
  dc_left :: tenant
  dc_right :: tenant

fun union_from :: "nat \<Rightarrow> dictionary \<Rightarrow> seed_key list \<Rightarrow> dictionary_conflict + dictionary" where
  "union_from i records [] = Inr records"
| "union_from i records (seed # seeds) =
     (case dict_get records i of
        Some r \<Rightarrow>
          (if dr_key r \<noteq> sk_key seed
           then Inl \<lparr>dc_id = (if i < 2 ^ 16 then i else 2 ^ 16 - 1), dc_left = dr_key r, dc_right = sk_key seed\<rparr>
           else union_from (Suc i)
                  (if sk_tombstoned seed then records[i := r\<lparr>dr_state := Tombstoned\<rparr>] else records) seeds)
      | None \<Rightarrow>
          union_from (Suc i)
            (records @ [\<lparr>dr_key = sk_key seed,
                         dr_state = (if sk_tombstoned seed then Tombstoned else Live None)\<rparr>]) seeds)"

definition dict_union :: "dictionary \<Rightarrow> seed_key list \<Rightarrow> dictionary_conflict + dictionary" where
  "dict_union d seeds = union_from 0 d seeds"

section \<open>Bytes\<close>

definition put_at :: "bytes \<Rightarrow> nat \<Rightarrow> bytes \<Rightarrow> bytes" where
  "put_at out p bs = take p out @ bs @ drop (p + length bs) out"

definition zeros :: "nat \<Rightarrow> bytes" where
  "zeros n = replicate n (CHR 0x00)"

definition read_u16 :: "bytes \<Rightarrow> nat \<Rightarrow> nat" where
  "read_u16 bs p = le_val (slice bs p (p + 2))"

definition read_u32 :: "bytes \<Rightarrow> nat \<Rightarrow> nat" where
  "read_u32 bs p = le_val (slice bs p (p + 4))"

definition read_u64 :: "bytes \<Rightarrow> nat \<Rightarrow> nat" where
  "read_u64 bs p = le_val (slice bs p (p + 8))"

definition read_offset :: "bytes \<Rightarrow> nat \<Rightarrow> wal_offset" where
  "read_offset bs p = Wal_Offset (slice bs p (p + 16)) (read_u64 bs (p + 16))"

definition write_offset :: "bytes \<Rightarrow> nat \<Rightarrow> wal_offset \<Rightarrow> bytes" where
  "write_offset out p off = put_at (put_at out p (wo_segment off)) (p + 16) (le_bytes 8 (wo_byte off))"

definition reserved_zero :: "bytes \<Rightarrow> nat \<Rightarrow> nat \<Rightarrow> bytes \<Rightarrow> format_error option" where
  "reserved_zero bs a b field =
     (let n = length (takeWhile (\<lambda>c. c = CHR 0x00) (slice bs a b))
      in if n < length (slice bs a b) then Some (Fmt_Reserved field (a + n)) else None)"

section \<open>The file header\<close>

definition encode_file_header :: "crc_fns \<Rightarrow> geometry \<Rightarrow> bytes" where
  "encode_file_header crc g =
     (let out = zeros file_header_len;
          out = put_at out 0 reclaim_magic;
          out = put_at out 4 (le_bytes 2 reclaim_version);
          out = put_at out 8 (le_bytes 8 (slot_len g));
          out = put_at out 16 (le_bytes 4 (gm_max_tenants g));
          out = put_at out 20 (le_bytes 4 (gm_max_unlinks_per_pass g))
      in put_at out 24 (le_bytes 4 (unat (crc32c crc (take file_header_crc_covers out)))))"

definition decode_file_header :: "crc_fns \<Rightarrow> bytes \<Rightarrow> format_error + geometry" where
  "decode_file_header crc bs =
     (if length bs \<noteq> file_header_len then Inl (Fmt_Length (length bs) file_header_len)
      else (let magic = slice bs 0 4 in
        if magic \<noteq> reclaim_magic then Inl (Fmt_BadMagic magic)
        else (let version = le_val (slice bs 4 6) in
          if version \<noteq> reclaim_version then Inl (Fmt_UnknownVersion version)
          else unless_error (reserved_zero bs 6 8 ''file header'')
            (let computed = crc32c crc (take file_header_crc_covers bs); found = read_u32 bs 24 in
             if found \<noteq> unat computed then Inl (Fmt_CrcMismatch found computed)
             else unless_error (reserved_zero bs 28 32 ''file header'')
               (let stored = read_u64 bs 8 in
                case geometry_new (read_u32 bs 16) (read_u32 bs 20) of
                  Inl e \<Rightarrow> Inl (Fmt_Capacity e)
                | Inr g \<Rightarrow> if stored \<noteq> slot_len g then Inl (Fmt_SlotLen stored (slot_len g)) else Inr g)))))"

section \<open>Writing a slot\<close>

definition encode_dict_record :: "bytes \<Rightarrow> nat \<Rightarrow> nat \<Rightarrow> dict_record \<Rightarrow> encode_error + bytes" where
  "encode_dict_record out p i dict =
     (let key = dr_key dict in
      if key = [] \<or> length key > key_len then Inl (Enc_KeyLength i (length key))
      else (let out = put_at out p (le_bytes 2 (length key));
                out = put_at out (p + 2) key;
                flags = (if record_is_live dict then 0 else dict_tombstoned)
            in Inr (put_at out (p + 130) (le_bytes 2 (unat flags)))))"

definition write_entry ::
  "geometry \<Rightarrow> recorded_mode \<Rightarrow> nat \<Rightarrow> dict_record \<Rightarrow> bytes \<Rightarrow> encode_error + bytes \<times> nat" where
  "write_entry g recorded i dict out =
     (case dr_state dict of
        Live (Some entry) \<Rightarrow>
          (if \<not> mode_admits recorded (re_mode entry)
           then Inl (Enc_EntryModeDisagrees i (re_mode entry) recorded)
           else (let p = entries_at g i;
                     out = put_at out p (le_bytes 2 (unat entry_occupied));
                     out = put_at out (p + 2) (le_bytes 2 (entry_mode_code (re_mode entry)))
                 in Inr (write_offset out (p + 8) (re_offset entry), 1)))
      | _ \<Rightarrow> Inr (out, 0))"

fun write_dictionary ::
  "geometry \<Rightarrow> recorded_mode \<Rightarrow> (nat \<times> dict_record) list \<Rightarrow> nat \<Rightarrow> bytes \<Rightarrow> encode_error + bytes \<times> nat" where
  "write_dictionary g recorded [] entry_count out = Inr (out, entry_count)"
| "write_dictionary g recorded ((i, dict) # ds) entry_count out =
     and_try (encode_dict_record out (dictionary_at i) i dict) (\<lambda>out.
       and_try (write_entry g recorded i dict out) (\<lambda>(out, n).
         write_dictionary g recorded ds (entry_count + n) out))"

fun check_pairs_loop :: "uuid \<Rightarrow> dictionary \<Rightarrow> (nat \<times> wal_offset) list \<Rightarrow> encode_error option" where
  "check_pairs_loop seg d [] = None"
| "check_pairs_loop seg d ((i, off) # ps) =
     (if \<not> dict_is_live d i then Some (Enc_PairWithoutTenant seg i)
      else if wo_segment off \<noteq> seg then Some (Enc_PairSegment seg i (wo_segment off))
      else check_pairs_loop seg d ps)"

definition check_pairs :: "planned_unlink \<Rightarrow> dictionary \<Rightarrow> encode_error option" where
  "check_pairs p d = check_pairs_loop (pu_segment p) d (pu_last_offsets p)"

fun write_pairs :: "geometry \<Rightarrow> nat \<Rightarrow> (nat \<times> wal_offset) list \<Rightarrow> bytes \<Rightarrow> bytes" where
  "write_pairs g position [] out = out"
| "write_pairs g position ((i, off) # ps) out =
     (let p = pair_at g position i;
          out = put_at out p (le_bytes 2 (unat pair_present))
      in write_pairs g position ps (write_offset out (p + 8) off))"

definition write_planned ::
  "geometry \<Rightarrow> dictionary \<Rightarrow> nat \<Rightarrow> planned_unlink \<Rightarrow> bytes \<Rightarrow> encode_error + bytes" where
  "write_planned g d position pl out =
     unless_error (check_pairs pl d)
       (let p = planned_at g position;
            out = put_at out p (pu_segment pl);
            n = length (pu_last_offsets pl)
        in if n \<ge> 2 ^ 16 then Inl (Enc_TooManyPairs (pu_segment pl) n)
           else (let out = put_at out (p + 16) (le_bytes 2 n);
                     uncertain = (if pu_uncertain pl then planned_uncertain else 0);
                     out = put_at out (p + 22) [char_of (unat (planned_occupied OR uncertain))]
                 in Inr (write_pairs g position (pu_last_offsets pl) out)))"

fun write_planned_all ::
  "geometry \<Rightarrow> dictionary \<Rightarrow> (nat \<times> planned_unlink) list \<Rightarrow> bytes \<Rightarrow> encode_error + bytes" where
  "write_planned_all g d [] out = Inr out"
| "write_planned_all g d ((position, pl) # ps) out =
     and_try (write_planned g d position pl out) (write_planned_all g d ps)"

definition encode_slot_into ::
  "crc_fns \<Rightarrow> reclaim_record \<Rightarrow> nat \<Rightarrow> geometry \<Rightarrow> bytes \<Rightarrow> encode_error + bytes" where
  "encode_slot_into crc rec generation g out =
     (if length out \<noteq> slot_len g then Inl (Enc_BufferLength (length out) (slot_len g))
      else if generation = 0 then Inl Enc_ZeroGeneration
      else (let tenants = length (rr_dictionary rec) in
        if tenants > gm_max_tenants g then Inl (Enc_TooManyTenants tenants (gm_max_tenants g))
        else if length (rr_planned rec) > gm_max_unlinks_per_pass g
        then Inl (Enc_TooManyPlanned (length (rr_planned rec)) (gm_max_unlinks_per_pass g))
        else if rr_consumer_mode rec = Unrecorded \<and> rr_planned rec \<noteq> [] then Inl Enc_PlannedWithoutMode
        else and_try (write_dictionary g (rr_consumer_mode rec) (dict_iter (rr_dictionary rec)) 0 (zeros (length out)))
          (\<lambda>(out, entry_count).
             and_try (write_planned_all g (rr_dictionary rec) (enumerate 0 (rr_planned rec)) out) (\<lambda>out.
               let out = put_at out 0 (le_bytes 8 generation);
                   out = put_at out 8 (le_bytes 4 entry_count);
                   out = put_at out 12 (le_bytes 4 (length (rr_planned rec)));
                   out = put_at out 16 (le_bytes 2 (unat (flags_bits (rr_witness rec))));
                   out = put_at out 18 (le_bytes 2 (mode_code (rr_consumer_mode rec)));
                   out = put_at out 20 (le_bytes 4 (length (rr_dictionary rec)));
                   trailer = trailer_offset g
               in Inr (put_at out trailer (le_bytes 4 (unat (crc32c crc (take trailer out)))))))))"

definition encode_slot :: "crc_fns \<Rightarrow> reclaim_record \<Rightarrow> nat \<Rightarrow> geometry \<Rightarrow> encode_error + bytes" where
  "encode_slot crc rec generation g = encode_slot_into crc rec generation g (zeros (slot_len g))"

section \<open>Reading a slot\<close>

definition decode_dict_record :: "bytes \<Rightarrow> nat \<Rightarrow> nat \<Rightarrow> format_error + (tenant \<times> bool) option" where
  "decode_dict_record bs i next_slot_id =
     (let len = read_u16 bs 0; below_next = i < next_slot_id in
      if len = 0 then
        (if below_next then Inl (Fmt_DictionaryHole i)
         else unless_error (reserved_zero bs 2 dict_record_len ''dictionary record'') (Inr None))
      else if \<not> below_next then Inl (Fmt_DictionaryPastNext i next_slot_id)
      else if len > key_len then Inl (Fmt_KeyLength i len)
      else (let key = slice bs 2 (2 + len) in
        if \<not> utf8_valid key then Inl (Fmt_KeyNotUtf8 i)
        else unless_error (reserved_zero bs (2 + len) 130 ''dictionary key padding'')
          (let flags = word_of_nat (read_u16 bs 130) :: 16 word in
           if flags AND NOT dict_tombstoned \<noteq> 0 then Inl (Fmt_DictionaryFlags i flags)
           else Inr (Some (key, flags AND dict_tombstoned \<noteq> 0)))))"

definition decode_rentry :: "bytes \<Rightarrow> nat \<Rightarrow> format_error + reclaim_entry option" where
  "decode_rentry bs i =
     (let flags = word_of_nat (read_u16 bs 0) :: 16 word in
      if flags AND NOT entry_occupied \<noteq> 0 then Inl (Fmt_EntryFlags i flags)
      else if flags AND entry_occupied = 0
      then unless_error (reserved_zero bs 2 entry_len ''entry'') (Inr None)
      else and_try (entry_mode_from_code (read_u16 bs 2)) (\<lambda>mode.
             unless_error (reserved_zero bs 4 8 ''entry'')
               (Inr (Some \<lparr>re_mode = mode, re_offset = read_offset bs 8\<rparr>))))"

fun slot_record :: "nat \<Rightarrow> (tenant \<times> bool) option \<Rightarrow> reclaim_entry option \<Rightarrow> format_error + dict_record option" where
  "slot_record i None None = Inr None"
| "slot_record i (Some (key, False)) e = Inr (Some \<lparr>dr_key = key, dr_state = Live e\<rparr>)"
| "slot_record i (Some (key, True)) None = Inr (Some \<lparr>dr_key = key, dr_state = Tombstoned\<rparr>)"
| "slot_record i None (Some e) = Inl (Fmt_EntryWithoutTenant i)"
| "slot_record i (Some (key, True)) (Some e) = Inl (Fmt_EntryWithoutTenant i)"

fun decode_records ::
  "bytes \<Rightarrow> geometry \<Rightarrow> nat \<Rightarrow> nat list \<Rightarrow> dictionary \<Rightarrow> format_error + dictionary" where
  "decode_records bs g next_slot_id [] records = Inr records"
| "decode_records bs g next_slot_id (i # is) records =
     and_try (decode_dict_record (drop (dictionary_at i) bs) i next_slot_id) (\<lambda>key.
       and_try (decode_rentry (drop (entries_at g i) bs) i) (\<lambda>entry.
         and_try (slot_record i key entry) (\<lambda>r.
           decode_records bs g next_slot_id is (records @ (case r of None \<Rightarrow> [] | Some r \<Rightarrow> [r])))))"

definition has_entry :: "dict_record \<Rightarrow> bool" where
  "has_entry r = (case dr_state r of Live (Some _) \<Rightarrow> True | _ \<Rightarrow> False)"

definition occupied_entries :: "dictionary \<Rightarrow> nat" where
  "occupied_entries d = length (filter (\<lambda>(i, r). has_entry r) (dict_iter d))"

fun distinct_loop :: "(tenant, nat) hash_map \<Rightarrow> (nat \<times> dict_record) list \<Rightarrow> format_error option" where
  "distinct_loop seen [] = None"
| "distinct_loop seen ((i, r) # rs) =
     (case hm_get seen (dr_key r) of
        Some first \<Rightarrow> Some (Fmt_DuplicateKey first i (dr_key r))
      | None \<Rightarrow> distinct_loop (hm_insert (dr_key r) i seen) rs)"

definition live_keys_are_distinct :: "dictionary \<Rightarrow> format_error option" where
  "live_keys_are_distinct d = distinct_loop [] (dict_live d)"

definition decode_dictionary :: "bytes \<Rightarrow> geometry \<Rightarrow> nat \<Rightarrow> nat \<Rightarrow> format_error + dictionary" where
  "decode_dictionary bs g next_slot_id entry_count =
     and_try (decode_records bs g next_slot_id (slot_ids g) []) (\<lambda>d.
       if occupied_entries d \<noteq> entry_count then Inl (Fmt_EntryCount entry_count (occupied_entries d))
       else unless_error (live_keys_are_distinct d) (Inr d))"

fun agree_loop :: "recorded_mode \<Rightarrow> (nat \<times> dict_record) list \<Rightarrow> format_error option" where
  "agree_loop recorded [] = None"
| "agree_loop recorded ((i, r) # rs) =
     (case dr_state r of
        Live (Some e) \<Rightarrow>
          (if \<not> mode_admits recorded (re_mode e) then Some (Fmt_EntryModeDisagrees i (re_mode e) recorded)
           else agree_loop recorded rs)
      | _ \<Rightarrow> agree_loop recorded rs)"

definition entries_agree_with :: "dictionary \<Rightarrow> recorded_mode \<Rightarrow> format_error option" where
  "entries_agree_with d recorded = agree_loop recorded (dict_live d)"

definition decode_pair :: "bytes \<Rightarrow> dictionary \<Rightarrow> nat \<Rightarrow> nat \<Rightarrow> format_error + wal_offset option" where
  "decode_pair bs d position i =
     (let flags = word_of_nat (read_u16 bs 0) :: 16 word in
      if flags AND NOT pair_present \<noteq> 0 then Inl (Fmt_PairFlags position i flags)
      else unless_error (reserved_zero bs 2 8 ''planned pair'')
        (if flags AND pair_present = 0
         then unless_error (reserved_zero bs 8 pair_len ''planned pair'') (Inr None)
         else if \<not> dict_is_live d i then Inl (Fmt_PairWithoutTenant position i)
         else Inr (Some (read_offset bs 8))))"

fun decode_pairs ::
  "bytes \<Rightarrow> geometry \<Rightarrow> dictionary \<Rightarrow> nat \<Rightarrow> uuid \<Rightarrow> nat list \<Rightarrow> (nat \<times> wal_offset) list
    \<Rightarrow> format_error + (nat \<times> wal_offset) list" where
  "decode_pairs bs g d position seg [] offs = Inr offs"
| "decode_pairs bs g d position seg (i # is) offs =
     and_try (decode_pair (drop (pair_at g position i) bs) d position i) (\<lambda>r.
       case r of
         None \<Rightarrow> decode_pairs bs g d position seg is offs
       | Some off \<Rightarrow>
           if wo_segment off \<noteq> seg then Inl (Fmt_PairSegment position i (wo_segment off))
           else decode_pairs bs g d position seg is (offs @ [(i, off)]))"

definition decode_planned_record ::
  "bytes \<Rightarrow> geometry \<Rightarrow> dictionary \<Rightarrow> nat \<Rightarrow> format_error + planned_unlink option" where
  "decode_planned_record bs g d position =
     (let p = planned_at g position; flags = word_of_nat (of_char (bs ! (p + 22))) :: 8 word in
      if flags AND NOT (planned_occupied OR planned_uncertain) \<noteq> 0 then Inl (Fmt_PlannedFlags position flags)
      else unless_error (reserved_zero bs (p + 18) (p + 22) ''planned record'')
        (unless_error (reserved_zero bs (p + 23) (p + 24) ''planned record'')
          (if flags AND planned_occupied = 0 then
             (if flags \<noteq> 0 then Inl (Fmt_PlannedFlags position flags)
              else unless_error (reserved_zero bs p (p + 18) ''planned record'')
                (unless_error (reserved_zero bs (p + 24) (p + planned_stride g) ''planned pairs'') (Inr None)))
           else (let seg = slice bs p (p + 16) in
             and_try (decode_pairs bs g d position seg (slot_ids g) []) (\<lambda>offs.
               let tenant_count = read_u16 bs (p + 16) in
               if tenant_count \<noteq> length offs then Inl (Fmt_TenantCount position tenant_count (length offs))
               else Inr (Some \<lparr>pu_segment = seg, pu_uncertain = (flags AND planned_uncertain \<noteq> 0),
                               pu_last_offsets = offs\<rparr>))))))"

fun decode_planned_from ::
  "bytes \<Rightarrow> geometry \<Rightarrow> dictionary \<Rightarrow> nat list \<Rightarrow> planned_unlink list \<Rightarrow> format_error + planned_unlink list" where
  "decode_planned_from bs g d [] pls = Inr pls"
| "decode_planned_from bs g d (position # ps) pls =
     and_try (decode_planned_record bs g d position) (\<lambda>r.
       decode_planned_from bs g d ps (pls @ (case r of None \<Rightarrow> [] | Some pl \<Rightarrow> [pl])))"

definition decode_planned :: "bytes \<Rightarrow> geometry \<Rightarrow> dictionary \<Rightarrow> nat \<Rightarrow> format_error + planned_unlink list" where
  "decode_planned bs g d planned_count =
     and_try (decode_planned_from bs g d [0..<gm_max_unlinks_per_pass g] []) (\<lambda>pls.
       if length pls \<noteq> planned_count then Inl (Fmt_PlannedCount planned_count (length pls)) else Inr pls)"

definition decode_slot :: "crc_fns \<Rightarrow> bytes \<Rightarrow> geometry \<Rightarrow> format_error + decoded_slot" where
  "decode_slot crc bs g =
     (if length bs \<noteq> slot_len g then Inl (Fmt_Length (length bs) (slot_len g))
      else (let trailer = trailer_offset g; computed = crc32c crc (take trailer bs); found = read_u32 bs trailer in
        if found \<noteq> unat computed then Inl (Fmt_CrcMismatch found computed)
        else unless_error (reserved_zero bs (trailer + 4) (trailer + 8) ''slot trailer'')
          (let generation = read_u64 bs 0 in
           if generation = 0 then Inl Fmt_ZeroGeneration
           else and_try (flags_from_bits (word_of_nat (read_u16 bs 16))) (\<lambda>witness.
             and_try (mode_from_code (read_u16 bs 18)) (\<lambda>mode.
               let next_slot_id = read_u32 bs 20 in
               if next_slot_id > gm_max_tenants g then Inl (Fmt_NextSlotId next_slot_id (gm_max_tenants g))
               else and_try (decode_dictionary bs g next_slot_id (read_u32 bs 8)) (\<lambda>d.
                 unless_error (entries_agree_with d mode)
                   (let planned_count = read_u32 bs 12 in
                    if mode = Unrecorded \<and> planned_count \<noteq> 0 then Inl (Fmt_PlannedWithoutMode planned_count)
                    else and_try (decode_planned bs g d planned_count) (\<lambda>pls.
                      Inr \<lparr>ds_generation = generation,
                           ds_record = \<lparr>rr_witness = witness, rr_consumer_mode = mode, rr_dictionary = d,
                                        rr_planned = pls\<rparr>\<rparr>))))))))"

fun choose_live ::
  "format_error + decoded_slot \<Rightarrow> format_error + decoded_slot \<Rightarrow> format_error + slot_index \<times> decoded_slot" where
  "choose_live (Inr a) (Inr b) =
     (if ds_generation a > ds_generation b then Inr (First_Slot, a)
      else if ds_generation a < ds_generation b then Inr (Second_Slot, b)
      else Inl (Fmt_EqualGenerations (ds_generation a)))"
| "choose_live (Inr a) (Inl e) = Inr (First_Slot, a)"
| "choose_live (Inl e) (Inr b) = Inr (Second_Slot, b)"
| "choose_live (Inl e) (Inl f) = Inl (Fmt_NoValidSlot e f)"

end
