(* ===== verification/Reclaim_Layout.thy ===== *)
theory Reclaim_Layout
  imports Reclaim_Record
begin

text \<open>
  Where the writer of a slot puts its bytes and what the reader makes of them. Every write of the
  encoder stays inside the block of the record it lays out, blocks do not overlap, so a block of the
  finished slot depends on one record alone; the reader looks at one block at a time. From this the
  round trip of a whole slot, the invariant of the records the reader accepts, and the round trip of
  the file header.
\<close>

declare add_2_eq_Suc [simp del] add_2_eq_Suc' [simp del]

section \<open>Slices of a buffer\<close>

lemma length_put_at [simp]: "p + length bs \<le> length out \<Longrightarrow> length (put_at out p bs) = length out"
  by (simp add: put_at_def)

lemma length_zeros [simp]: "length (zeros n) = n"
  by (simp add: zeros_def)

lemma slice_zeros [simp]: "b \<le> n \<Longrightarrow> slice (zeros n) a b = zeros (b - a)"
  by (simp add: slice_def zeros_def min_def)

lemma slice_drop: "slice (drop p s) a b = slice s (p + a) (p + b)"
  by (simp add: slice_def add.commute)

lemma slice_nth: "b \<le> length s \<Longrightarrow> k < b - a \<Longrightarrow> slice s a b ! k = s ! (a + k)"
  by (simp add: slice_def)

lemma put_at_nth:
  assumes "p + length bs \<le> length out" and "k < length out"
  shows "put_at out p bs ! k = (if p \<le> k \<and> k < p + length bs then bs ! (k - p) else out ! k)"
proof (cases "k < p")
  case False
  then obtain j where "k = p + j" using le_Suc_ex not_less by blast
  then show ?thesis using assms by (auto simp: put_at_def nth_append min_def)
qed (use assms in \<open>simp add: put_at_def nth_append\<close>)

lemma slice_slice: "a \<le> b \<Longrightarrow> b \<le> length s \<Longrightarrow> d \<le> b - a \<Longrightarrow> slice (slice s a b) c d = slice s (a + c) (a + d)"
  by (rule nth_equalityI) (simp_all add: length_slice slice_nth add.assoc)

lemma slice_put_at: "p + length bs \<le> length out \<Longrightarrow> slice (put_at out p bs) p (p + length bs) = bs"
  by (simp add: slice_def put_at_def)

lemma slice_put_outside:
  assumes "p + length bs \<le> length out" and "p + length bs \<le> a \<or> b \<le> p" and "b \<le> length out"
  shows "slice (put_at out p bs) a b = slice out a b"
  using assms by (intro nth_equalityI) (auto simp: length_slice slice_nth put_at_nth)

lemma slice_put_inside:
  assumes "a \<le> p" and "p + length bs \<le> b" and "b \<le> length out"
  shows "slice (put_at out p bs) a b = put_at (slice out a b) (p - a) bs"
proof (rule nth_equalityI)
  show "length (slice (put_at out p bs) a b) = length (put_at (slice out a b) (p - a) bs)"
    using assms by (simp add: length_slice)
  fix k assume "k < length (slice (put_at out p bs) a b)"
  then have k: "k < b - a" using assms by (simp add: length_slice)
  have "p - a \<le> k \<longleftrightarrow> p \<le> a + k" "k < p - a + length bs \<longleftrightarrow> a + k < p + length bs" "k - (p - a) = a + k - p"
    using assms by auto
  then show "slice (put_at out p bs) a b ! k = put_at (slice out a b) (p - a) bs ! k"
    using assms k by (simp add: length_slice slice_nth put_at_nth)
qed

lemma put_at_append:
  assumes "length xs = p" and "length bs = length ys"
  shows "put_at (xs @ ys @ zs) p bs = xs @ bs @ zs"
  using assms by (simp add: put_at_def)

lemma put_at_zeros:
  assumes "length xs \<le> p" and "p + length bs \<le> length xs + n"
  shows "put_at (xs @ zeros n) p bs = xs @ zeros (p - length xs) @ bs @ zeros (length xs + n - (p + length bs))"
  using assms by (auto simp: put_at_def zeros_def min_def add.commute)

lemma slice_app: "length xs = a \<Longrightarrow> length ys = b - a \<Longrightarrow> slice (xs @ ys @ zs) a b = ys"
  by (simp add: slice_def)

lemma slice_all: "length s = b \<Longrightarrow> slice s 0 b = s"
  by (simp add: slice_def)

lemma reserved_zero_None: "reserved_zero bs a b f = None \<longleftrightarrow> (\<forall>c \<in> set (slice bs a b). c = CHR 0x00)"
proof -
  have "length (takeWhile (\<lambda>c. c = CHR 0x00) xs) < length xs \<longleftrightarrow> \<not> (\<forall>c \<in> set xs. c = CHR 0x00)" for xs :: bytes
    by (induction xs) auto
  then show ?thesis by (simp add: reserved_zero_def Let_def)
qed

lemma reserved_zero_zeros: "slice bs a b = zeros n \<Longrightarrow> reserved_zero bs a b f = None"
  by (auto simp: reserved_zero_None zeros_def)

text \<open>A step that changes the buffer in \<open>n\<close> bytes at \<open>a\<close> only.\<close>

definition touches :: "bytes \<Rightarrow> nat \<Rightarrow> nat \<Rightarrow> bytes \<Rightarrow> bool" where
  "touches out a n out' \<longleftrightarrow>
     length out' = length out
     \<and> (\<forall>c d. d \<le> length out \<longrightarrow> d \<le> a \<or> a + n \<le> c \<longrightarrow> slice out' c d = slice out c d)"

lemma touches_refl [simp]: "touches out a n out"
  by (simp add: touches_def)

lemma touches_trans: "touches out a n out' \<Longrightarrow> touches out' a n out'' \<Longrightarrow> touches out a n out''"
  by (simp add: touches_def)

lemma touches_put: "a \<le> p \<Longrightarrow> p + length bs \<le> a + n \<Longrightarrow> a + n \<le> length out \<Longrightarrow> touches out a n (put_at out p bs)"
  by (auto simp: touches_def slice_put_outside)

lemma touches_wider: "touches out p m out' \<Longrightarrow> a \<le> p \<Longrightarrow> p + m \<le> a + n \<Longrightarrow> touches out a n out'"
  by (auto simp: touches_def)

lemma touches_length: "touches out a n out' \<Longrightarrow> length out' = length out"
  by (simp add: touches_def)

lemma touches_slice:
  "touches out a n out' \<Longrightarrow> d \<le> length out \<Longrightarrow> d \<le> a \<or> a + n \<le> c \<Longrightarrow> slice out' c d = slice out c d"
  by (auto simp: touches_def)

section \<open>Blocks\<close>

definition dict_block :: "dict_record \<Rightarrow> bytes" where
  "dict_block r =
     le_bytes 2 (length (dr_key r)) @ dr_key r @ zeros (key_len - length (dr_key r))
       @ le_bytes 2 (if record_is_live r then 0 else 1)"

definition offset_block :: "wal_offset \<Rightarrow> bytes" where
  "offset_block off = wo_segment off @ le_bytes 8 (wo_byte off)"

definition entry_block :: "slot_state \<Rightarrow> bytes" where
  "entry_block st =
     (case st of
        Live (Some e) \<Rightarrow> le_bytes 2 1 @ le_bytes 2 (entry_mode_code (re_mode e)) @ zeros 4 @ offset_block (re_offset e)
      | _ \<Rightarrow> zeros entry_len)"

definition pair_block :: "wal_offset option \<Rightarrow> bytes" where
  "pair_block p = (case p of None \<Rightarrow> zeros pair_len | Some off \<Rightarrow> le_bytes 2 1 @ zeros 6 @ offset_block off)"

definition planned_block :: "planned_unlink \<Rightarrow> bytes" where
  "planned_block pl =
     pu_segment pl @ le_bytes 2 (length (pu_last_offsets pl)) @ zeros 4
       @ [if pu_uncertain pl then CHR 0x03 else CHR 0x02] @ zeros 1"

definition key_ok :: "tenant \<Rightarrow> bool" where
  "key_ok k \<longleftrightarrow> k \<noteq> [] \<and> length k \<le> key_len \<and> utf8_valid k"

lemma length_dict_block: "length (dr_key r) \<le> key_len \<Longrightarrow> length (dict_block r) = dict_record_len"
  by (simp add: dict_block_def layout_consts)

lemma length_offset_block: "uuid_ok (wo_segment off) \<Longrightarrow> length (offset_block off) = 24"
  by (simp add: offset_block_def uuid_ok_def)

lemma encode_dict_record_block:
  assumes "encode_dict_record out p i r = Inr out'" and "p + dict_record_len \<le> length out"
    and "slice out p (p + dict_record_len) = zeros dict_record_len"
  shows "touches out p dict_record_len out'" and "slice out' p (p + dict_record_len) = dict_block r"
proof -
  let ?k = "dr_key r" and ?fl = "if record_is_live r then 0 else 1 :: nat"
  have k: "length ?k \<le> 128" "?k \<noteq> []"
    using assms(1) by (auto simp: encode_dict_record_def Let_def layout_consts split: if_splits)
  have fl: "unat (if record_is_live r then 0 else dict_tombstoned) = ?fl" by (simp add: dict_tombstoned_def)
  have out': "out' = put_at (put_at (put_at out p (le_bytes 2 (length ?k))) (p + 2) ?k) (p + 130) (le_bytes 2 ?fl)"
    using assms(1) k fl by (simp add: encode_dict_record_def Let_def layout_consts split: if_splits)
  have n: "p + 132 \<le> length out" using assms(2) by (simp add: layout_consts)
  show "touches out p dict_record_len out'"
    using n k unfolding out'
    by (intro touches_trans [OF touches_trans [OF touches_put touches_put] touches_put]) (simp_all add: layout_consts)
  have "slice out' p (p + 132) = put_at (put_at (put_at (zeros 132) 0 (le_bytes 2 (length ?k))) 2 ?k) 130 (le_bytes 2 ?fl)"
    using n k assms(3) by (simp add: out' slice_put_inside layout_consts)
  also have "\<dots> = dict_block r"
    using k put_at_zeros [of "[]" 0 "le_bytes 2 (length ?k)" 132]
      put_at_zeros [of "le_bytes 2 (length ?k)" 2 ?k 130]
      put_at_zeros [of "le_bytes 2 (length ?k) @ ?k" 130 "le_bytes 2 ?fl" "130 - length ?k"]
    by (simp add: dict_block_def layout_consts zeros_def)
  finally show "slice out' p (p + dict_record_len) = dict_block r" by (simp add: layout_consts)
qed

lemma write_offset_block:
  assumes "uuid_ok (wo_segment off)" and "p + 24 \<le> length out"
  shows "write_offset out p off = put_at out p (offset_block off)"
proof (rule nth_equalityI)
  let ?u = "wo_segment off" and ?b = "le_bytes 8 (wo_byte off)"
  have u: "length ?u = 16" using assms(1) by (simp add: uuid_ok_def)
  show "length (write_offset out p off) = length (put_at out p (offset_block off))"
    using assms u by (simp add: write_offset_def offset_block_def)
  fix k assume "k < length (write_offset out p off)"
  then have k: "k < length out" using assms u by (simp add: write_offset_def)
  consider "k < p" | "p \<le> k" "k < p + 16" | "p + 16 \<le> k" "k < p + 24" | "p + 24 \<le> k" by linarith
  then show "write_offset out p off ! k = put_at out p (offset_block off) ! k"
    using assms u k by cases (auto simp: write_offset_def offset_block_def put_at_nth nth_append)
qed

lemma write_entry_block:
  assumes "write_entry g m i r out = Inr (out', n)" and "entries_at g i + entry_len \<le> length out"
    and "slice out (entries_at g i) (entries_at g i + entry_len) = zeros entry_len"
    and "\<And>e. dr_state r = Live (Some e) \<Longrightarrow> uuid_ok (wo_segment (re_offset e))"
  shows "touches out (entries_at g i) entry_len out'"
    and "slice out' (entries_at g i) (entries_at g i + entry_len) = entry_block (dr_state r)"
    and "n = (if has_entry r then 1 else 0)"
proof -
  let ?p = "entries_at g i"
  have goals: "touches out ?p entry_len out' \<and> slice out' ?p (?p + entry_len) = entry_block (dr_state r)
      \<and> n = (if has_entry r then 1 else 0)"
  proof (cases "\<exists>e. dr_state r = Live (Some e)")
    case False
    then show ?thesis using assms(1,3)
      by (auto simp: write_entry_def entry_block_def has_entry_def split: slot_state.splits option.splits)
  next
    case True
    then obtain e where e: "dr_state r = Live (Some e)" by blast
    let ?o = "offset_block (re_offset e)" and ?m = "le_bytes 2 (entry_mode_code (re_mode e))"
    have u: "uuid_ok (wo_segment (re_offset e))" by (rule assms(4) [OF e])
    have l: "length ?o = 24" by (rule length_offset_block [OF u])
    have n: "?p + 32 \<le> length out" using assms(2) by (simp add: layout_consts)
    have out': "out' = put_at (put_at (put_at out ?p (le_bytes 2 1)) (?p + 2) ?m) (?p + 8) ?o" "n = 1"
      using assms(1) e n write_offset_block [OF u, of "?p + 8"]
      by (auto simp: write_entry_def Let_def entry_occupied_def split: if_splits)
    have "touches out ?p 32 out'"
      using n l unfolding out'
      by (intro touches_trans [OF touches_trans [OF touches_put touches_put] touches_put]) simp_all
    moreover have "slice out' ?p (?p + 32) = put_at (put_at (put_at (zeros 32) 0 (le_bytes 2 1)) 2 ?m) 8 ?o"
      using n l assms(3) by (simp add: out' slice_put_inside layout_consts)
    moreover have "\<dots> = le_bytes 2 1 @ ?m @ zeros 4 @ ?o"
      using l put_at_zeros [of "[]" 0 "le_bytes 2 1" 32] put_at_zeros [of "le_bytes 2 1" 2 ?m 30]
        put_at_zeros [of "le_bytes 2 1 @ ?m" 8 ?o 28]
      by (simp add: zeros_def)
    ultimately show ?thesis using e out'(2) by (simp add: entry_block_def has_entry_def entry_len_def)
  qed
  then show "touches out ?p entry_len out'" "slice out' ?p (?p + entry_len) = entry_block (dr_state r)"
    "n = (if has_entry r then 1 else 0)" by blast+
qed

section \<open>Places\<close>

abbreviation dict_part :: "bytes \<Rightarrow> nat \<Rightarrow> bytes" where
  "dict_part bs i \<equiv> slice bs (dictionary_at i) (dictionary_at i + dict_record_len)"

abbreviation entry_part :: "geometry \<Rightarrow> bytes \<Rightarrow> nat \<Rightarrow> bytes" where
  "entry_part g bs i \<equiv> slice bs (entries_at g i) (entries_at g i + entry_len)"

abbreviation planned_part :: "geometry \<Rightarrow> bytes \<Rightarrow> nat \<Rightarrow> bytes" where
  "planned_part g bs position \<equiv> slice bs (planned_at g position) (planned_at g position + planned_stride g)"

abbreviation pair_part :: "geometry \<Rightarrow> bytes \<Rightarrow> nat \<Rightarrow> nat \<Rightarrow> bytes" where
  "pair_part g bs position i \<equiv> slice bs (pair_at g position i) (pair_at g position i + pair_len)"

lemma dictionary_places:
  "slot_header_len \<le> dictionary_at i"
  "i < j \<Longrightarrow> dictionary_at i + dict_record_len \<le> dictionary_at j"
  "i < gm_max_tenants g \<Longrightarrow> dictionary_at i + dict_record_len \<le> entries_at g j"
proof -
  show "slot_header_len \<le> dictionary_at i" by (simp add: dictionary_at_def)
  show "i < j \<Longrightarrow> dictionary_at i + dict_record_len \<le> dictionary_at j"
    by (simp add: dictionary_at_def dict_record_len_def)
  show "i < gm_max_tenants g \<Longrightarrow> dictionary_at i + dict_record_len \<le> entries_at g j"
    by (simp add: dictionary_at_def entries_at_def dict_record_len_def)
qed

lemma entry_places:
  "slot_header_len \<le> entries_at g i"
  "i < j \<Longrightarrow> entries_at g i + entry_len \<le> entries_at g j"
  "i < gm_max_tenants g \<Longrightarrow> entries_at g i + entry_len \<le> planned_at g j"
proof -
  show "slot_header_len \<le> entries_at g i" by (simp add: entries_at_def)
  show "i < j \<Longrightarrow> entries_at g i + entry_len \<le> entries_at g j"
    by (simp add: entries_at_def entry_len_def)
  show "i < gm_max_tenants g \<Longrightarrow> entries_at g i + entry_len \<le> planned_at g j"
    by (simp add: entries_at_def planned_at_def Let_def entry_len_def dict_record_len_def)
qed

lemma planned_places:
  "slot_header_len \<le> planned_at g i"
  "planned_at g 0 \<le> planned_at g i"
  "i < j \<Longrightarrow> planned_at g i + planned_stride g \<le> planned_at g j"
  "i < gm_max_unlinks_per_pass g \<Longrightarrow> planned_at g i + planned_stride g \<le> trailer_offset g"
proof -
  show "slot_header_len \<le> planned_at g i" "planned_at g 0 \<le> planned_at g i" by (simp_all add: planned_at_def Let_def)
  have m: "i < j \<Longrightarrow> i * planned_stride g + planned_stride g \<le> j * planned_stride g" for i j
    using mult_le_mono1 [of "Suc i" j "planned_stride g"] by simp
  show "i < j \<Longrightarrow> planned_at g i + planned_stride g \<le> planned_at g j"
    using m by (simp add: planned_at_def Let_def)
  show "i < gm_max_unlinks_per_pass g \<Longrightarrow> planned_at g i + planned_stride g \<le> trailer_offset g"
    using m [of i "gm_max_unlinks_per_pass g"]
    by (simp add: planned_at_def trailer_offset_def slot_len_def Let_def slot_trailer_len_def mult.commute)
qed

lemma pair_places:
  "planned_at g position + planned_header_len \<le> pair_at g position i"
  "i < j \<Longrightarrow> pair_at g position i + pair_len \<le> pair_at g position j"
  "i < gm_max_tenants g \<Longrightarrow> pair_at g position i + pair_len \<le> planned_at g position + planned_stride g"
proof -
  show "planned_at g position + planned_header_len \<le> pair_at g position i" by (simp add: pair_at_def)
  show "i < j \<Longrightarrow> pair_at g position i + pair_len \<le> pair_at g position j"
    by (simp add: pair_at_def pair_len_def)
  show "i < gm_max_tenants g \<Longrightarrow> pair_at g position i + pair_len \<le> planned_at g position + planned_stride g"
    by (simp add: pair_at_def planned_stride_def pair_len_def)
qed

lemma trailer_places:
  "planned_at g 0 \<le> trailer_offset g" "trailer_offset g + slot_trailer_len = slot_len g" "slot_header_len \<le> trailer_offset g"
proof -
  show "planned_at g 0 \<le> trailer_offset g" "slot_header_len \<le> trailer_offset g"
    by (simp_all add: planned_at_def trailer_offset_def slot_len_def slot_trailer_len_def)
  show "trailer_offset g + slot_trailer_len = slot_len g" by (simp add: trailer_offset_def slot_len_def)
qed

section \<open>Writing the dictionary\<close>

definition entry_offsets_ok :: "dict_record \<Rightarrow> bool" where
  "entry_offsets_ok r = (case dr_state r of Live (Some e) \<Rightarrow> offset_ok (re_offset e) | _ \<Rightarrow> True)"

definition entry_mode_ok :: "recorded_mode \<Rightarrow> dict_record \<Rightarrow> bool" where
  "entry_mode_ok m r = (case dr_state r of Live (Some e) \<Rightarrow> mode_admits m (re_mode e) | _ \<Rightarrow> True)"

definition dictionary_blank :: "geometry \<Rightarrow> bytes \<Rightarrow> nat \<Rightarrow> bool" where
  "dictionary_blank g out i \<longleftrightarrow> dict_part out i = zeros dict_record_len \<and> entry_part g out i = zeros entry_len"

lemma write_dictionary_step:
  assumes enc: "encode_dict_record out (dictionary_at k) k r = Inr out1" "write_entry g m k r out1 = Inr (out2, n)"
    and k: "k < gm_max_tenants g" and len: "length out = slot_len g" and blank: "dictionary_blank g out k"
    and off: "entry_offsets_ok r"
  shows "touches out slot_header_len (planned_at g 0 - slot_header_len) out2"
    and "\<And>i. i < gm_max_tenants g \<Longrightarrow> dict_part out2 i = (if i = k then dict_block r else dict_part out i)"
    and "\<And>i. i < gm_max_tenants g \<Longrightarrow> entry_part g out2 i = (if i = k then entry_block (dr_state r) else entry_part g out i)"
    and "n = (if has_entry r then 1 else 0)"
proof -
  note pl = dictionary_places entry_places [where g = g] trailer_places [of g]
  have in1: "dictionary_at k + dict_record_len \<le> length out" "entries_at g k + entry_len \<le> length out"
    using pl(3) [OF k, of 0] pl(6) [OF k, of 0] pl(3) [OF k, of k] pl(7,8) len by linarith+
  note b1 = encode_dict_record_block [OF enc(1) in1(1)]
  have t1: "touches out (dictionary_at k) dict_record_len out1" "dict_part out1 k = dict_block r"
    using b1 blank by (simp_all add: dictionary_blank_def)
  have e1: "entry_part g out1 i = entry_part g out i" if "i < gm_max_tenants g" for i
    using touches_slice [OF t1(1)] pl(3) [OF k, of i] pl(6) [OF that, of 0] pl(7,8) len by simp
  have u: "uuid_ok (wo_segment (re_offset e))" if "dr_state r = Live (Some e)" for e
    using off that by (simp add: entry_offsets_ok_def offset_ok_def)
  have in2: "entries_at g k + entry_len \<le> length out1" using in1(2) touches_length [OF t1(1)] by simp
  note b2 = write_entry_block [OF enc(2) in2 _ u]
  have t2: "touches out1 (entries_at g k) entry_len out2" "entry_part g out2 k = entry_block (dr_state r)"
    "n = (if has_entry r then 1 else 0)"
    using b2 blank e1 [OF k] by (simp_all add: dictionary_blank_def)
  have l1: "length out1 = slot_len g" using touches_length [OF t1(1)] len by simp
  show "n = (if has_entry r then 1 else 0)" by (rule t2(3))
  show "touches out slot_header_len (planned_at g 0 - slot_header_len) out2"
    using touches_wider [OF t1(1), of slot_header_len "planned_at g 0 - slot_header_len"]
      touches_wider [OF t2(1), of slot_header_len "planned_at g 0 - slot_header_len"]
      pl(1) [of k] pl(4) [of k] pl(3) [OF k, of k] pl(6) [OF k, of 0] by (auto intro: touches_trans)
  fix i assume i: "i < gm_max_tenants g"
  have "dict_part out2 i = dict_part out1 i"
    using touches_slice [OF t2(1)] pl(3) [OF i, of k] pl(3) [OF i, of i] pl(6) [OF i, of 0] pl(7,8) l1 by simp
  moreover have "dict_part out1 i = (if i = k then dict_block r else dict_part out i)"
    using touches_slice [OF t1(1)] pl(2) [of i k] pl(2) [of k i] pl(3) [OF i, of i] pl(6) [OF i, of 0] pl(7,8) len t1(2)
    by (cases i k rule: linorder_cases) auto
  ultimately show "dict_part out2 i = (if i = k then dict_block r else dict_part out i)" by simp
  show "entry_part g out2 i = (if i = k then entry_block (dr_state r) else entry_part g out i)"
    using touches_slice [OF t2(1)] pl(5) [of i k] pl(5) [of k i] pl(6) [OF i, of 0] pl(7,8) l1 t2(2) e1 [OF i]
    by (cases i k rule: linorder_cases) auto
qed

lemma write_dictionary_parts:
  assumes "write_dictionary g m (enumerate k d) c out = Inr (out', c')" and "k + length d \<le> gm_max_tenants g"
    and "length out = slot_len g" and "\<And>i. k \<le> i \<Longrightarrow> i < gm_max_tenants g \<Longrightarrow> dictionary_blank g out i"
    and "list_all entry_offsets_ok d"
  shows "touches out slot_header_len (planned_at g 0 - slot_header_len) out'
    \<and> (\<forall>i < gm_max_tenants g.
         dict_part out' i = (if k \<le> i \<and> i < k + length d then dict_block (d ! (i - k)) else dict_part out i)
         \<and> entry_part g out' i
           = (if k \<le> i \<and> i < k + length d then entry_block (dr_state (d ! (i - k))) else entry_part g out i))
    \<and> c' = c + length (filter has_entry d)"
  using assms
proof (induction d arbitrary: k c out)
  case (Cons r d)
  obtain out1 out2 n where enc: "encode_dict_record out (dictionary_at k) k r = Inr out1"
      "write_entry g m k r out1 = Inr (out2, n)"
    and rest: "write_dictionary g m (enumerate (Suc k) d) (c + n) out2 = Inr (out', c')"
    using Cons.prems(1) by (auto simp: case_prod_beta)
  have k: "k < gm_max_tenants g" using Cons.prems(2) by simp
  have off: "entry_offsets_ok r" "list_all entry_offsets_ok d" using Cons.prems(5) by simp_all
  have blank: "dictionary_blank g out k" using Cons.prems(4) k by simp
  note s = write_dictionary_step [OF enc k Cons.prems(3) blank off(1)]
  have len: "length out2 = slot_len g" using touches_length [OF s(1)] Cons.prems(3) by simp
  have blank2: "dictionary_blank g out2 i" if "Suc k \<le> i" "i < gm_max_tenants g" for i
    using Cons.prems(4) [of i] that s(2,3) [of i] by (simp add: dictionary_blank_def)
  have ih: "touches out2 slot_header_len (planned_at g 0 - slot_header_len) out'
    \<and> (\<forall>i < gm_max_tenants g.
         dict_part out' i = (if Suc k \<le> i \<and> i < Suc k + length d then dict_block (d ! (i - Suc k)) else dict_part out2 i)
         \<and> entry_part g out' i
           = (if Suc k \<le> i \<and> i < Suc k + length d then entry_block (dr_state (d ! (i - Suc k))) else entry_part g out2 i))
    \<and> c' = c + n + length (filter has_entry d)"
    by (rule Cons.IH [OF rest _ len blank2 off(2)]) (use Cons.prems(2) in simp_all)
  show ?case
  proof (intro conjI allI impI)
    show "touches out slot_header_len (planned_at g 0 - slot_header_len) out'" using s(1) ih by (blast intro: touches_trans)
    show "c' = c + length (filter has_entry (r # d))" using ih s(4) by simp
    fix i assume i: "i < gm_max_tenants g"
    show "dict_part out' i = (if k \<le> i \<and> i < k + length (r # d) then dict_block ((r # d) ! (i - k)) else dict_part out i)"
      using ih i s(2) [OF i] by (auto simp: nth_Cons')
    show "entry_part g out' i = (if k \<le> i \<and> i < k + length (r # d) then entry_block (dr_state ((r # d) ! (i - k)))
        else entry_part g out i)"
      using ih i s(3) [OF i] by (auto simp: nth_Cons')
  qed
qed auto

lemma dict_iter_enumerate: "length d \<le> 2 ^ 16 \<Longrightarrow> dict_iter d = enumerate 0 d"
  unfolding dict_iter_def by (rule filter_True) (auto simp: in_set_enumerate_eq)

lemma write_dictionary_ok:
  "(\<exists>out'. write_dictionary g m (enumerate k d) c out = Inr out') \<longleftrightarrow>
     list_all (\<lambda>r. dr_key r \<noteq> [] \<and> length (dr_key r) \<le> key_len \<and> entry_mode_ok m r) d"
proof (induction d arbitrary: k c out)
  case (Cons r d)
  have "(\<exists>out1. encode_dict_record out (dictionary_at k) k r = Inr out1) \<longleftrightarrow> dr_key r \<noteq> [] \<and> length (dr_key r) \<le> key_len"
    by (auto simp: encode_dict_record_def Let_def)
  moreover have "(\<exists>x. write_entry g m k r out1 = Inr x) \<longleftrightarrow> entry_mode_ok m r" for out1
    by (auto simp: write_entry_def entry_mode_ok_def Let_def split: slot_state.split option.split)
  ultimately show ?case using Cons.IH by (fastforce simp: case_prod_beta)
qed simp

section \<open>Writing the planned records\<close>

definition pairs_ok :: "nat \<Rightarrow> planned_unlink \<Rightarrow> bool" where
  "pairs_ok n pl \<longleftrightarrow> (\<forall>(i, off) \<in> set (pu_last_offsets pl). i < n \<and> uuid_ok (wo_segment off))"

lemma write_pairs_parts:
  assumes "\<forall>(i, off) \<in> set ps. i < gm_max_tenants g \<and> uuid_ok (wo_segment off)" and "distinct (map fst ps)"
    and "position < gm_max_unlinks_per_pass g" and "length out = slot_len g"
    and "\<And>i. i \<in> fst ` set ps \<Longrightarrow> pair_part g out position i = zeros pair_len"
  shows "touches out (planned_at g position + planned_header_len) (planned_stride g - planned_header_len)
           (write_pairs g position ps out)
    \<and> (\<forall>i < gm_max_tenants g. pair_part g (write_pairs g position ps out) position i
         = (if i \<in> fst ` set ps then pair_block (map_of ps i) else pair_part g out position i))"
  using assms(1,2,4,5)
proof (induction ps arbitrary: out)
  case (Cons p ps)
  obtain j off where p: "p = (j, off)" by fastforce
  have j: "j < gm_max_tenants g" and u: "uuid_ok (wo_segment off)" using Cons.prems(1) p by auto
  let ?q = "pair_at g position j"
  let ?out = "put_at (put_at out ?q (le_bytes 2 1)) (?q + 8) (offset_block off)"
  have l: "length (offset_block off) = 24" by (rule length_offset_block [OF u])
  note pl = pair_places(3) [OF j, of position] pair_places(1) [of g position j] planned_places(4) [OF assms(3)]
    trailer_places(2) [of g]
  have q: "?q + 32 \<le> length out" using pl Cons.prems(3) by (simp add: layout_consts)
  have w: "write_pairs g position (p # ps) out = write_pairs g position ps ?out"
    using write_offset_block [OF u, of "?q + 8" "put_at out ?q (le_bytes 2 1)"] q
    by (simp add: p Let_def pair_present_def)
  have t: "touches out ?q 32 ?out"
    using q l by (intro touches_trans [OF touches_put touches_put]) simp_all
  have "slice ?out ?q (?q + 32) = put_at (put_at (zeros 32) 0 (le_bytes 2 1)) 8 (offset_block off)"
    using q l Cons.prems(4) [of j] by (simp add: p slice_put_inside layout_consts)
  also have "\<dots> = le_bytes 2 1 @ zeros 6 @ offset_block off"
    using l put_at_zeros [of "[]" 0 "le_bytes 2 1" 32] put_at_zeros [of "le_bytes 2 1" 8 "offset_block off" 30]
    by (simp add: zeros_def)
  finally have b: "pair_part g ?out position j = pair_block (Some off)" by (simp add: pair_block_def pair_len_def)
  have oth: "pair_part g ?out position i = pair_part g out position i" if "i \<noteq> j" "i < gm_max_tenants g" for i
    using touches_slice [OF t] pair_places(2) [of i j g position] pair_places(2) [of j i g position]
      pair_places(3) [OF that(2), of position] pl(3,4) Cons.prems(3) that(1)
    by (cases i j rule: linorder_cases) (auto simp: pair_len_def)
  have len: "length ?out = slot_len g" using touches_length [OF t] Cons.prems(3) by simp
  have jn: "j \<notin> fst ` set ps" using Cons.prems(2) p by auto
  have blank: "pair_part g ?out position i = zeros pair_len" if "i \<in> fst ` set ps" for i
  proof -
    have "i \<noteq> j" "i < gm_max_tenants g" using Cons.prems(1) that jn by auto
    then show ?thesis using Cons.prems(4) [of i] that oth [of i] by simp
  qed
  have ih: "touches ?out (planned_at g position + planned_header_len) (planned_stride g - planned_header_len)
           (write_pairs g position ps ?out)
    \<and> (\<forall>i < gm_max_tenants g. pair_part g (write_pairs g position ps ?out) position i
         = (if i \<in> fst ` set ps then pair_block (map_of ps i) else pair_part g ?out position i))"
    by (rule Cons.IH [OF _ _ len blank]) (use Cons.prems(1,2) in auto)
  show ?case unfolding w
  proof (intro conjI allI impI)
    have "touches out (planned_at g position + planned_header_len) (planned_stride g - planned_header_len) ?out"
      using touches_wider [OF t] pl by (simp add: layout_consts)
    then show "touches out (planned_at g position + planned_header_len) (planned_stride g - planned_header_len)
        (write_pairs g position ps ?out)" using ih by (blast intro: touches_trans)
    fix i assume i: "i < gm_max_tenants g"
    show "pair_part g (write_pairs g position ps ?out) position i
        = (if i \<in> fst ` set (p # ps) then pair_block (map_of (p # ps) i) else pair_part g out position i)"
    proof (cases "i = j")
      case True
      then show ?thesis using ih i b jn by (simp add: p)
    next
      case False
      then show ?thesis using ih i oth [OF False i] by (simp add: p)
    qed
  qed
qed simp

lemma pair_part_of_planned:
  assumes "i < gm_max_tenants g" and "planned_at g position + planned_stride g \<le> length out"
  shows "pair_part g out position i
    = slice (planned_part g out position) (planned_header_len + pair_len * i) (planned_header_len + pair_len * i + pair_len)"
proof -
  have "planned_header_len + pair_len * i + pair_len \<le> planned_stride g"
    using pair_places(3) [OF assms(1), of position] by (simp add: pair_at_def)
  then show ?thesis using assms(2) by (simp add: slice_slice pair_at_def add.assoc)
qed

definition planned_written :: "geometry \<Rightarrow> planned_unlink \<Rightarrow> nat \<Rightarrow> bytes \<Rightarrow> bool" where
  "planned_written g pl position bs \<longleftrightarrow>
     slice bs (planned_at g position) (planned_at g position + planned_header_len) = planned_block pl
     \<and> (\<forall>i < gm_max_tenants g. pair_part g bs position i = pair_block (map_of (pu_last_offsets pl) i))"

definition planned_ok :: "nat \<Rightarrow> planned_unlink \<Rightarrow> bool" where
  "planned_ok n pl \<longleftrightarrow>
     uuid_ok (pu_segment pl) \<and> distinct (map fst (pu_last_offsets pl))
     \<and> (\<forall>(i, off) \<in> set (pu_last_offsets pl). i < n \<and> uuid_ok (wo_segment off))"

lemma planned_flag:
  "unat (planned_occupied OR (if u then planned_uncertain else 0)) = (if u then 3 else 2)"
  by (simp add: flag_consts)

lemma write_planned_part:
  assumes w: "write_planned g d position pl out = Inr out'" and pos: "position < gm_max_unlinks_per_pass g"
    and len: "length out = slot_len g" and z: "planned_part g out position = zeros (planned_stride g)"
    and ok: "planned_ok (gm_max_tenants g) pl"
  shows "touches out (planned_at g position) (planned_stride g) out'" and "planned_written g pl position out'"
proof -
  let ?p = "planned_at g position" and ?n = "length (pu_last_offsets pl)" and ?ps = "pu_last_offsets pl"
  let ?fl = "[if pu_uncertain pl then CHR 0x03 else CHR 0x02]"
  let ?out = "put_at (put_at (put_at out ?p (pu_segment pl)) (?p + 16) (le_bytes 2 ?n)) (?p + 22) ?fl"
  have u: "length (pu_segment pl) = 16" using ok by (simp add: planned_ok_def uuid_ok_def)
  have n: "?p + planned_stride g \<le> length out"
    using planned_places(4) [OF pos] trailer_places(2) [of g] len by simp
  have s: "24 \<le> planned_stride g" by (simp add: planned_stride_def layout_consts)
  have fl: "[char_of (unat (planned_occupied OR (if pu_uncertain pl then planned_uncertain else 0)))] = ?fl"
    by (simp add: planned_flag char_of_def bit_0)
  have out': "out' = write_pairs g position ?ps ?out"
    using w unfolding write_planned_def Let_def fl [symmetric] by (simp split: if_splits)
  have t: "touches out ?p 24 ?out"
    using n s u by (intro touches_trans [OF touches_trans [OF touches_put touches_put] touches_put]) simp_all
  have l: "length ?out = slot_len g" using touches_length [OF t] len by simp
  have zh: "slice out ?p (?p + 24) = zeros 24"
    using slice_slice [of ?p "?p + planned_stride g" out 24 0] n s z by simp
  have "slice ?out ?p (?p + 24) = put_at (put_at (put_at (zeros 24) 0 (pu_segment pl)) 16 (le_bytes 2 ?n)) 22 ?fl"
    using n s u zh by (simp add: slice_put_inside)
  also have "\<dots> = planned_block pl"
    using u put_at_zeros [of "[]" 0 "pu_segment pl" 24] put_at_zeros [of "pu_segment pl" 16 "le_bytes 2 ?n" 8]
      put_at_zeros [of "pu_segment pl @ le_bytes 2 ?n" 22 ?fl 6]
    by (simp add: planned_block_def zeros_def)
  finally have h: "slice ?out ?p (?p + 24) = planned_block pl" .
  have blank: "pair_part g ?out position i = zeros pair_len" if "i < gm_max_tenants g" for i
  proof -
    have "pair_part g ?out position i = pair_part g out position i"
      using touches_slice [OF t] pair_places(1) [of g position i] pair_places(3) [OF that, of position] n
      by (simp add: layout_consts)
    then show ?thesis using pair_part_of_planned [OF that n] pair_places(3) [OF that, of position] z
      by (simp add: pair_at_def)
  qed
  have "touches ?out (?p + planned_header_len) (planned_stride g - planned_header_len) out'
    \<and> (\<forall>i < gm_max_tenants g. pair_part g out' position i
         = (if i \<in> fst ` set ?ps then pair_block (map_of ?ps i) else pair_part g ?out position i))"
    unfolding out'
    by (rule write_pairs_parts [OF _ _ pos l blank]) (use ok in \<open>auto simp: planned_ok_def\<close>)
  then have t2: "touches ?out (?p + 24) (planned_stride g - 24) out'"
    and pp: "\<And>i. i < gm_max_tenants g \<Longrightarrow> pair_part g out' position i
         = (if i \<in> fst ` set ?ps then pair_block (map_of ?ps i) else pair_part g ?out position i)"
    by (simp_all add: planned_header_len_def)
  show "touches out ?p (planned_stride g) out'"
    using touches_trans [OF touches_wider [OF t] touches_wider [OF t2]] s by simp
  have "pair_part g out' position i = pair_block (map_of ?ps i)" if "i < gm_max_tenants g" for i
    using pp [OF that] blank [OF that] map_of_eq_None_iff [of ?ps i]
    by (cases "i \<in> fst ` set ?ps") (simp_all add: pair_block_def)
  moreover have "slice out' ?p (?p + 24) = planned_block pl"
    using h touches_slice [OF t2, of "?p + 24" ?p] l n s len by simp
  ultimately show "planned_written g pl position out'" by (simp add: planned_written_def planned_header_len_def)
qed

lemma planned_written_touch:
  assumes "touches out a n out'" and "planned_written g pl position out"
    and "planned_at g position + planned_stride g \<le> length out"
    and "planned_at g position + planned_stride g \<le> a \<or> a + n \<le> planned_at g position"
  shows "planned_written g pl position out'"
proof -
  have "24 \<le> planned_stride g" by (simp add: planned_stride_def layout_consts)
  then have "slice out' (planned_at g position) (planned_at g position + planned_header_len)
      = slice out (planned_at g position) (planned_at g position + planned_header_len)"
    using touches_slice [OF assms(1)] assms(3,4) by (auto simp: planned_header_len_def)
  moreover have "pair_part g out' position i = pair_part g out position i" if "i < gm_max_tenants g" for i
    using touches_slice [OF assms(1)] assms(3,4) pair_places(1) [of g position i] pair_places(3) [OF that, of position] by auto
  ultimately show ?thesis using assms(2) by (simp add: planned_written_def)
qed

lemma write_planned_all_parts:
  assumes "write_planned_all g d (enumerate k pls) out = Inr out'" and "k + length pls \<le> gm_max_unlinks_per_pass g"
    and "length out = slot_len g"
    and "\<And>i. k \<le> i \<Longrightarrow> i < gm_max_unlinks_per_pass g \<Longrightarrow> planned_part g out i = zeros (planned_stride g)"
    and "list_all (planned_ok (gm_max_tenants g)) pls"
  shows "touches out (planned_at g k) (trailer_offset g - planned_at g k) out'
    \<and> (\<forall>i. k \<le> i \<longrightarrow> i < gm_max_unlinks_per_pass g \<longrightarrow>
         (if i < k + length pls then planned_written g (pls ! (i - k)) i out'
          else planned_part g out' i = zeros (planned_stride g)))"
  using assms
proof (induction pls arbitrary: k out)
  case (Cons pl pls)
  obtain out1 where w: "write_planned g d k pl out = Inr out1" and rest: "write_planned_all g d (enumerate (Suc k) pls) out1 = Inr out'"
    using Cons.prems(1) by auto
  have k: "k < gm_max_unlinks_per_pass g" using Cons.prems(2) by simp
  have ok: "planned_ok (gm_max_tenants g) pl" "list_all (planned_ok (gm_max_tenants g)) pls" using Cons.prems(5) by simp_all
  have z: "planned_part g out k = zeros (planned_stride g)" using Cons.prems(4) k by simp
  note s = write_planned_part [OF w k Cons.prems(3) z ok(1)]
  have len: "length out1 = slot_len g" using touches_length [OF s(1)] Cons.prems(3) by simp
  have inb: "planned_at g i + planned_stride g \<le> slot_len g" if "i < gm_max_unlinks_per_pass g" for i
    using planned_places(4) [OF that] trailer_places(2) [of g] by simp
  have blank: "planned_part g out1 i = zeros (planned_stride g)" if "Suc k \<le> i" "i < gm_max_unlinks_per_pass g" for i
    using Cons.prems(4) [of i] that touches_slice [OF s(1)] planned_places(3) [of k i g] inb [OF that(2)] Cons.prems(3) by simp
  have ih: "touches out1 (planned_at g (Suc k)) (trailer_offset g - planned_at g (Suc k)) out'
    \<and> (\<forall>i. Suc k \<le> i \<longrightarrow> i < gm_max_unlinks_per_pass g \<longrightarrow>
         (if i < Suc k + length pls then planned_written g (pls ! (i - Suc k)) i out'
          else planned_part g out' i = zeros (planned_stride g)))"
    by (rule Cons.IH [OF rest _ len blank ok(2)]) (use Cons.prems(2) in simp_all)
  have kk: "planned_at g k + planned_stride g \<le> planned_at g (Suc k)" "planned_at g k + planned_stride g \<le> trailer_offset g"
    using planned_places(3) [of k "Suc k" g] planned_places(4) [OF k] by simp_all
  show ?case
  proof (intro conjI allI impI)
    have "touches out (planned_at g k) (trailer_offset g - planned_at g k) out1" using touches_wider [OF s(1)] kk by simp
    moreover have "touches out1 (planned_at g k) (trailer_offset g - planned_at g k) out'"
    proof (cases "planned_at g (Suc k) \<le> trailer_offset g")
      case True
      then show ?thesis using touches_wider [OF conjunct1 [OF ih]] kk by simp
    next
      case False
      then have "trailer_offset g - planned_at g (Suc k) = 0" by simp
      moreover have "planned_at g (Suc k) = planned_at g k + planned_stride g"
        by (simp add: planned_at_def Let_def)
      ultimately show ?thesis using False kk by simp
    qed
    ultimately show "touches out (planned_at g k) (trailer_offset g - planned_at g k) out'" by (rule touches_trans)
    fix i assume i: "k \<le> i" "i < gm_max_unlinks_per_pass g"
    show "if i < k + length (pl # pls) then planned_written g ((pl # pls) ! (i - k)) i out'
          else planned_part g out' i = zeros (planned_stride g)"
    proof (cases "i = k")
      case True
      then show ?thesis
        using planned_written_touch [OF conjunct1 [OF ih] s(2)] inb [OF k] len kk by simp
    next
      case False
      then show ?thesis using ih i by (simp add: nth_Cons')
    qed
  qed
qed simp

section \<open>A whole slot\<close>

definition header_block :: "reclaim_record \<Rightarrow> nat \<Rightarrow> bytes" where
  "header_block rec generation =
     le_bytes 8 generation @ le_bytes 4 (length (filter has_entry (rr_dictionary rec)))
       @ le_bytes 4 (length (rr_planned rec)) @ le_bytes 2 (unat (flags_bits (rr_witness rec)))
       @ le_bytes 2 (mode_code (rr_consumer_mode rec)) @ le_bytes 4 (length (rr_dictionary rec))"

definition body_holds :: "geometry \<Rightarrow> reclaim_record \<Rightarrow> bytes \<Rightarrow> bool" where
  "body_holds g rec bs \<longleftrightarrow>
     (\<forall>i < gm_max_tenants g.
        dict_part bs i = (if i < length (rr_dictionary rec) then dict_block (rr_dictionary rec ! i) else zeros dict_record_len)
        \<and> entry_part g bs i
          = (if i < length (rr_dictionary rec) then entry_block (dr_state (rr_dictionary rec ! i)) else zeros entry_len))
     \<and> (\<forall>i < gm_max_unlinks_per_pass g.
          if i < length (rr_planned rec) then planned_written g (rr_planned rec ! i) i bs
          else planned_part g bs i = zeros (planned_stride g))"

definition slot_holds :: "crc_fns \<Rightarrow> geometry \<Rightarrow> reclaim_record \<Rightarrow> nat \<Rightarrow> bytes \<Rightarrow> bool" where
  "slot_holds crc g rec generation bs \<longleftrightarrow>
     length bs = slot_len g \<and> slice bs 0 slot_header_len = header_block rec generation \<and> body_holds g rec bs
     \<and> slice bs (trailer_offset g) (trailer_offset g + 4) = le_bytes 4 (unat (crc32c crc (take (trailer_offset g) bs)))
     \<and> slice bs (trailer_offset g + 4) (trailer_offset g + 8) = zeros 4"

lemma body_holds_touch:
  assumes "touches out a n out'" and "a + n \<le> slot_header_len \<or> trailer_offset g \<le> a" and "length out = slot_len g"
    and "body_holds g rec out"
  shows "body_holds g rec out'"
proof -
  have "dict_part out' i = dict_part out i" "entry_part g out' i = entry_part g out i" if "i < gm_max_tenants g" for i
    using touches_slice [OF assms(1)] assms(2,3) dictionary_places(1) [of i] dictionary_places(3) [OF that, of i]
      entry_places(1) [of g i] entry_places(3) [OF that, of 0] trailer_places [of g] by auto
  moreover have "planned_part g out' i = planned_part g out i"
    "planned_written g pl i out \<Longrightarrow> planned_written g pl i out'" if "i < gm_max_unlinks_per_pass g" for i pl
    using touches_slice [OF assms(1)] planned_written_touch [OF assms(1), of g pl i] assms(2,3) planned_places(1) [of g i]
      planned_places(4) [OF that] trailer_places [of g] by auto
  ultimately show ?thesis using assms(4) by (auto simp: body_holds_def)
qed

definition header_puts :: "reclaim_record \<Rightarrow> nat \<Rightarrow> nat \<Rightarrow> bytes \<Rightarrow> bytes" where
  "header_puts rec generation n out =
     put_at (put_at (put_at (put_at (put_at (put_at out 0 (le_bytes 8 generation)) 8 (le_bytes 4 n))
       12 (le_bytes 4 (length (rr_planned rec)))) 16 (le_bytes 2 (unat (flags_bits (rr_witness rec)))))
       18 (le_bytes 2 (mode_code (rr_consumer_mode rec)))) 20 (le_bytes 4 (length (rr_dictionary rec)))"

lemma header_puts_block:
  assumes "24 \<le> length out" and "slice out 0 24 = zeros 24"
  shows "touches out 0 24 (header_puts rec generation n out)"
    and "n = length (filter has_entry (rr_dictionary rec)) \<Longrightarrow>
      slice (header_puts rec generation n out) 0 24 = header_block rec generation"
proof -
  let ?a = "le_bytes 8 generation" and ?b = "le_bytes 4 n" and ?c = "le_bytes 4 (length (rr_planned rec))"
    and ?d = "le_bytes 2 (unat (flags_bits (rr_witness rec)))" and ?e = "le_bytes 2 (mode_code (rr_consumer_mode rec))"
    and ?f = "le_bytes 4 (length (rr_dictionary rec))"
  show "touches out 0 24 (header_puts rec generation n out)"
    unfolding header_puts_def using assms(1)
    by (intro touches_trans [OF touches_trans [OF touches_trans [OF touches_trans [OF touches_trans
          [OF touches_put touches_put] touches_put] touches_put] touches_put] touches_put]) simp_all
  have "slice (header_puts rec generation n out) 0 24
      = put_at (put_at (put_at (put_at (put_at (put_at (zeros 24) 0 ?a) 8 ?b) 12 ?c) 16 ?d) 18 ?e) 20 ?f"
    unfolding header_puts_def using assms by (simp add: slice_put_inside)
  also have "\<dots> = ?a @ ?b @ ?c @ ?d @ ?e @ ?f"
    using put_at_zeros [of "[]" 0 ?a 24] put_at_zeros [of ?a 8 ?b 16] put_at_zeros [of "?a @ ?b" 12 ?c 12]
      put_at_zeros [of "?a @ ?b @ ?c" 16 ?d 8] put_at_zeros [of "?a @ ?b @ ?c @ ?d" 18 ?e 6]
      put_at_zeros [of "?a @ ?b @ ?c @ ?d @ ?e" 20 ?f 4]
    by (simp add: zeros_def)
  finally show "n = length (filter has_entry (rr_dictionary rec)) \<Longrightarrow>
      slice (header_puts rec generation n out) 0 24 = header_block rec generation"
    by (simp add: header_block_def)
qed

definition geometry_ok :: "geometry \<Rightarrow> bool" where
  "geometry_ok g \<longleftrightarrow>
     1 \<le> gm_max_tenants g \<and> gm_max_tenants g \<le> 2 ^ 16
     \<and> 1 \<le> gm_max_unlinks_per_pass g \<and> gm_max_unlinks_per_pass g \<le> 2 ^ 16"

lemma encode_slot_parts:
  assumes "encode_slot crc rec generation g = Inr bs" and "geometry_ok g"
  obtains out1 n out2 where
    "write_dictionary g (rr_consumer_mode rec) (enumerate 0 (rr_dictionary rec)) 0 (zeros (slot_len g)) = Inr (out1, n)"
    "write_planned_all g (rr_dictionary rec) (enumerate 0 (rr_planned rec)) out1 = Inr out2"
    "bs = (let out = header_puts rec generation n out2
           in put_at out (trailer_offset g) (le_bytes 4 (unat (crc32c crc (take (trailer_offset g) out)))))"
    "length (rr_dictionary rec) \<le> gm_max_tenants g" "length (rr_planned rec) \<le> gm_max_unlinks_per_pass g"
proof -
  have d: "length (rr_dictionary rec) \<le> gm_max_tenants g"
    using assms(1) by (auto simp: encode_slot_def encode_slot_into_def Let_def split: if_splits)
  then have "dict_iter (rr_dictionary rec) = enumerate 0 (rr_dictionary rec)"
    using assms(2) by (intro dict_iter_enumerate) (simp add: geometry_ok_def)
  then show thesis using assms(1) that d
    by (auto simp: encode_slot_def encode_slot_into_def Let_def header_puts_def case_prod_beta not_less split: if_splits)
qed

lemma encode_slot_holds:
  assumes enc: "encode_slot crc rec generation g = Inr bs" and g: "geometry_ok g"
    and off: "list_all entry_offsets_ok (rr_dictionary rec)"
    and pl: "list_all (planned_ok (gm_max_tenants g)) (rr_planned rec)"
  shows "slot_holds crc g rec generation bs"
proof -
  obtain out1 n out2 where o1: "write_dictionary g (rr_consumer_mode rec) (enumerate 0 (rr_dictionary rec)) 0 (zeros (slot_len g)) = Inr (out1, n)"
    and o2: "write_planned_all g (rr_dictionary rec) (enumerate 0 (rr_planned rec)) out1 = Inr out2"
    and bs: "bs = (let out = header_puts rec generation n out2
           in put_at out (trailer_offset g) (le_bytes 4 (unat (crc32c crc (take (trailer_offset g) out)))))"
    and n: "length (rr_dictionary rec) \<le> gm_max_tenants g" "length (rr_planned rec) \<le> gm_max_unlinks_per_pass g"
    using encode_slot_parts [OF enc g] by blast
  note tr = trailer_places [of g]
  have inb: "entries_at g i + entry_len \<le> slot_len g" "dictionary_at i + dict_record_len \<le> slot_len g" if "i < gm_max_tenants g" for i
    using entry_places(3) [OF that, of 0] dictionary_places(3) [OF that, of i] entry_places(3) [OF that, of 0] tr by simp_all
  have d: "touches (zeros (slot_len g)) slot_header_len (planned_at g 0 - slot_header_len) out1
    \<and> (\<forall>i < gm_max_tenants g.
         dict_part out1 i = (if 0 \<le> i \<and> i < 0 + length (rr_dictionary rec) then dict_block (rr_dictionary rec ! (i - 0))
                             else dict_part (zeros (slot_len g)) i)
         \<and> entry_part g out1 i
           = (if 0 \<le> i \<and> i < 0 + length (rr_dictionary rec) then entry_block (dr_state (rr_dictionary rec ! (i - 0)))
              else entry_part g (zeros (slot_len g)) i))
    \<and> n = 0 + length (filter has_entry (rr_dictionary rec))"
    by (rule write_dictionary_parts [OF o1 _ _ _ off]) (use n inb in \<open>simp_all add: dictionary_blank_def\<close>)
  have l1: "length out1 = slot_len g" using touches_length [OF conjunct1 [OF d]] by simp
  have pin: "planned_at g i + planned_stride g \<le> slot_len g" if "i < gm_max_unlinks_per_pass g" for i
    using planned_places(4) [OF that] tr by simp
  have z: "planned_part g out1 i = zeros (planned_stride g)" if "i < gm_max_unlinks_per_pass g" for i
    using touches_slice [OF conjunct1 [OF d], of "planned_at g i + planned_stride g" "planned_at g i"]
      planned_places(1) [of g 0] planned_places(2) [of g i] pin [OF that] by simp
  have p: "touches out1 (planned_at g 0) (trailer_offset g - planned_at g 0) out2
    \<and> (\<forall>i. 0 \<le> i \<longrightarrow> i < gm_max_unlinks_per_pass g \<longrightarrow>
         (if i < 0 + length (rr_planned rec) then planned_written g (rr_planned rec ! (i - 0)) i out2
          else planned_part g out2 i = zeros (planned_stride g)))"
    by (rule write_planned_all_parts [OF o2 _ l1 z pl]) (use n in simp_all)
  have l2: "length out2 = slot_len g" using touches_length [OF conjunct1 [OF p]] l1 by simp
  have body2: "body_holds g rec out2"
  proof -
    have "dict_part out2 i = dict_part out1 i" "entry_part g out2 i = entry_part g out1 i" if "i < gm_max_tenants g" for i
      using touches_slice [OF conjunct1 [OF p]] entry_places(3) [OF that, of 0] dictionary_places(3) [OF that, of i] inb [OF that] l1 by auto
    then show ?thesis using d p inb by (auto simp: body_holds_def)
  qed
  have h2: "slice out2 0 24 = zeros 24"
    using touches_slice [OF conjunct1 [OF p], of 24 0] touches_slice [OF conjunct1 [OF d], of 24 0] l1 tr planned_places(1) [of g 0]
    by (simp add: slot_header_len_def slot_trailer_len_def)
  have t2: "slice out2 (trailer_offset g + 4) (trailer_offset g + 8) = zeros 4"
    using touches_slice [OF conjunct1 [OF p], of "trailer_offset g + 8" "trailer_offset g + 4"]
      touches_slice [OF conjunct1 [OF d], of "trailer_offset g + 8" "trailer_offset g + 4"] l1 tr planned_places(1) [of g 0]
    by (simp add: slot_trailer_len_def)
  define out3 where "out3 = header_puts rec generation n out2"
  have n24: "24 \<le> length out2" using l2 tr by (simp add: slot_header_len_def)
  have t3: "touches out2 0 24 out3" "slice out3 0 24 = header_block rec generation"
    using header_puts_block [OF n24 h2] d by (simp_all add: out3_def)
  have l3: "length out3 = slot_len g" using touches_length [OF t3(1)] l2 by simp
  let ?crc = "le_bytes 4 (unat (crc32c crc (take (trailer_offset g) out3)))"
  have bs3: "bs = put_at out3 (trailer_offset g) ?crc" using bs by (simp add: out3_def Let_def)
  have t4: "touches out3 (trailer_offset g) 4 bs" unfolding bs3
    by (rule touches_put) (use l3 tr in \<open>simp_all add: slot_trailer_len_def\<close>)
  have tk: "take (trailer_offset g) bs = take (trailer_offset g) out3"
    using touches_slice [OF t4, of "trailer_offset g" 0] l3 tr by (simp add: slice_def)
  have "body_holds g rec bs"
    by (rule body_holds_touch [OF t4 _ l3 body_holds_touch [OF t3(1) _ l2 body2]]) (simp_all add: slot_header_len_def)
  moreover have "slice bs (trailer_offset g) (trailer_offset g + 4) = ?crc"
    using slice_put_at [of "trailer_offset g" ?crc out3] l3 tr by (simp add: bs3 slot_trailer_len_def)
  moreover have "slice bs 0 24 = header_block rec generation"
    using touches_slice [OF t4, of 24 0] t3(2) l3 tr by (simp add: slot_header_len_def)
  moreover have "slice bs (trailer_offset g + 4) (trailer_offset g + 8) = zeros 4"
    using touches_slice [OF t4, of "trailer_offset g + 8" "trailer_offset g + 4"]
      touches_slice [OF t3(1), of "trailer_offset g + 8" "trailer_offset g + 4"] t2 l2 l3 tr
    by (simp add: slot_header_len_def slot_trailer_len_def)
  moreover have "length bs = slot_len g" using touches_length [OF t4] l3 by simp
  ultimately show ?thesis by (simp add: slot_holds_def tk slot_header_len_def)
qed

section \<open>Reading blocks\<close>

lemma slice_block:
  assumes "p + n \<le> length bs" and "b \<le> n"
  shows "slice (drop p bs) a b = slice (slice bs p (p + n)) a b"
  using assms by (simp add: slice_drop slice_slice)

lemma dict_block_slices:
  assumes "length (dr_key r) \<le> key_len"
  shows "slice (dict_block r) 0 2 = le_bytes 2 (length (dr_key r))"
    and "slice (dict_block r) 2 (2 + length (dr_key r)) = dr_key r"
    and "slice (dict_block r) (2 + length (dr_key r)) 130 = zeros (key_len - length (dr_key r))"
    and "slice (dict_block r) 130 132 = le_bytes 2 (if record_is_live r then 0 else 1)"
proof -
  let ?l = "le_bytes 2 (length (dr_key r))" and ?k = "dr_key r" and ?z = "zeros (key_len - length (dr_key r))"
    and ?f = "le_bytes 2 (if record_is_live r then 0 else 1)"
  have k: "length ?k \<le> 128" using assms by (simp add: layout_consts)
  show "slice (dict_block r) 0 2 = ?l" using slice_app [of "[]" 0 ?l 2 "?k @ ?z @ ?f"] by (simp add: dict_block_def)
  show "slice (dict_block r) 2 (2 + length ?k) = ?k"
    using slice_app [of ?l 2 ?k "2 + length ?k" "?z @ ?f"] by (simp add: dict_block_def)
  show "slice (dict_block r) (2 + length ?k) 130 = ?z"
    using slice_app [of "?l @ ?k" "2 + length ?k" ?z 130 ?f] k by (simp add: dict_block_def layout_consts)
  show "slice (dict_block r) 130 132 = ?f"
    using slice_app [of "?l @ ?k @ ?z" 130 ?f 132 "[]"] k by (simp add: dict_block_def layout_consts)
qed

lemma decode_dict_block:
  assumes "slice bs p (p + dict_record_len) = dict_block r" and "p + dict_record_len \<le> length bs"
    and "key_ok (dr_key r)" and "i < next_id"
  shows "decode_dict_record (drop p bs) i next_id = Inr (Some (dr_key r, \<not> record_is_live r))"
proof -
  have k: "length (dr_key r) \<le> key_len" "dr_key r \<noteq> []" "utf8_valid (dr_key r)" "length (dr_key r) \<le> 128"
    using assms(3) by (simp_all add: key_ok_def layout_consts)
  have n: "p + 132 \<le> length bs" using assms(2) by (simp add: layout_consts)
  have s: "slice (drop p bs) a b = slice (dict_block r) a b" if "b \<le> 132" for a b
    using slice_block [OF n that] assms(1) by (simp add: layout_consts)
  note d = dict_block_slices [OF k(1)]
  have w: "word_of_nat (if record_is_live r then 0 else 1) AND NOT dict_tombstoned = 0"
    "(word_of_nat (if record_is_live r then 0 else 1) AND dict_tombstoned \<noteq> 0) = (\<not> record_is_live r)"
    by (simp_all add: flag_consts)
  have "le_val (le_bytes 2 (length (dr_key r))) = length (dr_key r)" using k(4) by simp
  moreover have "le_val (le_bytes 2 (if record_is_live r then 0 else 1)) = (if record_is_live r then 0 else 1)" by simp
  moreover have "reserved_zero (drop p bs) (2 + length (dr_key r)) 130 f = None" for f
    by (rule reserved_zero_zeros) (use s d in simp)
  ultimately show ?thesis
    using s [of 2 0] s [of "2 + length (dr_key r)" 2] s [of 132 130] d k assms(4) w
    by (simp add: decode_dict_record_def read_u16_def Let_def)
qed

lemma decode_dict_blank:
  assumes "slice bs p (p + dict_record_len) = zeros dict_record_len" and "p + dict_record_len \<le> length bs"
    and "next_id \<le> i"
  shows "decode_dict_record (drop p bs) i next_id = Inr None"
proof -
  have n: "p + 132 \<le> length bs" using assms(2) by (simp add: layout_consts)
  have s: "slice (drop p bs) a b = zeros (b - a)" if "b \<le> 132" for a b
    using slice_block [OF n that] assms(1) that by (simp add: layout_consts)
  have "le_val (zeros 2) = 0" by (simp add: zeros_def numeral_2_eq_2)
  moreover have "reserved_zero (drop p bs) 2 dict_record_len f = None" for f
    by (rule reserved_zero_zeros [where n = 130]) (use s in \<open>simp add: layout_consts\<close>)
  ultimately show ?thesis using s [of 2 0] assms(3) by (simp add: decode_dict_record_def read_u16_def Let_def)
qed

lemma read_offset_block:
  assumes "slice bs p (p + 24) = offset_block off" and "p + 24 \<le> length bs" and "offset_ok off"
  shows "read_offset bs p = off"
proof -
  have u: "length (wo_segment off) = 16" "wo_byte off < 2 ^ 64" using assms(3) by (simp_all add: offset_ok_def uuid_ok_def)
  have "slice bs (p + a) (p + b) = slice (offset_block off) a b" if "b \<le> 24" for a b
    using slice_slice [of p "p + 24" bs b a] assms that by simp
  from this [of 16 0] this [of 24 16] show ?thesis
    using u slice_app [of "[]" 0 "wo_segment off" 16 "le_bytes 8 (wo_byte off)"]
      slice_app [of "wo_segment off" 16 "le_bytes 8 (wo_byte off)" 24 "[]"]
    by (simp add: read_offset_def read_u64_def offset_block_def add.assoc)
qed

lemma decode_entry_block:
  assumes "slice bs p (p + entry_len) = entry_block st" and "p + entry_len \<le> length bs"
    and "case st of Live (Some e) \<Rightarrow> offset_ok (re_offset e) | _ \<Rightarrow> True"
  shows "decode_rentry (drop p bs) i = Inr (case st of Live e \<Rightarrow> e | Tombstoned \<Rightarrow> None)"
proof -
  have n: "p + 32 \<le> length bs" using assms(2) by (simp add: layout_consts)
  have s: "slice (drop p bs) a b = slice (entry_block st) a b" if "b \<le> 32" for a b
    using slice_block [OF n that] assms(1) by (simp add: layout_consts)
  show ?thesis
  proof (cases "\<exists>e. st = Live (Some e)")
    case False
    then have z: "entry_block st = zeros 32" and o: "(case st of Live e \<Rightarrow> e | Tombstoned \<Rightarrow> None) = None"
      by (auto simp: entry_block_def entry_len_def split: slot_state.split option.split)
    have "le_val (zeros 2) = 0" by (simp add: zeros_def numeral_2_eq_2)
    moreover have "reserved_zero (drop p bs) 2 entry_len f = None" for f
      by (rule reserved_zero_zeros [where n = 30]) (use s z in \<open>simp add: entry_len_def\<close>)
    ultimately show ?thesis using s [of 2 0] z o by (simp add: decode_rentry_def read_u16_def Let_def)
  next
    case True
    then obtain e where e: "st = Live (Some e)" by blast
    let ?a = "le_bytes 2 1" and ?m = "le_bytes 2 (entry_mode_code (re_mode e))" and ?o = "offset_block (re_offset e)"
    have ok: "offset_ok (re_offset e)" using assms(3) e by simp
    have l: "length ?o = 24" using ok by (simp add: offset_ok_def length_offset_block)
    have b: "entry_block st = ?a @ ?m @ zeros 4 @ ?o" by (simp add: e entry_block_def)
    have b1: "slice (entry_block st) 0 2 = ?a" using slice_app [of "[]" 0 ?a 2] by (simp add: b)
    have b2: "slice (entry_block st) 2 4 = ?m" using slice_app [of ?a 2 ?m 4] by (simp add: b)
    have b3: "slice (entry_block st) 4 8 = zeros 4" using slice_app [of "?a @ ?m" 4 "zeros 4" 8 ?o] by (simp add: b)
    have b4: "slice (entry_block st) 8 32 = ?o" using slice_app [of "?a @ ?m @ zeros 4" 8 ?o 32 "[]"] l by (simp add: b)
    have "reserved_zero (drop p bs) 4 8 f = None" for f
      by (rule reserved_zero_zeros) (use s b3 in simp)
    moreover have "entry_mode_from_code (le_val ?m) = Inr (re_mode e)"
      by (cases "re_mode e") (simp_all add: entry_mode_from_code_def)
    moreover have "read_offset (drop p bs) 8 = re_offset e"
      by (rule read_offset_block [OF _ _ ok]) (use s [of 32 8] b4 n in simp_all)
    moreover have "(word_of_nat (le_val ?a) :: 16 word) = 1" by simp
    ultimately show ?thesis using s [of 2 0] s [of 4 2] b1 b2 e
      by (simp add: decode_rentry_def read_u16_def Let_def flag_consts)
  qed
qed

lemma decode_pair_block:
  assumes "slice bs p (p + pair_len) = pair_block off" and "p + pair_len \<le> length bs"
    and "\<And>x. off = Some x \<Longrightarrow> offset_ok x \<and> dict_is_live d i"
  shows "decode_pair (drop p bs) d position i = Inr off"
proof -
  have n: "p + 32 \<le> length bs" using assms(2) by (simp add: layout_consts)
  have s: "slice (drop p bs) a b = slice (pair_block off) a b" if "b \<le> 32" for a b
    using slice_block [OF n that] assms(1) by (simp add: layout_consts)
  show ?thesis
  proof (cases off)
    case None
    have z: "pair_block off = zeros 32" by (simp add: None pair_block_def pair_len_def)
    have "le_val (zeros 2) = 0" by (simp add: zeros_def numeral_2_eq_2)
    moreover have "reserved_zero (drop p bs) 2 8 f = None" "reserved_zero (drop p bs) 8 pair_len f = None" for f
      using s z by (auto intro!: reserved_zero_zeros simp: pair_len_def)
    ultimately show ?thesis using s [of 2 0] z None by (simp add: decode_pair_def read_u16_def Let_def)
  next
    case (Some x)
    let ?a = "le_bytes 2 1" and ?o = "offset_block x"
    have ok: "offset_ok x" "dict_is_live d i" using assms(3) Some by simp_all
    have l: "length ?o = 24" using ok by (simp add: offset_ok_def length_offset_block)
    have b: "pair_block off = ?a @ zeros 6 @ ?o" by (simp add: Some pair_block_def)
    have b1: "slice (pair_block off) 0 2 = ?a" using slice_app [of "[]" 0 ?a 2] by (simp add: b)
    have b2: "slice (pair_block off) 2 8 = zeros 6" using slice_app [of ?a 2 "zeros 6" 8] by (simp add: b)
    have b3: "slice (pair_block off) 8 32 = ?o" using slice_app [of "?a @ zeros 6" 8 ?o 32 "[]"] l by (simp add: b)
    have "reserved_zero (drop p bs) 2 8 f = None" for f
      by (rule reserved_zero_zeros) (use s b2 in simp)
    moreover have "read_offset (drop p bs) 8 = x"
      by (rule read_offset_block [OF _ _ ok(1)]) (use s [of 32 8] b3 n in simp_all)
    moreover have "(word_of_nat (le_val ?a) :: 16 word) = 1" by simp
    ultimately show ?thesis using s [of 2 0] b1 ok(2) Some
      by (simp add: decode_pair_def read_u16_def Let_def flag_consts)
  qed
qed

section \<open>Records the codec carries\<close>

definition live_keys :: "dictionary \<Rightarrow> tenant list" where
  "live_keys d = map dr_key (filter record_is_live d)"

definition planned_valid :: "dictionary \<Rightarrow> planned_unlink \<Rightarrow> bool" where
  "planned_valid d pl \<longleftrightarrow>
     uuid_ok (pu_segment pl) \<and> sorted_wrt (<) (map fst (pu_last_offsets pl)) \<and> length (pu_last_offsets pl) < 2 ^ 16
     \<and> (\<forall>(i, off) \<in> set (pu_last_offsets pl).
          dict_is_live d i \<and> offset_ok off \<and> wo_segment off = pu_segment pl)"

definition dict_valid :: "recorded_mode \<Rightarrow> dictionary \<Rightarrow> bool" where
  "dict_valid m d \<longleftrightarrow>
     list_all (\<lambda>r. key_ok (dr_key r) \<and> entry_offsets_ok r \<and> entry_mode_ok m r) d \<and> distinct (live_keys d)"

definition record_ok :: "geometry \<Rightarrow> reclaim_record \<Rightarrow> bool" where
  "record_ok g rec \<longleftrightarrow>
     length (rr_dictionary rec) \<le> gm_max_tenants g \<and> length (rr_planned rec) \<le> gm_max_unlinks_per_pass g
     \<and> (rr_planned rec = [] \<or> rr_consumer_mode rec \<noteq> Unrecorded)
     \<and> dict_valid (rr_consumer_mode rec) (rr_dictionary rec)
     \<and> list_all (planned_valid (rr_dictionary rec)) (rr_planned rec)"

lemma dict_is_live_length: "dict_is_live d i \<Longrightarrow> i < length d"
  by (auto simp: dict_is_live_def dict_get_def split: if_splits)

lemma planned_valid_ok:
  assumes "planned_valid d pl" and "length d \<le> n"
  shows "planned_ok n pl"
proof -
  have "distinct (map fst (pu_last_offsets pl))" using assms(1) strict_sorted_iff by (auto simp: planned_valid_def)
  moreover have "i < n \<and> uuid_ok (wo_segment off)" if "(i, off) \<in> set (pu_last_offsets pl)" for i off
    using that assms dict_is_live_length [of d i] by (fastforce simp: planned_valid_def offset_ok_def)
  ultimately show ?thesis using assms(1) by (auto simp: planned_ok_def planned_valid_def)
qed

section \<open>Reading the dictionary\<close>

lemma slot_ids_upt: "geometry_ok g \<Longrightarrow> slot_ids g = [0..<gm_max_tenants g]"
  unfolding slot_ids_def by (rule filter_True) (auto simp: geometry_ok_def)

lemma slot_record_of:
  "slot_record i (Some (dr_key r, \<not> record_is_live r)) (case dr_state r of Live e \<Rightarrow> e | Tombstoned \<Rightarrow> None) = Inr (Some r)"
  by (cases r; cases "dr_state r") (auto simp: record_is_live_def)

lemma decode_records_from:
  assumes body: "body_holds g rec bs" and len: "length bs = slot_len g" and n: "length (rr_dictionary rec) \<le> gm_max_tenants g"
    and ok: "list_all (\<lambda>r. key_ok (dr_key r) \<and> entry_offsets_ok r) (rr_dictionary rec)" and k: "k \<le> gm_max_tenants g"
  shows "decode_records bs g (length (rr_dictionary rec)) [k..<gm_max_tenants g] (take k (rr_dictionary rec)) = Inr (rr_dictionary rec)"
  using k
proof (induction "gm_max_tenants g - k" arbitrary: k)
  case 0
  then show ?case using n by simp
next
  case (Suc m)
  let ?d = "rr_dictionary rec"
  have k: "k < gm_max_tenants g" using Suc.hyps(2) by simp
  have inb: "entries_at g k + entry_len \<le> length bs" "dictionary_at k + dict_record_len \<le> length bs"
    using entry_places(3) [OF k, of 0] dictionary_places(3) [OF k, of k] trailer_places [of g] len by simp_all
  have parts: "dict_part bs k = (if k < length ?d then dict_block (?d ! k) else zeros dict_record_len)"
    "entry_part g bs k = (if k < length ?d then entry_block (dr_state (?d ! k)) else zeros entry_len)"
    using body k by (simp_all add: body_holds_def)
  have u: "[k..<gm_max_tenants g] = k # [Suc k..<gm_max_tenants g]" using k by (rule upt_conv_Cons)
  have ih: "decode_records bs g (length ?d) [Suc k..<gm_max_tenants g] (take (Suc k) ?d) = Inr ?d"
    by (rule Suc.hyps(1)) (use Suc.hyps(2) k in simp_all)
  show ?case
  proof (cases "k < length ?d")
    case True
    have r: "key_ok (dr_key (?d ! k))" "entry_offsets_ok (?d ! k)" using ok True by (simp_all add: list_all_length)
    have "decode_dict_record (drop (dictionary_at k) bs) k (length ?d) = Inr (Some (dr_key (?d ! k), \<not> record_is_live (?d ! k)))"
      by (rule decode_dict_block [OF _ inb(2) r(1) True]) (use parts True in simp)
    moreover have "decode_rentry (drop (entries_at g k) bs) k = Inr (case dr_state (?d ! k) of Live e \<Rightarrow> e | Tombstoned \<Rightarrow> None)"
      by (rule decode_entry_block [OF _ inb(1)]) (use parts True r(2) in \<open>simp_all add: entry_offsets_ok_def\<close>)
    ultimately show ?thesis using ih True unfolding u by (simp add: slot_record_of take_Suc_conv_app_nth)
  next
    case False
    have "decode_dict_record (drop (dictionary_at k) bs) k (length ?d) = Inr None"
      by (rule decode_dict_blank [OF _ inb(2)]) (use parts False in simp_all)
    moreover have "decode_rentry (drop (entries_at g k) bs) k = Inr None"
      using decode_entry_block [OF _ inb(1), of Tombstoned k] parts False by (simp add: entry_block_def)
    ultimately show ?thesis using ih False unfolding u by simp
  qed
qed

lemma occupied_entries_filter: "length d \<le> 2 ^ 16 \<Longrightarrow> occupied_entries d = length (filter has_entry d)"
proof -
  have "length (filter (\<lambda>(i, r). P r) (enumerate k d)) = length (filter P d)" for k P
    by (induction d arbitrary: k) simp_all
  then show "length d \<le> 2 ^ 16 \<Longrightarrow> occupied_entries d = length (filter has_entry d)"
    by (simp add: occupied_entries_def dict_iter_enumerate)
qed

lemma distinct_loop_None:
  "distinct_loop seen rs = None \<longleftrightarrow>
     distinct (map (dr_key \<circ> snd) rs) \<and> (\<forall>r \<in> set rs. hm_get seen (dr_key (snd r)) = None)"
proof (induction rs arbitrary: seen)
  case (Cons x rs)
  obtain i r where x: "x = (i, r)" by fastforce
  show ?case
  proof (cases "hm_get seen (dr_key r)")
    case None
    then show ?thesis using Cons.IH [of "hm_insert (dr_key r) i seen"] by (force simp: x update_conv')
  qed (simp add: x)
qed simp

lemma map_snd_live: "length d \<le> 2 ^ 16 \<Longrightarrow> map snd (dict_live d) = filter record_is_live d"
proof -
  have "map snd (filter (\<lambda>(i, r). record_is_live r) (enumerate k d)) = filter record_is_live d" for k
    by (induction d arbitrary: k) simp_all
  then show "length d \<le> 2 ^ 16 \<Longrightarrow> map snd (dict_live d) = filter record_is_live d"
    by (simp add: dict_live_def dict_iter_enumerate)
qed

lemma live_keys_distinct_iff: "length d \<le> 2 ^ 16 \<Longrightarrow> live_keys_are_distinct d = None \<longleftrightarrow> distinct (live_keys d)"
  using map_snd_live [of d]
  by (simp add: live_keys_are_distinct_def distinct_loop_None live_keys_def flip: map_map)

lemma agree_loop_None: "agree_loop m rs = None \<longleftrightarrow> list_all (entry_mode_ok m) (map snd rs)"
  by (induction m rs rule: agree_loop.induct) (auto simp: entry_mode_ok_def split: slot_state.split option.split)

lemma entries_agree_iff: "length d \<le> 2 ^ 16 \<Longrightarrow> entries_agree_with d m = None \<longleftrightarrow> list_all (entry_mode_ok m) d"
  using map_snd_live [of d]
  by (auto simp: entries_agree_with_def agree_loop_None list_all_iff record_is_live_def entry_mode_ok_def
    split: slot_state.splits option.splits)

section \<open>Reading the planned records\<close>

definition present_pairs :: "(nat \<times> wal_offset) list \<Rightarrow> nat list \<Rightarrow> (nat \<times> wal_offset) list" where
  "present_pairs ps is = concat (map (\<lambda>i. case map_of ps i of None \<Rightarrow> [] | Some off \<Rightarrow> [(i, off)]) is)"

lemma present_pairs_sorted:
  assumes "sorted_wrt (<) (map fst ps)" and "\<forall>i \<in> fst ` set ps. i < n"
  shows "present_pairs ps [0..<n] = ps"
  using assms
proof (induction n arbitrary: ps)
  case (Suc n)
  show ?case
  proof (cases "n \<in> fst ` set ps")
    case False
    then have "\<forall>i \<in> fst ` set ps. i < n" using Suc.prems(2) by (auto simp: less_Suc_eq)
    then show ?thesis using Suc.IH [of ps] Suc.prems(1) False map_of_eq_None_iff [of ps n] by (simp add: present_pairs_def)
  next
    case True
    then obtain qs x where ps: "ps = qs @ [x]" by (cases ps rule: rev_cases) auto
    have lt: "\<forall>i \<in> fst ` set qs. i < fst x" using Suc.prems(1) by (auto simp: ps sorted_wrt_append)
    have x: "fst x = n" using True lt Suc.prems(2) by (fastforce simp: ps)
    have q: "\<forall>i \<in> fst ` set qs. i < n" using lt x by simp
    have ih: "present_pairs qs [0..<n] = qs" using Suc.IH [of qs] Suc.prems(1) q by (auto simp: ps sorted_wrt_append)
    have "map_of ps i = map_of qs i" if "i < n" for i
      using that x by (cases x) (auto simp: ps map_add_def split: option.split)
    then have "present_pairs ps [0..<n] = present_pairs qs [0..<n]"
      by (auto simp: present_pairs_def intro!: arg_cong [where f = concat])
    moreover have "map_of ps n = Some (snd x)"
      using q x map_of_eq_None_iff [of qs n] by (cases x) (auto simp: ps map_add_def split: option.split)
    ultimately show ?thesis using ih x by (cases x) (simp add: present_pairs_def ps)
  qed
qed (simp add: present_pairs_def)

lemma decode_pairs_from:
  assumes w: "planned_written g pl position bs" and n: "planned_at g position + planned_stride g \<le> length bs"
    and v: "planned_valid d pl" and ids: "\<forall>i \<in> set is. i < gm_max_tenants g"
  shows "decode_pairs bs g d position (pu_segment pl) is offs = Inr (offs @ present_pairs (pu_last_offsets pl) is)"
  using ids
proof (induction "is" arbitrary: offs)
  case (Cons i "is")
  let ?o = "map_of (pu_last_offsets pl) i"
  have i: "i < gm_max_tenants g" using Cons.prems by simp
  have ok: "offset_ok x \<and> dict_is_live d i \<and> wo_segment x = pu_segment pl" if "?o = Some x" for x
    using v map_of_SomeD [OF that] by (auto simp: planned_valid_def)
  have "decode_pair (drop (pair_at g position i) bs) d position i = Inr ?o"
    by (rule decode_pair_block) (use w i n ok pair_places(3) [OF i, of position] in \<open>auto simp: planned_written_def\<close>)
  then show ?case using Cons ok by (cases ?o) (simp_all add: present_pairs_def)
qed (simp add: present_pairs_def)

lemma planned_block_slices:
  assumes "uuid_ok (pu_segment pl)"
  shows "slice (planned_block pl) 0 16 = pu_segment pl" and "slice (planned_block pl) 16 18 = le_bytes 2 (length (pu_last_offsets pl))"
    and "slice (planned_block pl) 18 22 = zeros 4" and "slice (planned_block pl) 23 24 = zeros 1"
    and "planned_block pl ! 22 = (if pu_uncertain pl then CHR 0x03 else CHR 0x02)" and "length (planned_block pl) = 24"
proof -
  let ?s = "pu_segment pl" and ?n = "le_bytes 2 (length (pu_last_offsets pl))"
    and ?f = "[if pu_uncertain pl then CHR 0x03 else CHR 0x02]"
  have s: "length ?s = 16" using assms by (simp add: uuid_ok_def)
  show "slice (planned_block pl) 0 16 = ?s" using s slice_app [of "[]" 0 ?s 16] by (simp add: planned_block_def)
  show "slice (planned_block pl) 16 18 = ?n" using s slice_app [of ?s 16 ?n 18] by (simp add: planned_block_def)
  show "slice (planned_block pl) 18 22 = zeros 4"
    using s slice_app [of "?s @ ?n" 18 "zeros 4" 22 "?f @ zeros 1"] by (simp add: planned_block_def)
  show "slice (planned_block pl) 23 24 = zeros 1"
    using s slice_app [of "?s @ ?n @ zeros 4 @ ?f" 23 "zeros 1" 24 "[]"] by (simp add: planned_block_def)
  show "planned_block pl ! 22 = (if pu_uncertain pl then CHR 0x03 else CHR 0x02)" "length (planned_block pl) = 24"
    using s by (simp_all add: planned_block_def nth_append)
qed

lemma decode_planned_written:
  assumes w: "planned_written g pl position bs" and n: "planned_at g position + planned_stride g \<le> length bs"
    and v: "planned_valid d pl" and d: "length d \<le> gm_max_tenants g" and g: "geometry_ok g"
  shows "decode_planned_record bs g d position = Inr (Some pl)"
proof -
  let ?p = "planned_at g position"
  have u: "uuid_ok (pu_segment pl)" using v by (simp add: planned_valid_def)
  have st: "24 \<le> planned_stride g" by (simp add: planned_stride_def layout_consts)
  have blk: "slice bs ?p (?p + 24) = planned_block pl" using w by (simp add: planned_written_def planned_header_len_def)
  have s: "slice bs (?p + a) (?p + b) = slice (planned_block pl) a b" if "b \<le> 24" for a b
    using slice_slice [of ?p "?p + 24" bs b a] blk n st that by simp
  note b = planned_block_slices [OF u]
  have at22: "bs ! (?p + 22) = (if pu_uncertain pl then CHR 0x03 else CHR 0x02)"
    using slice_nth [of "?p + 24" bs 22 ?p] n st blk b(5) by simp
  have pairs: "decode_pairs bs g d position (pu_segment pl) (slot_ids g) [] = Inr (pu_last_offsets pl)"
  proof -
    have "\<forall>i \<in> fst ` set (pu_last_offsets pl). i < gm_max_tenants g"
      using planned_valid_ok [OF v d] by (auto simp: planned_ok_def)
    then have "present_pairs (pu_last_offsets pl) [0..<gm_max_tenants g] = pu_last_offsets pl"
      using v by (intro present_pairs_sorted) (simp_all add: planned_valid_def)
    then show ?thesis using decode_pairs_from [OF w n v, of "[0..<gm_max_tenants g]" "[]"] by (simp add: slot_ids_upt [OF g])
  qed
  have cnt: "read_u16 bs (?p + 16) = length (pu_last_offsets pl)"
    using s [of 18 16] b(2) v by (simp add: read_u16_def planned_valid_def add.assoc)
  have r: "reserved_zero bs (?p + 18) (?p + 22) f = None" "reserved_zero bs (?p + 23) (?p + 24) f = None" for f
    using s [of 22 18] s [of 24 23] b by (auto intro: reserved_zero_zeros)
  have seg: "slice bs ?p (?p + 16) = pu_segment pl" using s [of 16 0] b(1) by simp
  show ?thesis
    using pairs cnt r seg at22
    by (cases pl) (auto simp: decode_planned_record_def Let_def flag_consts of_char_def)
qed

lemma decode_planned_blank:
  assumes z: "planned_part g bs position = zeros (planned_stride g)" and n: "planned_at g position + planned_stride g \<le> length bs"
  shows "decode_planned_record bs g d position = Inr None"
proof -
  let ?p = "planned_at g position"
  have st: "24 \<le> planned_stride g" by (simp add: planned_stride_def layout_consts)
  have s: "slice bs (?p + a) (?p + b) = zeros (b - a)" if "b \<le> planned_stride g" for a b
    using slice_slice [of ?p "?p + planned_stride g" bs b a] z n that by simp
  have at22: "bs ! (?p + 22) = CHR 0x00"
    using slice_nth [of "?p + planned_stride g" bs 22 ?p] n st z by (simp add: zeros_def)
  have "reserved_zero bs (?p + a) (?p + b) f = None" if "b \<le> planned_stride g" for a b f
    by (rule reserved_zero_zeros [OF s [OF that]])
  from this [of 22 18] this [of 24 23] this [of 18 0] this [of "planned_stride g" 24] show ?thesis
    using at22 st by (simp add: decode_planned_record_def Let_def)
qed

lemma decode_planned_from_body:
  assumes body: "body_holds g rec bs" and len: "length bs = slot_len g" and ok: "record_ok g rec" and g: "geometry_ok g"
    and k: "k \<le> gm_max_unlinks_per_pass g"
  shows "decode_planned_from bs g (rr_dictionary rec) [k..<gm_max_unlinks_per_pass g] (take k (rr_planned rec))
      = Inr (rr_planned rec)"
  using k
proof (induction "gm_max_unlinks_per_pass g - k" arbitrary: k)
  case 0
  then show ?case using ok by (simp add: record_ok_def)
next
  case (Suc m)
  let ?pls = "rr_planned rec"
  have k: "k < gm_max_unlinks_per_pass g" using Suc.hyps(2) by simp
  have n: "planned_at g k + planned_stride g \<le> length bs"
    using planned_places(4) [OF k] trailer_places(2) [of g] len by simp
  have u: "[k..<gm_max_unlinks_per_pass g] = k # [Suc k..<gm_max_unlinks_per_pass g]" using k by (rule upt_conv_Cons)
  have ih: "decode_planned_from bs g (rr_dictionary rec) [Suc k..<gm_max_unlinks_per_pass g] (take (Suc k) ?pls) = Inr ?pls"
    by (rule Suc.hyps(1)) (use Suc.hyps(2) k in simp_all)
  have part: "if k < length ?pls then planned_written g (?pls ! k) k bs else planned_part g bs k = zeros (planned_stride g)"
    using body k by (simp add: body_holds_def)
  show ?case
  proof (cases "k < length ?pls")
    case True
    have "planned_valid (rr_dictionary rec) (?pls ! k)" "length (rr_dictionary rec) \<le> gm_max_tenants g"
      using ok True by (simp_all add: record_ok_def list_all_length)
    then have "decode_planned_record bs g (rr_dictionary rec) k = Inr (Some (?pls ! k))"
      using decode_planned_written [OF _ n _ _ g] part True by simp
    then show ?thesis using ih True unfolding u by (simp add: take_Suc_conv_app_nth)
  next
    case False
    then have "decode_planned_record bs g (rr_dictionary rec) k = Inr None"
      using decode_planned_blank [OF _ n] part by simp
    then show ?thesis using ih False unfolding u by simp
  qed
qed

lemma flags_roundtrip: "flags_from_bits (flags_bits f) = Inr f"
proof -
  obtain c p where f: "f = \<lparr>wf_checkpoint = c, wf_published_seeding = p\<rparr>" by (cases f)
  show ?thesis unfolding f
    by (cases c; cases p) (simp_all add: flags_from_bits_def flags_bits_def witness_from_bits_def flag_consts)
qed

lemma mode_roundtrip: "mode_from_code (mode_code m) = Inr m"
  by (cases m) (simp_all add: mode_from_code_def)

lemma header_block_slices:
  "slice (header_block rec gen) 0 8 = le_bytes 8 gen"
  "slice (header_block rec gen) 8 12 = le_bytes 4 (length (filter has_entry (rr_dictionary rec)))"
  "slice (header_block rec gen) 12 16 = le_bytes 4 (length (rr_planned rec))"
  "slice (header_block rec gen) 16 18 = le_bytes 2 (unat (flags_bits (rr_witness rec)))"
  "slice (header_block rec gen) 18 20 = le_bytes 2 (mode_code (rr_consumer_mode rec))"
  "slice (header_block rec gen) 20 24 = le_bytes 4 (length (rr_dictionary rec))"
proof -
  let ?a = "le_bytes 8 gen" and ?b = "le_bytes 4 (length (filter has_entry (rr_dictionary rec)))"
    and ?c = "le_bytes 4 (length (rr_planned rec))" and ?d = "le_bytes 2 (unat (flags_bits (rr_witness rec)))"
    and ?e = "le_bytes 2 (mode_code (rr_consumer_mode rec))" and ?f = "le_bytes 4 (length (rr_dictionary rec))"
  show "slice (header_block rec gen) 0 8 = ?a" using slice_app [of "[]" 0 ?a 8] by (simp add: header_block_def)
  show "slice (header_block rec gen) 8 12 = ?b" using slice_app [of ?a 8 ?b 12] by (simp add: header_block_def)
  show "slice (header_block rec gen) 12 16 = ?c" using slice_app [of "?a @ ?b" 12 ?c 16] by (simp add: header_block_def)
  show "slice (header_block rec gen) 16 18 = ?d" using slice_app [of "?a @ ?b @ ?c" 16 ?d 18] by (simp add: header_block_def)
  show "slice (header_block rec gen) 18 20 = ?e"
    using slice_app [of "?a @ ?b @ ?c @ ?d" 18 ?e 20] by (simp add: header_block_def)
  show "slice (header_block rec gen) 20 24 = ?f"
    using slice_app [of "?a @ ?b @ ?c @ ?d @ ?e" 20 ?f 24 "[]"] by (simp add: header_block_def)
qed

lemma decode_slot_holds:
  assumes holds: "slot_holds crc g rec gen bs" and ok: "record_ok g rec" and g: "geometry_ok g"
    and gen: "0 < gen" "gen < 2 ^ 64"
  shows "decode_slot crc bs g = Inr \<lparr>ds_generation = gen, ds_record = rec\<rparr>"
proof -
  let ?d = "rr_dictionary rec" and ?t = "trailer_offset g"
  have h: "length bs = slot_len g" "slice bs 0 24 = header_block rec gen" "body_holds g rec bs"
    "slice bs ?t (?t + 4) = le_bytes 4 (unat (crc32c crc (take ?t bs)))" "slice bs (?t + 4) (?t + 8) = zeros 4"
    using holds by (simp_all add: slot_holds_def slot_header_len_def)
  have n: "length ?d \<le> gm_max_tenants g" "length ?d \<le> 2 ^ 16" "length (rr_planned rec) \<le> 2 ^ 16"
    using ok g by (simp_all add: record_ok_def geometry_ok_def)
  have n24: "24 \<le> length bs" using trailer_places [of g] h(1) by (simp add: slot_header_len_def)
  have s: "slice bs a b = slice (header_block rec gen) a b" if "b \<le> 24" for a b
    using slice_slice [of 0 24 bs b a] h(2) n24 that by simp
  note hs = header_block_slices [of rec gen]
  have ne: "length (filter has_entry ?d) < 2 ^ 32" using n(2) by (intro le_less_trans [OF length_filter_le]) simp
  have mc: "mode_code (rr_consumer_mode rec) < 2 ^ 16" by (cases "rr_consumer_mode rec") simp_all
  have fb: "unat (flags_bits (rr_witness rec)) < 2 ^ 16" using unsigned_less [of "flags_bits (rr_witness rec)"] by simp
  have rd: "read_u64 bs 0 = gen" "read_u32 bs 8 = length (filter has_entry ?d)" "read_u32 bs 12 = length (rr_planned rec)"
    "word_of_nat (read_u16 bs 16) = flags_bits (rr_witness rec)" "read_u16 bs 18 = mode_code (rr_consumer_mode rec)"
    "read_u32 bs 20 = length ?d"
    using s [of 8 0] s [of 12 8] s [of 16 12] s [of 18 16] s [of 20 18] s [of 24 20] hs n ne gen mc fb
    by (simp_all add: read_u64_def read_u32_def read_u16_def)
  have crc: "read_u32 bs ?t = unat (crc32c crc (take ?t bs))"
  proof -
    have "unat (crc32c crc (take ?t bs)) < 2 ^ 32" using unsigned_less [of "crc32c crc (take ?t bs)"] by simp
    then show ?thesis using h(4) by (simp add: read_u32_def)
  qed
  have recs: "decode_records bs g (length ?d) (slot_ids g) [] = Inr ?d"
  proof -
    have "list_all (\<lambda>r. key_ok (dr_key r) \<and> entry_offsets_ok r) ?d"
      using ok by (auto simp: record_ok_def dict_valid_def list_all_iff)
    from decode_records_from [OF h(3,1) n(1) this, of 0] show ?thesis by (simp add: slot_ids_upt [OF g])
  qed
  have dict: "decode_dictionary bs g (length ?d) (length (filter has_entry ?d)) = Inr ?d"
    using recs n ok by (simp add: decode_dictionary_def occupied_entries_filter live_keys_distinct_iff record_ok_def dict_valid_def)
  have agree: "entries_agree_with ?d (rr_consumer_mode rec) = None"
    using ok n(2) by (auto simp: entries_agree_iff record_ok_def dict_valid_def list_all_iff)
  have pls: "decode_planned bs g ?d (length (rr_planned rec)) = Inr (rr_planned rec)"
    using decode_planned_from_body [OF h(3,1) ok g, of 0] by (simp add: decode_planned_def)
  have z: "reserved_zero bs (?t + 4) (?t + 8) f = None" for f by (rule reserved_zero_zeros [OF h(5)])
  have pm: "\<not> (rr_consumer_mode rec = Unrecorded \<and> length (rr_planned rec) \<noteq> 0)" using ok by (auto simp: record_ok_def)
  show ?thesis
    unfolding decode_slot_def Let_def rd crc
    using h(1) z gen(1) n(1) dict agree pm pls by (simp add: flags_roundtrip mode_roundtrip)
qed

section \<open>Every record of that kind is written\<close>

lemma check_pairs_loop_None:
  "check_pairs_loop seg d ps = None \<longleftrightarrow> (\<forall>(i, off) \<in> set ps. dict_is_live d i \<and> wo_segment off = seg)"
  by (induction seg d ps rule: check_pairs_loop.induct) auto

lemma write_planned_total:
  assumes "planned_valid d pl"
  shows "\<exists>out'. write_planned g d position pl out = Inr out'"
proof -
  have "check_pairs pl d = None" using assms by (auto simp: check_pairs_def check_pairs_loop_None planned_valid_def)
  then show ?thesis using assms by (simp add: write_planned_def Let_def planned_valid_def)
qed

lemma write_planned_all_total:
  "list_all (planned_valid d) pls \<Longrightarrow> \<exists>out'. write_planned_all g d (enumerate k pls) out = Inr out'"
proof (induction pls arbitrary: k out)
  case (Cons pl pls)
  obtain out1 where "write_planned g d k pl out = Inr out1" using write_planned_total Cons.prems by fastforce
  then show ?case using Cons.IH [of "Suc k" out1] Cons.prems by simp
qed simp

lemma encode_slot_total:
  assumes ok: "record_ok g rec" and g: "geometry_ok g" and gen: "0 < gen"
  shows "\<exists>bs. encode_slot crc rec gen g = Inr bs"
proof -
  let ?d = "rr_dictionary rec"
  have "length ?d \<le> 2 ^ 16" using ok g by (simp add: record_ok_def geometry_ok_def)
  then have it: "dict_iter ?d = enumerate 0 ?d" by (rule dict_iter_enumerate)
  have "list_all (\<lambda>r. dr_key r \<noteq> [] \<and> length (dr_key r) \<le> key_len \<and> entry_mode_ok (rr_consumer_mode rec) r) ?d"
    using ok by (auto simp: record_ok_def dict_valid_def key_ok_def list_all_iff)
  then obtain out1 n where o1: "write_dictionary g (rr_consumer_mode rec) (enumerate 0 ?d) 0 (zeros (slot_len g)) = Inr (out1, n)"
    using write_dictionary_ok [of g "rr_consumer_mode rec" 0 ?d 0 "zeros (slot_len g)"] by auto
  obtain out2 where "write_planned_all g ?d (enumerate 0 (rr_planned rec)) out1 = Inr out2"
    using write_planned_all_total [of ?d "rr_planned rec" g 0 out1] ok by (auto simp: record_ok_def)
  then show ?thesis using o1 it ok gen
    by (auto simp: encode_slot_def encode_slot_into_def Let_def record_ok_def not_less)
qed

section \<open>Every slot that is read holds such a record\<close>

lemma offset_ok_read:
  assumes "p + 24 \<le> length bs"
  shows "offset_ok (read_offset bs p)"
proof -
  have l: "length (slice bs (p + 16) (p + 16 + 8)) = 8" using assms by (simp add: length_slice)
  show ?thesis using assms le_val_bound [of "slice bs (p + 16) (p + 16 + 8)"] unfolding l
    by (simp add: read_offset_def read_u64_def offset_ok_def uuid_ok_def length_slice)
qed

lemma decode_dict_record_key:
  assumes "decode_dict_record bs i n = Inr (Some (key, t))" and "dict_record_len \<le> length bs"
  shows "key_ok key"
  using assms
  by (auto simp: decode_dict_record_def Let_def key_ok_def length_slice layout_consts split: if_splits)
    (auto simp: slice_def)

lemma decode_rentry_offset:
  assumes "decode_rentry bs i = Inr (Some e)" and "entry_len \<le> length bs"
  shows "offset_ok (re_offset e)"
  using assms offset_ok_read [of 8 bs]
  by (auto simp: decode_rentry_def Let_def layout_consts split: if_splits)

lemma slot_record_ok:
  assumes "slot_record i key entry = Inr (Some r)" and "\<And>x. key = Some x \<Longrightarrow> key_ok (fst x)"
    and "\<And>e. entry = Some e \<Longrightarrow> offset_ok (re_offset e)"
  shows "key_ok (dr_key r) \<and> entry_offsets_ok r"
  using assms by (cases "(i, key, entry)" rule: slot_record.cases) (auto simp: entry_offsets_ok_def split: option.splits)

lemma decode_records_ok:
  assumes "decode_records bs g n is records = Inr d" and "length bs = slot_len g" and "\<forall>i \<in> set is. i < gm_max_tenants g"
    and "list_all (\<lambda>r. key_ok (dr_key r) \<and> entry_offsets_ok r) records"
  shows "list_all (\<lambda>r. key_ok (dr_key r) \<and> entry_offsets_ok r) d \<and> length d \<le> length records + length is"
  using assms(1,3,4)
proof (induction "is" arbitrary: records)
  case (Cons i "is")
  obtain key entry r where k: "decode_dict_record (drop (dictionary_at i) bs) i n = Inr key"
    and e: "decode_rentry (drop (entries_at g i) bs) i = Inr entry" and r: "slot_record i key entry = Inr r"
    and rest: "decode_records bs g n is (records @ (case r of None \<Rightarrow> [] | Some r \<Rightarrow> [r])) = Inr d"
    using Cons.prems(1) by auto
  have i: "i < gm_max_tenants g" using Cons.prems(2) by simp
  have inb: "entry_len \<le> length (drop (entries_at g i) bs)" "dict_record_len \<le> length (drop (dictionary_at i) bs)"
    using entry_places(3) [OF i, of 0] dictionary_places(3) [OF i, of i] trailer_places [of g] assms(2) by simp_all
  have "list_all (\<lambda>r. key_ok (dr_key r) \<and> entry_offsets_ok r) (case r of None \<Rightarrow> [] | Some r \<Rightarrow> [r])"
  proof (cases r)
    case (Some r')
    have "key_ok (dr_key r') \<and> entry_offsets_ok r'"
      by (rule slot_record_ok [of i key entry])
        (use r Some k e decode_dict_record_key [OF _ inb(2)] decode_rentry_offset [OF _ inb(1)] in auto)
    then show ?thesis using Some by simp
  qed simp
  then have "list_all (\<lambda>r. key_ok (dr_key r) \<and> entry_offsets_ok r) d
      \<and> length d \<le> length (records @ (case r of None \<Rightarrow> [] | Some r \<Rightarrow> [r])) + length is"
    using Cons.IH [OF rest] Cons.prems(2,3) by simp
  then show ?case by (cases r) auto
qed simp

lemma decode_pair_ok:
  assumes "decode_pair bs d position i = Inr (Some off)" and "pair_len \<le> length bs"
  shows "dict_is_live d i \<and> offset_ok off"
  using assms offset_ok_read [of 8 bs] by (auto simp: decode_pair_def Let_def layout_consts split: if_splits)

lemma decode_pairs_ok:
  assumes "decode_pairs bs g d position seg is offs = Inr ps" and "planned_at g position + planned_stride g \<le> length bs"
    and "\<forall>i \<in> set is. i < gm_max_tenants g" and "sorted_wrt (<) (map fst offs @ is)"
    and "\<forall>(i, off) \<in> set offs. dict_is_live d i \<and> offset_ok off \<and> wo_segment off = seg"
  shows "sorted_wrt (<) (map fst ps) \<and> (\<forall>(i, off) \<in> set ps. dict_is_live d i \<and> offset_ok off \<and> wo_segment off = seg)"
  using assms(1,3-)
proof (induction "is" arbitrary: offs)
  case (Cons i "is")
  obtain r where r: "decode_pair (drop (pair_at g position i) bs) d position i = Inr r"
    and rest: "(case r of None \<Rightarrow> decode_pairs bs g d position seg is offs
      | Some off \<Rightarrow> if wo_segment off \<noteq> seg then Inl (Fmt_PairSegment position i (wo_segment off))
           else decode_pairs bs g d position seg is (offs @ [(i, off)])) = Inr ps"
    using Cons.prems(1) by auto
  have i: "i < gm_max_tenants g" using Cons.prems(2) by simp
  have n: "pair_len \<le> length (drop (pair_at g position i) bs)" using pair_places(3) [OF i, of position] assms(2) by simp
  show ?case
  proof (cases r)
    case None
    then show ?thesis using Cons.IH [of offs] rest Cons.prems by (auto simp: sorted_wrt_append)
  next
    case (Some off)
    then have "decode_pairs bs g d position seg is (offs @ [(i, off)]) = Inr ps" "wo_segment off = seg"
      using rest by (auto split: if_splits)
    then show ?thesis using Cons.IH [of "offs @ [(i, off)]"] Cons.prems decode_pair_ok [OF _ n] r Some by auto
  qed
qed simp

lemma decode_planned_record_ok:
  assumes "decode_planned_record bs g d position = Inr (Some pl)" and "planned_at g position + planned_stride g \<le> length bs"
    and g: "geometry_ok g"
  shows "planned_valid d pl"
proof -
  let ?p = "planned_at g position"
  let ?seg = "slice bs ?p (?p + 16)"
  have st: "24 \<le> planned_stride g" by (simp add: planned_stride_def layout_consts)
  obtain offs where ps: "decode_pairs bs g d position ?seg (slot_ids g) [] = Inr offs"
    and pl: "pu_segment pl = ?seg" "pu_last_offsets pl = offs" "read_u16 bs (?p + 16) = length offs"
    using assms(1) by (auto simp: decode_planned_record_def Let_def split: if_splits)
  have "length (slice bs (?p + 16) (?p + 16 + 2)) = 2" using assms(2) st by (simp add: length_slice)
  then have "length offs < 2 ^ 16" using le_val_bound [of "slice bs (?p + 16) (?p + 16 + 2)"] pl(3) by (simp add: read_u16_def)
  moreover have "uuid_ok ?seg" using assms(2) st by (simp add: uuid_ok_def length_slice)
  moreover have "sorted_wrt (<) (map fst offs) \<and> (\<forall>(i, off) \<in> set offs. dict_is_live d i \<and> offset_ok off \<and> wo_segment off = ?seg)"
    by (rule decode_pairs_ok [OF ps assms(2)]) (auto simp: slot_ids_upt [OF g])
  ultimately show ?thesis by (simp add: planned_valid_def pl)
qed

lemma decode_planned_from_ok:
  assumes "decode_planned_from bs g d ps pls = Inr out" and "length bs = slot_len g" and "geometry_ok g"
    and "\<forall>i \<in> set ps. i < gm_max_unlinks_per_pass g" and "list_all (planned_valid d) pls"
  shows "list_all (planned_valid d) out \<and> length out \<le> length pls + length ps"
  using assms(1,4,5)
proof (induction ps arbitrary: pls)
  case (Cons i ps)
  obtain r where r: "decode_planned_record bs g d i = Inr r"
    and rest: "decode_planned_from bs g d ps (pls @ (case r of None \<Rightarrow> [] | Some pl \<Rightarrow> [pl])) = Inr out"
    using Cons.prems(1) by auto
  have i: "i < gm_max_unlinks_per_pass g" using Cons.prems(2) by simp
  have n: "planned_at g i + planned_stride g \<le> length bs"
    using planned_places(4) [OF i] trailer_places(2) [of g] assms(2) by simp
  have "list_all (planned_valid d) (case r of None \<Rightarrow> [] | Some pl \<Rightarrow> [pl])"
    using decode_planned_record_ok [OF _ n assms(3)] r by (cases r) auto
  then have "list_all (planned_valid d) out \<and> length out \<le> length (pls @ (case r of None \<Rightarrow> [] | Some pl \<Rightarrow> [pl])) + length ps"
    using Cons.IH [OF rest] Cons.prems(2,3) by simp
  then show ?case by (cases r) auto
qed simp

lemma decode_slot_ok:
  assumes dec: "decode_slot crc bs g = Inr s" and g: "geometry_ok g"
  shows "record_ok g (ds_record s)" and "0 < ds_generation s" and "ds_generation s < 2 ^ 64"
proof -
  obtain witness mode d pls n where len: "length bs = slot_len g" and gen: "read_u64 bs 0 \<noteq> 0"
    and d: "decode_dictionary bs g n (read_u32 bs 8) = Inr d"
    and agree: "entries_agree_with d mode = None" and p: "decode_planned bs g d (read_u32 bs 12) = Inr pls"
    and m: "\<not> (mode = Unrecorded \<and> read_u32 bs 12 \<noteq> 0)"
    and s: "s = \<lparr>ds_generation = read_u64 bs 0, ds_record = \<lparr>rr_witness = witness, rr_consumer_mode = mode,
      rr_dictionary = d, rr_planned = pls\<rparr>\<rparr>"
    using dec by (auto simp: decode_slot_def Let_def split: if_splits)
  show "0 < ds_generation s" using gen s by simp
  have "length (slice bs 0 (0 + 8)) = 8" using trailer_places [of g] len by (simp add: length_slice slot_header_len_def)
  then show "ds_generation s < 2 ^ 64" using le_val_bound [of "slice bs 0 (0 + 8)"] by (simp add: s read_u64_def)
  have r: "decode_records bs g n (slot_ids g) [] = Inr d" and dist: "live_keys_are_distinct d = None"
    using d by (auto simp: decode_dictionary_def split: if_splits)
  have "list_all (\<lambda>r. key_ok (dr_key r) \<and> entry_offsets_ok r) d \<and> length d \<le> length ([] :: dictionary) + length (slot_ids g)"
    by (rule decode_records_ok [OF r len]) (simp_all add: slot_ids_upt [OF g])
  then have ok: "list_all (\<lambda>r. key_ok (dr_key r) \<and> entry_offsets_ok r) d" and ld: "length d \<le> gm_max_tenants g"
    by (simp_all add: slot_ids_upt [OF g])
  have l16: "length d \<le> 2 ^ 16" using ld g by (simp add: geometry_ok_def)
  have dv: "dict_valid mode d"
    using ok dist agree l16 by (auto simp: dict_valid_def live_keys_distinct_iff entries_agree_iff list_all_iff)
  have pf: "decode_planned_from bs g d [0..<gm_max_unlinks_per_pass g] [] = Inr pls" and lp: "length pls = read_u32 bs 12"
    using p by (auto simp: decode_planned_def split: if_splits)
  have "list_all (planned_valid d) pls \<and> length pls \<le> length ([] :: planned_unlink list) + length [0..<gm_max_unlinks_per_pass g]"
    by (rule decode_planned_from_ok [OF pf len g]) simp_all
  then show "record_ok g (ds_record s)" using dv ld m lp by (auto simp: record_ok_def s)
qed

section \<open>The file header\<close>

lemma slot_len_bound:
  assumes "geometry_ok g"
  shows "slot_len g < 2 ^ 38" and "file_len g < 2 ^ 64"
proof -
  let ?t = "gm_max_tenants g" and ?u = "gm_max_unlinks_per_pass g"
  have b: "?t \<le> 2 ^ 16" "?u \<le> 2 ^ 16" using assms by (simp_all add: geometry_ok_def)
  have "planned_stride g * ?u \<le> (24 + 32 * 2 ^ 16) * 2 ^ 16"
    by (rule mult_le_mono) (use b in \<open>simp_all add: planned_stride_def layout_consts\<close>)
  then show "slot_len g < 2 ^ 38" using b by (simp add: slot_len_def layout_consts)
  then show "file_len g < 2 ^ 64" by (simp add: file_len_def layout_consts)
qed

lemma geometry_new_iff: "geometry_new t u = Inr g \<longleftrightarrow> g = \<lparr>gm_max_tenants = t, gm_max_unlinks_per_pass = u\<rparr> \<and> geometry_ok g"
  using slot_len_bound(2) [of "\<lparr>gm_max_tenants = t, gm_max_unlinks_per_pass = u\<rparr>"]
  by (auto simp: geometry_new_def Let_def geometry_ok_def max_tenants_ceiling_def max_unlinks_per_pass_ceiling_def)

definition file_header_block :: "crc_fns \<Rightarrow> geometry \<Rightarrow> bytes" where
  "file_header_block crc g =
     (let body = reclaim_magic @ le_bytes 2 reclaim_version @ zeros 2 @ le_bytes 8 (slot_len g)
                   @ le_bytes 4 (gm_max_tenants g) @ le_bytes 4 (gm_max_unlinks_per_pass g)
      in body @ le_bytes 4 (unat (crc32c crc body)) @ zeros 4)"

lemma encode_file_header_block: "encode_file_header crc g = file_header_block crc g"
proof -
  let ?m = reclaim_magic and ?v = "le_bytes 2 reclaim_version" and ?s = "le_bytes 8 (slot_len g)"
    and ?t = "le_bytes 4 (gm_max_tenants g)" and ?u = "le_bytes 4 (gm_max_unlinks_per_pass g)"
  have m: "length ?m = 4" by (simp add: reclaim_magic_def)
  have z: "zeros a @ zeros b = zeros (a + b)" for a b by (simp add: zeros_def replicate_add)
  let ?out = "?m @ ?v @ zeros 2 @ ?s @ ?t @ ?u @ zeros 8"
  have "put_at (put_at (put_at (put_at (put_at (zeros 32) 0 ?m) 4 ?v) 8 ?s) 16 ?t) 20 ?u = ?out"
    using m put_at_zeros [of "[]" 0 ?m 32] put_at_zeros [of ?m 4 ?v 28] put_at_zeros [of "?m @ ?v" 8 ?s 26]
      put_at_zeros [of "?m @ ?v @ zeros 2 @ ?s" 16 ?t 16] put_at_zeros [of "?m @ ?v @ zeros 2 @ ?s @ ?t" 20 ?u 12]
    by (simp add: zeros_def)
  moreover have "take 24 ?out = ?m @ ?v @ zeros 2 @ ?s @ ?t @ ?u" using m by simp
  moreover have "put_at ?out 24 c = (?m @ ?v @ zeros 2 @ ?s @ ?t @ ?u) @ c @ zeros 4" if "length c = 4" for c
    using put_at_zeros [of "?m @ ?v @ zeros 2 @ ?s @ ?t @ ?u" 24 c 8] m that by (simp add: zeros_def)
  ultimately show ?thesis by (simp add: encode_file_header_def file_header_block_def Let_def layout_consts)
qed

lemma slice_split: "a \<le> b \<Longrightarrow> b \<le> c \<Longrightarrow> c \<le> length s \<Longrightarrow> slice s a c = slice s a b @ slice s b c"
  by (rule nth_equalityI) (auto simp: length_slice slice_nth nth_append add.commute)

lemma file_header_split:
  assumes "length bs = 32"
  shows "bs = (slice bs 0 4 @ slice bs 4 6 @ slice bs 6 8 @ slice bs 8 16 @ slice bs 16 20 @ slice bs 20 24)
    @ slice bs 24 28 @ slice bs 28 32"
    and "take 24 bs = slice bs 0 4 @ slice bs 4 6 @ slice bs 6 8 @ slice bs 8 16 @ slice bs 16 20 @ slice bs 20 24"
proof -
  note s = slice_split [where s = bs]
  have "take 24 bs = slice bs 0 24" by (simp add: slice_def)
  then show b: "take 24 bs = slice bs 0 4 @ slice bs 4 6 @ slice bs 6 8 @ slice bs 8 16 @ slice bs 16 20 @ slice bs 20 24"
    using assms s [of 0 4 24] s [of 4 6 24] s [of 6 8 24] s [of 8 16 24] s [of 16 20 24] by simp
  have "bs = take 24 bs @ slice bs 24 32" using assms by (simp add: slice_def)
  then show "bs = (slice bs 0 4 @ slice bs 4 6 @ slice bs 6 8 @ slice bs 8 16 @ slice bs 16 20 @ slice bs 20 24)
    @ slice bs 24 28 @ slice bs 28 32"
    using b assms s [of 24 28 32] by simp
qed

lemma slice_le_val: "b \<le> length bs \<Longrightarrow> b - a = n \<Longrightarrow> slice bs a b = le_bytes n (le_val (slice bs a b))"
  by (simp add: le_bytes_le_val_len length_slice)

lemma reserved_zero_slice: "reserved_zero bs a b f = None \<Longrightarrow> b \<le> length bs \<Longrightarrow> slice bs a b = zeros (b - a)"
  unfolding zeros_def by (rule replicate_eqI) (auto simp: length_slice reserved_zero_None)

lemma decode_file_header_sound:
  assumes "decode_file_header crc bs = Inr g"
  shows "geometry_ok g \<and> bs = file_header_block crc g"
proof -
  have len: "length bs = 32" and m: "slice bs 0 4 = reclaim_magic" and v: "le_val (slice bs 4 6) = reclaim_version"
    and z: "reserved_zero bs 6 8 ''file header'' = None" "reserved_zero bs 28 32 ''file header'' = None"
    and c: "read_u32 bs 24 = unat (crc32c crc (take 24 bs))"
    and n: "geometry_new (read_u32 bs 16) (read_u32 bs 20) = Inr g" and s: "read_u64 bs 8 = slot_len g"
    using assms by (auto simp: decode_file_header_def Let_def layout_consts split: if_splits sum.splits)
  have g: "geometry_ok g" "gm_max_tenants g = read_u32 bs 16" "gm_max_unlinks_per_pass g = read_u32 bs 20"
    using n by (auto simp: geometry_new_iff)
  note h = file_header_split [OF len]
  have p: "slice bs 4 6 = le_bytes 2 reclaim_version" "slice bs 6 8 = zeros 2" "slice bs 8 16 = le_bytes 8 (slot_len g)"
    "slice bs 16 20 = le_bytes 4 (gm_max_tenants g)" "slice bs 20 24 = le_bytes 4 (gm_max_unlinks_per_pass g)"
    "slice bs 24 28 = le_bytes 4 (unat (crc32c crc (take 24 bs)))" "slice bs 28 32 = zeros 4"
    using len v s g z c slice_le_val [of 6 bs 4 2] slice_le_val [of 16 bs 8 8] slice_le_val [of 20 bs 16 4]
      slice_le_val [of 24 bs 20 4] slice_le_val [of 28 bs 24 4] reserved_zero_slice [of bs 6 8] reserved_zero_slice [of bs 28 32]
    by (simp_all add: read_u32_def read_u64_def)
  show ?thesis using g(1) h p m by (simp add: file_header_block_def Let_def)
qed

lemma decode_file_header_complete:
  assumes g: "geometry_ok g"
  shows "decode_file_header crc (file_header_block crc g) = Inr g"
proof -
  let ?m = reclaim_magic and ?v = "le_bytes 2 reclaim_version" and ?s = "le_bytes 8 (slot_len g)"
    and ?t = "le_bytes 4 (gm_max_tenants g)" and ?u = "le_bytes 4 (gm_max_unlinks_per_pass g)"
  define body where "body = ?m @ ?v @ zeros 2 @ ?s @ ?t @ ?u"
  define c where "c = le_bytes 4 (unat (crc32c crc body))"
  define bs where "bs = body @ c @ zeros 4"
  have bs': "file_header_block crc g = bs" by (simp add: file_header_block_def bs_def body_def c_def Let_def)
  have m: "length ?m = 4" and lb: "length body = 24" by (simp_all add: reclaim_magic_def body_def)
  have s: "slice bs 0 4 = ?m" "slice bs 4 6 = ?v" "slice bs 6 8 = zeros 2" "slice bs 8 16 = ?s" "slice bs 16 20 = ?t"
    "slice bs 20 24 = ?u" "slice bs 24 28 = c" "slice bs 28 32 = zeros 4"
    using m lb slice_app [of "[]" 0 ?m 4] slice_app [of ?m 4 ?v 6] slice_app [of "?m @ ?v" 6 "zeros 2" 8]
      slice_app [of "?m @ ?v @ zeros 2" 8 ?s 16] slice_app [of "?m @ ?v @ zeros 2 @ ?s" 16 ?t 20]
      slice_app [of "?m @ ?v @ zeros 2 @ ?s @ ?t" 20 ?u 24] slice_app [of body 24 c 28 "zeros 4"]
      slice_app [of "body @ c" 28 "zeros 4" 32 "[]"]
    by (simp_all add: bs_def body_def c_def)
  have b: "gm_max_tenants g < 2 ^ 32" "gm_max_unlinks_per_pass g < 2 ^ 32" "slot_len g < 2 ^ 64"
    using g slot_len_bound(1) [OF g] by (simp_all add: geometry_ok_def)
  have cb: "unat (crc32c crc body) < 2 ^ 32" using unsigned_less [of "crc32c crc body"] by simp
  have rd: "read_u64 bs 8 = slot_len g" "read_u32 bs 16 = gm_max_tenants g" "read_u32 bs 20 = gm_max_unlinks_per_pass g"
    "read_u32 bs 24 = unat (crc32c crc body)"
    using s b cb by (simp_all add: read_u64_def read_u32_def c_def)
  have z: "reserved_zero bs 6 8 f = None" "reserved_zero bs 28 32 f = None" for f using s by (auto intro: reserved_zero_zeros)
  have "geometry_new (gm_max_tenants g) (gm_max_unlinks_per_pass g) = Inr g" using g by (cases g) (simp add: geometry_new_iff)
  moreover have "length bs = 32" "take 24 bs = body" by (simp_all add: bs_def lb c_def)
  ultimately show ?thesis unfolding bs' using s z rd
    by (simp add: decode_file_header_def Let_def layout_consts reclaim_version_def)
qed

section \<open>Properties\<close>

text \<open>C14. The slot codec of the \<open>RECLAIM\<close> sidecar: a record is carried, unchanged, through writing and
  reading a slot at a generation if and only if it is well formed for the geometry (its dictionary
  and plan fit, keys are 1 to 128 bytes of UTF-8, no tenant is live under two ids, every entry has
  the recorded mode, every planned pair names a live tenant and lies in its segment) and the
  generation is not zero; and whatever slot the reader accepts, the record it gives can be written
  again and read back the same.\<close>

theorem reclaim_slot_exact:
  assumes "geometry_new t u = Inr g" and "gen < 2 ^ 64"
  shows "(record_ok g rec \<and> 0 < gen \<longleftrightarrow>
            (\<exists>bs. encode_slot crc rec gen g = Inr bs
                  \<and> decode_slot crc bs g = Inr \<lparr>ds_generation = gen, ds_record = rec\<rparr>))
       \<and> (\<forall>bs s. decode_slot crc bs g = Inr s \<longrightarrow>
            (\<exists>bs'. encode_slot crc (ds_record s) (ds_generation s) g = Inr bs' \<and> decode_slot crc bs' g = Inr s))"
proof -
  have g: "geometry_ok g" using assms(1) geometry_new_iff [of t u g] by blast
  have c: "\<exists>bs. encode_slot crc r n g = Inr bs \<and> decode_slot crc bs g = Inr \<lparr>ds_generation = n, ds_record = r\<rparr>"
    if r: "record_ok g r" "0 < n" "n < 2 ^ 64" for r n
  proof -
    obtain bs where bs: "encode_slot crc r n g = Inr bs" using encode_slot_total [OF r(1) g r(2)] by blast
    have "list_all entry_offsets_ok (rr_dictionary r)" "list_all (planned_ok (gm_max_tenants g)) (rr_planned r)"
      using r(1) planned_valid_ok by (auto simp: record_ok_def dict_valid_def list_all_iff)
    from decode_slot_holds [OF encode_slot_holds [OF bs g this] r(1) g r(2,3)] bs show ?thesis by blast
  qed
  show ?thesis
  proof (intro conjI allI impI iffI)
    show "record_ok g rec \<and> 0 < gen \<Longrightarrow> \<exists>bs. encode_slot crc rec gen g = Inr bs
        \<and> decode_slot crc bs g = Inr \<lparr>ds_generation = gen, ds_record = rec\<rparr>" using c assms(2) by blast
    show "record_ok g rec" "0 < gen" if "\<exists>bs. encode_slot crc rec gen g = Inr bs
        \<and> decode_slot crc bs g = Inr \<lparr>ds_generation = gen, ds_record = rec\<rparr>"
      using that decode_slot_ok [OF _ g] by fastforce+
    fix bs s assume "decode_slot crc bs g = Inr s"
    from c [OF decode_slot_ok [OF this g]]
    show "\<exists>bs'. encode_slot crc (ds_record s) (ds_generation s) g = Inr bs' \<and> decode_slot crc bs' g = Inr s" by (cases s) simp
  qed
qed

text \<open>A record with a live tenant, a retired one and a planned segment.\<close>

definition sample_record :: reclaim_record where
  "sample_record =
     (let u = replicate 16 (CHR ''u'') in
      \<lparr>rr_witness = \<lparr>wf_checkpoint = Seen, wf_published_seeding = Armed\<rparr>, rr_consumer_mode = Mode_Known,
       rr_dictionary = [\<lparr>dr_key = ''a'', dr_state = Tombstoned\<rparr>,
                        \<lparr>dr_key = ''a'', dr_state = Live (Some \<lparr>re_mode = Entry_Known, re_offset = Wal_Offset u 40\<rparr>)\<rparr>],
       rr_planned = [\<lparr>pu_segment = u, pu_uncertain = True, pu_last_offsets = [(1, Wal_Offset u 90)]\<rparr>]\<rparr>)"

theorem reclaim_slot_exact_witness:
  "\<exists>bs. encode_slot toy_crc sample_record 7 \<lparr>gm_max_tenants = 3, gm_max_unlinks_per_pass = 2\<rparr> = Inr bs
     \<and> decode_slot toy_crc bs \<lparr>gm_max_tenants = 3, gm_max_unlinks_per_pass = 2\<rparr>
         = Inr \<lparr>ds_generation = 7, ds_record = sample_record\<rparr>"
proof -
  let ?g = "\<lparr>gm_max_tenants = 3, gm_max_unlinks_per_pass = 2\<rparr>"
  have g: "geometry_new 3 2 = Inr ?g" by (simp add: geometry_new_iff geometry_ok_def)
  have "record_ok ?g sample_record"
    by (simp add: record_ok_def dict_valid_def planned_valid_def live_keys_def key_ok_def entry_offsets_ok_def entry_mode_ok_def
      mode_admits_def offset_ok_def uuid_ok_def record_is_live_def dict_is_live_def dict_get_def sample_record_def
      layout_consts byte_val_def Let_def)
  with reclaim_slot_exact [OF g, of 7 sample_record toy_crc] show ?thesis by simp
qed

end
