(* ===== verification/Reclaim_Dictionary.thy ===== *)
theory Reclaim_Dictionary
  imports Reclaim_Layout
begin

text \<open>
  What the operations of the tenant dictionary (\<open>Dictionary\<close> in \<open>crates/ourios-wal/src/reclaim.rs\<close>) keep over
  any sequence of them: no tenant is live under two ids, an id names one key for ever, a retired id
  stays retired, and the proof of loss of a tenant only rises.
\<close>

section \<open>Steps\<close>

inductive dict_step :: "geometry \<Rightarrow> dictionary \<Rightarrow> dictionary \<Rightarrow> bool" for g where
  assigned: "dict_assign key g d = (d', r) \<Longrightarrow> dict_step g d d'"
| raised: "raise_reclaimed i e d = Inr d' \<Longrightarrow> dict_step g d d'"
| retired: "dict_tombstone i d = Some d' \<Longrightarrow> dict_step g d d'"
| united: "distinct (live_keys other) \<Longrightarrow> dict_union d (seed_keys other) = Inr d' \<Longrightarrow> dict_step g d d'"

fun state_le :: "slot_state \<Rightarrow> slot_state \<Rightarrow> bool" where
  "state_le Tombstoned st = (st = Tombstoned)"
| "state_le (Live None) st = True"
| "state_le (Live (Some a)) Tombstoned = True"
| "state_le (Live (Some a)) (Live None) = False"
| "state_le (Live (Some a)) (Live (Some b)) = (re_offset a \<le> re_offset b)"

definition dict_le :: "dictionary \<Rightarrow> dictionary \<Rightarrow> bool" where
  "dict_le d d' \<longleftrightarrow>
     length d \<le> length d'
     \<and> (\<forall>i < length d. dr_key (d' ! i) = dr_key (d ! i) \<and> state_le (dr_state (d ! i)) (dr_state (d' ! i)))"

lemma state_le_refl [simp]: "state_le st st"
  by (cases "(st, st)" rule: state_le.cases) auto

lemma state_le_Tombstoned [simp]: "state_le st Tombstoned"
  by (cases "(st, Tombstoned)" rule: state_le.cases) auto

lemma state_le_trans: "state_le a b \<Longrightarrow> state_le b c \<Longrightarrow> state_le a c"
  by (cases "(a, b)" rule: state_le.cases; cases "(b, c)" rule: state_le.cases) auto

lemma dict_le_refl [simp]: "dict_le d d"
  by (simp add: dict_le_def)

lemma dict_le_trans: "dict_le a b \<Longrightarrow> dict_le b c \<Longrightarrow> dict_le a c"
  unfolding dict_le_def by (metis (no_types, lifting) order_trans less_le_trans state_le_trans)

lemma dict_le_append [simp]: "dict_le d (d @ xs)"
  by (simp add: dict_le_def nth_append)

lemma dict_le_update:
  "i < length d \<Longrightarrow> state_le (dr_state (d ! i)) st \<Longrightarrow> dict_le d (d[i := (d ! i)\<lparr>dr_state := st\<rparr>])"
  by (auto simp: dict_le_def nth_list_update)

section \<open>Live keys\<close>

definition live_apart :: "dictionary \<Rightarrow> bool" where
  "live_apart d \<longleftrightarrow>
     (\<forall>j < length d. \<forall>i < j. record_is_live (d ! i) \<longrightarrow> record_is_live (d ! j) \<longrightarrow> dr_key (d ! i) \<noteq> dr_key (d ! j))"

lemma live_apart_iff: "live_apart d \<longleftrightarrow> distinct (live_keys d)"
proof -
  have "distinct (live_keys d)
      \<longleftrightarrow> sorted_wrt (\<lambda>r r'. record_is_live r \<longrightarrow> record_is_live r' \<longrightarrow> dr_key r \<noteq> dr_key r') d"
    by (induction d) (auto simp: live_keys_def)
  then show ?thesis by (auto simp: live_apart_def sorted_wrt_iff_nth_less)
qed

lemma live_apart_update:
  assumes "live_apart d" and "dr_key r = dr_key (d ! i)" and "record_is_live r \<Longrightarrow> record_is_live (d ! i)"
  shows "live_apart (d[i := r])"
proof -
  have u: "d[i := r] ! k = (if k = i then r else d ! k)" if "k < length d" for k
    using that by (simp add: nth_list_update)
  have k: "dr_key (d[i := r] ! k) = dr_key (d ! k)" if "k < length d" for k
    unfolding u [OF that] using assms(2) by (cases "k = i") simp_all
  have l: "record_is_live (d ! k)" if "k < length d" "record_is_live (d[i := r] ! k)" for k
    using that(2) assms(3) unfolding u [OF that(1)] by (cases "k = i") simp_all
  show ?thesis unfolding live_apart_def
  proof (intro allI impI)
    fix a b assume "b < length (d[i := r])" "a < b" "record_is_live (d[i := r] ! a)" "record_is_live (d[i := r] ! b)"
    then have "b < length d" "a < length d" "a < b" "record_is_live (d ! a)" "record_is_live (d ! b)" using l by simp_all
    then show "dr_key (d[i := r] ! a) \<noteq> dr_key (d[i := r] ! b)" using assms(1) k by (simp add: live_apart_def)
  qed
qed

lemma live_apart_snoc:
  assumes "live_apart d" and "\<And>i. i < length d \<Longrightarrow> record_is_live r \<Longrightarrow> record_is_live (d ! i) \<Longrightarrow> dr_key (d ! i) \<noteq> dr_key r"
  shows "live_apart (d @ [r])"
  using assms by (auto simp: live_apart_def nth_append less_Suc_eq)

lemma dict_position_None: "dict_position key i d = None \<longleftrightarrow> (\<forall>r \<in> set d. \<not> (dr_key r = key \<and> record_is_live r))"
  by (induction d arbitrary: i) auto

lemma dict_position_bound: "dict_position key i d = Some j \<Longrightarrow> i \<le> j \<and> j < i + length d"
  by (induction d arbitrary: i) (fastforce split: if_splits)+

lemma dict_position_unique:
  assumes "live_apart d" and "j < length d" and "record_is_live (d ! j)"
  shows "dict_position (dr_key (d ! j)) i d = Some (i + j)"
  using assms
proof (induction d arbitrary: i j)
  case (Cons r d)
  have "live_apart d" using Cons.prems(1) by (fastforce simp: live_apart_def nth_Cons)
  then show ?case
  proof (cases j)
    case (Suc k)
    have "\<not> (dr_key r = dr_key (d ! k) \<and> record_is_live r)"
      using Cons.prems(1,2,3) Suc unfolding live_apart_def by (metis nth_Cons_0 nth_Cons_Suc zero_less_Suc)
    then show ?thesis using Cons.IH [OF \<open>live_apart d\<close>, of k "Suc i"] Cons.prems Suc by auto
  qed (use Cons.prems in simp)
qed simp

section \<open>Every step\<close>

lemma dict_assign_keeps:
  assumes "dict_assign key g d = (d', r)" and "live_apart d"
  shows "live_apart d' \<and> dict_le d d'"
proof (cases "d' = d")
  case False
  then have d': "d' = d @ [\<lparr>dr_key = key, dr_state = Live None\<rparr>]" and n: "length d < 2 ^ 16" and none: "id_of d key = None"
    using assms(1) by (auto simp: dict_assign_def to_slot_id_def Let_def split: option.splits if_splits)
  have "dict_position key 0 d = None"
    using none n dict_position_bound [of key 0 d] by (auto simp: id_of_def to_slot_id_def split: option.splits if_splits)
  then have "live_apart d'" unfolding d'
    by (intro live_apart_snoc [OF assms(2)]) (auto simp: dict_position_None)
  then show ?thesis by (simp add: d')
qed (use assms in simp)

lemma raise_reclaimed_keeps:
  assumes "raise_reclaimed i e d = Inr d'" and "live_apart d"
  shows "live_apart d' \<and> dict_le d d'"
proof -
  obtain held where i: "i < length d" and l: "dr_state (d ! i) = Live held"
    and d': "d' = d[i := (d ! i)\<lparr>dr_state := Live (Some (case held of
        Some h \<Rightarrow> if re_offset h \<ge> re_offset e then h else e | None \<Rightarrow> e))\<rparr>]"
    using assms(1) by (auto simp: raise_reclaimed_def dict_get_def Let_def split: if_splits slot_state.splits)
  have "live_apart d'" unfolding d' by (rule live_apart_update [OF assms(2)]) (simp_all add: record_is_live_def l)
  moreover have "dict_le d d'" unfolding d' by (rule dict_le_update [OF i]) (cases held; auto simp: l)
  ultimately show ?thesis by simp
qed

lemma dict_tombstone_keeps:
  assumes "dict_tombstone i d = Some d'" and "live_apart d"
  shows "live_apart d' \<and> dict_le d d'"
proof -
  have i: "i < length d" and d': "d' = d[i := (d ! i)\<lparr>dr_state := Tombstoned\<rparr>]"
    using assms(1) by (auto simp: dict_tombstone_def dict_get_def split: if_splits)
  have "live_apart d'" unfolding d' by (rule live_apart_update [OF assms(2)]) (simp_all add: record_is_live_def)
  moreover have "dict_le d d'" unfolding d' by (rule dict_le_update [OF i]) simp
  ultimately show ?thesis by simp
qed

lemma union_from_keeps:
  assumes "union_from i records (drop i (seed_keys other)) = Inr d'" and "live_apart other" and "live_apart records"
    and "i \<le> length records" and "i \<le> length other"
    and "\<And>j. j < i \<Longrightarrow> record_is_live (records ! j) \<Longrightarrow> record_is_live (other ! j) \<and> dr_key (other ! j) = dr_key (records ! j)"
  shows "live_apart d' \<and> dict_le records d'"
  using assms(1,3-)
proof (induction "length other - i" arbitrary: i records)
  case 0
  then show ?case by (simp add: seed_keys_def)
next
  case (Suc n)
  let ?o = "other ! i"
  have i: "i < length other" using Suc.hyps(2) by simp
  have seeds: "drop i (seed_keys other)
      = \<lparr>sk_key = dr_key ?o, sk_tombstoned = \<not> record_is_live ?o\<rparr> # drop (Suc i) (seed_keys other)"
    using i by (simp add: seed_keys_def Cons_nth_drop_Suc [symmetric] drop_map)
  let ?put = "if record_is_live ?o then records else records[i := (records ! i)\<lparr>dr_state := Tombstoned\<rparr>]"
  let ?new = "\<lparr>dr_key = dr_key ?o, dr_state = (if record_is_live ?o then Live None else Tombstoned)\<rparr>"
  obtain next' where nx: "union_from (Suc i) next' (drop (Suc i) (seed_keys other)) = Inr d'"
    and cs: "i < length records \<and> dr_key (records ! i) = dr_key ?o \<and> next' = ?put
        \<or> i = length records \<and> next' = records @ [?new]"
  proof (cases "i < length records")
    case True
    then have "dr_key (records ! i) = dr_key ?o \<and> union_from (Suc i) ?put (drop (Suc i) (seed_keys other)) = Inr d'"
      using Suc.prems(1) unfolding seeds by (auto simp: dict_get_def split: if_splits)
    then show thesis using that [of ?put] True by blast
  next
    case False
    then have n: "i = length records" using Suc.prems(3) by simp
    then have "union_from (Suc i) (records @ [?new]) (drop (Suc i) (seed_keys other)) = Inr d'"
      using Suc.prems(1) unfolding seeds by (cases "record_is_live ?o") (simp_all add: dict_get_def)
    then show thesis using that [of "records @ [?new]"] n by blast
  qed
  have le: "dict_le records next'" using cs dict_le_update [of i records Tombstoned] by auto
  have apart: "live_apart next'"
    using cs
  proof
    assume "i < length records \<and> dr_key (records ! i) = dr_key ?o \<and> next' = ?put"
    then show ?thesis
      using live_apart_update [OF Suc.prems(2), of "(records ! i)\<lparr>dr_state := Tombstoned\<rparr>" i] Suc.prems(2)
      by (auto simp: record_is_live_def)
  next
    assume n: "i = length records \<and> next' = records @ [?new]"
    have "dr_key (records ! j) \<noteq> dr_key ?new"
      if "j < length records" "record_is_live ?new" "record_is_live (records ! j)" for j
    proof -
      have "record_is_live ?o" using that(2) by (simp add: record_is_live_def split: if_splits)
      then show ?thesis using Suc.prems(5) [of j] n that assms(2) i by (auto simp: live_apart_def)
    qed
    then show ?thesis using live_apart_snoc [OF Suc.prems(2), of ?new] n by blast
  qed
  have agree: "record_is_live (other ! j) \<and> dr_key (other ! j) = dr_key (next' ! j)"
    if "j < Suc i" "record_is_live (next' ! j)" for j
  proof (cases "j = i")
    case True
    then show ?thesis using cs that(2)
      by (auto simp: record_is_live_def nth_append split: if_splits)
  next
    case False
    then have "j < i" "next' ! j = records ! j" using that(1) cs Suc.prems(3) by (auto simp: nth_append)
    then show ?thesis using Suc.prems(5) that(2) by auto
  qed
  have "live_apart d' \<and> dict_le next' d'"
    by (rule Suc.hyps(1) [OF _ nx apart _ _ agree]) (use Suc.hyps(2) i cs in auto)
  then show ?case using le by (blast intro: dict_le_trans)
qed

lemma dict_step_keeps:
  assumes "dict_step g d d'" and "distinct (live_keys d)"
  shows "distinct (live_keys d') \<and> dict_le d d'"
proof -
  have d: "live_apart d" using assms(2) by (simp add: live_apart_iff)
  show ?thesis using assms(1) unfolding live_apart_iff [symmetric]
  proof cases
    case (united other)
    then show "live_apart d' \<and> dict_le d d'"
      using union_from_keeps [of 0 d other d'] d by (simp add: dict_union_def live_apart_iff)
  qed (use d dict_assign_keeps raise_reclaimed_keeps dict_tombstone_keeps in blast)+
qed

lemma dict_run_keeps:
  assumes "(dict_step g)\<^sup>*\<^sup>* d d'" and "distinct (live_keys d)"
  shows "distinct (live_keys d') \<and> dict_le d d'"
  using assms(1)
proof (induction rule: rtranclp_induct)
  case (step y z)
  then show ?case using dict_step_keeps [OF step.hyps(2)] by (blast intro: dict_le_trans)
qed (use assms(2) in simp)

section \<open>Properties\<close>

text \<open>C15. The tenant dictionary over its whole life: in every state reached from the empty one by
  assigning, raising, retiring and uniting with another such dictionary, no tenant is live under two
  ids and the lookup of a live tenant gives its own id; and from any such state on, an id keeps its
  key, a retired id stays retired, and the offset a tenant is known to be reclaimed through never
  goes back.\<close>

theorem dictionary_ids_stable:
  assumes "(dict_step g)\<^sup>*\<^sup>* [] d" and "(dict_step g)\<^sup>*\<^sup>* d d'"
  shows "distinct (live_keys d')
       \<and> (\<forall>i. i < 2 ^ 16 \<and> dict_is_live d' i \<longrightarrow> id_of d' (dr_key (d' ! i)) = Some i)
       \<and> length d \<le> length d'
       \<and> (\<forall>i < length d. dr_key (d' ! i) = dr_key (d ! i) \<and> state_le (dr_state (d ! i)) (dr_state (d' ! i)))"
proof -
  have "distinct (live_keys d)" using dict_run_keeps [OF assms(1)] by (simp add: live_keys_def)
  then have k: "distinct (live_keys d')" "dict_le d d'" using dict_run_keeps [OF assms(2)] by blast+
  have "id_of d' (dr_key (d' ! i)) = Some i" if "i < 2 ^ 16" "dict_is_live d' i" for i
    using dict_position_unique [of d' i 0] k(1) that
    by (auto simp: live_apart_iff id_of_def to_slot_id_def dict_is_live_def dict_get_def split: if_splits)
  then show ?thesis using k by (auto simp: dict_le_def)
qed

theorem dictionary_ids_stable_witness:
  "distinct (live_keys [\<lparr>dr_key = ''a'', dr_state = Tombstoned\<rparr>, \<lparr>dr_key = ''a'', dr_state = Live None\<rparr>])
   \<and> id_of [\<lparr>dr_key = ''a'', dr_state = Tombstoned\<rparr>, \<lparr>dr_key = ''a'', dr_state = Live None\<rparr>] ''a'' = Some 1"
proof -
  let ?g = "\<lparr>gm_max_tenants = 3, gm_max_unlinks_per_pass = 2\<rparr>"
  let ?l = "\<lparr>dr_key = ''a'', dr_state = Live None\<rparr>" and ?t = "\<lparr>dr_key = ''a'', dr_state = Tombstoned\<rparr>"
  note defs = dict_assign_def id_of_def to_slot_id_def Let_def record_is_live_def dict_tombstone_def dict_get_def
  have a: "dict_step ?g [] [?l]" by (rule assigned [of "''a''" _ _ _ "Some 0"]) (simp add: defs)
  have b: "dict_step ?g [?l] [?t]" by (rule retired [of 0]) (simp add: defs)
  have c: "dict_step ?g [?t] [?t, ?l]" by (rule assigned [of "''a''" _ _ _ "Some 1"]) (simp add: defs)
  have "(dict_step ?g)\<^sup>*\<^sup>* [] [?t]" "(dict_step ?g)\<^sup>*\<^sup>* [?t] [?t, ?l]" using a b c by auto
  note stable = dictionary_ids_stable [OF this]
  have "dict_is_live [?t, ?l] 1" by (simp add: dict_is_live_def dict_get_def record_is_live_def)
  then have "id_of [?t, ?l] (dr_key ([?t, ?l] ! 1)) = Some 1"
    using spec [OF conjunct1 [OF conjunct2 [OF stable]], of 1] by simp
  then show ?thesis using stable by simp
qed

text \<open>C16. The file header of the sidecar is read exactly: the reader accepts a byte string if and
  only if it is what the writer lays down for the geometry it returns, and that geometry is within
  the format's ceilings, where the whole file fits the address space.\<close>

theorem reclaim_header_exact:
  "decode_file_header crc bs = Inr g \<longleftrightarrow>
     bs = encode_file_header crc g \<and> geometry_new (gm_max_tenants g) (gm_max_unlinks_per_pass g) = Inr g
     \<and> file_len g < 2 ^ 64"
proof -
  have "geometry_new (gm_max_tenants g) (gm_max_unlinks_per_pass g) = Inr g \<longleftrightarrow> geometry_ok g"
    by (cases g) (simp add: geometry_new_iff)
  then show ?thesis
    using decode_file_header_sound [of crc bs g] decode_file_header_complete [of g crc] slot_len_bound(2) [of g]
    by (auto simp: encode_file_header_block)
qed

end
