(* ===== verification/Spec2Isabelle.thy ===== *)
theory Spec2Isabelle
  imports End_To_End Ledger_Complete Wal_Durability Wal_Bounds Reclaim_Dictionary
begin

text \<open>
  Ourios: verification of the log backend's core.

  Ourios stores logs by their templates. An ingested line is tokenized, its obvious variables are
  masked, a per-tenant prefix tree finds or makes the template the line belongs to, and only the
  template id and the parameters are stored; every change of a template is announced as an audit
  event. A query folds the audit events into a registry of template texts and renders each stored
  record back into a line. Before a batch is acknowledged it is in a write-ahead log of segments,
  which recovery replays, and a retention ledger says which segments a housekeeping pass may unlink.
  The sources are Rust, under \<open>src/crates\<close>; the paths below are relative to it.

  \<^bold>\<open>Conventions.\<close> A \<open>str\<close>, a \<open>String\<close> and a \<open>Vec<u8>\<close> are lists of bytes. A \<open>HashMap\<close> is an association list
  used through \<open>hm_get\<close>, \<open>hm_insert\<close> and \<open>hm_remove\<close>; a \<open>BTreeMap\<close> is a sorted association list or a finite
  set with its order. A panic is \<open>None\<close> where a function can panic, an error is the left of a sum. An
  unsigned integer is a natural number with its bound or its saturation written out, or a word where
  bits are used; an \<open>f32\<close> is the rational it denotes, with its rounding. A \<open>Uuid\<close> is its sixteen bytes.
  State is passed and returned. Code that is not part of the repository is a parameter: the checksum
  functions of \<open>crc32c\<close> (nothing is assumed of them), the reserver of template ids, the text and the
  clock of the \<open>uuid\<close> crate.

  \<^bold>\<open>The miner\<close> (\<open>ourios-miner\<close>, \<open>ourios-core\<close>, \<open>ourios-config\<close>).
  \<^item> \<open>Ourios_Prelude\<close>, \<open>Float32\<close>: the parts of the language and its library that are used, shared lemmas.
  \<^item> \<open>Tokenize\<close> (\<open>tokenize.rs\<close>), \<open>Mask\<close> (\<open>mask.rs\<close>): tokenizing loses nothing and fails exactly on an
    embedded NUL; masking keeps the line, and its rules exclude each other.
  \<^item> \<open>Core_Types\<close> (\<open>audit.rs\<close>, \<open>record.rs\<close>, \<open>tenant.rs\<close>, \<open>confidence.rs\<close> and the miner configuration): bit sets
    through the locale \<open>flag_set\<close>, validated identifiers and configurations.
  \<^item> \<open>Template\<close>, \<open>Reconstruct\<close>, \<open>Upstream\<close>, \<open>Attach_Plan\<close> (\<open>tree.rs\<close>, \<open>sim_seq.rs\<close>, \<open>overflow.rs\<close>, \<open>reconstruct.rs\<close>,
    \<open>upstream.rs\<close>, \<open>cluster/plan.rs\<close>): template texts and records round-trip, the two similarity routines
    agree, alignment is sound and complete, an attach plan never panics and keeps the leaf well formed.
  \<^item> \<open>Prefix_Tree\<close> (\<open>tree.rs\<close>), \<open>Id_Alloc\<close> (\<open>cluster/id_alloc.rs\<close>): the writing descent refines the reading one;
    ids are never issued twice, proved once in the locale \<open>id_source\<close>.
  \<^item> \<open>Cluster\<close> (\<open>cluster/mod.rs\<close> and the files beside it), \<open>Cluster_Invariant\<close>, \<open>Cluster_Steps\<close>, \<open>Cluster_Run\<close>:
    the whole of \<open>ingest\<close>, the invariant of the cluster, and that every exit of \<open>ingest\<close> keeps it.

  \<^bold>\<open>The reader\<close> (\<open>ourios-querier\<close>). \<open>Template_Registry\<close> (\<open>template_registry.rs\<close>) is the fold over audit
  events, \<open>Log_Row\<close> (\<open>log_row.rs\<close>) the rows of a query. \<open>End_To_End\<close> composes miner and reader: what is
  ingested is returned by a query, byte for byte, except for lines with a literal \<open><*>\<close> token.

  \<^bold>\<open>The write-ahead log\<close> (\<open>ourios-wal\<close>).
  \<^item> \<open>Wal_Codec\<close> (\<open>frame.rs\<close>, \<open>segment.rs\<close>, \<open>checkpoint.rs\<close>, \<open>replicated.rs\<close>): each format is read exactly as it is
    written, and a torn frame is never taken for a frame.
  \<^item> \<open>Segment_Ledger\<close> (\<open>retain.rs\<close>), \<open>Ledger_Pass\<close>, \<open>Ledger_Figures\<close>, \<open>Ledger_Complete\<close>: every operation of the
    retention ledger, its invariant against the list of frames it has seen, and that a pass plans only
    what may be reclaimed and, when no budget binds it, all of that.
  \<^item> \<open>Wal_Os\<close>: files, directory, failing calls and loss of power. \<open>Rotation_Budget\<close> (\<open>rotation.rs\<close>) and \<open>Wal_Log\<close>
    (\<open>lib.rs\<close>, \<open>checkpoint.rs\<close>, \<open>ledger.rs\<close>): open, append, rotate, sync, checkpoint, replay and the rebuild of the
    ledger, call by call, over that system.
  \<^item> \<open>Wal_Scan\<close>, \<open>Wal_Invariant\<close>, \<open>Wal_Steps\<close>, \<open>Wal_Sidecar\<close>, \<open>Wal_Recovery\<close>, \<open>Wal_Mints\<close>: what the root directory holds
    at any moment, and that every operation keeps it whatever calls fail. \<open>Trace_Refinement\<close> is the
    locale that turns one-step simulations into a statement on whole runs; \<open>Wal_Durability\<close> interprets
    it: every run, with crashes between its operations, is a run of a short durable-log specification, hence a synced
    frame survives. \<open>Sample_Env\<close> is a concrete environment that shows the hypotheses can hold.
  \<^item> \<open>Wal_Bounds\<close>: the recovery scan ends on every byte string and delivers the longest run of whole
    frames; a failing rotation turns terminal exactly at its budget.
  \<^item> \<open>Reclaim_Record\<close> (\<open>reclaim.rs\<close>), \<open>Reclaim_Layout\<close>, \<open>Reclaim_Dictionary\<close>: the \<open>RECLAIM\<close> record. The slot codec
    carries exactly the well-formed records, the header is read exactly, and the dictionary never
    names a tenant twice nor forgets a retired id.

  \<^bold>\<open>Assumptions on the file system.\<close> After a loss of power a file holds a prefix of one of the contents it
  had since its last data sync, no shorter than the shortest of them; the directory is one of the
  listings since its last fsync. Power is lost between operations; inside one, only the death of the
  process during a frame write is modelled. Any call may fail except a truncation, which the runs of
  \<open>Wal_Durability\<close> take to work (\<open>os_truncates\<close>). Fresh segment ids are sixteen bytes and ascend for the first \<open>2 ^ 64\<close> of
  them (\<open>mint_limit\<close>); no sixteen-byte supply ascends for ever, so runs are bounded by it, and each
  operation takes at most one.

  \<^bold>\<open>Loops.\<close> There is no fuel: loops are structural recursions or come with a measure, so every
  definition is total.

  \<^bold>\<open>Not modelled.\<close>
  \<^item> The file around the two \<open>RECLAIM\<close> slots (\<open>reclaim_store.rs\<close>), which writes in place and so needs another
    model of torn writes than the append-only one of \<open>Wal_Os\<close>, and the matrix of \<open>reconcile.rs\<close> over it. The log
    takes the answer of that matrix as a parameter \<open>reconcile\<close>, assumed not to report damage of its own
    (\<open>reconcile_ok\<close>), and the outcome of a record write as an argument.
  \<^item> The unlinks of a housekeeping pass and the merge of its plan into the record (\<open>pass.rs\<close>, \<open>housekeeping.rs\<close>);
    the ledger half of a pass is modelled. Of \<open>lib.rs\<close> and \<open>ledger.rs\<close>, the feature-gated \<open>housekeeping\<close> call, the
    sweep of stale partial files, the preparation of the root directory and dropping the handle.
  \<^item> Miner snapshots, metrics, and the fault-injection seams.
  \<^item> Receivers, lanes, publishing, replication, compaction, Parquet files, the query language and its
    plans: asynchronous drivers or clients of external runtimes, stores and engines, whose behaviour is
    that of code outside the repository.
\<close>

end
